(* ===== verification/Nali_Prelude.thy ===== *)
theory Nali_Prelude
  imports Main "HOL-Library.Word"
begin

unbundle bit_operations_syntax

text \<open>
  The shared vocabulary of the development: machine integer types, the status codes of
  \<^verbatim>\<open>src/src/nali_entry.h\<close>, the position that an upper-bound search over sorted
  separators yields, and the list facts the components share. The collection
  \<open>nali_simps\<close> gathers the rewrite rules that the component proofs use together.
\<close>

named_theorems nali_simps \<open>rewrite rules shared by the component proofs\<close>

type_synonym u8 = "8 word"
type_synonym u16 = "16 word"
type_synonym u32 = "32 word"
type_synonym u64 = "64 word"

section \<open>Status codes\<close>

datatype status = Failed | OK | Full | Exist | NoExist

text \<open>The integer an enumerator of \<open>status\<close> stands for, as C++ converts it.\<close>

fun status_to_int :: "status \<Rightarrow> int" where
  "status_to_int Failed = -1"
| "status_to_int OK = 0"
| "status_to_int Full = 1"
| "status_to_int Exist = 2"
| "status_to_int NoExist = 3"

section \<open>Upper-bound positions\<close>

text \<open>
  \<open>upper_bound ks k\<close> counts the leading separators that are at most \<open>k\<close>; \<open>slot ks k\<close>
  is the index of the last of them, and 0 where there is none.
\<close>

definition upper_bound :: "'a::linorder list \<Rightarrow> 'a \<Rightarrow> nat" where
  "upper_bound ks k = length (takeWhile (\<lambda>x. x \<le> k) ks)"

definition slot :: "'a::linorder list \<Rightarrow> 'a \<Rightarrow> nat" where
  "slot ks k = upper_bound ks k - 1"

lemma upper_bound_le_length: "upper_bound ks k \<le> length ks"
  by (simp add: upper_bound_def length_takeWhile_le)

lemma slot_less_length: "ks \<noteq> [] \<Longrightarrow> slot ks k < length ks"
  using upper_bound_le_length [of ks k] by (cases ks) (auto simp: slot_def)

lemma upper_bound_eqI:
  assumes "n \<le> length ks" and "\<And>i. i < n \<Longrightarrow> ks ! i \<le> k" and "n < length ks \<Longrightarrow> k < ks ! n"
  shows "upper_bound ks k = n"
proof -
  have "takeWhile (\<lambda>x. x \<le> k) ks = take n ks"
  proof (rule takeWhile_eq_take_P_nth)
    show "i < n \<Longrightarrow> i < length ks \<Longrightarrow> ks ! i \<le> k" for i
      using assms(2) by simp
    show "n < length ks \<Longrightarrow> \<not> ks ! n \<le> k"
      using assms(3) by (simp add: not_le)
  qed
  then show ?thesis
    using assms(1) by (simp add: upper_bound_def)
qed

lemma upper_bound_nth: "i < upper_bound ks k \<Longrightarrow> ks ! i \<le> k"
  unfolding upper_bound_def
  by (metis nth_mem set_takeWhileD takeWhile_nth)

lemma upper_bound_stop: "upper_bound ks k < length ks \<Longrightarrow> k < ks ! upper_bound ks k"
  unfolding upper_bound_def using nth_length_takeWhile not_le by blast

text \<open>On sorted separators every position is decided by comparing its separator.\<close>

lemma upper_bound_sorted_less:
  assumes "sorted ks" and "i < length ks"
  shows "i < upper_bound ks k \<longleftrightarrow> ks ! i \<le> k"
proof
  show "ks ! i \<le> k" if "i < upper_bound ks k"
    using that by (rule upper_bound_nth)
  show "i < upper_bound ks k" if "ks ! i \<le> k"
  proof (rule ccontr)
    assume "\<not> i < upper_bound ks k"
    then have le: "upper_bound ks k \<le> i" by simp
    with assms(2) have "k < ks ! upper_bound ks k" by (auto intro: upper_bound_stop)
    also have "\<dots> \<le> ks ! i" using assms le by (auto intro: sorted_nth_mono)
    finally show False using that by simp
  qed
qed

lemma slot_Cons_less: "k < x \<Longrightarrow> slot (x # ks) k = 0"
  by (auto simp: slot_def upper_bound_def)

text \<open>
  The position splits the separators: everything after it is above \<open>k\<close>, and its own
  separator is at most \<open>k\<close> unless it is the first.
\<close>

lemma slot_after: "sorted ks \<Longrightarrow> slot ks k < i \<Longrightarrow> i < length ks \<Longrightarrow> k < ks ! i"
  using upper_bound_sorted_less [of ks i k] by (auto simp: slot_def)

lemma slot_at: "0 < slot ks k \<Longrightarrow> ks ! slot ks k \<le> k"
  by (rule upper_bound_nth) (simp add: slot_def)

lemma slot_at_first: "ks \<noteq> [] \<Longrightarrow> ks ! 0 \<le> k \<Longrightarrow> ks ! slot ks k \<le> k"
  by (cases "slot ks k = 0") (auto intro: slot_at)

lemma slot_eqI:
  assumes "sorted (as @ x # bs)" and "\<And>b. b \<in> set bs \<Longrightarrow> k < b" and "as \<noteq> [] \<Longrightarrow> x \<le> k"
  shows "slot (as @ x # bs) k = length as"
proof (cases "x \<le> k")
  case True
  have "upper_bound (as @ x # bs) k = Suc (length as)"
  proof (rule upper_bound_eqI)
    show "(as @ x # bs) ! i \<le> k" if "i < Suc (length as)" for i
      using sorted_nth_mono [OF assms(1), of i "length as"] that True by simp
    show "k < (as @ x # bs) ! Suc (length as)" if "Suc (length as) < length (as @ x # bs)"
      using that assms(2) by (simp add: nth_append)
  qed simp
  then show ?thesis by (simp add: slot_def)
next
  case False
  then have "as = []" using assms(3) by blast
  moreover have "upper_bound (x # bs) k = 0" using False by (intro upper_bound_eqI) auto
  ultimately show ?thesis by (simp add: slot_def)
qed

text \<open>Inserting a separator behind the position moves it by at most one.\<close>

lemma slot_insert:
  assumes "sorted ks" and "slot ks k < length ks"
  shows "slot (take (Suc (slot ks k)) ks @ [s] @ drop (Suc (slot ks k)) ks) k \<in>
    {slot ks k, Suc (slot ks k)}"
proof (cases "upper_bound ks k = 0")
  case True
  moreover obtain x xs where ks: "ks = x # xs" using assms(2) by (cases ks) auto
  ultimately have "k < x" using upper_bound_stop [of ks k] by simp
  then show ?thesis using ks by (auto simp: slot_def upper_bound_def)
next
  case False
  define p where "p = slot ks k"
  have ub: "upper_bound ks k = Suc p" using False by (simp add: p_def slot_def)
  have pre: "\<And>x. x \<in> set (take (Suc p) ks) \<Longrightarrow> x \<le> k"
    using upper_bound_nth [of _ ks k] ub by (auto simp: in_set_conv_nth)
  have post: "takeWhile (\<lambda>x. x \<le> k) (drop (Suc p) ks) = []"
  proof (cases "Suc p < length ks")
    case True
    then have "k < ks ! Suc p" using upper_bound_stop [of ks k] ub by simp
    then show ?thesis using Cons_nth_drop_Suc [OF True] by (metis not_le takeWhile.simps(2))
  qed simp
  have "upper_bound (take (Suc p) ks @ [s] @ drop (Suc p) ks) k = (if s \<le> k then Suc (Suc p) else Suc p)"
    using pre post assms(2) by (simp add: upper_bound_def takeWhile_append2 p_def)
  then show ?thesis by (simp add: slot_def p_def [unfolded slot_def])
qed

section \<open>Lists\<close>

lemma split_at_nth: "i < length xs \<Longrightarrow> xs = take i xs @ xs ! i # drop (Suc i) xs"
  by (rule id_take_nth_drop)

lemma list_update_split: "i < length xs \<Longrightarrow> xs[i := y] = take i xs @ y # drop (Suc i) xs"
  by (rule upd_conv_take_nth_drop)

lemma concat_map_split:
  "i < length xs \<Longrightarrow>
   concat (map f xs) = concat (map f (take i xs)) @ f (xs ! i) @ concat (map f (drop (Suc i) xs))"
  by (subst split_at_nth [of i xs]) (simp_all only: map_append concat_append list.map concat.simps)

text \<open>Distributing a list over buckets by a monotone index and collecting it again.\<close>

lemma concat_filter_mono:
  assumes "sorted (map f xs)" and "\<forall>x\<in>set xs. f x < n"
  shows "concat (map (\<lambda>i. filter (\<lambda>x. f x = i) xs) [0..<n]) = xs"
  using assms
proof (induction n arbitrary: xs)
  case 0
  then show ?case by (cases xs) auto
next
  case (Suc n)
  let ?lo = "takeWhile (\<lambda>x. f x < n) xs" and ?hi = "dropWhile (\<lambda>x. f x < n) xs"
  have hi: "\<forall>x\<in>set ?hi. f x = n"
  proof
    fix x assume x: "x \<in> set ?hi"
    then obtain h t where ht: "?hi = h # t" by (cases ?hi) auto
    then have "\<not> f h < n" using hd_dropWhile [of "\<lambda>x. f x < n" xs] by simp
    moreover have "sorted (map f ?hi)"
      using Suc.prems(1) by (metis map_append sorted_append takeWhile_dropWhile_id)
    ultimately have "n \<le> f x" using x ht by auto
    moreover have "f x < Suc n" using x Suc.prems(2) by (auto dest: set_dropWhileD)
    ultimately show "f x = n" by simp
  qed
  have lo: "\<forall>x\<in>set ?lo. f x < n" by (auto dest: set_takeWhileD)
  have split: "filter P xs = filter P ?lo @ filter P ?hi" for P
    by (metis filter_append takeWhile_dropWhile_id)
  have ih: "concat (map (\<lambda>i. filter (\<lambda>x. f x = i) ?lo) [0..<n]) = ?lo"
  proof (rule Suc.IH)
    show "sorted (map f ?lo)"
      using Suc.prems(1) by (metis map_append sorted_append takeWhile_dropWhile_id)
  qed (use lo in auto)
  have below: "filter (\<lambda>x. f x = i) xs = filter (\<lambda>x. f x = i) ?lo" if "i < n" for i
  proof -
    have "filter (\<lambda>x. f x = i) ?hi = []"
      using hi that unfolding filter_empty_conv by (metis less_irrefl)
    then show ?thesis by (simp add: split [of "\<lambda>x. f x = i"])
  qed
  have top: "filter (\<lambda>x. f x = n) xs = ?hi"
  proof -
    have "filter (\<lambda>x. f x = n) ?lo = []"
      using lo unfolding filter_empty_conv by (metis less_irrefl)
    moreover have "filter (\<lambda>x. f x = n) ?hi = ?hi"
      using hi unfolding filter_id_conv by blast
    ultimately show ?thesis by (simp add: split [of "\<lambda>x. f x = n"])
  qed
  have "map (\<lambda>i. filter (\<lambda>x. f x = i) xs) [0..<n] = map (\<lambda>i. filter (\<lambda>x. f x = i) ?lo) [0..<n]"
    by (rule map_cong) (auto simp only: set_upt atLeastLessThan_iff below)
  then have "concat (map (\<lambda>i. filter (\<lambda>x. f x = i) xs) [0..<Suc n]) = ?lo @ ?hi"
    by (simp only: upt_Suc_append map_append concat_append list.map concat.simps append_Nil2
        ih top zero_le)
  then show ?case by (simp only: takeWhile_dropWhile_id)
qed

text \<open>A loop that updates the element that each item selects.\<close>

lemma fold_update_length: "length (fold (\<lambda>x ys. ys[f x := u x (ys ! f x)]) xs ys) = length ys"
  by (induction xs arbitrary: ys) simp_all

lemma fold_update_nth:
  assumes "j < length ys"
  shows "fold (\<lambda>x ys. ys[f x := u x (ys ! f x)]) xs ys ! j = fold u (filter (\<lambda>x. f x = j) xs) (ys ! j)"
  using assms by (induction xs arbitrary: ys) auto

end
