(* ===== verification/Nali_Bucket.thy ===== *)
theory Nali_Bucket
  imports Nali_Prelude "HOL-Library.Multiset"
begin

text \<open>
  The leaf node of the index, \<^verbatim>\<open>UnSortBuncket<256, 8>\<close> of \<^verbatim>\<open>src/src/nali_entry.h\<close> (the
  \<^verbatim>\<open>buncket_t\<close> of the default build, \<^verbatim>\<open>USE_UNSORT_BUNCKET\<close> without \<^verbatim>\<open>USE_FINGER\<close>): an
  unsorted array of 15 key/value records. Nodes live on a heap; an address is the serial
  number of its allocation and the memory of a fresh node is whatever the heap held
  there. The lemmas show that every operation implements the finite map of the live
  records, and that \<^verbatim>\<open>Expand_\<close> splits a node at its median key.
\<close>

section \<open>Data\<close>

record kventry =
  kv_key :: u64
  kv_value :: u64

record buncket =
  next_bucket :: "nat option"
  entries :: nat
  max_entries :: nat
  records :: "kventry list"

text \<open>The template constants for \<open>bucket_size = 256\<close>, \<open>value_size = key_size = 8\<close>.\<close>

definition buf_size :: nat where
  "buf_size = 256 - (8 + 8)"

definition entry_size :: nat where
  "entry_size = 8 + 8"

definition entry_count :: nat where
  "entry_count = buf_size div entry_size"

definition max_entry_count_param :: nat where
  "max_entry_count_param = 64"

record bheap =
  store :: "nat \<Rightarrow> buncket"
  next_free :: nat

section \<open>Operations of a node\<close>

text \<open>The constructor runs on raw memory: it writes the header and leaves the records.\<close>

definition UnSortBuncket :: "buncket \<Rightarrow> buncket" where
  "UnSortBuncket raw =
     raw\<lparr>entries := 0, next_bucket := None,
         max_entries := min (buf_size div (8 + 8)) max_entry_count_param\<rparr>"

definition new_UnSortBuncket :: "bheap \<Rightarrow> bheap \<times> nat" where
  "new_UnSortBuncket h =
     (let p = next_free h
      in (h\<lparr>store := (store h)(p := UnSortBuncket (store h p)), next_free := Suc p\<rparr>, p))"

definition UnSortBuncket_key :: "buncket \<Rightarrow> nat \<Rightarrow> u64" where
  "UnSortBuncket_key b idx = kv_key (records b ! idx)"

definition UnSortBuncket_value :: "buncket \<Rightarrow> nat \<Rightarrow> u64" where
  "UnSortBuncket_value b idx = kv_value (records b ! idx)"

definition UnSortBuncket_PutBufKV :: "buncket \<Rightarrow> u64 \<Rightarrow> u64 \<Rightarrow> nat \<Rightarrow> status \<times> buncket" where
  "UnSortBuncket_PutBufKV b new_key value data_index =
     (if max_entries b \<le> data_index then (Full, b)
      else (OK, b\<lparr>records := (records b)[data_index := \<lparr>kv_key = new_key, kv_value = value\<rparr>]\<rparr>))"

definition UnSortBuncket_SetValue :: "buncket \<Rightarrow> nat \<Rightarrow> u64 \<Rightarrow> buncket" where
  "UnSortBuncket_SetValue b pos value =
     b\<lparr>records := (records b)[pos := (records b ! pos)\<lparr>kv_value := value\<rparr>]\<rparr>"

text \<open>The search loop of \<^verbatim>\<open>Find\<close> from slot \<open>i\<close>; the result is (find, position).\<close>

function UnSortBuncket_Find_loop :: "buncket \<Rightarrow> u64 \<Rightarrow> nat \<Rightarrow> bool \<times> nat" where
  "UnSortBuncket_Find_loop b target i =
     (if i < entries b
      then if UnSortBuncket_key b i = target then (True, i)
           else UnSortBuncket_Find_loop b target (Suc i)
      else (False, entries b))"
  by pat_completeness auto
termination
  by (relation "measure (\<lambda>(b, target, i). entries b - i)") auto

definition UnSortBuncket_Find :: "buncket \<Rightarrow> u64 \<Rightarrow> bool \<times> nat" where
  "UnSortBuncket_Find b target = UnSortBuncket_Find_loop b target 0"

text \<open>
  An out parameter \<^verbatim>\<open>uint64_t *value\<close> is \<open>None\<close> for a null pointer and otherwise the
  word it points to, before and after the call.
\<close>

definition set_out :: "u64 option \<Rightarrow> u64 \<Rightarrow> u64 option" where
  "set_out out v = (case out of None \<Rightarrow> None | Some _ \<Rightarrow> Some v)"

definition UnSortBuncket_remove_key ::
  "buncket \<Rightarrow> u64 \<Rightarrow> u64 option \<Rightarrow> nat \<Rightarrow> bool \<times> u64 option \<times> buncket" where
  "UnSortBuncket_remove_key b key value idx =
     (case UnSortBuncket_Find b key of
        (True, pos) \<Rightarrow>
          if pos = idx - 1 then (True, set_out value (UnSortBuncket_value b pos), b)
          else (True, set_out value (UnSortBuncket_value b pos),
                b\<lparr>records := (records b)[pos := records b ! (idx - 1)]\<rparr>)
      | (False, pos) \<Rightarrow> (False, value, b))"

text \<open>
  \<^verbatim>\<open>std::sort\<close> on the slot numbers by key. For distinct keys, the only case in which the
  order of the result is determined, this is the stable sort.
\<close>

definition UnSortBuncket_getSortedIndex :: "buncket \<Rightarrow> nat list" where
  "UnSortBuncket_getSortedIndex b = sort_key (UnSortBuncket_key b) [0..<entries b]"

fun min_key_loop :: "buncket \<Rightarrow> u64 \<Rightarrow> nat list \<Rightarrow> u64" where
  "min_key_loop b m [] = m"
| "min_key_loop b m (i # is) =
     min_key_loop b (if UnSortBuncket_key b i < m then UnSortBuncket_key b i else m) is"

definition UnSortBuncket_min_key :: "buncket \<Rightarrow> u64" where
  "UnSortBuncket_min_key b = min_key_loop b (UnSortBuncket_key b 0) [1..<entries b]"

definition UnSortBuncket_Put :: "buncket \<Rightarrow> u64 \<Rightarrow> u64 \<Rightarrow> status \<times> buncket" where
  "UnSortBuncket_Put b key value =
     (let (ret, b') = UnSortBuncket_PutBufKV b key value (entries b)
      in if ret \<noteq> OK then (ret, b') else (OK, b'\<lparr>entries := entries b' + 1\<rparr>))"

definition UnSortBuncket_Update ::
  "buncket \<Rightarrow> u64 \<Rightarrow> u64 \<Rightarrow> u64 \<Rightarrow> status \<times> u64 \<times> buncket" where
  "UnSortBuncket_Update b key value old_offset =
     (case UnSortBuncket_Find b key of
        (False, pos) \<Rightarrow> (NoExist, old_offset, b)
      | (True, pos) \<Rightarrow> (OK, UnSortBuncket_value b pos, UnSortBuncket_SetValue b pos value))"

definition UnSortBuncket_Get :: "buncket \<Rightarrow> u64 \<Rightarrow> u64 \<Rightarrow> status \<times> u64" where
  "UnSortBuncket_Get b key value =
     (case UnSortBuncket_Find b key of
        (False, pos) \<Rightarrow> (NoExist, value)
      | (True, pos) \<Rightarrow> (OK, UnSortBuncket_value b pos))"

definition UnSortBuncket_Delete ::
  "buncket \<Rightarrow> u64 \<Rightarrow> u64 option \<Rightarrow> status \<times> u64 option \<times> buncket" where
  "UnSortBuncket_Delete b key value =
     (let (ret, value', b') = UnSortBuncket_remove_key b key value (entries b)
      in if \<not> ret then (NoExist, value', b')
         else (OK, value', b'\<lparr>entries := entries b' - 1\<rparr>))"

text \<open>\<^verbatim>\<open>Load\<close> copies \<open>cnt\<close> keys in order and the values in reverse order; its assertions are not compiled
  (\<^verbatim>\<open>NDEBUG\<close>).\<close>

fun UnSortBuncket_Load_loop ::
  "buncket \<Rightarrow> u64 list \<Rightarrow> u64 list \<Rightarrow> nat \<Rightarrow> nat list \<Rightarrow> buncket" where
  "UnSortBuncket_Load_loop b keys values cnt [] = b"
| "UnSortBuncket_Load_loop b keys values cnt (i # is) =
     UnSortBuncket_Load_loop
       (b\<lparr>records := (records b)[i := \<lparr>kv_key = keys ! i, kv_value = values ! (cnt - i - 1)\<rparr>],
          entries := entries b + 1\<rparr>)
       keys values cnt is"

definition UnSortBuncket_Load :: "buncket \<Rightarrow> u64 list \<Rightarrow> u64 list \<Rightarrow> nat \<Rightarrow> status \<times> buncket" where
  "UnSortBuncket_Load b keys values cnt =
     (OK, UnSortBuncket_Load_loop b keys values cnt [0..<cnt])"

section \<open>Splitting a node\<close>

text \<open>
  The two loops of \<^verbatim>\<open>Expand_\<close>, over the upper half of the sorted slots: the first appends
  the records to the new node, the second removes the keys from the old one. Each key is
  read from the array as it stands at that moment, and \<^verbatim>\<open>entries\<close> is not changed until
  the second loop has ended.
\<close>

fun Expand_fill :: "buncket \<Rightarrow> buncket \<Rightarrow> nat list \<Rightarrow> nat \<Rightarrow> buncket" where
  "Expand_fill this nxt [] idx = nxt"
| "Expand_fill this nxt (s # ss) idx =
     Expand_fill this
       (snd (UnSortBuncket_PutBufKV nxt (UnSortBuncket_key this s) (UnSortBuncket_value this s) idx))
       ss (Suc idx)"

fun Expand_remove :: "buncket \<Rightarrow> nat list \<Rightarrow> nat \<Rightarrow> buncket" where
  "Expand_remove this [] idx = this"
| "Expand_remove this (s # ss) idx =
     Expand_remove (snd (snd (UnSortBuncket_remove_key this (UnSortBuncket_key this s) None idx)))
       ss (idx - 1)"

definition Expand_upper :: "buncket \<Rightarrow> nat list" where
  "Expand_upper this = drop (entries this div 2) (UnSortBuncket_getSortedIndex this)"

definition Expand_next :: "buncket \<Rightarrow> buncket \<Rightarrow> buncket" where
  "Expand_next this nxt =
     (Expand_fill this nxt (Expand_upper this) 0)
       \<lparr>entries := entries this - entries this div 2, next_bucket := next_bucket this\<rparr>"

definition Expand_this :: "buncket \<Rightarrow> nat \<Rightarrow> buncket" where
  "Expand_this this q =
     (Expand_remove this (Expand_upper this) (entries this))
       \<lparr>entries := entries this div 2, next_bucket := Some q\<rparr>"

definition UnSortBuncket_Expand :: "bheap \<Rightarrow> nat \<Rightarrow> bheap \<times> nat \<times> u64" where
  "UnSortBuncket_Expand h p =
     (let this = store h p;
          split_key = UnSortBuncket_key this
            (UnSortBuncket_getSortedIndex this ! (entries this div 2));
          (h1, q) = new_UnSortBuncket h
      in (h1\<lparr>store := (store h1)(p := Expand_this this q, q := Expand_next this (store h1 q))\<rparr>,
          q, split_key))"

section \<open>Specification\<close>

definition live :: "buncket \<Rightarrow> kventry list" where
  "live b = take (entries b) (records b)"

definition kv_pair :: "kventry \<Rightarrow> u64 \<times> u64" where
  "kv_pair r = (kv_key r, kv_value r)"

text \<open>The live records as an association list, and the finite map they denote.\<close>

definition kvs :: "buncket \<Rightarrow> (u64 \<times> u64) list" where
  "kvs b = map kv_pair (live b)"

definition buncket_map :: "buncket \<Rightarrow> u64 \<rightharpoonup> u64" where
  "buncket_map b = map_of (kvs b)"

definition buncket_wf :: "buncket \<Rightarrow> bool" where
  "buncket_wf b \<longleftrightarrow> length (records b) = entry_count \<and> max_entries b = entry_count \<and>
     entries b \<le> entry_count \<and> distinct (map fst (kvs b))"

text \<open>
  The keys that decide \<^verbatim>\<open>min_key\<close>: the live keys, and in an empty node the key that its
  first slot still holds.
\<close>

definition rep_keys :: "buncket \<Rightarrow> u64 list" where
  "rep_keys b = map kv_key (take (max 1 (entries b)) (records b))"

text \<open>Every node of the heap, allocated or not, is an array of the same size.\<close>

definition bheap_wf :: "bheap \<Rightarrow> bool" where
  "bheap_wf h \<longleftrightarrow> (\<forall>p. length (records (store h p)) = entry_count)"

text \<open>
  Removing slot \<open>j\<close> from the first \<open>idx\<close> records: the last record takes its place.
\<close>

definition fill_hole :: "'a list \<Rightarrow> nat \<Rightarrow> nat \<Rightarrow> 'a list" where
  "fill_hole r j idx = (if j = idx - 1 then r else r[j := r ! (idx - 1)])"

section \<open>Facts about a node\<close>

declare UnSortBuncket_Find_loop.simps [simp del]

lemma entry_count_eq [simp]: "entry_count = 15"
  by (simp add: entry_count_def buf_size_def entry_size_def)

lemma fst_kv_pair [simp]: "fst (kv_pair r) = kv_key r"
  by (simp add: kv_pair_def)

lemma snd_kv_pair [simp]: "snd (kv_pair r) = kv_value r"
  by (simp add: kv_pair_def)

lemma map_fst_kvs: "map fst (kvs b) = map kv_key (live b)"
  by (simp add: kvs_def comp_def)

lemma kventry_eta [simp]: "\<lparr>kv_key = kv_key r, kv_value = kv_value r\<rparr> = r"
  by (cases r) simp

lemma length_kvs: "buncket_wf b \<Longrightarrow> length (kvs b) = entries b"
  by (simp add: buncket_wf_def kvs_def live_def)

lemma nth_live: "i < entries b \<Longrightarrow> live b ! i = records b ! i"
  by (simp add: live_def)

lemma distinct_slots:
  assumes "buncket_wf b" and "i < entries b" and "j < entries b"
    and "kv_key (records b ! i) = kv_key (records b ! j)"
  shows "i = j"
proof -
  have "distinct (map kv_key (live b))" and "entries b \<le> length (records b)"
    using assms(1) by (auto simp: buncket_wf_def map_fst_kvs)
  with assms(2-4) show ?thesis
    by (simp add: distinct_conv_nth live_def) (metis nth_take)
qed

text \<open>The search loop finds the first slot with the key.\<close>

lemma Find_loop_True:
  "UnSortBuncket_Find_loop b t i = (True, pos) \<Longrightarrow>
     i \<le> pos \<and> pos < entries b \<and> kv_key (records b ! pos) = t \<and>
     (\<forall>j. i \<le> j \<and> j < pos \<longrightarrow> kv_key (records b ! j) \<noteq> t)"
proof (induction b t i rule: UnSortBuncket_Find_loop.induct)
  case (1 b t i)
  show ?case
  proof (cases "i < entries b \<and> UnSortBuncket_key b i \<noteq> t")
    case True
    then have "UnSortBuncket_Find_loop b t (Suc i) = (True, pos)"
      using "1.prems" by (simp add: UnSortBuncket_Find_loop.simps [of b t i])
    with True "1.IH" show ?thesis
      by (metis (no_types, lifting) Suc_le_eq UnSortBuncket_key_def le_eq_less_or_eq)
  next
    case False
    with "1.prems" show ?thesis
      by (auto simp: UnSortBuncket_Find_loop.simps [of b t i] UnSortBuncket_key_def
          split: if_splits)
  qed
qed

lemma Find_loop_False:
  "UnSortBuncket_Find_loop b t i = (False, pos) \<Longrightarrow>
     pos = entries b \<and> (\<forall>j. i \<le> j \<and> j < entries b \<longrightarrow> kv_key (records b ! j) \<noteq> t)"
proof (induction b t i rule: UnSortBuncket_Find_loop.induct)
  case (1 b t i)
  show ?case
  proof (cases "i < entries b")
    case True
    then have ne: "UnSortBuncket_key b i \<noteq> t"
      and rec: "UnSortBuncket_Find_loop b t (Suc i) = (False, pos)"
      using "1.prems" by (auto simp: UnSortBuncket_Find_loop.simps [of b t i] split: if_splits)
    from "1.IH" [OF True ne rec] ne show ?thesis
      by (metis Suc_le_eq UnSortBuncket_key_def le_eq_less_or_eq)
  next
    case False
    with "1.prems" show ?thesis
      by (auto simp: UnSortBuncket_Find_loop.simps [of b t i])
  qed
qed

lemma Find_True:
  assumes "UnSortBuncket_Find b t = (True, pos)"
  shows "pos < entries b" and "kv_key (records b ! pos) = t"
    and "\<And>j. j < pos \<Longrightarrow> kv_key (records b ! j) \<noteq> t"
  using Find_loop_True [of b t 0 pos] assms by (auto simp: UnSortBuncket_Find_def)

lemma Find_False:
  assumes "UnSortBuncket_Find b t = (False, pos)"
  shows "pos = entries b" and "\<And>j. j < entries b \<Longrightarrow> kv_key (records b ! j) \<noteq> t"
  using Find_loop_False [of b t 0 pos] assms by (auto simp: UnSortBuncket_Find_def)

lemma Find_cases:
  obtains (found) pos where "UnSortBuncket_Find b t = (True, pos)"
  | (missing) "UnSortBuncket_Find b t = (False, entries b)"
  using Find_False(1) by (cases "UnSortBuncket_Find b t"; cases "fst (UnSortBuncket_Find b t)") auto

lemma buncket_map_found:
  assumes "buncket_wf b" and "UnSortBuncket_Find b t = (True, pos)"
  shows "buncket_map b t = Some (kv_value (records b ! pos))"
proof -
  have pos: "pos < entries b" and key: "kv_key (records b ! pos) = t"
    using Find_True assms(2) by auto
  then have "(t, kv_value (records b ! pos)) = kvs b ! pos"
    using assms(1) by (simp add: kvs_def kv_pair_def nth_live live_def buncket_wf_def)
  then have "(t, kv_value (records b ! pos)) \<in> set (kvs b)"
    using pos assms(1) by (metis length_kvs nth_mem)
  then show ?thesis
    using assms(1) by (simp add: buncket_map_def buncket_wf_def)
qed

lemma buncket_map_missing:
  assumes "UnSortBuncket_Find b t = (False, pos)"
  shows "buncket_map b t = None"
proof -
  have "t \<notin> kv_key ` set (live b)"
    using Find_False(2) [OF assms] by (fastforce simp: live_def in_set_conv_nth)
  then show ?thesis
    unfolding buncket_map_def map_of_eq_None_iff by (metis list.set_map map_fst_kvs)
qed

text \<open>\<^verbatim>\<open>Get\<close> looks the key up in the map of the live records.\<close>

lemma Get_correct:
  assumes "buncket_wf b"
  shows "UnSortBuncket_Get b k v =
    (case buncket_map b k of None \<Rightarrow> (NoExist, v) | Some w \<Rightarrow> (OK, w))"
  using buncket_map_found [OF assms, of k] buncket_map_missing [of b k]
  by (cases b k rule: Find_cases) (auto simp: UnSortBuncket_Get_def UnSortBuncket_value_def)

subsection \<open>Insertion\<close>

lemma Put_full: "buncket_wf b \<Longrightarrow> entries b = entry_count \<Longrightarrow> UnSortBuncket_Put b k v = (Full, b)"
  by (simp add: UnSortBuncket_Put_def UnSortBuncket_PutBufKV_def buncket_wf_def)

lemma Put_room:
  assumes wf: "buncket_wf b" and room: "entries b < entry_count"
  shows "fst (UnSortBuncket_Put b k v) = OK"
    and "kvs (snd (UnSortBuncket_Put b k v)) = kvs b @ [(k, v)]"
    and "entries (snd (UnSortBuncket_Put b k v)) = Suc (entries b)"
    and "rep_keys (snd (UnSortBuncket_Put b k v)) =
      (if entries b = 0 then [k] else rep_keys b @ [k])"
proof -
  let ?n = "entries b"
  have len: "length (records b) = 15" and "max_entries b = 15"
    using wf by (auto simp: buncket_wf_def)
  then have put: "UnSortBuncket_Put b k v = (OK, b\<lparr>records :=
      (records b)[?n := \<lparr>kv_key = k, kv_value = v\<rparr>], entries := Suc ?n\<rparr>)"
    using room by (simp add: UnSortBuncket_Put_def UnSortBuncket_PutBufKV_def)
  have upd: "take (Suc ?n) ((records b)[?n := r]) = take ?n (records b) @ [r]" for r
    using room len by (simp add: take_Suc_conv_app_nth)
  show "fst (UnSortBuncket_Put b k v) = OK"
    and "entries (snd (UnSortBuncket_Put b k v)) = Suc ?n"
    by (simp_all add: put)
  show "kvs (snd (UnSortBuncket_Put b k v)) = kvs b @ [(k, v)]"
    by (simp add: put kvs_def live_def upd kv_pair_def)
  have "max 1 (Suc ?n) = Suc ?n" by simp
  then show "rep_keys (snd (UnSortBuncket_Put b k v)) =
      (if ?n = 0 then [k] else rep_keys b @ [k])"
    by (simp add: put rep_keys_def upd max_def Suc_le_eq)
qed

lemma Put_wf:
  assumes "buncket_wf b" and "entries b < entry_count" and "buncket_map b k = None"
  shows "buncket_wf (snd (UnSortBuncket_Put b k v))"
proof -
  have "k \<notin> set (map fst (kvs b))"
    using assms(3) by (simp add: buncket_map_def map_of_eq_None_iff)
  then show ?thesis
    using assms(1,2) Put_room(2,3) [OF assms(1,2), of k v]
    by (simp add: buncket_wf_def UnSortBuncket_Put_def UnSortBuncket_PutBufKV_def)
qed

lemma Put_map:
  assumes "buncket_wf b" and "entries b < entry_count" and "buncket_map b k = None"
  shows "buncket_map (snd (UnSortBuncket_Put b k v)) = (buncket_map b)(k \<mapsto> v)"
proof
  fix x
  show "buncket_map (snd (UnSortBuncket_Put b k v)) x = ((buncket_map b)(k \<mapsto> v)) x"
    using assms(3) by (auto simp: buncket_map_def Put_room(2) [OF assms(1,2)] map_add_def
        split: option.splits)
qed

subsection \<open>Update in place\<close>

lemma SetValue_simps [simp]:
  "entries (UnSortBuncket_SetValue b pos v) = entries b"
  "max_entries (UnSortBuncket_SetValue b pos v) = max_entries b"
  "length (records (UnSortBuncket_SetValue b pos v)) = length (records b)"
  by (simp_all add: UnSortBuncket_SetValue_def)

lemma SetValue_keys: "map kv_key (records (UnSortBuncket_SetValue b pos v)) = map kv_key (records b)"
proof (cases "pos < length (records b)")
  case True
  then show ?thesis
    by (simp add: UnSortBuncket_SetValue_def map_update) (metis list_update_id map_update nth_map)
qed (simp add: UnSortBuncket_SetValue_def list_update_beyond)

lemma SetValue_fst_kvs: "map fst (kvs (UnSortBuncket_SetValue b pos v)) = map fst (kvs b)"
  by (simp add: map_fst_kvs live_def SetValue_keys flip: take_map)

lemma SetValue_rep_keys: "rep_keys (UnSortBuncket_SetValue b pos v) = rep_keys b"
  by (simp add: rep_keys_def SetValue_keys flip: take_map)

lemma SetValue_wf: "buncket_wf b \<Longrightarrow> buncket_wf (UnSortBuncket_SetValue b pos v)"
  by (simp add: buncket_wf_def SetValue_fst_kvs)

lemma Update_missing: "buncket_map b k = None \<Longrightarrow> buncket_wf b \<Longrightarrow>
    UnSortBuncket_Update b k v old = (NoExist, old, b)"
  by (cases b k rule: Find_cases) (auto simp: UnSortBuncket_Update_def buncket_map_found)

lemma Update_found:
  assumes wf: "buncket_wf b" and hit: "buncket_map b k = Some w"
  obtains pos where "UnSortBuncket_Update b k v old = (OK, w, UnSortBuncket_SetValue b pos v)"
    and "buncket_map (UnSortBuncket_SetValue b pos v) = (buncket_map b)(k \<mapsto> v)"
proof (cases b k rule: Find_cases)
  case (found pos)
  let ?b = "UnSortBuncket_SetValue b pos v"
  have pos: "pos < entries b" "kv_key (records b ! pos) = k" using Find_True [OF found] by auto
  have len: "entries b \<le> length (records b)" using wf by (simp add: buncket_wf_def)
  have w: "w = kv_value (records b ! pos)" using buncket_map_found [OF wf found] hit by simp
  have ks: "kvs ?b = (kvs b)[pos := (k, v)]"
    using pos by (simp add: kvs_def live_def UnSortBuncket_SetValue_def take_update_swap
        kv_pair_def map_update)
  have dist: "distinct (map fst (kvs b))" using wf by (simp add: buncket_wf_def)
  have "buncket_map ?b x = ((buncket_map b)(k \<mapsto> v)) x" for x
  proof (cases "x = k")
    case True
    have "(k, v) \<in> set (kvs ?b)"
      using ks pos len by (metis length_kvs wf set_update_memI)
    then show ?thesis
      using True dist by (simp add: buncket_map_def SetValue_fst_kvs)
  next
    case False
    have "map_of ((kvs b)[pos := (k, v)]) x = map_of (kvs b) x"
    proof -
      have split: "kvs b = take pos (kvs b) @ kvs b ! pos # drop (Suc pos) (kvs b)"
        using pos wf by (simp add: split_at_nth length_kvs)
      have "fst (kvs b ! pos) = k"
        using pos len by (simp add: kvs_def live_def)
      then show ?thesis
        using False pos wf by (subst (2) split)
          (auto simp: list_update_split length_kvs map_add_def split: option.splits prod.splits)
    qed
    then show ?thesis using False by (simp add: buncket_map_def ks)
  qed
  then have "buncket_map ?b = (buncket_map b)(k \<mapsto> v)" by blast
  then show ?thesis
    using that found w by (simp add: UnSortBuncket_Update_def UnSortBuncket_value_def)
next
  case missing
  then show ?thesis using hit buncket_map_missing by fastforce
qed

subsection \<open>Removal\<close>

lemma length_fill_hole [simp]: "length (fill_hole r j idx) = length r"
  by (simp add: fill_hole_def)

lemma mset_fill_hole:
  assumes "j < idx" and "idx \<le> length r"
  shows "add_mset (r ! j) (mset (take (idx - 1) (fill_hole r j idx))) = mset (take idx r)"
proof -
  obtain m where m: "idx = Suc m" using assms(1) by (cases idx) auto
  have top: "take idx r = take m r @ [r ! m]"
    using assms m by (simp add: take_Suc_conv_app_nth)
  show ?thesis
  proof (cases "j = m")
    case True
    then show ?thesis using m top by (simp add: fill_hole_def)
  next
    case False
    then have j: "j < m" using assms(1) m by simp
    have "take m (r[j := r ! m]) = (take m r)[j := r ! m]"
      by (simp add: take_update_swap)
    then have "mset (take m (fill_hole r j idx)) = add_mset (r ! m) (mset (take m r) - {#r ! j#})"
      using False m j assms(2) by (simp add: fill_hole_def mset_update)
    moreover have "r ! j \<in># mset (take m r)"
      using j assms(2) m by (auto simp: in_set_conv_nth intro!: exI [of _ j])
    ultimately show ?thesis using m top by simp
  qed
qed

lemma remove_key_found:
  assumes "UnSortBuncket_Find b k = (True, pos)"
  shows "UnSortBuncket_remove_key b k out idx =
    (True, set_out out (kv_value (records b ! pos)), b\<lparr>records := fill_hole (records b) pos idx\<rparr>)"
  using assms by (simp add: UnSortBuncket_remove_key_def fill_hole_def UnSortBuncket_value_def)

lemma Delete_missing:
  "buncket_map b k = None \<Longrightarrow> buncket_wf b \<Longrightarrow> UnSortBuncket_Delete b k out = (NoExist, out, b)"
  by (cases b k rule: Find_cases)
    (auto simp: UnSortBuncket_Delete_def UnSortBuncket_remove_key_def buncket_map_found)

lemma Delete_found:
  fixes out :: "u64 option"
  assumes wf: "buncket_wf b" and hit: "buncket_map b k = Some w"
  defines "b' \<equiv> snd (snd (UnSortBuncket_Delete b k out))"
  shows "UnSortBuncket_Delete b k out = (OK, set_out out w, b')"
    and "mset (kvs b) = add_mset (k, w) (mset (kvs b'))"
    and "buncket_wf b'"
    and "set (rep_keys b') \<subseteq> set (rep_keys b)"
    and "entries b = Suc (entries b')"
proof -
  obtain pos where find: "UnSortBuncket_Find b k = (True, pos)"
    using hit buncket_map_missing by (cases b k rule: Find_cases) fastforce+
  have pos: "pos < entries b" and key: "kv_key (records b ! pos) = k"
    using Find_True [OF find] by auto
  have w: "w = kv_value (records b ! pos)" using buncket_map_found [OF wf find] hit by simp
  let ?r = "fill_hole (records b) pos (entries b)"
  have del: "UnSortBuncket_Delete b k out =
      (OK, set_out out w, b\<lparr>records := ?r, entries := entries b - 1\<rparr>)"
    by (simp add: UnSortBuncket_Delete_def remove_key_found [OF find] w)
  then have b': "b' = b\<lparr>records := ?r, entries := entries b - 1\<rparr>" by (simp add: b'_def)
  then show "UnSortBuncket_Delete b k out = (OK, set_out out w, b')" using del by simp
  show "entries b = Suc (entries b')" using b' pos by simp
  have len: "entries b \<le> length (records b)" using wf by (simp add: buncket_wf_def)
  have "add_mset (records b ! pos) (mset (live b')) = mset (live b)"
    using mset_fill_hole [OF pos len] by (simp add: live_def b')
  then have "image_mset kv_pair (mset (live b)) =
      add_mset (kv_pair (records b ! pos)) (image_mset kv_pair (mset (live b')))"
    by (metis image_mset_add_mset)
  then show ms: "mset (kvs b) = add_mset (k, w) (mset (kvs b'))"
    by (simp add: kvs_def kv_pair_def key w)
  then have "image_mset fst (mset (kvs b)) = add_mset k (image_mset fst (mset (kvs b')))" by simp
  then have "mset (map fst (kvs b)) = mset (k # map fst (kvs b'))" by simp
  then have "distinct (map fst (kvs b'))"
    using wf by (metis buncket_wf_def distinct.simps(2) mset_eq_imp_distinct_iff)
  then show "buncket_wf b'" using wf by (auto simp: buncket_wf_def b')
  show "set (rep_keys b') \<subseteq> set (rep_keys b)"
  proof -
    have "set (take (max 1 (entries b - 1)) ?r) \<subseteq> set (take (entries b) (records b))"
    proof
      fix x assume "x \<in> set (take (max 1 (entries b - 1)) ?r)"
      then obtain i where i: "i < max 1 (entries b - 1)" "x = ?r ! i" "i < length ?r"
        by (auto simp: in_set_conv_nth)
      then have "i < entries b" and "entries b - 1 < entries b" using pos by auto
      moreover have "x = records b ! i \<or> x = records b ! (entries b - 1)"
        using i by (cases "i = pos") (auto simp: fill_hole_def)
      ultimately show "x \<in> set (take (entries b) (records b))"
        using len by (metis length_take min.absorb2 nth_mem nth_take)
    qed
    then show ?thesis using pos by (auto simp: rep_keys_def b' max_def)
  qed
qed

lemma Delete_map:
  assumes wf: "buncket_wf b" and hit: "buncket_map b k = Some w"
  shows "buncket_map (snd (snd (UnSortBuncket_Delete b k out))) = (buncket_map b)(k := None)"
proof
  fix x
  let ?b = "snd (snd (UnSortBuncket_Delete b k out))"
  note del = Delete_found [OF wf hit, of out]
  have ms: "mset (kvs b) = mset ((k, w) # kvs ?b)" using del(2) by simp
  have "distinct (map fst (kvs b))" using wf by (simp add: buncket_wf_def)
  moreover have "distinct (map fst ((k, w) # kvs ?b))"
    using ms calculation by (metis mset_map mset_eq_imp_distinct_iff)
  ultimately have "map_of (kvs b) = map_of ((k, w) # kvs ?b)"
    using ms by (metis map_of_inject_set mset_eq_setD)
  moreover have "map_of (kvs ?b) k = None"
    using \<open>distinct (map fst ((k, w) # kvs ?b))\<close> by (simp add: map_of_eq_None_iff)
  ultimately show "buncket_map ?b x = ((buncket_map b)(k := None)) x"
    by (simp add: buncket_map_def)
qed

subsection \<open>The smallest key\<close>

lemma min_key_loop_eq:
  "min_key_loop b m is = Min (set (m # map (UnSortBuncket_key b) is))"
proof -
  have "(if x < y then x else y) = min x y" for x y :: u64 by (auto simp: min_def)
  then have "min_key_loop b m is = fold min (map (UnSortBuncket_key b) is) m"
    by (induction "is" arbitrary: m) simp_all
  then show ?thesis by (simp only: Min.set_eq_fold)
qed

lemma min_key_eq:
  assumes "buncket_wf b"
  shows "UnSortBuncket_min_key b = Min (set (rep_keys b))"
proof -
  have len: "max 1 (entries b) \<le> length (records b)"
    using assms by (simp add: buncket_wf_def)
  have "rep_keys b = map (UnSortBuncket_key b) [0..<max 1 (entries b)]"
    using len by (intro nth_equalityI) (simp_all add: rep_keys_def UnSortBuncket_key_def)
  also have "[0..<max 1 (entries b)] = 0 # [1..<entries b]"
    by (cases "entries b = 0") (auto simp: upt_conv_Cons max_def)
  finally show ?thesis
    by (simp add: UnSortBuncket_min_key_def min_key_loop_eq)
qed

subsection \<open>Splitting\<close>

lemma sorted_index_props:
  assumes "buncket_wf b"
  defines "si \<equiv> UnSortBuncket_getSortedIndex b"
  shows "distinct si" and "set si = {..<entries b}" and "length si = entries b"
    and "sorted_wrt (\<lambda>i j. UnSortBuncket_key b i < UnSortBuncket_key b j) si"
proof -
  show si: "distinct si" "set si = {..<entries b}" "length si = entries b"
    by (auto simp: si_def UnSortBuncket_getSortedIndex_def)
  have sorted: "sorted (map (UnSortBuncket_key b) si)"
    by (simp add: si_def UnSortBuncket_getSortedIndex_def)
  have "UnSortBuncket_key b (si ! i) < UnSortBuncket_key b (si ! j)" if "i < j" "j < length si" for i j
  proof -
    have "UnSortBuncket_key b (si ! i) \<le> UnSortBuncket_key b (si ! j)"
      using sorted that by (auto simp: sorted_iff_nth_mono)
    moreover have "UnSortBuncket_key b (si ! i) \<noteq> UnSortBuncket_key b (si ! j)"
    proof
      assume "UnSortBuncket_key b (si ! i) = UnSortBuncket_key b (si ! j)"
      moreover have "si ! i < entries b" "si ! j < entries b"
        using si that by (metis lessThan_iff nth_mem order.strict_trans)+
      ultimately have "si ! i = si ! j"
        using distinct_slots [OF assms(1)] by (simp add: UnSortBuncket_key_def)
      with si(1) that show False by (simp add: nth_eq_iff_index_eq)
    qed
    ultimately show ?thesis by simp
  qed
  then show "sorted_wrt (\<lambda>i j. UnSortBuncket_key b i < UnSortBuncket_key b j) si"
    by (simp add: sorted_wrt_iff_nth_less)
qed

text \<open>
  The state of the removal loop: \<open>b\<close> is the node after the slots \<open>D\<close> of the original
  node \<open>b0\<close> have been removed. The first \<open>idx\<close> records are the ones that are left, and
  every slot that is still to be removed holds its original record.
\<close>

definition removing :: "buncket \<Rightarrow> nat set \<Rightarrow> buncket \<Rightarrow> nat \<Rightarrow> bool" where
  "removing b0 D b idx \<longleftrightarrow>
     entries b = entries b0 \<and> length (records b) = length (records b0) \<and>
     idx + card D = entries b0 \<and>
     mset (take idx (records b)) = image_mset ((!) (records b0)) (mset_set ({..<entries b0} - D)) \<and>
     (\<forall>s<entries b0. s \<notin> D \<longrightarrow> records b ! s = records b0 ! s)"

lemma removing_find:
  assumes wf: "buncket_wf b0" and inv: "removing b0 D b idx" and s: "s < entries b0" "s \<notin> D"
  obtains pos where "UnSortBuncket_Find b (UnSortBuncket_key b s) = (True, pos)"
    and "pos < idx" and "records b ! pos = records b0 ! s"
proof -
  let ?n = "entries b0" and ?r = "records b" and ?orig = "records b0"
  have ent: "entries b = ?n" and len: "length ?r = length ?orig" and idx_le: "idx \<le> ?n"
    and ms: "mset (take idx ?r) = image_mset ((!) ?orig) (mset_set ({..<?n} - D))"
    and key: "UnSortBuncket_key b s = kv_key (?orig ! s)"
    using inv s by (auto simp: removing_def UnSortBuncket_key_def)
  have n_le: "?n \<le> length ?orig" using wf by (simp add: buncket_wf_def)
  have fin: "finite ({..<?n} - D)" and sD: "s \<in> {..<?n} - D" using s by auto
  have "?orig ! s \<in># mset (take idx ?r)" unfolding ms using fin sD by auto
  then obtain j where j: "j < idx" "?r ! j = ?orig ! s" by (auto simp: in_set_conv_nth)
  show ?thesis
  proof (cases b "UnSortBuncket_key b s" rule: Find_cases)
    case (found pos)
    have "pos \<le> j" using Find_True(3) [OF found, of j] j key by (force simp: not_less [symmetric])
    then have pos: "pos < idx" using j(1) by simp
    then have "?r ! pos \<in> set (take idx ?r)"
      using idx_le n_le len by (auto simp: in_set_conv_nth)
    then have "?r ! pos \<in># image_mset ((!) ?orig) (mset_set ({..<?n} - D))"
      unfolding ms [symmetric] by simp
    then obtain t where t: "t \<in> {..<?n} - D" "?r ! pos = ?orig ! t" using fin by auto
    then have "t = s"
      using distinct_slots [OF wf, of t s] s Find_True(2) [OF found] key by simp
    then show ?thesis using that [OF found pos] t(2) by simp
  next
    case missing
    then show ?thesis
      using Find_False(2) [OF missing, of j] j idx_le ent key by simp
  qed
qed

lemma removing_step:
  assumes wf: "buncket_wf b0" and inv: "removing b0 D b idx"
    and s: "s < entries b0" "s \<notin> D" and D: "D \<subseteq> {..<entries b0}"
  shows "removing b0 (insert s D)
    (snd (snd (UnSortBuncket_remove_key b (UnSortBuncket_key b s) None idx))) (idx - 1)"
proof -
  let ?n = "entries b0" and ?r = "records b" and ?orig = "records b0"
  have inv': "entries b = ?n" "length ?r = length ?orig" "idx + card D = ?n"
    "mset (take idx ?r) = image_mset ((!) ?orig) (mset_set ({..<?n} - D))"
    "\<And>t. t < ?n \<Longrightarrow> t \<notin> D \<Longrightarrow> ?r ! t = ?orig ! t"
    using inv unfolding removing_def by blast+
  obtain pos where find: "UnSortBuncket_Find b (UnSortBuncket_key b s) = (True, pos)"
    and pos: "pos < idx" and rec: "?r ! pos = ?orig ! s"
    using removing_find [OF wf inv s] .
  let ?r' = "fill_hole ?r pos idx"
  have step: "snd (snd (UnSortBuncket_remove_key b (UnSortBuncket_key b s) None idx)) = b\<lparr>records := ?r'\<rparr>"
    by (simp add: remove_key_found [OF find])
  have "idx \<le> length ?r" using inv'(2,3) wf by (simp add: buncket_wf_def)
  then have "add_mset (?orig ! s) (mset (take (idx - 1) ?r')) = mset (take idx ?r)"
    using mset_fill_hole [OF pos, of ?r] rec by simp
  also have "\<dots> = add_mset (?orig ! s) (image_mset ((!) ?orig) (mset_set ({..<?n} - insert s D)))"
  proof -
    have "mset_set ({..<?n} - D) = add_mset s (mset_set ({..<?n} - D - {s}))"
      using s by (intro mset_set.remove) auto
    then show ?thesis unfolding inv'(4) by (simp add: Diff_insert [symmetric])
  qed
  finally have ms: "mset (take (idx - 1) ?r') = image_mset ((!) ?orig) (mset_set ({..<?n} - insert s D))"
    by simp
  have keep: "?r' ! t = ?orig ! t" if t: "t < ?n" "t \<notin> insert s D" for t
  proof -
    have "t \<noteq> pos" using distinct_slots [OF wf, of t s] inv'(5) [of t] t s rec by auto
    then show ?thesis using inv'(5) t by (simp add: fill_hole_def)
  qed
  have "card (insert s D) = Suc (card D)"
    using s(2) finite_subset [OF D] by simp
  then have "idx - 1 + card (insert s D) = ?n" using inv'(3) pos by simp
  then show ?thesis
    unfolding step removing_def using inv' ms keep by simp
qed

lemma Expand_remove_inv:
  assumes "buncket_wf b0" and "removing b0 D b idx" and "distinct ss"
    and "set ss \<subseteq> {..<entries b0}" and "set ss \<inter> D = {}" and "D \<subseteq> {..<entries b0}"
  shows "removing b0 (D \<union> set ss) (Expand_remove b ss idx) (idx - length ss)"
  using assms(2-)
proof (induction ss arbitrary: b D idx)
  case (Cons s ss)
  let ?b = "snd (snd (UnSortBuncket_remove_key b (UnSortBuncket_key b s) None idx))"
  have "removing b0 (insert s D) ?b (idx - 1)"
    using Cons.prems by (intro removing_step [OF assms(1)]) auto
  then have "removing b0 (insert s D \<union> set ss) (Expand_remove ?b ss (idx - 1)) (idx - 1 - length ss)"
    using Cons.prems by (intro Cons.IH) auto
  then show ?case by (simp add: insert_commute)
qed simp

lemma Expand_fill_records:
  assumes "idx + length ss \<le> max_entries nxt" and "max_entries nxt \<le> length (records nxt)"
  shows "length (records (Expand_fill this nxt ss idx)) = length (records nxt) \<and>
    take (idx + length ss) (records (Expand_fill this nxt ss idx)) =
      take idx (records nxt) @ map (\<lambda>s. records this ! s) ss \<and>
    max_entries (Expand_fill this nxt ss idx) = max_entries nxt"
  using assms
proof (induction ss arbitrary: nxt idx)
  case (Cons s ss)
  let ?nxt = "snd (UnSortBuncket_PutBufKV nxt (UnSortBuncket_key this s) (UnSortBuncket_value this s) idx)"
  have rec: "records ?nxt = (records nxt)[idx := records this ! s]" "max_entries ?nxt = max_entries nxt"
    using Cons.prems by (auto simp: UnSortBuncket_PutBufKV_def UnSortBuncket_key_def UnSortBuncket_value_def)
  have "idx < length (records nxt)" using Cons.prems by simp
  then have "take (Suc idx) ((records nxt)[idx := y]) = take idx (records nxt) @ [y]" for y
    by (simp add: take_Suc_conv_app_nth)
  moreover have "Suc idx + length ss \<le> max_entries ?nxt" "max_entries ?nxt \<le> length (records ?nxt)"
    using Cons.prems rec by simp_all
  ultimately show ?case
    using Cons.IH [of "Suc idx" ?nxt] rec by simp
qed simp

lemma rep_keys_live: "0 < entries b \<Longrightarrow> rep_keys b = map fst (kvs b)"
  by (simp add: rep_keys_def map_fst_kvs live_def max_def Suc_le_eq)

lemma live_slots: "buncket_wf b \<Longrightarrow> live b = map (\<lambda>i. records b ! i) [0..<entries b]"
  by (rule nth_equalityI) (simp_all add: live_def buncket_wf_def)

lemma sorted_index_halves:
  assumes wf: "buncket_wf b" and n: "2 \<le> entries b"
  defines "si \<equiv> UnSortBuncket_getSortedIndex b" and "m \<equiv> entries b div 2"
  defines "split \<equiv> UnSortBuncket_key b (si ! m)"
  shows "i \<in> set (take m si) \<Longrightarrow> UnSortBuncket_key b i < split"
    and "i \<in> set (drop m si) \<Longrightarrow> split \<le> UnSortBuncket_key b i"
    and "mset (take m si) + mset (drop m si) = mset [0..<entries b]"
    and "{..<entries b} - set (drop m si) = set (take m si)"
proof -
  note si = sorted_index_props [OF wf, folded si_def]
  have m: "m < length si" using n si(3) by (simp add: m_def)
  then have parts: "si = take m si @ si ! m # drop (Suc m) si" by (rule split_at_nth)
  then have sw: "sorted_wrt (\<lambda>i j. UnSortBuncket_key b i < UnSortBuncket_key b j)
      (take m si @ si ! m # drop (Suc m) si)" using si(4) by simp
  have dr: "drop m si = si ! m # drop (Suc m) si" using m by (simp add: Cons_nth_drop_Suc)
  show "UnSortBuncket_key b i < split" if "i \<in> set (take m si)"
    using sw that by (auto simp: sorted_wrt_append split_def)
  show "split \<le> UnSortBuncket_key b i" if "i \<in> set (drop m si)"
    using sw that unfolding dr by (auto simp: sorted_wrt_append split_def)
  show "mset (take m si) + mset (drop m si) = mset [0..<entries b]"
    by (metis append_take_drop_id mset_append mset_sort si_def UnSortBuncket_getSortedIndex_def)
  have "set (take m si) \<union> set (drop m si) = {..<entries b}"
    using si(2) by (metis append_take_drop_id set_append)
  moreover have "set (take m si) \<inter> set (drop m si) = {}"
    using si(1) by (simp add: set_take_disj_set_drop_if_distinct)
  ultimately show "{..<entries b} - set (drop m si) = set (take m si)" by auto
qed

text \<open>The records of the two halves, as images of the slots.\<close>

lemma kvs_slots:
  "buncket_wf b \<Longrightarrow> mset (kvs b) = image_mset (\<lambda>i. kv_pair (records b ! i)) (mset [0..<entries b])"
  unfolding kvs_def by (simp add: live_slots image_mset.compositionality comp_def)

lemma Expand_remove_max_entries: "max_entries (Expand_remove b ss i) = max_entries b"
  by (induction b ss i rule: Expand_remove.induct)
    (auto simp: UnSortBuncket_remove_key_def split: prod.splits bool.splits)

lemma removing_init: "buncket_wf b \<Longrightarrow> removing b {} b (entries b)"
  using arg_cong [OF live_slots, of b mset]
  by (simp add: removing_def live_def atLeast0LessThan flip: mset_set_upto_eq_mset_upto)

lemma Expand_this_records:
  assumes wf: "buncket_wf b" and n: "2 \<le> entries b"
  shows "mset (kvs (Expand_this b q)) = image_mset (\<lambda>i. kv_pair (records b ! i))
      (mset (take (entries b div 2) (UnSortBuncket_getSortedIndex b)))"
    and "length (records (Expand_this b q)) = entry_count"
    and "max_entries (Expand_this b q) = entry_count"
proof -
  let ?m = "entries b div 2" and ?si = "UnSortBuncket_getSortedIndex b"
  note si = sorted_index_props [OF wf]
  have "removing b ({} \<union> set (Expand_upper b)) (Expand_remove b (Expand_upper b) (entries b))
      (entries b - length (Expand_upper b))"
    by (rule Expand_remove_inv [OF wf removing_init [OF wf]])
      (use si in \<open>auto simp: Expand_upper_def dest: in_set_dropD\<close>)
  then have rem: "removing b (set (Expand_upper b)) (Expand_remove b (Expand_upper b) (entries b)) ?m"
    using si(3) by (simp add: Expand_upper_def)
  have rest: "{..<entries b} - set (Expand_upper b) = set (take ?m ?si)"
    using sorted_index_halves(4) [OF wf n] by (simp add: Expand_upper_def)
  have "mset (live (Expand_this b q)) = image_mset ((!) (records b)) (mset (take ?m ?si))"
    using rem si(1) unfolding removing_def rest by (simp add: Expand_this_def live_def mset_set_set)
  then show "mset (kvs (Expand_this b q)) =
      image_mset (\<lambda>i. kv_pair (records b ! i)) (mset (take ?m ?si))"
    by (simp add: kvs_def image_mset.compositionality comp_def)
  show "length (records (Expand_this b q)) = entry_count" "max_entries (Expand_this b q) = entry_count"
    using rem wf by (simp_all add: removing_def Expand_this_def buncket_wf_def Expand_remove_max_entries)
qed

lemma Expand_next_records:
  assumes wf: "buncket_wf b" and raw: "length (records raw) = entry_count"
  shows "kvs (Expand_next b (UnSortBuncket raw)) =
      map (\<lambda>i. kv_pair (records b ! i)) (Expand_upper b)"
    and "length (records (Expand_next b (UnSortBuncket raw))) = entry_count"
    and "max_entries (Expand_next b (UnSortBuncket raw)) = entry_count"
proof -
  have init: "length (records (UnSortBuncket raw)) = 15" "max_entries (UnSortBuncket raw) = 15"
    using raw by (simp_all add: UnSortBuncket_def buf_size_def max_entry_count_param_def)
  have up: "length (Expand_upper b) = entries b - entries b div 2"
    using sorted_index_props(3) [OF wf] by (simp add: Expand_upper_def)
  have "entries b \<le> 15" using wf by (simp add: buncket_wf_def)
  then show "kvs (Expand_next b (UnSortBuncket raw)) =
      map (\<lambda>i. kv_pair (records b ! i)) (Expand_upper b)"
    and "length (records (Expand_next b (UnSortBuncket raw))) = entry_count"
    and "max_entries (Expand_next b (UnSortBuncket raw)) = entry_count"
    using Expand_fill_records [of 0 "Expand_upper b" "UnSortBuncket raw" b] init up
    by (auto simp: Expand_next_def kvs_def live_def)
qed

lemma filter_mset_split:
  assumes "\<And>x. x \<in># A \<Longrightarrow> P x" and "\<And>x. x \<in># B \<Longrightarrow> \<not> P x"
  shows "filter_mset P (A + B) = A" and "filter_mset (\<lambda>x. \<not> P x) (A + B) = B"
proof -
  have "filter_mset P A = filter_mset (\<lambda>_. True) A" "filter_mset P B = filter_mset (\<lambda>_. False) B"
    "filter_mset (\<lambda>x. \<not> P x) A = filter_mset (\<lambda>_. False) A"
    "filter_mset (\<lambda>x. \<not> P x) B = filter_mset (\<lambda>_. True) B"
    by (simp_all add: assms cong: filter_mset_cong)
  then show "filter_mset P (A + B) = A" "filter_mset (\<lambda>x. \<not> P x) (A + B) = B" by simp_all
qed

text \<open>
  What \<^verbatim>\<open>Expand_\<close> does to one node: it returns a key of the node, leaves the records below
  it in the old node and moves the others to the new one.
\<close>

lemma Expand_halves:
  fixes q :: nat
  assumes wf: "buncket_wf b" and n: "2 \<le> entries b" and raw: "length (records raw) = entry_count"
  defines "split \<equiv> UnSortBuncket_key b (UnSortBuncket_getSortedIndex b ! (entries b div 2))"
    and "lo \<equiv> Expand_this b q" and "hi \<equiv> Expand_next b (UnSortBuncket raw)"
  shows "mset (kvs lo) = filter_mset (\<lambda>kv. fst kv < split) (mset (kvs b))"
    and "mset (kvs hi) = filter_mset (\<lambda>kv. \<not> fst kv < split) (mset (kvs b))"
    and "buncket_wf lo" and "buncket_wf hi"
    and "split \<in> fst ` set (kvs b)"
proof -
  let ?m = "entries b div 2" and ?si = "UnSortBuncket_getSortedIndex b"
  let ?f = "\<lambda>i. kv_pair (records b ! i)"
  note si = sorted_index_props [OF wf]
  note halves = sorted_index_halves [OF wf n, folded split_def]
  note lo = Expand_this_records [OF wf n, of q, folded lo_def]
  note hi = Expand_next_records [OF wf raw, folded hi_def]
  have hi_mset: "mset (kvs hi) = image_mset ?f (mset (drop ?m ?si))"
    by (simp add: hi Expand_upper_def)
  have sum: "mset (kvs b) = mset (kvs lo) + mset (kvs hi)"
    unfolding kvs_slots [OF wf] halves(3) [symmetric] lo(1) hi_mset by simp
  have below: "fst kv < split" if "kv \<in># mset (kvs lo)" for kv
    using that halves(1) unfolding lo(1) by (auto simp: UnSortBuncket_key_def)
  have above: "\<not> fst kv < split" if "kv \<in># mset (kvs hi)" for kv
    using that halves(2) unfolding hi_mset by (auto simp: UnSortBuncket_key_def not_less)
  show "mset (kvs lo) = filter_mset (\<lambda>kv. fst kv < split) (mset (kvs b))"
    "mset (kvs hi) = filter_mset (\<lambda>kv. \<not> fst kv < split) (mset (kvs b))"
    unfolding sum using filter_mset_split [of "mset (kvs lo)" "\<lambda>kv. fst kv < split" "mset (kvs hi)"]
      below above by auto
  have "mset (map fst (kvs b)) = mset (map fst (kvs lo) @ map fst (kvs hi))" by (simp add: sum)
  then have "distinct (map fst (kvs lo) @ map fst (kvs hi))"
    using wf by (metis buncket_wf_def mset_eq_imp_distinct_iff)
  moreover have "entries lo \<le> 15" "entries hi \<le> 15"
    using wf by (auto simp: lo_def hi_def Expand_this_def Expand_next_def buncket_wf_def)
  ultimately show "buncket_wf lo" "buncket_wf hi"
    using lo hi by (auto simp: buncket_wf_def)
  have "?si ! ?m \<in> set ?si" using si(3) n by (intro nth_mem) simp
  then have "?si ! ?m < entries b" using si(2) by simp
  then show "split \<in> fst ` set (kvs b)"
    unfolding kvs_def live_slots [OF wf] by (force simp: split_def UnSortBuncket_key_def)
qed

lemma Expand_heap:
  assumes "p < next_free h" and "UnSortBuncket_Expand h p = (h', q, split)"
  shows "q = next_free h" and "next_free h' = Suc q"
    and "x \<noteq> p \<Longrightarrow> x \<noteq> q \<Longrightarrow> store h' x = store h x"
    and "store h' p = Expand_this (store h p) q"
    and "store h' q = Expand_next (store h p) (UnSortBuncket (store h q))"
    and "split = UnSortBuncket_key (store h p)
      (UnSortBuncket_getSortedIndex (store h p) ! (entries (store h p) div 2))"
  using assms by (auto simp: UnSortBuncket_Expand_def new_UnSortBuncket_def Let_def)

end
