(* ===== verification/Leaf_Index.thy ===== *)
theory Leaf_Index
  imports Nali_Prelude
begin

text \<open>
  The abstract specification of the ordered index: a sequence of leaves, each with a
  separator, its key/value pairs and the keys that its node still represents. The
  sequence is ordered when the separators increase and every key lies between its own
  separator and the next one. The three levels of the implementation (entry, group, tree)
  are shown to refine local steps on this sequence; the lemmas here say how a local step
  acts inside a longer sequence, and on the map that the sequence denotes.
\<close>

record leaf =
  sep :: u64
  lkvs :: "(u64 \<times> u64) list"
  lrep :: "u64 set"

definition leaf_ok :: "leaf \<Rightarrow> bool" where
  "leaf_ok x \<longleftrightarrow> (\<forall>k\<in>lrep x. sep x \<le> k) \<and> fst ` set (lkvs x) \<subseteq> lrep x \<and> distinct (map fst (lkvs x))"

definition leaf_before :: "leaf \<Rightarrow> leaf \<Rightarrow> bool" where
  "leaf_before x y \<longleftrightarrow> sep x < sep y \<and> (\<forall>k\<in>lrep x. k < sep y)"

definition ordered :: "leaf list \<Rightarrow> bool" where
  "ordered xs \<longleftrightarrow> sorted_wrt leaf_before xs \<and> (\<forall>x\<in>set xs. leaf_ok x)"

definition leaf_map :: "leaf list \<Rightarrow> u64 \<rightharpoonup> u64" where
  "leaf_map xs = map_of (concat (map lkvs xs))"

text \<open>\<open>k\<close> belongs to the part \<open>xs\<close> of the sequence \<open>A @ xs @ B\<close>.\<close>

definition fits :: "u64 \<Rightarrow> leaf list \<Rightarrow> leaf list \<Rightarrow> leaf list \<Rightarrow> bool" where
  "fits k A xs B \<longleftrightarrow> (\<forall>b\<in>set B. k < sep b) \<and> (A \<noteq> [] \<longrightarrow> sep (hd xs) \<le> k)"

text \<open>
  A local step at key \<open>k\<close>: the new leaves are ordered, use no separator or key but those
  of the old ones and \<open>k\<close>, and the map changes at \<open>k\<close> only.
\<close>

definition lstep :: "u64 \<Rightarrow> u64 option \<Rightarrow> leaf list \<Rightarrow> leaf list \<Rightarrow> bool" where
  "lstep k r xs ys \<longleftrightarrow> ys \<noteq> [] \<and> ordered ys \<and>
     (\<forall>y\<in>set ys. min (sep (hd xs)) k \<le> sep y) \<and>
     (\<forall>y\<in>set ys. sep y \<in> sep ` set xs \<union> \<Union> (lrep ` set xs) \<union> {k}) \<and>
     \<Union> (lrep ` set ys) \<subseteq> \<Union> (lrep ` set xs) \<union> {k} \<and>
     leaf_map ys = (leaf_map xs)(k := r)"

section \<open>Ordered sequences\<close>

lemma ordered_append:
  "ordered (xs @ ys) \<longleftrightarrow> ordered xs \<and> ordered ys \<and> (\<forall>x\<in>set xs. \<forall>y\<in>set ys. leaf_before x y)"
  by (auto simp: ordered_def sorted_wrt_append)

lemma ordered_Cons:
  "ordered (x # ys) \<longleftrightarrow> leaf_ok x \<and> ordered ys \<and> (\<forall>y\<in>set ys. leaf_before x y)"
  by (auto simp: ordered_def)

lemma ordered_Nil [simp]: "ordered []"
  by (simp add: ordered_def)

lemma ordered_sorted: "ordered xs \<Longrightarrow> sorted_wrt (<) (map sep xs)"
  by (induction xs) (auto simp: ordered_Cons leaf_before_def)

lemma ordered_hd: "ordered xs \<Longrightarrow> x \<in> set xs \<Longrightarrow> sep (hd xs) \<le> sep x"
  by (cases xs) (auto simp: ordered_Cons leaf_before_def)

lemma leaf_map_append: "leaf_map (xs @ ys) = leaf_map ys ++ leaf_map xs"
  by (simp add: leaf_map_def)

lemma leaf_map_single [simp]: "leaf_map [x] = map_of (lkvs x)"
  by (simp add: leaf_map_def)

lemma leaf_map_Nil [simp]: "leaf_map [] = Map.empty"
  by (simp add: leaf_map_def)

lemma leaf_map_None: "leaf_map xs k = None \<longleftrightarrow> (\<forall>x\<in>set xs. k \<notin> fst ` set (lkvs x))"
  by (auto simp: leaf_map_def map_of_eq_None_iff)

lemma leaf_ok_keys: "leaf_ok x \<Longrightarrow> k \<in> fst ` set (lkvs x) \<Longrightarrow> k \<in> lrep x"
  by (auto simp: leaf_ok_def)

text \<open>A key that belongs to a part occurs in no other part.\<close>

lemma fits_outside:
  assumes "ordered (A @ xs @ B)" and "xs \<noteq> []" and "fits k A xs B"
  shows "leaf_map A k = None" and "leaf_map B k = None"
proof -
  have "k \<notin> fst ` set (lkvs a)" if a: "a \<in> set A" for a
  proof
    assume "k \<in> fst ` set (lkvs a)"
    then have "k \<in> lrep a" using assms(1) a by (auto simp: ordered_append ordered_def intro: leaf_ok_keys)
    moreover have "leaf_before a (hd xs)" using assms(1,2) a by (auto simp: ordered_append)
    ultimately have "k < sep (hd xs)" by (simp add: leaf_before_def)
    moreover have "sep (hd xs) \<le> k" using assms(3) a by (auto simp: fits_def)
    ultimately show False by simp
  qed
  then show "leaf_map A k = None" by (simp add: leaf_map_None)
  have "k \<notin> fst ` set (lkvs b)" if b: "b \<in> set B" for b
  proof
    assume "k \<in> fst ` set (lkvs b)"
    then have "sep b \<le> k" using assms(1) b
      by (auto simp: ordered_append ordered_def leaf_ok_def)
    moreover have "k < sep b" using assms(3) b by (simp add: fits_def)
    ultimately show False by simp
  qed
  then show "leaf_map B k = None" by (simp add: leaf_map_None)
qed

lemma leaf_map_fits:
  assumes "ordered (A @ xs @ B)" and "xs \<noteq> []" and "fits k A xs B"
  shows "leaf_map (A @ xs @ B) k = leaf_map xs k"
  using fits_outside [OF assms] by (simp add: leaf_map_append map_add_def split: option.splits)

text \<open>A local step inside a longer sequence is a local step of the whole sequence.\<close>

lemma lstep_context:
  assumes ord: "ordered (A @ xs @ B)" and ne: "xs \<noteq> []" and fits: "fits k A xs B"
    and step: "lstep k r xs ys"
  shows "lstep k r (A @ xs @ B) (A @ ys @ B)"
proof -
  let ?h = "sep (hd xs)"
  have parts: "ordered A" "ordered xs" "ordered B"
    and AB: "\<And>a b. a \<in> set A \<Longrightarrow> b \<in> set B \<Longrightarrow> leaf_before a b"
    and Ax: "\<And>a x. a \<in> set A \<Longrightarrow> x \<in> set xs \<Longrightarrow> leaf_before a x"
    and xB: "\<And>x b. x \<in> set xs \<Longrightarrow> b \<in> set B \<Longrightarrow> leaf_before x b"
    using ord by (auto simp: ordered_append)
  have ys: "ys \<noteq> []" "ordered ys" "\<And>y. y \<in> set ys \<Longrightarrow> min ?h k \<le> sep y"
    "\<And>y. y \<in> set ys \<Longrightarrow> sep y \<in> sep ` set xs \<union> \<Union> (lrep ` set xs) \<union> {k}"
    "\<Union> (lrep ` set ys) \<subseteq> \<Union> (lrep ` set xs) \<union> {k}" "leaf_map ys = (leaf_map xs)(k := r)"
    using step unfolding lstep_def by blast+
  have below: "z < sep b" if "z \<in> sep ` set xs \<union> \<Union> (lrep ` set xs) \<union> {k}" "b \<in> set B" for z b
    using that xB fits by (auto simp: leaf_before_def fits_def)
  have Ay: "leaf_before a y" if "a \<in> set A" "y \<in> set ys" for a y
  proof -
    have "A \<noteq> []" using that(1) by auto
    then have "?h \<le> sep y" using ys(3) [OF that(2)] fits by (simp add: fits_def)
    moreover have "leaf_before a (hd xs)" using Ax that(1) ne by simp
    ultimately show ?thesis by (auto simp: leaf_before_def)
  qed
  have yB: "leaf_before y b" if "y \<in> set ys" "b \<in> set B" for y b
    unfolding leaf_before_def
  proof (intro conjI ballI)
    show "sep y < sep b" using below [OF ys(4)] that by simp
    show "z < sep b" if "z \<in> lrep y" for z
      using below [of z b] ys(5) that \<open>y \<in> set ys\<close> \<open>b \<in> set B\<close> by blast
  qed
  have ord': "ordered (A @ ys @ B)"
    using parts ys(2) AB Ay yB by (auto simp: ordered_append)
  have hd_le: "sep (hd (A @ xs @ B)) \<le> sep z" if "z \<in> set A \<union> set xs \<union> set B" for z
    using ordered_hd [OF ord] that by auto
  have low: "min (sep (hd (A @ xs @ B))) k \<le> sep z" if z: "z \<in> set (A @ ys @ B)" for z
  proof -
    consider "z \<in> set A \<union> set B" | "z \<in> set ys" using z by auto
    then show ?thesis
    proof cases
      case 1
      then show ?thesis using hd_le [of z] by (auto simp: min_le_iff_disj)
    next
      case 2
      have "sep (hd (A @ xs @ B)) \<le> ?h" using hd_le ne by simp
      then show ?thesis using ys(3) [OF 2] by (auto simp: min_le_iff_disj)
    qed
  qed
  have seps: "sep z \<in> sep ` set (A @ xs @ B) \<union> \<Union> (lrep ` set (A @ xs @ B)) \<union> {k}"
    if "z \<in> set (A @ ys @ B)" for z
    using that ys(4) by fastforce
  have "leaf_map A k = None" "leaf_map B k = None" using fits_outside [OF ord ne fits] by auto
  then have "leaf_map (A @ ys @ B) = (leaf_map (A @ xs @ B))(k := r)"
    by (intro ext) (auto simp: leaf_map_append ys(6) map_add_def split: option.splits)
  then show ?thesis
    unfolding lstep_def using ord' low seps ys(1,5) by auto
qed

lemma lstep_ordered: "lstep k r xs ys \<Longrightarrow> ordered ys"
  by (simp add: lstep_def)

lemma lstep_map: "lstep k r xs ys \<Longrightarrow> leaf_map ys = (leaf_map xs)(k := r)"
  by (simp add: lstep_def)

text \<open>Two steps at the same key, the first of which leaves the map alone.\<close>

lemma lstep_trans:
  assumes "lstep k (leaf_map xs k) xs ys" and "lstep k r ys zs"
  shows "lstep k r xs zs"
proof -
  have hd: "min (sep (hd xs)) k \<le> sep (hd ys)" using assms(1) by (auto simp: lstep_def)
  have map: "leaf_map ys = leaf_map xs" using assms(1) by (simp add: lstep_def)
  have "min (sep (hd xs)) k \<le> sep z" if "z \<in> set zs" for z
    using assms(2) hd that by (fastforce simp: lstep_def min_le_iff_disj)
  moreover have "sep z \<in> sep ` set xs \<union> \<Union> (lrep ` set xs) \<union> {k}" if "z \<in> set zs" for z
  proof -
    have "sep z \<in> sep ` set ys \<union> \<Union> (lrep ` set ys) \<union> {k}"
      using assms(2) that by (auto simp: lstep_def)
    moreover have "sep ` set ys \<union> \<Union> (lrep ` set ys) \<subseteq> sep ` set xs \<union> \<Union> (lrep ` set xs) \<union> {k}"
      using assms(1) by (auto simp: lstep_def)
    ultimately show ?thesis by blast
  qed
  moreover have "\<Union> (lrep ` set zs) \<subseteq> \<Union> (lrep ` set xs) \<union> {k}"
    using assms unfolding lstep_def by blast
  ultimately show ?thesis
    using assms(2) map by (auto simp: lstep_def)
qed

text \<open>Raising a separator to the smallest represented key.\<close>

lemma lstep_raise:
  assumes ord: "ordered (A @ x # B)" and "finite (lrep x)" and "lrep x \<noteq> {}"
  shows "lstep k (leaf_map (A @ x # B) k) (A @ x # B) (A @ x\<lparr>sep := Min (lrep x)\<rparr> # B)"
proof -
  let ?x = "x\<lparr>sep := Min (lrep x)\<rparr>"
  have mem: "Min (lrep x) \<in> lrep x" using assms(2,3) by simp
  then have up: "sep x \<le> Min (lrep x)" using ord by (simp add: ordered_append ordered_Cons leaf_ok_def)
  have "leaf_ok ?x" using assms by (auto simp: ordered_append ordered_Cons leaf_ok_def)
  moreover have "leaf_before ?x y" if "y \<in> set B" for y
    using ord that mem by (auto simp: ordered_append ordered_Cons leaf_before_def)
  moreover have "leaf_before a ?x" if "a \<in> set A" for a
    using ord that up by (fastforce simp: ordered_append leaf_before_def)
  ultimately have ord': "ordered (A @ ?x # B)" using ord by (auto simp: ordered_append ordered_Cons)
  have low: "sep (hd (A @ x # B)) \<le> sep y" if "y \<in> set (A @ ?x # B)" for y
    using up that ordered_hd [OF ord, of y] ordered_hd [OF ord, of x] by auto
  have "leaf_map (A @ ?x # B) = leaf_map (A @ x # B)" by (simp add: leaf_map_def)
  then show ?thesis
    unfolding lstep_def using ord' low mem by (auto simp: min_le_iff_disj)
qed

text \<open>Raising the separators of the first leaves of several parts.\<close>

definition raise_hd :: "leaf list \<Rightarrow> leaf list" where
  "raise_hd xs = (hd xs)\<lparr>sep := Min (lrep (hd xs))\<rparr> # tl xs"

lemma raise_hds:
  assumes "ordered (A @ concat xss)" and "[] \<notin> set xss"
    and "\<And>x. x \<in> set (concat xss) \<Longrightarrow> finite (lrep x) \<and> lrep x \<noteq> {}"
  shows "ordered (A @ concat (map raise_hd xss)) \<and>
    leaf_map (A @ concat (map raise_hd xss)) = leaf_map (A @ concat xss)"
  using assms
proof (induction xss arbitrary: A)
  case (Cons xs xss)
  obtain x xs' where xs: "xs = x # xs'" using Cons.prems(2) by (cases xs) auto
  let ?A = "A @ raise_hd xs"
  have "lstep 0 (leaf_map (A @ x # xs' @ concat xss) 0) (A @ x # xs' @ concat xss)
      (A @ x\<lparr>sep := Min (lrep x)\<rparr> # xs' @ concat xss)"
    using Cons.prems(1,3) xs by (intro lstep_raise) auto
  then have "ordered (?A @ concat xss)" and eq: "leaf_map (?A @ concat xss) = leaf_map (A @ concat (xs # xss))"
    using lstep_ordered lstep_map by (fastforce simp: raise_hd_def xs)+
  then show ?case using Cons.IH [of ?A] Cons.prems(2,3) by simp
qed simp

text \<open>All separators and represented keys are in \<open>K\<close>.\<close>

definition leaves_in :: "u64 set \<Rightarrow> leaf list \<Rightarrow> bool" where
  "leaves_in K xs \<longleftrightarrow> (\<forall>x\<in>set xs. sep x \<in> K \<and> lrep x \<subseteq> K)"

lemma leaves_in_lstep:
  assumes "lstep k r xs ys" and "leaves_in K xs" and "k \<in> K"
  shows "leaves_in K ys"
proof -
  have K: "sep ` set xs \<union> \<Union> (lrep ` set xs) \<union> {k} \<subseteq> K" using assms(2,3) by (auto simp: leaves_in_def)
  show ?thesis
    unfolding leaves_in_def
  proof (intro ballI conjI)
    fix y assume y: "y \<in> set ys"
    then have "sep y \<in> sep ` set xs \<union> \<Union> (lrep ` set xs) \<union> {k}" using assms(1) by (simp add: lstep_def)
    then show "sep y \<in> K" by (rule subsetD [OF K])
    have "lrep y \<subseteq> \<Union> (lrep ` set ys)" using y by blast
    also have "\<dots> \<subseteq> \<Union> (lrep ` set xs) \<union> {k}" using assms(1) by (simp add: lstep_def)
    finally show "lrep y \<subseteq> K" using K by auto
  qed
qed

lemma leaves_in_map:
  assumes "ordered xs" and "leaves_in K xs" and "k \<notin> K"
  shows "leaf_map xs k = None"
proof -
  have "k \<notin> fst ` set (lkvs x)" if "x \<in> set xs" for x
    using assms that leaf_ok_keys [of x k] by (auto simp: ordered_def leaves_in_def)
  then show ?thesis by (simp add: leaf_map_None)
qed

lemma leaves_in_raise:
  assumes "leaves_in K (concat xss)" and "[] \<notin> set xss"
    and "\<And>x. x \<in> set (concat xss) \<Longrightarrow> finite (lrep x) \<and> lrep x \<noteq> {}"
  shows "leaves_in K (concat (map raise_hd xss))"
proof -
  have "leaves_in K (raise_hd xs)" if xs: "xs \<in> set xss" for xs
  proof -
    obtain x ys where x: "xs = x # ys" using assms(2) xs by (cases xs) auto
    have "x \<in> set (concat xss)" using xs x by (auto intro!: bexI [of _ xs])
    then have "Min (lrep x) \<in> lrep x" using assms(3) Min_in by blast
    moreover have "leaves_in K xs" using assms(1) xs by (auto simp: leaves_in_def)
    ultimately show ?thesis by (auto simp: leaves_in_def raise_hd_def x)
  qed
  then show ?thesis by (auto simp: leaves_in_def)
qed

text \<open>A key that a part holds is found in the whole.\<close>

lemma leaf_map_part:
  assumes ord: "ordered (A @ xs @ B)" and k: "leaf_map xs k = Some w"
  shows "leaf_map (A @ xs @ B) k = Some w"
proof -
  obtain x where x: "x \<in> set xs" "k \<in> fst ` set (lkvs x)"
    using k leaf_map_None [of xs k] by auto
  have ok: "leaf_ok x" "ordered xs" using ord x(1) by (auto simp: ordered_def sorted_wrt_append)
  have rep: "k \<in> lrep x" by (rule leaf_ok_keys [OF ok(1) x(2)])
  have "fits k A xs B"
    unfolding fits_def
  proof (intro conjI ballI impI)
    show "k < sep b" if "b \<in> set B" for b
      using ord x(1) that rep by (auto simp: ordered_append leaf_before_def)
    have "sep (hd xs) \<le> sep x" by (rule ordered_hd [OF ok(2) x(1)])
    then show "sep (hd xs) \<le> k" using rep ok(1) by (auto simp: leaf_ok_def)
  qed
  moreover have "xs \<noteq> []" using x(1) by auto
  ultimately show ?thesis using leaf_map_fits [OF ord] k by simp
qed

text \<open>Splitting one leaf in two at a key of it.\<close>

lemma lstep_split:
  assumes ok: "leaf_ok x" and lo: "leaf_ok lo" "sep lo = sep x" and hi: "leaf_ok hi"
    and before: "leaf_before lo hi" and s: "sep hi \<in> lrep x"
    and rep: "lrep lo \<subseteq> lrep x" "lrep hi \<subseteq> lrep x"
    and kv: "set (lkvs x) = set (lkvs lo) \<union> set (lkvs hi)"
  shows "lstep k (map_of (lkvs x) k) [x] [lo, hi]"
proof -
  have ord: "ordered [lo, hi]" using lo(1) hi before by (simp add: ordered_Cons)
  have ge: "sep x \<le> sep hi" using ok s by (simp add: leaf_ok_def)
  have disj: "fst ` set (lkvs lo) \<inter> fst ` set (lkvs hi) = {}"
  proof -
    have False if a: "a \<in> fst ` set (lkvs lo)" and b: "a \<in> fst ` set (lkvs hi)" for a
    proof -
      have "a < sep hi" using leaf_ok_keys [OF lo(1) a] before by (simp add: leaf_before_def)
      moreover have "sep hi \<le> a" using leaf_ok_keys [OF hi b] hi by (simp add: leaf_ok_def)
      ultimately show False by simp
    qed
    then show ?thesis by blast
  qed
  then have "distinct (map fst (lkvs lo @ lkvs hi))"
    using lo(1) hi by (simp add: leaf_ok_def)
  moreover have "distinct (map fst (lkvs x))" using ok by (simp add: leaf_ok_def)
  ultimately have "map_of (lkvs lo @ lkvs hi) = map_of (lkvs x)"
    using kv by (metis map_of_inject_set set_append)
  then have "leaf_map [lo, hi] = leaf_map [x]" by (simp add: leaf_map_def)
  then show ?thesis
    unfolding lstep_def using ord ge lo(2) s rep by (auto simp: min_le_iff_disj)
qed

end
