(* ===== verification/Leaf_Store.thy ===== *)
theory Leaf_Store
  imports Nali_Bucket Leaf_Index
begin

text \<open>
  The interface between the levels of the tree. A level (an entry of leaves, a group of
  entries, the tree of groups) keeps its leaves in the node heap; the level above holds a list
  of such parts and picks one by a separator. The locale \<open>leaf_store\<close> states what the upper level
  relies on, and proves once that an operation on the part that the key belongs to is the same
  operation on the whole list.
\<close>

section \<open>Heap steps\<close>

text \<open>A heap in which only the nodes \<open>P\<close> and newly allocated ones differ.\<close>

definition heap_step :: "nat set \<Rightarrow> bheap \<Rightarrow> bheap \<Rightarrow> bool" where
  "heap_step P h h' \<longleftrightarrow> next_free h \<le> next_free h' \<and> bheap_wf h' \<and>
     (\<forall>x<next_free h. x \<notin> P \<longrightarrow> store h' x = store h x)"

abbreviation set_node :: "bheap \<Rightarrow> nat \<Rightarrow> buncket \<Rightarrow> bheap" where
  "set_node h p b \<equiv> h\<lparr>store := (store h)(p := b)\<rparr>"

lemma heap_step_set_node:
  "bheap_wf h \<Longrightarrow> buncket_wf b \<Longrightarrow> p \<in> P \<Longrightarrow> heap_step P h (set_node h p b)"
  by (auto simp: heap_step_def bheap_wf_def buncket_wf_def)

lemma heap_step_refl: "bheap_wf h \<Longrightarrow> heap_step P h h"
  by (simp add: heap_step_def)

lemma heap_step_trans:
  "heap_step P h h' \<Longrightarrow> heap_step P' h' h'' \<Longrightarrow> (\<And>x. x \<in> P' \<Longrightarrow> x < next_free h \<Longrightarrow> x \<in> P) \<Longrightarrow>
   heap_step P h h''"
  unfolding heap_step_def by (metis order.strict_trans2 order.trans)

lemma heap_step_mono: "heap_step P h h' \<Longrightarrow> P \<subseteq> Q \<Longrightarrow> heap_step Q h h'"
  by (auto simp: heap_step_def)

section \<open>Parts and lists of parts\<close>

text \<open>
  A change of one part at key \<open>k\<close>: the leaves make a local step, the part stays well formed, it
  owns its old nodes and new ones only, and no node of another part changes.
\<close>

definition store_step ::
  "(bheap \<Rightarrow> 'e \<Rightarrow> leaf list) \<Rightarrow> ('e \<Rightarrow> nat list) \<Rightarrow> (bheap \<Rightarrow> 'e \<Rightarrow> bool) \<Rightarrow>
   u64 \<Rightarrow> u64 option \<Rightarrow> bheap \<Rightarrow> 'e \<Rightarrow> bheap \<Rightarrow> 'e \<Rightarrow> bool" where
  "store_step flat ptrs valid k r h e h' e' \<longleftrightarrow>
     lstep k r (flat h e) (flat h' e') \<and> valid h' e' \<and> heap_step (set (ptrs e)) h h' \<and>
     distinct (ptrs e') \<and> set (ptrs e') \<subseteq> set (ptrs e) \<union> {next_free h..<next_free h'}"

definition flats :: "(bheap \<Rightarrow> 'e \<Rightarrow> leaf list) \<Rightarrow> bheap \<Rightarrow> 'e list \<Rightarrow> leaf list" where
  "flats flat h es = concat (map (flat h) es)"

definition all_ptrs :: "('e \<Rightarrow> nat list) \<Rightarrow> 'e list \<Rightarrow> nat list" where
  "all_ptrs ptrs es = concat (map ptrs es)"

definition all_wf :: "(bheap \<Rightarrow> 'e \<Rightarrow> bool) \<Rightarrow> bheap \<Rightarrow> 'e list \<Rightarrow> bool" where
  "all_wf valid h es \<longleftrightarrow> (\<forall>e\<in>set es. valid h e)"

definition store_ok ::
  "(bheap \<Rightarrow> 'e \<Rightarrow> leaf list) \<Rightarrow> ('e \<Rightarrow> nat list) \<Rightarrow> (bheap \<Rightarrow> 'e \<Rightarrow> bool) \<Rightarrow> bheap \<Rightarrow> 'e \<Rightarrow> bool" where
  "store_ok flat ptrs valid h e \<longleftrightarrow> valid h e \<and> ordered (flat h e) \<and> distinct (ptrs e) \<and> bheap_wf h"

lemma store_step_ok: "store_step flat ptrs valid k r h e h' e' \<Longrightarrow> store_ok flat ptrs valid h' e'"
  by (auto simp: store_step_def store_ok_def heap_step_def dest: lstep_ordered)

lemma store_step_map:
  "store_step flat ptrs valid k r h e h' e' \<Longrightarrow> leaf_map (flat h' e') = (leaf_map (flat h e))(k := r)"
  by (auto simp: store_step_def dest: lstep_map)

lemma store_step_trans:
  assumes "store_step flat ptrs valid k (leaf_map (flat h e) k) h e h1 e1"
    and "store_step flat ptrs valid k r h1 e1 h2 e2"
  shows "store_step flat ptrs valid k r h e h2 e2"
proof -
  note s = assms [unfolded store_step_def]
  have "lstep k r (flat h e) (flat h2 e2)" using s by (blast intro: lstep_trans)
  moreover have "heap_step (set (ptrs e)) h h2"
    using s by (intro heap_step_trans [of "set (ptrs e)" h h1 "set (ptrs e1)" h2]) auto
  moreover have "next_free h \<le> next_free h1" "next_free h1 \<le> next_free h2"
    using s by (auto simp: heap_step_def)
  moreover have "set (ptrs e2) \<subseteq> set (ptrs e) \<union> {next_free h..<next_free h2}"
  proof
    fix p assume "p \<in> set (ptrs e2)"
    then have "p \<in> set (ptrs e1) \<or> next_free h1 \<le> p \<and> p < next_free h2" using s by auto
    moreover have "p \<in> set (ptrs e1) \<Longrightarrow> p \<in> set (ptrs e) \<or> next_free h \<le> p \<and> p < next_free h1"
      using s by auto
    ultimately show "p \<in> set (ptrs e) \<union> {next_free h..<next_free h2}"
      using \<open>next_free h \<le> next_free h1\<close> \<open>next_free h1 \<le> next_free h2\<close> by auto
  qed
  ultimately show ?thesis using s by (simp add: store_step_def)
qed

text \<open>The part that a key belongs to.\<close>

lemma concat_split: "p < length xss \<Longrightarrow> concat xss = concat (take p xss) @ xss ! p @ concat (drop (Suc p) xss)"
  by (metis concat_append concat.simps(2) id_take_nth_drop)

lemma ordered_concat_seps:
  assumes "ordered (concat xss)" and "[] \<notin> set xss"
  shows "sorted_wrt (<) (map (\<lambda>xs. sep (hd xs)) xss)"
  using assms
proof (induction xss)
  case (Cons xs xss)
  have "sep (hd xs) < sep (hd ys)" if ys: "ys \<in> set xss" for ys
  proof -
    have "hd xs \<in> set xs" using Cons.prems(2) by (cases xs) auto
    moreover have "hd ys \<in> set ys" using ys Cons.prems(2) by (intro hd_in_set) auto
    then have "hd ys \<in> set (concat xss)" using ys by auto
    ultimately show ?thesis using Cons.prems(1) ys unfolding concat.simps ordered_append leaf_before_def by blast
  qed
  then show ?case using Cons by (auto simp: ordered_append)
qed simp

lemma slot_fits:
  fixes k :: u64
  assumes ord: "ordered (concat xss)" and ne: "[] \<notin> set xss" and xss: "xss \<noteq> []"
  defines "p \<equiv> slot (map (\<lambda>xs. sep (hd xs)) xss) k"
  shows "p < length xss" and "fits k (concat (take p xss)) (xss ! p) (concat (drop (Suc p) xss))"
proof -
  let ?ks = "map (\<lambda>xs. sep (hd xs)) xss"
  show p: "p < length xss" using slot_less_length [of ?ks k] xss by (simp add: p_def)
  have sorted: "sorted ?ks" using ordered_concat_seps [OF ord ne] by (rule strict_sorted_imp_sorted)
  show "fits k (concat (take p xss)) (xss ! p) (concat (drop (Suc p) xss))"
    unfolding fits_def
  proof (intro conjI ballI impI)
    fix b assume "b \<in> set (concat (drop (Suc p) xss))"
    then obtain ys where ys: "ys \<in> set (drop (Suc p) xss)" "b \<in> set ys" by auto
    then obtain j where j: "Suc p + j < length xss" "b \<in> set (xss ! (Suc p + j))"
      unfolding in_set_conv_nth [of ys] by (auto simp: less_diff_conv add.commute)
    have "ordered (xss ! (Suc p + j))"
      using ord j(1) concat_split [OF j(1)] by (simp add: ordered_append)
    then have "sep (hd (xss ! (Suc p + j))) \<le> sep b" using j(2) by (rule ordered_hd)
    moreover have "k < sep (hd (xss ! (Suc p + j)))"
      using slot_after [OF sorted, of k "Suc p + j"] j(1) by (simp add: p_def)
    ultimately show "k < sep b" by simp
  next
    assume "concat (take p xss) \<noteq> []"
    then have "0 < p" by (cases p) auto
    then show "sep (hd (xss ! p)) \<le> k" using slot_at [of ?ks k] p by (simp add: p_def)
  qed
qed

section \<open>The interface\<close>

locale leaf_store =
  fixes flat :: "bheap \<Rightarrow> 'e \<Rightarrow> leaf list"
    and ptrs :: "'e \<Rightarrow> nat list"
    and valid :: "bheap \<Rightarrow> 'e \<Rightarrow> bool"
  assumes flat_ne: "valid h e \<Longrightarrow> flat h e \<noteq> []"
    and ptrs_below: "valid h e \<Longrightarrow> p \<in> set (ptrs e) \<Longrightarrow> p < next_free h"
    and frame: "valid h e \<Longrightarrow> (\<And>p. p \<in> set (ptrs e) \<Longrightarrow> store h' p = store h p) \<Longrightarrow>
        next_free h \<le> next_free h' \<Longrightarrow> flat h' e = flat h e \<and> valid h' e"
begin

lemma frame_step:
  assumes "valid h e" and "heap_step P h h'" and "set (ptrs e) \<inter> P = {}"
  shows "flat h' e = flat h e" and "valid h' e"
proof -
  have same: "store h' p = store h p" if "p \<in> set (ptrs e)" for p
    using assms(2,3) ptrs_below [OF assms(1) that] that unfolding heap_step_def by blast
  have le: "next_free h \<le> next_free h'" using assms(2) by (simp add: heap_step_def)
  have "flat h' e = flat h e \<and> valid h' e" by (rule frame [OF assms(1) same le])
  then show "flat h' e = flat h e" "valid h' e" by simp_all
qed

lemma flats_ne: "all_wf valid h es \<Longrightarrow> [] \<notin> set (map (flat h) es)"
  using flat_ne by (fastforce simp: all_wf_def)

lemma flats_slot:
  fixes k :: u64
  assumes ok: "store_ok (flats flat) (all_ptrs ptrs) (all_wf valid) h es" and ne: "es \<noteq> []"
  defines "p \<equiv> slot (map (\<lambda>e. sep (hd (flat h e))) es) k"
  shows "p < length es" and "store_ok flat ptrs valid h (es ! p)"
    and "leaf_map (flats flat h es) k = leaf_map (flat h (es ! p)) k"
proof -
  let ?xss = "map (flat h) es"
  have ord: "ordered (concat ?xss)" and valid: "all_wf valid h es" and dist: "distinct (concat (map ptrs es))"
    and hw: "bheap_wf h"
    using ok by (auto simp: store_ok_def flats_def all_ptrs_def)
  have p: "p = slot (map (\<lambda>xs. sep (hd xs)) ?xss) k" by (simp add: p_def comp_def)
  note at = slot_fits [OF ord flats_ne [OF valid], of k, folded p]
  show less: "p < length es" using at(1) ne by simp
  note split = concat_split [of p ?xss]
  have wfp: "valid h (es ! p)" using valid less by (simp add: all_wf_def)
  have "ordered (flat h (es ! p))" using ord split less by (simp add: ordered_append)
  moreover have "distinct (ptrs (es ! p))" using dist concat_split [of p "map ptrs es"] less by simp
  ultimately show "store_ok flat ptrs valid h (es ! p)" using wfp hw by (simp add: store_ok_def)
  have "leaf_map (concat (take p ?xss) @ ?xss ! p @ concat (drop (Suc p) ?xss)) k = leaf_map (?xss ! p) k"
    using ord split less at(2) ne flat_ne [OF wfp] by (intro leaf_map_fits) auto
  then show "leaf_map (flats flat h es) k = leaf_map (flat h (es ! p)) k"
    using split less by (simp add: flats_def)
qed

text \<open>An operation on the part of the key is the same operation on the list.\<close>

lemma flats_step:
  fixes k :: u64
  assumes ok: "store_ok (flats flat) (all_ptrs ptrs) (all_wf valid) h es" and ne: "es \<noteq> []"
  defines "p \<equiv> slot (map (\<lambda>e. sep (hd (flat h e))) es) k"
  assumes step: "store_step flat ptrs valid k r h (es ! p) h' e'"
  shows "store_step (flats flat) (all_ptrs ptrs) (all_wf valid) k r h es h' (es[p := e'])"
proof -
  let ?A = "take p es" and ?B = "drop (Suc p) es"
  note at = flats_slot [OF ok ne, of k, folded p_def]
  have es: "es = ?A @ [es ! p] @ ?B" using id_take_nth_drop [OF at(1)] by simp
  have es': "es[p := e'] = ?A @ [e'] @ ?B" using upd_conv_take_nth_drop [OF at(1)] by simp
  have valid: "all_wf valid h es" and ord: "ordered (flats flat h es)"
    and dist: "distinct (all_ptrs ptrs es)"
    using ok by (auto simp: store_ok_def)
  have app: "flats flat g (xs @ ys) = flats flat g xs @ flats flat g ys"
    "all_ptrs ptrs (xs @ ys) = all_ptrs ptrs xs @ all_ptrs ptrs ys"
    "all_wf valid g (xs @ ys) \<longleftrightarrow> all_wf valid g xs \<and> all_wf valid g ys"
    "flats flat g [e] = flat g e" "all_ptrs ptrs [e] = ptrs e" "all_wf valid g [e] \<longleftrightarrow> valid g e" for g xs ys e
    by (auto simp: flats_def all_ptrs_def all_wf_def)
  have st: "lstep k r (flat h (es ! p)) (flat h' e')" "valid h' e'" "heap_step (set (ptrs (es ! p))) h h'"
    "distinct (ptrs e')" "set (ptrs e') \<subseteq> set (ptrs (es ! p)) \<union> {next_free h..<next_free h'}"
    using step unfolding store_step_def by blast+
  have others: "flat h' e = flat h e \<and> valid h' e \<and> (\<forall>q\<in>set (ptrs e). q < next_free h \<and> q \<notin> set (ptrs (es ! p)))"
    if e: "e \<in> set ?A \<union> set ?B" for e
  proof -
    have v: "valid h e" using valid e by (auto simp: all_wf_def dest: in_set_takeD in_set_dropD)
    have "distinct (all_ptrs ptrs (?A @ [es ! p] @ ?B))" using dist es by simp
    then have disj: "set (ptrs e) \<inter> set (ptrs (es ! p)) = {}"
      using e unfolding app by (auto simp: all_ptrs_def)
    then show ?thesis using frame_step [OF v st(3) disj] ptrs_below [OF v] by blast
  qed
  have flatA: "flats flat h' ?A = flats flat h ?A" and flatB: "flats flat h' ?B = flats flat h ?B"
    using others by (auto simp: flats_def intro!: arg_cong [of _ _ concat])
  have "lstep k r (flats flat h ?A @ flat h (es ! p) @ flats flat h ?B)
      (flats flat h ?A @ flat h' e' @ flats flat h ?B)"
  proof (rule lstep_context)
    show "ordered (flats flat h ?A @ flat h (es ! p) @ flats flat h ?B)" using ord es app by metis
    show "flat h (es ! p) \<noteq> []" using valid at(1) by (intro flat_ne) (simp add: all_wf_def)
    have "p = slot (map (\<lambda>xs. sep (hd xs)) (map (flat h) es)) k" by (simp add: p_def comp_def)
    then show "fits k (flats flat h ?A) (flat h (es ! p)) (flats flat h ?B)"
      using slot_fits(2) [of "map (flat h) es" k] ord ne flats_ne [OF valid] at(1)
      by (simp add: flats_def take_map drop_map)
  qed (rule st(1))
  then have "lstep k r (flats flat h es) (flats flat h' (es[p := e']))"
    using es app(1,4) es' flatA flatB by metis
  moreover have "all_wf valid h' (es[p := e'])"
    unfolding es' all_wf_def set_append using others st(2) by auto
  moreover have "heap_step (set (all_ptrs ptrs es)) h h'"
    using nth_mem [OF at(1)] by (intro heap_step_mono [OF st(3)]) (auto simp only: all_ptrs_def set_concat set_map)
  moreover have "distinct (all_ptrs ptrs (es[p := e']))"
  proof -
    have d: "distinct (all_ptrs ptrs ?A @ ptrs (es ! p) @ all_ptrs ptrs ?B)" using dist es app by metis
    have fresh: "q \<notin> set (ptrs e')" if "q \<in> set (all_ptrs ptrs ?A) \<union> set (all_ptrs ptrs ?B)" for q
    proof
      assume "q \<in> set (ptrs e')"
      moreover have "q < next_free h" "q \<notin> set (ptrs (es ! p))"
        using that others by (auto simp: all_ptrs_def)
      ultimately show False using st(5) by auto
    qed
    show ?thesis
      unfolding es' app distinct_append set_append
      using d [unfolded distinct_append set_append] fresh st(4) by blast
  qed
  moreover have "set (all_ptrs ptrs (es[p := e'])) \<subseteq> set (all_ptrs ptrs es) \<union> {next_free h..<next_free h'}"
  proof -
    have "set (all_ptrs ptrs es) = set (all_ptrs ptrs ?A) \<union> set (ptrs (es ! p)) \<union> set (all_ptrs ptrs ?B)"
      using es app(2,5) by (metis set_append sup_assoc)
    then show ?thesis unfolding es' app set_append using st(5) by blast
  qed
  ultimately show ?thesis by (simp add: store_step_def)
qed

end

end
