(* ===== verification/Nali_Entry.thy ===== *)
theory Nali_Entry
  imports Leaf_Store
begin

text \<open>
  \<^verbatim>\<open>struct PointerBEntry\<close> of \<^verbatim>\<open>src/src/nali_entry.h\<close>: up to four \<^verbatim>\<open>eentry\<close> slots, each with a
  separator key and a pointer to a leaf node. The number of used slots is the field
  \<^verbatim>\<open>buf.entries\<close> of slot 0 (the union overlays the struct's own \<^verbatim>\<open>entry_key\<close> and \<^verbatim>\<open>buf\<close> with
  slot 0). A full leaf is split and the slots behind it move up by one. The lemmas show
  that the operations act on the sequence of leaves as the local steps of \<open>Leaf_Index\<close>.
\<close>

section \<open>Data\<close>

record eentry =
  entry_key :: u64
  pointer :: nat
  prefix_bytes :: nat
  suffix_bytes :: nat
  buf_entries :: nat

record PointerBEntry =
  entrys :: "nat \<Rightarrow> eentry"

definition pb_entry_count :: nat where
  "pb_entry_count = 4"

text \<open>The two bytes \<^verbatim>\<open>buf.meta\<close>: two 4-bit fields and one of 8 bits.\<close>

definition eentry_meta :: "eentry \<Rightarrow> nat" where
  "eentry_meta e = prefix_bytes e + 16 * suffix_bytes e + 256 * buf_entries e"

definition eentry_IsValid :: "eentry \<Rightarrow> bool" where
  "eentry_IsValid e \<longleftrightarrow> eentry_meta e \<noteq> 0"

definition eentry_SetInvalid :: "eentry \<Rightarrow> eentry" where
  "eentry_SetInvalid e = e\<lparr>prefix_bytes := 0, suffix_bytes := 0, buf_entries := 0\<rparr>"

definition eentry_DataCount :: "bheap \<Rightarrow> eentry \<Rightarrow> nat" where
  "eentry_DataCount h e = entries (store h (pointer e))"

text \<open>\<^verbatim>\<open>memset(this, 0, sizeof(PointerBEntry))\<close>.\<close>

definition zero_eentry :: eentry where
  "zero_eentry = \<lparr>entry_key = 0, pointer = 0, prefix_bytes = 0, suffix_bytes = 0, buf_entries = 0\<rparr>"

definition zero_PointerBEntry :: PointerBEntry where
  "zero_PointerBEntry = \<lparr>entrys = (\<lambda>_. zero_eentry)\<rparr>"

definition PointerBEntry_entries :: "PointerBEntry \<Rightarrow> nat" where
  "PointerBEntry_entries e = buf_entries (entrys e 0)"

definition PointerBEntry_entry_key :: "PointerBEntry \<Rightarrow> u64" where
  "PointerBEntry_entry_key e = entry_key (entrys e 0)"

definition PointerBEntry_Pointer :: "PointerBEntry \<Rightarrow> nat \<Rightarrow> nat" where
  "PointerBEntry_Pointer e i = pointer (entrys e i)"

section \<open>Constructors\<close>

definition PointerBEntry_new :: "bheap \<Rightarrow> u64 \<Rightarrow> nat \<Rightarrow> bheap \<times> PointerBEntry" where
  "PointerBEntry_new h key prefix_len =
     (let (h', p) = new_UnSortBuncket h
      in (h', zero_PointerBEntry\<lparr>entrys := (\<lambda>_. zero_eentry)
            (0 := \<lparr>entry_key = key, pointer = p, prefix_bytes = prefix_len,
                   suffix_bytes = 8 - prefix_len, buf_entries = 1\<rparr>)\<rparr>))"

definition PointerBEntry_new_kv :: "bheap \<Rightarrow> u64 \<Rightarrow> u64 \<Rightarrow> nat \<Rightarrow> bheap \<times> PointerBEntry" where
  "PointerBEntry_new_kv h key value prefix_len =
     (let (h', e) = PointerBEntry_new h key prefix_len;
          p = pointer (entrys e 0)
      in (h'\<lparr>store := (store h')(p := snd (UnSortBuncket_Put (store h' p) key value))\<rparr>, e))"

definition PointerBEntry_of_eentry :: "eentry \<Rightarrow> PointerBEntry" where
  "PointerBEntry_of_eentry kventry =
     zero_PointerBEntry\<lparr>entrys := (\<lambda>_. zero_eentry)(0 := kventry\<lparr>buf_entries := 1\<rparr>)\<rparr>"

section \<open>Operations\<close>

definition PointerBEntry_AdjustEntryKey :: "bheap \<Rightarrow> PointerBEntry \<Rightarrow> PointerBEntry" where
  "PointerBEntry_AdjustEntryKey h e =
     e\<lparr>entrys := (entrys e)(0 := (entrys e 0)
        \<lparr>entry_key := UnSortBuncket_min_key (store h (PointerBEntry_Pointer e 0))\<rparr>)\<rparr>"

function PointerBEntry_Find_pos_loop :: "PointerBEntry \<Rightarrow> u64 \<Rightarrow> nat \<Rightarrow> nat" where
  "PointerBEntry_Find_pos_loop e key pos =
     (if pos < PointerBEntry_entries e \<and> entry_key (entrys e pos) \<le> key
      then PointerBEntry_Find_pos_loop e key (Suc pos) else pos)"
  by pat_completeness auto
termination
  by (relation "measure (\<lambda>(e, key, pos). PointerBEntry_entries e - pos)") auto

definition PointerBEntry_Find_pos :: "PointerBEntry \<Rightarrow> u64 \<Rightarrow> nat" where
  "PointerBEntry_Find_pos e key =
     (let pos = PointerBEntry_Find_pos_loop e key 0 in if pos = 0 then pos else pos - 1)"

definition PointerBEntry_get_num_keys :: "bheap \<Rightarrow> PointerBEntry \<Rightarrow> nat" where
  "PointerBEntry_get_num_keys h e =
     sum_list (map (\<lambda>i. eentry_DataCount h (entrys e i)) [0..<PointerBEntry_entries e])"

text \<open>The shifting loop of \<^verbatim>\<open>Put\<close>, downwards from \<open>i\<close> while \<open>i > pos\<close>.\<close>

fun shift_entrys :: "(nat \<Rightarrow> eentry) \<Rightarrow> nat \<Rightarrow> nat \<Rightarrow> nat \<Rightarrow> eentry" where
  "shift_entrys f pos i =
     (if pos < i then shift_entrys (f(Suc i := f i)) pos (i - 1) else f)"

text \<open>
  The branch of \<^verbatim>\<open>Put\<close> that splits leaf \<open>pos\<close>: shift, \<^verbatim>\<open>Expand_\<close>, fill slot \<open>pos + 1\<close>, count.
\<close>

definition PointerBEntry_split :: "bheap \<Rightarrow> PointerBEntry \<Rightarrow> nat \<Rightarrow> bheap \<times> PointerBEntry" where
  "PointerBEntry_split h e pos =
     (let f = shift_entrys (entrys e) pos (PointerBEntry_entries e - 1);
          (h', q, split_key) = UnSortBuncket_Expand h (pointer (f pos));
          f1 = f(Suc pos := (f (Suc pos))\<lparr>entry_key := split_key, pointer := q,
                   prefix_bytes := 0, suffix_bytes := 8 - 0\<rparr>);
          f2 = f1(0 := (f1 0)\<lparr>buf_entries := buf_entries (f1 0) + 1\<rparr>)
      in (h', e\<lparr>entrys := f2\<rparr>))"

text \<open>
  \<^verbatim>\<open>Put\<close> with its \<^verbatim>\<open>goto retry\<close>. The last component is the out parameter \<^verbatim>\<open>*split\<close>.
\<close>

function PointerBEntry_Put ::
  "bheap \<Rightarrow> PointerBEntry \<Rightarrow> u64 \<Rightarrow> u64 \<Rightarrow> bool \<Rightarrow> status \<times> bheap \<times> PointerBEntry \<times> bool" where
  "PointerBEntry_Put h e key value split =
     (let pos = PointerBEntry_Find_pos e key;
          p = pointer (entrys e pos);
          (ret, b) = UnSortBuncket_Put (store h p) key value
      in if ret = Full \<and> PointerBEntry_entries e < pb_entry_count
         then PointerBEntry_Put (fst (PointerBEntry_split h e pos))
                (snd (PointerBEntry_split h e pos)) key value True
         else (ret, h\<lparr>store := (store h)(p := b)\<rparr>,
               if ret = OK \<and> key < PointerBEntry_entry_key e
               then e\<lparr>entrys := (entrys e)(0 := (entrys e 0)\<lparr>entry_key := key\<rparr>)\<rparr> else e,
               split))"
  by pat_completeness auto

declare shift_entrys.simps [simp del]

lemma shift_entrys_apply:
  "shift_entrys f pos i j = (if Suc pos < j \<and> j \<le> Suc i then f (j - 1) else f j)"
proof (induction f pos i rule: shift_entrys.induct)
  case (1 f pos i)
  show ?case
  proof (cases "pos < i")
    case True
    then have "shift_entrys f pos i j = shift_entrys (f(Suc i := f i)) pos (i - 1) j"
      by (subst shift_entrys.simps) simp
    also have "\<dots> = (if Suc pos < j \<and> j \<le> Suc (i - 1) then (f(Suc i := f i)) (j - 1)
        else (f(Suc i := f i)) j)"
      by (rule "1.IH" [OF True])
    also have "\<dots> = (if Suc pos < j \<and> j \<le> Suc i then f (j - 1) else f j)"
      using True by (auto simp: le_Suc_eq)
    finally show ?thesis .
  next
    case False
    then show ?thesis by (subst shift_entrys.simps) auto
  qed
qed

lemma PointerBEntry_split_entries:
  "PointerBEntry_entries (snd (PointerBEntry_split h e pos)) = PointerBEntry_entries e + 1"
  by (simp add: PointerBEntry_split_def PointerBEntry_entries_def Let_def shift_entrys_apply
      split: prod.splits)

termination PointerBEntry_Put
  by (relation "measure (\<lambda>(h, e, key, value, split). pb_entry_count - PointerBEntry_entries e)")
    (auto simp: PointerBEntry_split_entries)

definition PointerBEntry_Update ::
  "bheap \<Rightarrow> PointerBEntry \<Rightarrow> u64 \<Rightarrow> u64 \<Rightarrow> u64 \<Rightarrow> bool \<times> u64 \<times> bheap" where
  "PointerBEntry_Update h e key value old_offset =
     (let pos = PointerBEntry_Find_pos e key; p = pointer (entrys e pos)
      in if pb_entry_count \<le> pos \<or> \<not> eentry_IsValid (entrys e pos) then (False, old_offset, h)
         else let (ret, old, b) = UnSortBuncket_Update (store h p) key value old_offset
              in (ret = OK, old, h\<lparr>store := (store h)(p := b)\<rparr>))"

definition PointerBEntry_Get :: "bheap \<Rightarrow> PointerBEntry \<Rightarrow> u64 \<Rightarrow> u64 \<Rightarrow> bool \<times> u64" where
  "PointerBEntry_Get h e key value =
     (let pos = PointerBEntry_Find_pos e key
      in if pb_entry_count \<le> pos \<or> \<not> eentry_IsValid (entrys e pos) then (False, value)
         else let (ret, v) = UnSortBuncket_Get (store h (pointer (entrys e pos))) key value
              in (ret = OK, v))"

definition PointerBEntry_Delete ::
  "bheap \<Rightarrow> PointerBEntry \<Rightarrow> u64 \<Rightarrow> u64 option \<Rightarrow> bool \<times> u64 option \<times> bheap" where
  "PointerBEntry_Delete h e key value =
     (let pos = PointerBEntry_Find_pos e key; p = pointer (entrys e pos)
      in if pb_entry_count \<le> pos \<or> \<not> eentry_IsValid (entrys e pos) then (False, value, h)
         else let (ret, v, b) = UnSortBuncket_Delete (store h p) key value
              in (ret = OK, v, h\<lparr>store := (store h)(p := b)\<rparr>))"

text \<open>
  \<^verbatim>\<open>EntryIter\<close>: its position \<^verbatim>\<open>cur_idx\<close>, the test \<^verbatim>\<open>end()\<close> and \<^verbatim>\<open>next()\<close>, and what a loop
  \<^verbatim>\<open>while (!it.end()) { ... *it ...; it.next(); }\<close> visits.
\<close>

definition EntryIter_end :: "PointerBEntry \<Rightarrow> nat \<Rightarrow> bool" where
  "EntryIter_end e cur_idx \<longleftrightarrow> PointerBEntry_entries e \<le> cur_idx"

definition EntryIter_next :: "PointerBEntry \<Rightarrow> nat \<Rightarrow> nat \<times> bool" where
  "EntryIter_next e cur_idx =
     (if cur_idx + 1 < PointerBEntry_entries e then (cur_idx + 1, True)
      else (PointerBEntry_entries e, False))"

function EntryIter_visit :: "PointerBEntry \<Rightarrow> nat \<Rightarrow> eentry list" where
  "EntryIter_visit e cur_idx =
     (if EntryIter_end e cur_idx then []
      else entrys e cur_idx # EntryIter_visit e (fst (EntryIter_next e cur_idx)))"
  by pat_completeness auto
termination
  by (relation "measure (\<lambda>(e, i). PointerBEntry_entries e - i)")
    (auto simp: EntryIter_end_def EntryIter_next_def)

definition PointerBEntry_EntryIter :: "PointerBEntry \<Rightarrow> eentry list" where
  "PointerBEntry_EntryIter e = EntryIter_visit e 0"

section \<open>Specification\<close>

definition leaf_of :: "bheap \<Rightarrow> eentry \<Rightarrow> leaf" where
  "leaf_of h x = \<lparr>sep = entry_key x, lkvs = kvs (store h (pointer x)),
                  lrep = set (rep_keys (store h (pointer x)))\<rparr>"

definition bflat :: "bheap \<Rightarrow> PointerBEntry \<Rightarrow> leaf list" where
  "bflat h e = map (leaf_of h) (PointerBEntry_EntryIter e)"

definition bptrs :: "PointerBEntry \<Rightarrow> nat list" where
  "bptrs e = map pointer (PointerBEntry_EntryIter e)"

definition bentry_wf :: "bheap \<Rightarrow> PointerBEntry \<Rightarrow> bool" where
  "bentry_wf h e \<longleftrightarrow> 1 \<le> PointerBEntry_entries e \<and> PointerBEntry_entries e \<le> pb_entry_count \<and>
     (\<forall>x\<in>set (PointerBEntry_EntryIter e). eentry_IsValid x) \<and>
     (\<forall>p\<in>set (bptrs e). p < next_free h \<and> buncket_wf (store h p))"

section \<open>Views of an entry\<close>

declare EntryIter_visit.simps [simp del] PointerBEntry_Find_pos_loop.simps [simp del]
  PointerBEntry_Put.simps [simp del]

lemma EntryIter_visit_eq: "EntryIter_visit e i = map (entrys e) [i..<PointerBEntry_entries e]"
proof (induction e i rule: EntryIter_visit.induct)
  case (1 e i)
  then show ?case
    by (subst EntryIter_visit.simps)
      (auto simp: EntryIter_end_def EntryIter_next_def upt_conv_Cons)
qed

lemma EntryIter_eq: "PointerBEntry_EntryIter e = map (entrys e) [0..<PointerBEntry_entries e]"
  by (simp add: PointerBEntry_EntryIter_def EntryIter_visit_eq)

lemma bflat_eq: "bflat h e = map (\<lambda>i. leaf_of h (entrys e i)) [0..<PointerBEntry_entries e]"
  by (simp add: bflat_def EntryIter_eq)

lemma bptrs_eq: "bptrs e = map (\<lambda>i. pointer (entrys e i)) [0..<PointerBEntry_entries e]"
  by (simp add: bptrs_def EntryIter_eq)

lemma length_bflat [simp]: "length (bflat h e) = PointerBEntry_entries e"
  by (simp add: bflat_eq)

lemma bflat_nth: "i < PointerBEntry_entries e \<Longrightarrow> bflat h e ! i = leaf_of h (entrys e i)"
  by (simp add: bflat_eq)

lemma sep_leaf_of [simp]: "sep (leaf_of h x) = entry_key x"
  by (simp add: leaf_of_def)

lemma bflat_ne: "bentry_wf h e \<Longrightarrow> bflat h e \<noteq> []"
  by (auto simp: bflat_eq bentry_wf_def)

lemma hd_bflat: "bentry_wf h e \<Longrightarrow> hd (bflat h e) = leaf_of h (entrys e 0)"
  by (auto simp: bflat_eq bentry_wf_def hd_map upt_conv_Cons)

lemma sep_hd_bflat: "bentry_wf h e \<Longrightarrow> sep (hd (bflat h e)) = PointerBEntry_entry_key e"
  by (simp add: hd_bflat PointerBEntry_entry_key_def)

lemma bentry_wf_node:
  "bentry_wf h e \<Longrightarrow> i < PointerBEntry_entries e \<Longrightarrow>
     eentry_IsValid (entrys e i) \<and> pointer (entrys e i) < next_free h \<and>
     buncket_wf (store h (pointer (entrys e i)))"
  by (simp add: bentry_wf_def bptrs_eq EntryIter_eq)

lemma bflat_cong: "(\<And>p. p \<in> set (bptrs e) \<Longrightarrow> store h' p = store h p) \<Longrightarrow> bflat h' e = bflat h e"
  by (simp add: bflat_eq bptrs_eq leaf_of_def)

lemma bentry_wf_cong:
  assumes "bentry_wf h e" and "\<And>p. p \<in> set (bptrs e) \<Longrightarrow> store h' p = store h p"
    and "next_free h \<le> next_free h'"
  shows "bentry_wf h' e"
  using assms by (fastforce simp: bentry_wf_def)

subsection \<open>Searching the slots\<close>

lemma Find_pos_loop_eq:
  assumes "pos \<le> PointerBEntry_entries e" and "\<And>i. i < pos \<Longrightarrow> entry_key (entrys e i) \<le> k"
  shows "PointerBEntry_Find_pos_loop e k pos = upper_bound (map sep (bflat h e)) k"
  using assms
proof (induction e k pos rule: PointerBEntry_Find_pos_loop.induct)
  case (1 e k pos)
  show ?case
  proof (cases "pos < PointerBEntry_entries e \<and> entry_key (entrys e pos) \<le> k")
    case True
    then have "PointerBEntry_Find_pos_loop e k (Suc pos) = upper_bound (map sep (bflat h e)) k"
      using "1.prems" by (intro "1.IH") (auto simp: less_Suc_eq)
    with True show ?thesis by (subst PointerBEntry_Find_pos_loop.simps) simp
  next
    case False
    have "upper_bound (map sep (bflat h e)) k = pos"
    proof (rule upper_bound_eqI)
      show "pos \<le> length (map sep (bflat h e))" using "1.prems"(1) by simp
      show "map sep (bflat h e) ! i \<le> k" if "i < pos" for i
        using that "1.prems" by (simp add: bflat_nth)
      show "k < map sep (bflat h e) ! pos" if "pos < length (map sep (bflat h e))"
        using that False by (simp add: bflat_nth not_le)
    qed
    with False show ?thesis by (subst PointerBEntry_Find_pos_loop.simps) auto
  qed
qed

lemma Find_pos_eq: "PointerBEntry_Find_pos e k = slot (map sep (bflat h e)) k"
  using Find_pos_loop_eq [of 0 e k h] by (simp add: PointerBEntry_Find_pos_def slot_def Let_def)

lemma Find_pos_less: "bentry_wf h e \<Longrightarrow> PointerBEntry_Find_pos e k < PointerBEntry_entries e"
  using slot_less_length [of "map sep (bflat h e)" k] bflat_ne [of h e] Find_pos_eq [of e k h] by simp

text \<open>The position \<open>pos\<close> splits the leaves of the entry around the one that \<open>k\<close> belongs to.\<close>

lemma bflat_at:
  assumes "pos < PointerBEntry_entries e"
  shows "bflat h e = take pos (bflat h e) @ [leaf_of h (entrys e pos)] @ drop (Suc pos) (bflat h e)"
  using assms split_at_nth [of pos "bflat h e"] by (simp add: bflat_nth)

lemma Find_pos_fits:
  fixes k :: u64
  assumes wf: "bentry_wf h e" and ord: "ordered (bflat h e)"
  defines "pos \<equiv> PointerBEntry_Find_pos e k"
  shows "fits k (take pos (bflat h e)) [leaf_of h (entrys e pos)] (drop (Suc pos) (bflat h e))"
proof -
  let ?ks = "map sep (bflat h e)"
  have pos: "pos = slot ?ks k" "pos < length ?ks"
    using Find_pos_eq Find_pos_less [OF wf] by (simp_all add: pos_def)
  have sorted: "sorted ?ks"
    using ordered_sorted [OF ord] by (rule strict_sorted_imp_sorted)
  have "k < sep b" if b: "b \<in> set (drop (Suc pos) (bflat h e))" for b
  proof -
    obtain j where j: "j < length (bflat h e) - Suc pos" "b = bflat h e ! (Suc pos + j)"
      using b by (auto simp: in_set_conv_nth)
    then have "k < ?ks ! (Suc pos + j)"
      using slot_after [OF sorted] pos(1) by simp
    with j show ?thesis by simp
  qed
  moreover have "sep (leaf_of h (entrys e pos)) \<le> k" if "take pos (bflat h e) \<noteq> []"
  proof -
    have "?ks ! pos \<le> k" using slot_at [of ?ks k] that pos(1) by (cases pos) auto
    then show ?thesis using pos(2) by (simp add: bflat_nth)
  qed
  ultimately show ?thesis by (simp add: fits_def)
qed

lemma bflat_lookup:
  assumes wf: "bentry_wf h e" and ord: "ordered (bflat h e)"
  shows "leaf_map (bflat h e) k =
    buncket_map (store h (pointer (entrys e (PointerBEntry_Find_pos e k)))) k"
proof -
  let ?pos = "PointerBEntry_Find_pos e k" and ?x = "leaf_of h (entrys e (PointerBEntry_Find_pos e k))"
  let ?A = "take ?pos (bflat h e)" and ?B = "drop (Suc ?pos) (bflat h e)"
  have parts: "?A @ [?x] @ ?B = bflat h e"
    by (rule bflat_at [OF Find_pos_less [OF wf], symmetric])
  have "leaf_map (?A @ [?x] @ ?B) k = leaf_map [?x] k"
    by (rule leaf_map_fits [OF _ _ Find_pos_fits [OF wf ord]]) (simp_all only: parts ord list.distinct not_False_eq_True)
  then show ?thesis unfolding parts by (simp add: leaf_of_def buncket_map_def)
qed

text \<open>\<^verbatim>\<open>Get\<close> of an entry is the lookup in the map of its leaves.\<close>

lemma PointerBEntry_Get_correct:
  assumes wf: "bentry_wf h e" and ord: "ordered (bflat h e)"
  shows "PointerBEntry_Get h e k v =
    (case leaf_map (bflat h e) k of None \<Rightarrow> (False, v) | Some w \<Rightarrow> (True, w))"
proof -
  let ?pos = "PointerBEntry_Find_pos e k"
  have "?pos < PointerBEntry_entries e" by (rule Find_pos_less [OF wf])
  moreover have "PointerBEntry_entries e \<le> pb_entry_count" using wf by (simp add: bentry_wf_def)
  ultimately show ?thesis
    using bentry_wf_node [OF wf, of ?pos]
    by (simp add: PointerBEntry_Get_def Let_def Get_correct bflat_lookup [OF wf ord]
        split: option.splits)
qed


subsection \<open>Changing one node\<close>

lemma bptrs_nth_eq:
  assumes "distinct (bptrs e)" and "i < PointerBEntry_entries e" and "j < PointerBEntry_entries e"
    and "pointer (entrys e i) = pointer (entrys e j)"
  shows "i = j"
  using assms by (auto simp: bptrs_eq distinct_map inj_on_def)

lemma bflat_set_node:
  assumes dist: "distinct (bptrs e)" and pos: "pos < PointerBEntry_entries e"
  shows "bflat (set_node h (pointer (entrys e pos)) b) e =
    (bflat h e)[pos := \<lparr>sep = entry_key (entrys e pos), lkvs = kvs b, lrep = set (rep_keys b)\<rparr>]"
proof (rule nth_equalityI)
  fix i assume "i < length (bflat (set_node h (pointer (entrys e pos)) b) e)"
  then have i: "i < PointerBEntry_entries e" by simp
  show "bflat (set_node h (pointer (entrys e pos)) b) e ! i = (bflat h e)
      [pos := \<lparr>sep = entry_key (entrys e pos), lkvs = kvs b, lrep = set (rep_keys b)\<rparr>] ! i"
    using i pos bptrs_nth_eq [OF dist i pos]
    by (cases "i = pos") (auto simp: bflat_nth leaf_of_def)
qed simp

lemma bentry_wf_set_node:
  "bentry_wf h e \<Longrightarrow> buncket_wf b \<Longrightarrow> bentry_wf (set_node h p b) e"
  by (auto simp: bentry_wf_def)

text \<open>
  A local step of one leaf of an entry. \<open>b\<close> replaces the node of the leaf that \<open>k\<close> belongs
  to; its separator stays.
\<close>

lemma bflat_step:
  fixes k :: u64
  assumes wf: "bentry_wf h e" and ord: "ordered (bflat h e)" and dist: "distinct (bptrs e)"
  defines "x \<equiv> entrys e (PointerBEntry_Find_pos e k)"
  assumes step: "lstep k r [leaf_of h x]
      [\<lparr>sep = entry_key x, lkvs = kvs b, lrep = set (rep_keys b)\<rparr>]"
  shows "lstep k r (bflat h e) (bflat (set_node h (pointer x) b) e)"
proof -
  let ?pos = "PointerBEntry_Find_pos e k"
  let ?A = "take ?pos (bflat h e)" and ?B = "drop (Suc ?pos) (bflat h e)"
  have pos: "?pos < PointerBEntry_entries e" by (rule Find_pos_less [OF wf])
  have old: "?A @ [leaf_of h x] @ ?B = bflat h e"
    unfolding x_def by (rule bflat_at [OF pos, symmetric])
  have new: "?A @ [\<lparr>sep = entry_key x, lkvs = kvs b, lrep = set (rep_keys b)\<rparr>] @ ?B =
      bflat (set_node h (pointer x) b) e"
    unfolding x_def bflat_set_node [OF dist pos] using pos by (simp add: list_update_split)
  have "lstep k r (?A @ [leaf_of h x] @ ?B)
      (?A @ [\<lparr>sep = entry_key x, lkvs = kvs b, lrep = set (rep_keys b)\<rparr>] @ ?B)"
  proof (rule lstep_context [OF _ _ _ step])
    show "ordered (?A @ [leaf_of h x] @ ?B)" by (simp only: old ord)
    show "fits k ?A [leaf_of h x] ?B" unfolding x_def by (rule Find_pos_fits [OF wf ord])
  qed simp
  then show ?thesis by (simp only: old new)
qed

subsection \<open>Update and removal\<close>

lemma leaf_ok_at: "ordered (bflat h e) \<Longrightarrow> i < PointerBEntry_entries e \<Longrightarrow> leaf_ok (leaf_of h (entrys e i))"
  by (auto simp: ordered_def bflat_eq)

lemma PointerBEntry_Update_correct:
  assumes wf: "bentry_wf h e" and ord: "ordered (bflat h e)" and dist: "distinct (bptrs e)"
    and hw: "bheap_wf h"
  obtains (missing) "leaf_map (bflat h e) k = None" "PointerBEntry_Update h e k v old = (False, old, h)"
  | (found) w h' where "leaf_map (bflat h e) k = Some w"
      "PointerBEntry_Update h e k v old = (True, w, h')"
      "lstep k (Some v) (bflat h e) (bflat h' e)" "bentry_wf h' e"
      "heap_step (set (bptrs e)) h h'" "next_free h' = next_free h"
proof -
  define x where "x = entrys e (PointerBEntry_Find_pos e k)"
  let ?b = "store h (pointer x)"
  have pos: "PointerBEntry_Find_pos e k < PointerBEntry_entries e" by (rule Find_pos_less [OF wf])
  then have node: "eentry_IsValid x" "buncket_wf ?b" "pointer x \<in> set (bptrs e)"
    using bentry_wf_node [OF wf pos] by (auto simp: x_def bptrs_eq)
  have upd: "PointerBEntry_Update h e k v old = (let (ret, old', b) = UnSortBuncket_Update ?b k v old
      in (ret = OK, old', set_node h (pointer x) b))"
    using node pos wf by (simp add: PointerBEntry_Update_def Let_def x_def bentry_wf_def)
  have look: "leaf_map (bflat h e) k = buncket_map ?b k"
    unfolding x_def by (rule bflat_lookup [OF wf ord])
  show ?thesis
  proof (cases "buncket_map ?b k")
    case None
    then show ?thesis using missing upd look node by (simp add: Update_missing)
  next
    case (Some w)
    obtain q where u: "UnSortBuncket_Update ?b k v old = (OK, w, UnSortBuncket_SetValue ?b q v)"
      and m: "buncket_map (UnSortBuncket_SetValue ?b q v) = (buncket_map ?b)(k \<mapsto> v)"
      using Update_found [OF node(2) Some] .
    let ?b' = "UnSortBuncket_SetValue ?b q v"
    have ok: "leaf_ok (leaf_of h x)" unfolding x_def by (rule leaf_ok_at [OF ord pos])
    then have ok': "leaf_ok \<lparr>sep = entry_key x, lkvs = kvs ?b', lrep = set (rep_keys ?b')\<rparr>"
      by (simp add: leaf_ok_def leaf_of_def SetValue_rep_keys SetValue_fst_kvs image_set del: set_map)
    have "lstep k (Some v) [leaf_of h x] [\<lparr>sep = entry_key x, lkvs = kvs ?b', lrep = set (rep_keys ?b')\<rparr>]"
      using ok' m by (auto simp: lstep_def ordered_Cons leaf_of_def SetValue_rep_keys buncket_map_def)
    then have "lstep k (Some v) (bflat h e) (bflat (set_node h (pointer x) ?b') e)"
      unfolding x_def by (rule bflat_step [OF wf ord dist])
    then show ?thesis
      using found [OF _ _ _ bentry_wf_set_node [OF wf SetValue_wf [OF node(2)]]
          heap_step_set_node [OF hw SetValue_wf [OF node(2)] node(3)]] Some look upd u
      by simp
  qed
qed

lemma PointerBEntry_Delete_correct:
  assumes wf: "bentry_wf h e" and ord: "ordered (bflat h e)" and dist: "distinct (bptrs e)"
    and hw: "bheap_wf h"
  obtains (missing) "leaf_map (bflat h e) k = None" "PointerBEntry_Delete h e k out = (False, out, h)"
  | (found) w h' where "leaf_map (bflat h e) k = Some w"
      "PointerBEntry_Delete h e k out = (True, set_out out w, h')"
      "lstep k None (bflat h e) (bflat h' e)" "bentry_wf h' e"
      "heap_step (set (bptrs e)) h h'" "next_free h' = next_free h"
proof -
  define x where "x = entrys e (PointerBEntry_Find_pos e k)"
  let ?b = "store h (pointer x)"
  have pos: "PointerBEntry_Find_pos e k < PointerBEntry_entries e" by (rule Find_pos_less [OF wf])
  then have node: "eentry_IsValid x" "buncket_wf ?b" "pointer x \<in> set (bptrs e)"
    using bentry_wf_node [OF wf pos] by (auto simp: x_def bptrs_eq)
  have del: "PointerBEntry_Delete h e k out = (let (ret, out', b) = UnSortBuncket_Delete ?b k out
      in (ret = OK, out', set_node h (pointer x) b))"
    using node pos wf by (simp add: PointerBEntry_Delete_def Let_def x_def bentry_wf_def)
  have look: "leaf_map (bflat h e) k = buncket_map ?b k"
    unfolding x_def by (rule bflat_lookup [OF wf ord])
  show ?thesis
  proof (cases "buncket_map ?b k")
    case None
    then show ?thesis using missing del look node by (simp add: Delete_missing)
  next
    case (Some w)
    define b' where "b' = snd (snd (UnSortBuncket_Delete ?b k out))"
    note d = Delete_found [OF node(2) Some, of out, folded b'_def]
    note m = Delete_map [OF node(2) Some, of out, folded b'_def]
    have ok: "leaf_ok (leaf_of h x)" unfolding x_def by (rule leaf_ok_at [OF ord pos])
    have "fst ` set (kvs b') \<subseteq> set (rep_keys b')"
      by (cases "entries b' = 0") (auto simp: rep_keys_live kvs_def live_def)
    then have ok': "leaf_ok \<lparr>sep = entry_key x, lkvs = kvs b', lrep = set (rep_keys b')\<rparr>"
      using ok d(3,4) by (auto simp: leaf_ok_def leaf_of_def buncket_wf_def)
    have "lstep k None [leaf_of h x] [\<lparr>sep = entry_key x, lkvs = kvs b', lrep = set (rep_keys b')\<rparr>]"
      using ok' m d(4) by (auto simp: lstep_def ordered_Cons leaf_of_def buncket_map_def)
    then have "lstep k None (bflat h e) (bflat (set_node h (pointer x) b') e)"
      unfolding x_def by (rule bflat_step [OF wf ord dist])
    then show ?thesis
      using found [OF _ _ _ bentry_wf_set_node [OF wf d(3)] heap_step_set_node [OF hw d(3) node(3)]]
        Some look del d(1) by simp
  qed
qed

subsection \<open>Splitting a leaf\<close>

text \<open>The slots after a split, seen through a function that ignores the slot counter.\<close>

lemma split_slots:
  assumes pos: "pos < PointerBEntry_entries e"
    and ex: "UnSortBuncket_Expand h (pointer (entrys e pos)) = (h', q, split)"
    and g: "\<And>x n. g (x\<lparr>buf_entries := n\<rparr>) = g x"
  defines "e' \<equiv> snd (PointerBEntry_split h e pos)"
  shows "map g (PointerBEntry_EntryIter e') =
    map g (take (Suc pos) (PointerBEntry_EntryIter e)) @
    [g ((entrys e (Suc pos))\<lparr>entry_key := split, pointer := q, prefix_bytes := 0, suffix_bytes := 8\<rparr>)] @
    map g (drop (Suc pos) (PointerBEntry_EntryIter e))" (is "?L = ?R")
proof (rule nth_equalityI)
  let ?n = "PointerBEntry_entries e"
  have n: "PointerBEntry_entries e' = Suc ?n" by (simp add: e'_def PointerBEntry_split_entries)
  then show "length ?L = length ?R" using pos by (simp add: EntryIter_eq)
  let ?new = "(entrys e (Suc pos))\<lparr>entry_key := split, pointer := q, prefix_bytes := 0, suffix_bytes := 8\<rparr>"
  have slots: "g (entrys e' i) =
      (if i = Suc pos then g ?new else if Suc pos < i \<and> i \<le> ?n then g (entrys e (i - 1)) else g (entrys e i))" for i
    using ex pos unfolding e'_def PointerBEntry_split_def
    by (auto simp: Let_def shift_entrys_apply g)
  fix i assume "i < length ?L"
  then have i: "i < Suc ?n" using n by (simp add: EntryIter_eq)
  consider "i < Suc pos" | "i = Suc pos" | "Suc pos < i" by linarith
  then show "?L ! i = ?R ! i"
  proof cases
    case 1
    then show ?thesis using i n pos by (simp add: EntryIter_eq slots nth_append)
  next
    case 2
    then show ?thesis using i n pos by (simp add: EntryIter_eq slots nth_append)
  next
    case 3
    then obtain j where j: "i = Suc (Suc pos) + j" by (metis Suc_leI le_iff_add)
    then have "i \<le> ?n" "i - 1 = Suc (pos + j)" using i by auto
    then show ?thesis using i n pos j by (simp add: EntryIter_eq slots nth_append del: upt_Suc)
  qed
qed

lemma PointerBEntry_split_heap:
  "UnSortBuncket_Expand h (pointer (entrys e pos)) = (h', q, split) \<Longrightarrow>
   fst (PointerBEntry_split h e pos) = h'"
  by (simp add: PointerBEntry_split_def Let_def shift_entrys_apply)

lemma split_bptrs:
  assumes "pos < PointerBEntry_entries e" and "pointer (entrys e pos) < next_free h"
  shows "bptrs (snd (PointerBEntry_split h e pos)) =
    take (Suc pos) (bptrs e) @ [next_free h] @ drop (Suc pos) (bptrs e)"
proof -
  obtain h' q split where ex: "UnSortBuncket_Expand h (pointer (entrys e pos)) = (h', q, split)"
    by (metis prod_cases3)
  show ?thesis
    using split_slots [OF assms(1) ex, of pointer] Expand_heap(1) [OF assms(2) ex]
    by (simp add: bptrs_def take_map drop_map)
qed

text \<open>
  Splitting a leaf with at least two records is a local step that leaves the map alone.
\<close>

lemma lkvs_subset_rep: "fst ` set (kvs b) \<subseteq> set (rep_keys b)"
  by (cases "entries b = 0") (auto simp: rep_keys_live kvs_def live_def)

lemma Expand_lstep:
  assumes wf: "buncket_wf (store h (pointer x))" and two: "2 \<le> entries (store h (pointer x))"
    and p: "pointer x < next_free h" and hw: "bheap_wf h" and ok: "leaf_ok (leaf_of h x)"
    and ex: "UnSortBuncket_Expand h (pointer x) = (h', q, split)"
    and y: "entry_key y = split" "pointer y = q"
  shows "lstep k (map_of (lkvs (leaf_of h x)) k) [leaf_of h x] [leaf_of h' x, leaf_of h' y]"
    and "buncket_wf (store h' (pointer x))" and "buncket_wf (store h' q)"
    and "entries (store h' (pointer x)) < entry_count" and "entries (store h' q) < entry_count"
proof -
  let ?b = "store h (pointer x)" and ?lo = "store h' (pointer x)" and ?hi = "store h' q"
  note heap = Expand_heap [OF p ex]
  have raw: "length (records (store h q)) = entry_count" using hw by (simp add: bheap_wf_def)
  note half = Expand_halves(1,3) [OF wf two raw, of q, folded heap(6), folded heap(4)]
    Expand_halves(2,4) [OF wf two raw, folded heap(6), folded heap(5)]
    Expand_halves(5) [OF wf two raw, folded heap(6)]
  show wf': "buncket_wf ?lo" "buncket_wf ?hi" using half by auto
  have ent: "entries ?lo = entries ?b div 2" "entries ?hi = entries ?b - entries ?b div 2"
    by (simp_all add: heap(4,5) Expand_this_def Expand_next_def)
  then show "entries ?lo < entry_count" "entries ?hi < entry_count"
    using wf two by (auto simp: buncket_wf_def)
  have rep: "set (rep_keys ?lo) = fst ` set (kvs ?lo)" "set (rep_keys ?hi) = fst ` set (kvs ?hi)"
    "set (rep_keys ?b) = fst ` set (kvs ?b)"
    using ent two by (auto simp: rep_keys_live)
  have lo: "set (kvs ?lo) = {kv \<in> set (kvs ?b). fst kv < split}"
    and hi: "set (kvs ?hi) = {kv \<in> set (kvs ?b). \<not> fst kv < split}"
    using half(1,3) [THEN arg_cong, of set_mset] by simp_all
  have dist: "distinct (map fst (kvs ?lo))" "distinct (map fst (kvs ?hi))"
    using wf' by (auto simp: buncket_wf_def)
  have s: "split \<in> fst ` set (kvs ?b)" by (rule half(5))
  have above: "entry_key x \<le> fst kv" if "kv \<in> set (kvs ?b)" for kv
    using ok lkvs_subset_rep [of ?b] that by (force simp: leaf_ok_def leaf_of_def)
  show "lstep k (map_of (lkvs (leaf_of h x)) k) [leaf_of h x] [leaf_of h' x, leaf_of h' y]"
  proof (rule lstep_split [OF ok])
    have "entry_key x \<le> z" if "z \<in> set (rep_keys ?lo)" for z
      using that above unfolding rep(1) lo by blast
    then show "leaf_ok (leaf_of h' x)"
      using dist(1) rep(1) by (simp add: leaf_ok_def leaf_of_def)
    have "split \<le> z" if "z \<in> set (rep_keys ?hi)" for z
      using that unfolding rep(2) hi by auto
    then show "leaf_ok (leaf_of h' y)"
      using dist(2) rep(2) y by (simp add: leaf_ok_def leaf_of_def)
    have "kvs ?lo \<noteq> []"
      using length_kvs [OF wf'(1)] ent(1) two by (metis list.size(3) div_greater_zero_iff
          not_gr_zero zero_less_numeral)
    then obtain kv where "kv \<in> set (kvs ?lo)" by (cases "kvs ?lo") auto
    then have "kv \<in> set (kvs ?b)" "fst kv < split" unfolding lo by auto
    then have "entry_key x < split" using above by (meson le_less_trans)
    moreover have "z < split" if "z \<in> set (rep_keys ?lo)" for z
      using that unfolding rep(1) lo by auto
    ultimately show "leaf_before (leaf_of h' x) (leaf_of h' y)"
      using y by (simp add: leaf_before_def leaf_of_def)
    show "sep (leaf_of h' y) \<in> lrep (leaf_of h x)"
      using s rep(3) y by (simp add: leaf_of_def)
    show "lrep (leaf_of h' x) \<subseteq> lrep (leaf_of h x)"
      unfolding leaf_of_def leaf.simps rep lo by blast
    show "lrep (leaf_of h' y) \<subseteq> lrep (leaf_of h x)"
      unfolding leaf_of_def leaf.simps rep y hi by blast
    show "set (lkvs (leaf_of h x)) = set (lkvs (leaf_of h' x)) \<union> set (lkvs (leaf_of h' y))"
      unfolding leaf_of_def leaf.simps y lo hi by blast
  qed simp
qed

lemma split_leaves:
  assumes wf: "bentry_wf h e" and dist: "distinct (bptrs e)" and pos: "pos < PointerBEntry_entries e"
    and ex: "UnSortBuncket_Expand h (pointer (entrys e pos)) = (h', q, split)"
  defines "e' \<equiv> snd (PointerBEntry_split h e pos)"
    and "y \<equiv> (entrys e (Suc pos))\<lparr>entry_key := split, pointer := q, prefix_bytes := 0, suffix_bytes := 8\<rparr>"
  shows "bflat h' e' = take pos (bflat h e) @ [leaf_of h' (entrys e pos), leaf_of h' y] @
      drop (Suc pos) (bflat h e)"
proof -
  let ?xs = "PointerBEntry_EntryIter e"
  have p: "pointer (entrys e pos) < next_free h" using bentry_wf_node [OF wf pos] by simp
  note heap = Expand_heap [OF p ex]
  have same: "leaf_of h' (entrys e i) = leaf_of h (entrys e i)" if i: "i < PointerBEntry_entries e" "i \<noteq> pos" for i
  proof -
    have "pointer (entrys e i) \<noteq> pointer (entrys e pos)" using bptrs_nth_eq [OF dist i(1) pos] i(2) by blast
    moreover have "pointer (entrys e i) \<noteq> q" using bentry_wf_node [OF wf i(1)] heap(1) by simp
    ultimately show ?thesis using heap(3) by (simp add: leaf_of_def)
  qed
  have "map (leaf_of h') (take (Suc pos) ?xs) = take pos (bflat h e) @ [leaf_of h' (entrys e pos)]"
    using pos same by (simp add: EntryIter_eq bflat_eq take_Suc_conv_app_nth take_map)
  moreover have "map (leaf_of h') (drop (Suc pos) ?xs) = drop (Suc pos) (bflat h e)"
    using same by (simp add: EntryIter_eq bflat_eq drop_map)
  ultimately show ?thesis
    using split_slots [OF pos ex, of "leaf_of h'", folded e'_def y_def]
    by (simp add: bflat_def leaf_of_def)
qed

lemma split_ptrs:
  assumes wf: "bentry_wf h e" and dist: "distinct (bptrs e)" and pos: "pos < PointerBEntry_entries e"
  defines "e' \<equiv> snd (PointerBEntry_split h e pos)"
  shows "set (bptrs e') = insert (next_free h) (set (bptrs e))" and "distinct (bptrs e')"
proof -
  have b: "bptrs e' = take (Suc pos) (bptrs e) @ [next_free h] @ drop (Suc pos) (bptrs e)"
    unfolding e'_def using split_bptrs [OF pos] bentry_wf_node [OF wf pos] by simp
  show "set (bptrs e') = insert (next_free h) (set (bptrs e))"
    unfolding b by (metis Un_insert_right append_take_drop_id set_append list.simps(15) append_Cons
        append_Nil)
  have "next_free h \<notin> set (bptrs e)" using wf by (auto simp: bentry_wf_def)
  then show "distinct (bptrs e')"
    unfolding b using dist by (auto simp: set_take_disj_set_drop_if_distinct
        dest: in_set_takeD in_set_dropD)
qed

lemma split_valid:
  assumes wf: "bentry_wf h e" and pos: "pos < PointerBEntry_entries e"
    and x: "x \<in> set (PointerBEntry_EntryIter (snd (PointerBEntry_split h e pos)))"
  shows "eentry_IsValid x"
proof -
  let ?n = "PointerBEntry_entries e"
  obtain h' q split where ex: "UnSortBuncket_Expand h (pointer (entrys e pos)) = (h', q, split)"
    by (metis prod_cases3)
  obtain i where i: "i \<le> ?n" "x = entrys (snd (PointerBEntry_split h e pos)) i"
    using x by (auto simp: EntryIter_eq PointerBEntry_split_entries less_Suc_eq_le simp del: upt_Suc)
  have old: "eentry_IsValid (entrys e j)" if "j < ?n" for j using bentry_wf_node [OF wf that] by simp
  show ?thesis
    using i pos old [of i] old [of "i - 1"] unfolding PointerBEntry_split_def
    by (auto simp: Let_def ex shift_entrys_apply eentry_IsValid_def eentry_meta_def split: if_splits)
qed

lemma split_correct:
  fixes k :: u64
  assumes wf: "bentry_wf h e" and ord: "ordered (bflat h e)" and dist: "distinct (bptrs e)"
    and hw: "bheap_wf h" and room: "PointerBEntry_entries e < pb_entry_count"
  defines "pos \<equiv> PointerBEntry_Find_pos e k"
  assumes two: "2 \<le> entries (store h (pointer (entrys e pos)))"
  defines "h' \<equiv> fst (PointerBEntry_split h e pos)" and "e' \<equiv> snd (PointerBEntry_split h e pos)"
  shows "lstep k (leaf_map (bflat h e) k) (bflat h e) (bflat h' e')"
    and "bentry_wf h' e'" and "heap_step (set (bptrs e)) h h'"
    and "next_free h' = Suc (next_free h)"
    and "entries (store h' (pointer (entrys e' (PointerBEntry_Find_pos e' k)))) < entry_count"
proof -
  let ?x = "entrys e pos" and ?n = "PointerBEntry_entries e"
  have pos: "pos < ?n" unfolding pos_def by (rule Find_pos_less [OF wf])
  note node = bentry_wf_node [OF wf pos]
  obtain q split where ex: "UnSortBuncket_Expand h (pointer ?x) = (h', q, split)"
    using PointerBEntry_split_heap h'_def by (metis prod_cases3)
  define y where "y = (entrys e (Suc pos))\<lparr>entry_key := split, pointer := q, prefix_bytes := 0, suffix_bytes := 8\<rparr>"
  have yq: "entry_key y = split" "pointer y = q" by (simp_all add: y_def)
  have p: "pointer ?x < next_free h" using node by simp
  note heap = Expand_heap [OF p ex]
  note exp = Expand_lstep [OF conjunct2 [OF conjunct2 [OF node]] two p hw leaf_ok_at [OF ord pos] ex yq]
  note leaves = split_leaves [OF wf dist pos ex, folded e'_def y_def]
  note ptrs = split_ptrs [OF wf dist pos, folded e'_def]
  show "next_free h' = Suc (next_free h)" using heap(1,2) by simp
  have wfs: "buncket_wf (store h' z)" if "z \<in> set (bptrs e')" for z
    using that wf exp(2,3) heap(1,3) unfolding ptrs(1) bentry_wf_def by (metis insertE)
  show "bentry_wf h' e'"
    unfolding bentry_wf_def
  proof (intro conjI ballI)
    show "eentry_IsValid x" if "x \<in> set (PointerBEntry_EntryIter e')" for x
      using split_valid [OF wf pos] that by (simp add: e'_def)
    show "z < next_free h'" if "z \<in> set (bptrs e')" for z
      using that wf heap(1,2) unfolding ptrs(1) bentry_wf_def by (metis insertE less_Suc_eq)
  qed (use room wfs in \<open>simp_all add: e'_def PointerBEntry_split_entries\<close>)
  show "heap_step (set (bptrs e)) h h'"
    unfolding heap_step_def bheap_wf_def
  proof (intro conjI allI impI)
    show "length (records (store h' z)) = entry_count" for z
      using exp(2,3) heap(3) hw unfolding buncket_wf_def bheap_wf_def by metis
    show "store h' z = store h z" if "z < next_free h" "z \<notin> set (bptrs e)" for z
      using that heap(1) pos by (intro heap(3)) (auto simp: bptrs_eq)
  qed (use heap(1,2) in simp)
  show "lstep k (leaf_map (bflat h e) k) (bflat h e) (bflat h' e')"
  proof -
    let ?A = "take pos (bflat h e)" and ?B = "drop (Suc pos) (bflat h e)"
    have old: "?A @ [leaf_of h ?x] @ ?B = bflat h e" by (rule bflat_at [OF pos, symmetric])
    have fits: "fits k ?A [leaf_of h ?x] ?B" unfolding pos_def by (rule Find_pos_fits [OF wf ord])
    have lm: "map_of (lkvs (leaf_of h ?x)) k = leaf_map (bflat h e) k"
      using bflat_lookup [OF wf ord, of k] by (simp add: leaf_of_def buncket_map_def pos_def)
    have "lstep k (leaf_map (bflat h e) k) (?A @ [leaf_of h ?x] @ ?B)
        (?A @ [leaf_of h' ?x, leaf_of h' y] @ ?B)"
      by (rule lstep_context [OF _ _ fits exp(1) [of k, unfolded lm]])
        (simp_all only: old ord list.distinct not_False_eq_True)
    then show ?thesis by (simp only: old leaves)
  qed
  have "PointerBEntry_Find_pos e' k \<in> {pos, Suc pos}"
  proof -
    let ?ks = "map sep (bflat h e)"
    have "map sep (bflat h' e') = take (Suc pos) ?ks @ [split] @ drop (Suc pos) ?ks"
      unfolding leaves using pos yq
      by (simp add: take_map drop_map take_Suc_conv_app_nth bflat_nth)
    moreover have "pos = slot ?ks k" unfolding pos_def by (rule Find_pos_eq)
    moreover have "sorted ?ks" using ordered_sorted [OF ord] by (rule strict_sorted_imp_sorted)
    ultimately show ?thesis
      using slot_insert [of ?ks k split] pos Find_pos_eq [of e' k h'] by simp
  qed
  moreover have "pointer (entrys e' pos) = pointer ?x" "pointer (entrys e' (Suc pos)) = q"
    using pos unfolding e'_def PointerBEntry_split_def
    by (auto simp: Let_def ex shift_entrys_apply)
  ultimately show "entries (store h' (pointer (entrys e' (PointerBEntry_Find_pos e' k)))) < entry_count"
    using exp(4,5) by auto
qed

subsection \<open>Insertion\<close>

text \<open>
  Insertion of a new key into a node with room: the node grows, and the separator of the
  first leaf drops to the key when the key is smaller.
\<close>

abbreviation lower_entry_key :: "PointerBEntry \<Rightarrow> u64 \<Rightarrow> PointerBEntry" where
  "lower_entry_key e k \<equiv> e\<lparr>entrys := (entrys e)(0 := (entrys e 0)\<lparr>entry_key := k\<rparr>)\<rparr>"

lemma lower_entry_key_views [simp]:
  "PointerBEntry_entries (lower_entry_key e k) = PointerBEntry_entries e"
  "bptrs (lower_entry_key e k) = bptrs e"
  by (auto simp: PointerBEntry_entries_def bptrs_eq)

lemma bflat_lower_entry_key:
  "1 \<le> PointerBEntry_entries e \<Longrightarrow> bflat h (lower_entry_key e k) = (bflat h e)[0 := (leaf_of h (entrys e 0))\<lparr>sep := k\<rparr>]"
  by (rule nth_equalityI) (auto simp: bflat_nth nth_list_update leaf_of_def)

lemma bentry_wf_lower_entry_key: "bentry_wf h e \<Longrightarrow> bentry_wf h (lower_entry_key e k)"
  by (auto simp: bentry_wf_def EntryIter_eq eentry_IsValid_def eentry_meta_def)

lemma Put_node_lstep:
  fixes v :: u64
  assumes wf: "buncket_wf b" and room: "entries b < entry_count" and new: "buncket_map b k = None"
    and ok: "leaf_ok \<lparr>sep = s, lkvs = kvs b, lrep = set (rep_keys b)\<rparr>"
  defines "b' \<equiv> snd (UnSortBuncket_Put b k v)"
  shows "lstep k (Some v) [\<lparr>sep = s, lkvs = kvs b, lrep = set (rep_keys b)\<rparr>]
      [\<lparr>sep = min s k, lkvs = kvs b', lrep = set (rep_keys b')\<rparr>]"
proof -
  note room' = Put_room [OF wf room, of k v, folded b'_def]
  have rep: "set (rep_keys b') \<subseteq> insert k (set (rep_keys b))"
    unfolding room'(4) by auto
  have wf': "buncket_wf b'" unfolding b'_def by (rule Put_wf [OF wf room new])
  have "leaf_ok \<lparr>sep = min s k, lkvs = kvs b', lrep = set (rep_keys b')\<rparr>"
    using rep ok wf' lkvs_subset_rep [of b'] by (auto simp: leaf_ok_def buncket_wf_def min_le_iff_disj)
  moreover have "min s k \<in> {s, k}" by (auto simp: min_def)
  moreover have "map_of (kvs b') = (map_of (kvs b))(k \<mapsto> v)"
    using Put_map [OF wf room new, of v] by (simp add: buncket_map_def b'_def)
  ultimately show ?thesis using rep by (auto simp: lstep_def ordered_Cons)
qed

lemma Find_pos_key:
  assumes wf: "bentry_wf h e" and ord: "ordered (bflat h e)"
  shows "k < PointerBEntry_entry_key e \<Longrightarrow> PointerBEntry_Find_pos e k = 0"
    and "\<not> k < PointerBEntry_entry_key e \<Longrightarrow> entry_key (entrys e (PointerBEntry_Find_pos e k)) \<le> k"
proof -
  let ?ks = "map sep (bflat h e)" and ?pos = "PointerBEntry_Find_pos e k"
  have pos: "?pos = slot ?ks k" "?pos < PointerBEntry_entries e"
    using Find_pos_eq Find_pos_less [OF wf] by simp_all
  have first: "?ks ! 0 = PointerBEntry_entry_key e"
    using pos(2) by (simp add: bflat_nth PointerBEntry_entry_key_def)
  have sorted: "sorted ?ks" using ordered_sorted [OF ord] by (rule strict_sorted_imp_sorted)
  show "?pos = 0" if "k < PointerBEntry_entry_key e"
  proof (rule ccontr)
    assume "?pos \<noteq> 0"
    then have "?ks ! ?pos \<le> k" using slot_at [of ?ks k] pos(1) by simp
    moreover have "?ks ! 0 \<le> ?ks ! ?pos" using sorted_nth_mono [OF sorted, of 0 ?pos] pos(2) by simp
    ultimately show False using that first by simp
  qed
  show "entry_key (entrys e ?pos) \<le> k" if "\<not> k < PointerBEntry_entry_key e"
    using slot_at_first [of ?ks k] that first pos bflat_ne [OF wf] by (simp add: bflat_nth not_less)
qed

lemma Put_room_correct:
  assumes wf: "bentry_wf h e" and ord: "ordered (bflat h e)" and dist: "distinct (bptrs e)"
    and hw: "bheap_wf h" and new: "leaf_map (bflat h e) k = None"
    and room: "entries (store h (pointer (entrys e (PointerBEntry_Find_pos e k)))) < entry_count"
  obtains h' e' where "PointerBEntry_Put h e k v s = (OK, h', e', s)"
    "lstep k (Some v) (bflat h e) (bflat h' e')" "bentry_wf h' e'"
    "heap_step (set (bptrs e)) h h'" "next_free h' = next_free h" "bptrs e' = bptrs e"
proof -
  define pos where "pos = PointerBEntry_Find_pos e k"
  let ?x = "entrys e pos" and ?n = "PointerBEntry_entries e"
  let ?b = "store h (pointer ?x)"
  define b' where "b' = snd (UnSortBuncket_Put ?b k v)"
  define h' where "h' = set_node h (pointer ?x) b'"
  define e' where "e' = (if k < PointerBEntry_entry_key e then lower_entry_key e k else e)"
  have pos: "pos < ?n" unfolding pos_def by (rule Find_pos_less [OF wf])
  have node: "buncket_wf ?b" "pointer ?x \<in> set (bptrs e)"
    using bentry_wf_node [OF wf pos] pos by (auto simp: bptrs_eq)
  have look: "buncket_map ?b k = None" using new bflat_lookup [OF wf ord, of k] by (simp add: pos_def)
  note room' = room [folded pos_def]
  have put: "UnSortBuncket_Put ?b k v = (OK, b')"
    using Put_room(1) [OF node(1) room', of k v] by (simp add: b'_def prod_eq_iff)
  have wf': "buncket_wf b'" unfolding b'_def by (rule Put_wf [OF node(1) room' look])
  have res: "PointerBEntry_Put h e k v s = (OK, h', e', s)"
    by (subst PointerBEntry_Put.simps) (simp add: Let_def put h'_def e'_def flip: pos_def)
  have leaf: "\<lparr>sep = entry_key ?x, lkvs = kvs ?b, lrep = set (rep_keys ?b)\<rparr> = leaf_of h ?x"
    by (simp add: leaf_of_def)
  have step: "lstep k (Some v) [leaf_of h ?x]
      [\<lparr>sep = min (entry_key ?x) k, lkvs = kvs b', lrep = set (rep_keys b')\<rparr>]" (is "lstep _ _ _ [?y]")
    using Put_node_lstep [OF node(1) room' look, of "entry_key ?x" v] leaf_ok_at [OF ord pos]
    by (simp add: b'_def leaf)
  have flat: "bflat h' e' = (bflat h e)[pos := ?y]"
  proof (cases "k < PointerBEntry_entry_key e")
    case True
    then have "pos = 0" unfolding pos_def by (rule Find_pos_key(1) [OF wf ord])
    then show ?thesis
      using True pos bflat_set_node [OF dist pos, of h b'] unfolding h'_def e'_def
      by (simp add: bflat_lower_entry_key leaf_of_def PointerBEntry_entry_key_def min_absorb2)
  next
    case False
    then have "min (entry_key ?x) k = entry_key ?x"
      unfolding pos_def by (intro min_absorb1 Find_pos_key(2) [OF wf ord])
    then show ?thesis using False bflat_set_node [OF dist pos, of h b'] by (simp add: h'_def e'_def)
  qed
  show ?thesis
  proof
    let ?A = "take pos (bflat h e)" and ?B = "drop (Suc pos) (bflat h e)"
    have old: "?A @ [leaf_of h ?x] @ ?B = bflat h e" by (rule bflat_at [OF pos, symmetric])
    have fits: "fits k ?A [leaf_of h ?x] ?B" unfolding pos_def by (rule Find_pos_fits [OF wf ord])
    have "lstep k (Some v) (?A @ [leaf_of h ?x] @ ?B) (?A @ [?y] @ ?B)"
      by (rule lstep_context [OF _ _ fits step]) (simp_all only: old ord list.distinct not_False_eq_True)
    moreover have "?A @ [?y] @ ?B = bflat h' e'"
      unfolding flat using pos by (simp add: list_update_split)
    ultimately show "lstep k (Some v) (bflat h e) (bflat h' e')" by (simp only: old)
    show "bentry_wf h' e'"
      unfolding h'_def e'_def using bentry_wf_set_node [OF wf wf'] by (simp add: bentry_wf_lower_entry_key)
    show "heap_step (set (bptrs e)) h h'"
      unfolding h'_def by (rule heap_step_set_node [OF hw wf' node(2)])
  qed (use res in \<open>simp_all add: h'_def e'_def\<close>)
qed

text \<open>
  \<^verbatim>\<open>Put\<close> of a new key: it fails only when all four leaves are in use and the leaf of the key is
  full, and then changes nothing; otherwise it succeeds after at most one split.
\<close>

theorem PointerBEntry_Put_correct:
  assumes wf: "bentry_wf h e" and ord: "ordered (bflat h e)" and dist: "distinct (bptrs e)"
    and hw: "bheap_wf h" and new: "leaf_map (bflat h e) k = None"
  obtains (full) "PointerBEntry_entries e = pb_entry_count" "PointerBEntry_Put h e k v s = (Full, h, e, s)"
  | (ok) h' e' s' where "PointerBEntry_Put h e k v s = (OK, h', e', s')"
      "lstep k (Some v) (bflat h e) (bflat h' e')" "bentry_wf h' e'" "heap_step (set (bptrs e)) h h'"
      "distinct (bptrs e')" "set (bptrs e') \<subseteq> set (bptrs e) \<union> {next_free h..<next_free h'}"
      "(PointerBEntry_entries e' = PointerBEntry_entries e \<and> s' = s) \<or>
       (PointerBEntry_entries e' = Suc (PointerBEntry_entries e) \<and> s')"
proof -
  define pos where "pos = PointerBEntry_Find_pos e k"
  let ?b = "store h (pointer (entrys e pos))"
  have pos: "pos < PointerBEntry_entries e" unfolding pos_def by (rule Find_pos_less [OF wf])
  have node: "buncket_wf ?b" using bentry_wf_node [OF wf pos] by simp
  have len: "length (bflat h e) = length (bptrs e)" for h e by (simp add: bptrs_eq)
  consider "entries ?b < entry_count" | "entries ?b = entry_count" "PointerBEntry_entries e = pb_entry_count"
    | "entries ?b = entry_count" "PointerBEntry_entries e < pb_entry_count"
    using node wf by (fastforce simp: buncket_wf_def bentry_wf_def)
  then show ?thesis
  proof cases
    case 1
    obtain h' e' where "PointerBEntry_Put h e k v s = (OK, h', e', s)"
      "lstep k (Some v) (bflat h e) (bflat h' e')" "bentry_wf h' e'"
      "heap_step (set (bptrs e)) h h'" "next_free h' = next_free h" "bptrs e' = bptrs e"
      using Put_room_correct [OF wf ord dist hw new, of v s] 1 by (auto simp: pos_def)
    then show ?thesis using ok [of h' e' s] dist len [of h e] len [of h e'] by simp
  next
    case 2
    have "PointerBEntry_Put h e k v s = (Full, h, e, s)"
      by (subst PointerBEntry_Put.simps) (simp add: Put_full [OF node 2(1)] 2(2) Let_def flip: pos_def)
    then show ?thesis using full 2(2) by simp
  next
    case 3
    define h1 where "h1 = fst (PointerBEntry_split h e pos)"
    define e1 where "e1 = snd (PointerBEntry_split h e pos)"
    have "2 \<le> entries ?b" using 3(1) by simp
    note sp = split_correct [OF wf ord dist hw 3(2), of k, folded pos_def, OF this, folded h1_def e1_def]
    note pt = split_ptrs [OF wf dist pos, folded e1_def]
    have new1: "leaf_map (bflat h1 e1) k = None" using lstep_map [OF sp(1)] new by simp
    have hw1: "bheap_wf h1" using sp(3) by (simp add: heap_step_def)
    obtain h' e' where put: "PointerBEntry_Put h1 e1 k v True = (OK, h', e', True)"
      "lstep k (Some v) (bflat h1 e1) (bflat h' e')" "bentry_wf h' e'"
      "heap_step (set (bptrs e1)) h1 h'" "next_free h' = next_free h1" "bptrs e' = bptrs e1"
      using Put_room_correct [OF sp(2) lstep_ordered [OF sp(1)] pt(2) hw1 new1 sp(5), of v True] .
    have res: "PointerBEntry_Put h e k v s = (OK, h', e', True)"
      by (subst PointerBEntry_Put.simps)
        (simp add: Put_full [OF node 3(1)] 3(2) Let_def put(1) flip: pos_def h1_def e1_def)
    show ?thesis
    proof (rule ok [OF res])
      show "lstep k (Some v) (bflat h e) (bflat h' e')" by (rule lstep_trans [OF sp(1) put(2)])
      show "heap_step (set (bptrs e)) h h'"
        using pt(1) by (intro heap_step_trans [OF sp(3) put(4)]) auto
      show "(PointerBEntry_entries e' = PointerBEntry_entries e \<and> True = s) \<or>
          (PointerBEntry_entries e' = Suc (PointerBEntry_entries e) \<and> True)"
        using len [of h e'] len [of h e1] put(6) PointerBEntry_split_entries [of h e pos] by (simp add: e1_def)
    qed (use put pt sp(4) in \<open>auto\<close>)
  qed
qed

subsection \<open>Construction and adjustment\<close>

lemma of_eentry_views [simp]:
  "PointerBEntry_entries (PointerBEntry_of_eentry x) = 1"
  "bflat h (PointerBEntry_of_eentry x) = [leaf_of h x]"
  "bptrs (PointerBEntry_of_eentry x) = [pointer x]"
  "PointerBEntry_entry_key (PointerBEntry_of_eentry x) = entry_key x"
  by (simp_all add: PointerBEntry_of_eentry_def PointerBEntry_entries_def bflat_eq bptrs_eq leaf_of_def
      PointerBEntry_entry_key_def)

lemma of_eentry_wf:
  assumes "bentry_wf h e" and "x \<in> set (PointerBEntry_EntryIter e)"
  shows "bentry_wf h (PointerBEntry_of_eentry x)"
proof -
  have "PointerBEntry_EntryIter (PointerBEntry_of_eentry x) = [x\<lparr>buf_entries := 1\<rparr>]"
    by (simp add: EntryIter_eq PointerBEntry_of_eentry_def PointerBEntry_entries_def)
  then show ?thesis
    using assms by (auto simp: bentry_wf_def eentry_IsValid_def eentry_meta_def pb_entry_count_def bptrs_def)
qed

lemma new_kv_views:
  fixes k v :: u64
  assumes "bheap_wf h"
  defines "h' \<equiv> fst (PointerBEntry_new_kv h k v 0)" and "e \<equiv> snd (PointerBEntry_new_kv h k v 0)"
  shows "bflat h' e = [\<lparr>sep = k, lkvs = [(k, v)], lrep = {k}\<rparr>]" and "bentry_wf h' e"
    and "bptrs e = [next_free h]" and "next_free h' = Suc (next_free h)"
    and "x \<noteq> next_free h \<Longrightarrow> store h' x = store h x" and "bheap_wf h'"
    and "PointerBEntry_entries e = 1" and "PointerBEntry_entry_key e = k"
proof -
  let ?p = "next_free h" and ?b = "UnSortBuncket (store h (next_free h))"
  let ?b' = "snd (UnSortBuncket_Put ?b k v)"
  have len: "length (records (store h x)) = entry_count" for x using assms(1) by (simp add: bheap_wf_def)
  have wf: "buncket_wf ?b" 
    using len by (simp add: buncket_wf_def UnSortBuncket_def buf_size_def max_entry_count_param_def kvs_def live_def)
  have b: "entries ?b = 0" "kvs ?b = []" by (simp_all add: UnSortBuncket_def kvs_def live_def)
  have none: "buncket_map ?b k = None" by (simp add: buncket_map_def b)
  note put = Put_room [OF wf, of k v] Put_wf [OF wf _ none, of v]
  have h': "h' = h\<lparr>store := (store h)(?p := ?b'), next_free := Suc ?p\<rparr>"
    and e: "entrys e = (\<lambda>_. zero_eentry)(0 := \<lparr>entry_key = k, pointer = ?p, prefix_bytes = 0,
      suffix_bytes = 8, buf_entries = 1\<rparr>)"
    by (simp_all add: h'_def e_def PointerBEntry_new_kv_def PointerBEntry_new_def new_UnSortBuncket_def Let_def)
  show n: "PointerBEntry_entries e = 1" "PointerBEntry_entry_key e = k"
    by (simp_all add: PointerBEntry_entries_def PointerBEntry_entry_key_def e)
  show p: "bptrs e = [?p]" by (simp add: bptrs_eq n e)
  show "bflat h' e = [\<lparr>sep = k, lkvs = [(k, v)], lrep = {k}\<rparr>]"
    using put(2,4) by (simp add: bflat_eq n e leaf_of_def h' b)
  show "bentry_wf h' e"
    using put(5) b(1) by (simp add: bentry_wf_def n p h' EntryIter_eq e eentry_IsValid_def eentry_meta_def
        pb_entry_count_def)
  show "bheap_wf h'" using len put(5) b(1) by (simp add: bheap_wf_def h' buncket_wf_def)
qed (simp_all add: h'_def PointerBEntry_new_kv_def PointerBEntry_new_def new_UnSortBuncket_def Let_def)

lemma Adjust_views [simp]:
  "PointerBEntry_entries (PointerBEntry_AdjustEntryKey h e) = PointerBEntry_entries e"
  "bptrs (PointerBEntry_AdjustEntryKey h e) = bptrs e"
  by (auto simp: PointerBEntry_AdjustEntryKey_def PointerBEntry_entries_def bptrs_eq)

lemma Adjust_bflat:
  assumes "bentry_wf h e"
  shows "bflat h (PointerBEntry_AdjustEntryKey h e) =
    (hd (bflat h e))\<lparr>sep := Min (lrep (hd (bflat h e)))\<rparr> # tl (bflat h e)" (is "?l = ?r")
proof (rule nth_equalityI)
  have "1 \<le> PointerBEntry_entries e" using assms by (simp add: bentry_wf_def)
  then show "length ?l = length ?r" by simp
  have min: "UnSortBuncket_min_key (store h (pointer (entrys e 0))) =
      Min (set (rep_keys (store h (pointer (entrys e 0)))))"
    using bentry_wf_node [OF assms, of 0] \<open>1 \<le> PointerBEntry_entries e\<close> by (intro min_key_eq) simp
  fix i assume "i < length ?l"
  then show "?l ! i = ?r ! i"
    using bflat_nth [of 0 e h] hd_bflat [OF assms]
    by (cases i) (auto simp: bflat_nth nth_tl PointerBEntry_AdjustEntryKey_def PointerBEntry_Pointer_def
        leaf_of_def min PointerBEntry_entries_def)
qed

lemma Adjust_wf: "bentry_wf h e \<Longrightarrow> bentry_wf h (PointerBEntry_AdjustEntryKey h e)"
  using bentry_wf_lower_entry_key [of h e] by (simp add: PointerBEntry_AdjustEntryKey_def)

section \<open>The entry as a leaf store\<close>

interpretation entry: leaf_store bflat bptrs bentry_wf
proof
  show "bentry_wf h e \<Longrightarrow> p \<in> set (bptrs e) \<Longrightarrow> p < next_free h" for h e p
    by (simp add: bentry_wf_def)
  show "bflat h' e = bflat h e \<and> bentry_wf h' e"
    if "bentry_wf h e" "\<And>p. p \<in> set (bptrs e) \<Longrightarrow> store h' p = store h p" "next_free h \<le> next_free h'" for h e h'
    using bflat_cong [OF that(2)] bentry_wf_cong [OF that] by simp
qed (rule bflat_ne)

abbreviation entry_ok :: "bheap \<Rightarrow> PointerBEntry \<Rightarrow> bool" where
  "entry_ok \<equiv> store_ok bflat bptrs bentry_wf"

abbreviation entry_step ::
  "u64 \<Rightarrow> u64 option \<Rightarrow> bheap \<Rightarrow> PointerBEntry \<Rightarrow> bheap \<Rightarrow> PointerBEntry \<Rightarrow> bool" where
  "entry_step \<equiv> store_step bflat bptrs bentry_wf"

lemma entry_Get:
  "entry_ok h e \<Longrightarrow> PointerBEntry_Get h e k v =
     (case leaf_map (bflat h e) k of None \<Rightarrow> (False, v) | Some w \<Rightarrow> (True, w))"
  by (rule PointerBEntry_Get_correct) (simp_all add: store_ok_def)

lemma entry_Update:
  assumes "entry_ok h e"
  obtains (missing) "leaf_map (bflat h e) k = None" "PointerBEntry_Update h e k v old = (False, old, h)"
  | (found) w h' where "leaf_map (bflat h e) k = Some w"
      "PointerBEntry_Update h e k v old = (True, w, h')" "entry_step k (Some v) h e h' e"
  using assms unfolding store_ok_def
  by (elim conjE) (erule (3) PointerBEntry_Update_correct [of h e k v old],
      use assms in \<open>auto simp: store_step_def store_ok_def\<close>)

lemma entry_Delete:
  assumes "entry_ok h e"
  obtains (missing) "leaf_map (bflat h e) k = None" "PointerBEntry_Delete h e k out = (False, out, h)"
  | (found) w h' where "leaf_map (bflat h e) k = Some w"
      "PointerBEntry_Delete h e k out = (True, set_out out w, h')" "entry_step k None h e h' e"
  using assms unfolding store_ok_def
  by (elim conjE) (erule (3) PointerBEntry_Delete_correct [of h e k out],
      use assms in \<open>auto simp: store_step_def store_ok_def\<close>)

lemma entry_Put:
  assumes "entry_ok h e" and "leaf_map (bflat h e) k = None"
  obtains (full) "PointerBEntry_entries e = pb_entry_count" "PointerBEntry_Put h e k v s = (Full, h, e, s)"
  | (ok) h' e' s' where "PointerBEntry_Put h e k v s = (OK, h', e', s')" "entry_step k (Some v) h e h' e'"
      "(PointerBEntry_entries e' = PointerBEntry_entries e \<and> s' = s) \<or>
       (PointerBEntry_entries e' = Suc (PointerBEntry_entries e) \<and> s')"
proof -
  have a: "bentry_wf h e" "ordered (bflat h e)" "distinct (bptrs e)" "bheap_wf h"
    using assms(1) by (simp_all add: store_ok_def)
  show ?thesis
    by (rule PointerBEntry_Put_correct [OF a assms(2), of v s])
      (use full ok in \<open>auto simp: store_step_def\<close>)
qed

end
