(* ===== verification/Rmi_Model.thy ===== *)
theory Rmi_Model
  imports Nali_Prelude Complex_Main
begin

text \<open>
  The learned model of \<^verbatim>\<open>src/src/rmi_model.h\<close>: \<^verbatim>\<open>LinearModel\<close>, \<^verbatim>\<open>LinearModelBuilder\<close>,
  \<^verbatim>\<open>rmi_line_model\<close> with its sampling \<^verbatim>\<open>builder_t\<close>. Floating point arithmetic of the target
  (\<^verbatim>\<open>double\<close> as \<open>'d\<close>, \<^verbatim>\<open>long double\<close> as \<open>'l\<close>) is a parameter, a record of the operations that the
  code uses. The locale \<open>fp_arith\<close> has the laws of IEEE arithmetic that the index needs, each on the
  arguments for which it holds: infinities and NaNs are not excluded, and the conversion to \<^verbatim>\<open>int\<close> is
  monotone on the values that fit in an \<^verbatim>\<open>int\<close> only. The locale \<open>fp_keys\<close> adds a set of keys that is safe
  for the arithmetic: no model that is trained on such keys predicts a position outside of \<^verbatim>\<open>int\<close> for
  one of them. Exact rational arithmetic with the conversion of x86 (\<^verbatim>\<open>INT_MIN\<close> outside of the
  range) is an instance, with the keys below \<open>2 ^ 31\<close>; larger keys are not safe for it.
\<close>

section \<open>The arithmetic\<close>

record ('d, 'l) fpu =
  d_of_u64 :: "u64 \<Rightarrow> 'd"
  d_of_int :: "int \<Rightarrow> 'd"
  d_add :: "'d \<Rightarrow> 'd \<Rightarrow> 'd"
  d_sub :: "'d \<Rightarrow> 'd \<Rightarrow> 'd"
  d_mul :: "'d \<Rightarrow> 'd \<Rightarrow> 'd"
  d_div :: "'d \<Rightarrow> 'd \<Rightarrow> 'd"
  d_neg :: "'d \<Rightarrow> 'd"
  d_le :: "'d \<Rightarrow> 'd \<Rightarrow> bool"
  d_less :: "'d \<Rightarrow> 'd \<Rightarrow> bool"
  d_max :: 'd
  d_lowest :: 'd
  d_to_int :: "'d \<Rightarrow> 32 word"
  d_to_l :: "'d \<Rightarrow> 'l"
  l_of_u64 :: "u64 \<Rightarrow> 'l"
  l_of_int :: "int \<Rightarrow> 'l"
  l_add :: "'l \<Rightarrow> 'l \<Rightarrow> 'l"
  l_sub :: "'l \<Rightarrow> 'l \<Rightarrow> 'l"
  l_mul :: "'l \<Rightarrow> 'l \<Rightarrow> 'l"
  l_div :: "'l \<Rightarrow> 'l \<Rightarrow> 'l"
  l_eq :: "'l \<Rightarrow> 'l \<Rightarrow> bool"
  l_to_d :: "'l \<Rightarrow> 'd"
  d_finite :: "'d \<Rightarrow> bool"
  d_fits_int :: "'d \<Rightarrow> bool"

text \<open>
  The last two are not operations of the code: a value is neither an infinity nor a NaN, and its
  truncation is representable in \<^verbatim>\<open>int\<close>, the condition under which C++ defines the conversion to \<^verbatim>\<open>int\<close>.
\<close>

text \<open>\<^verbatim>\<open>std::min(a, b)\<close> and \<^verbatim>\<open>std::max(a, b)\<close> on \<^verbatim>\<open>double\<close>; the conversion of a \<^verbatim>\<open>size_t\<close> to \<^verbatim>\<open>int\<close>.\<close>

definition d_std_min :: "('d, 'l) fpu \<Rightarrow> 'd \<Rightarrow> 'd \<Rightarrow> 'd" where
  "d_std_min F a b = (if d_less F b a then b else a)"

definition d_std_max :: "('d, 'l) fpu \<Rightarrow> 'd \<Rightarrow> 'd \<Rightarrow> 'd" where
  "d_std_max F a b = (if d_less F a b then b else a)"

definition size_to_int :: "nat \<Rightarrow> int" where
  "size_to_int i = sint (word_of_nat i :: 32 word)"

section \<open>Models and builders\<close>

record 'd LinearModel =
  model_a :: 'd
  model_b :: 'd

definition LinearModel_expand :: "('d, 'l) fpu \<Rightarrow> 'd LinearModel \<Rightarrow> 'd \<Rightarrow> 'd LinearModel" where
  "LinearModel_expand F m expansion_factor =
     \<lparr>model_a = d_mul F (model_a m) expansion_factor, model_b = d_mul F (model_b m) expansion_factor\<rparr>"

definition LinearModel_predict_double :: "('d, 'l) fpu \<Rightarrow> 'd LinearModel \<Rightarrow> u64 \<Rightarrow> 'd" where
  "LinearModel_predict_double F m x = d_add F (d_mul F (model_a m) (d_of_u64 F x)) (model_b m)"

definition LinearModel_predict :: "('d, 'l) fpu \<Rightarrow> 'd LinearModel \<Rightarrow> u64 \<Rightarrow> int" where
  "LinearModel_predict F m x =
     sint (d_to_int F (d_add F (d_mul F (model_a m) (d_of_u64 F x)) (model_b m)))"

record ('d, 'l) LinearModelBuilder =
  lb_count :: nat
  x_sum :: 'l
  y_sum :: 'l
  xx_sum :: 'l
  xy_sum :: 'l
  x_min :: u64
  x_max :: u64
  y_min :: 'd
  y_max :: 'd

text \<open>The member initialisers, which \<^verbatim>\<open>clear()\<close> repeats.\<close>

definition LinearModelBuilder_clear :: "('d, 'l) fpu \<Rightarrow> ('d, 'l) LinearModelBuilder" where
  "LinearModelBuilder_clear F =
     \<lparr>lb_count = 0, x_sum = l_of_int F 0, y_sum = l_of_int F 0, xx_sum = l_of_int F 0,
      xy_sum = l_of_int F 0, x_min = - 1, x_max = 0, y_min = d_max F, y_max = d_lowest F\<rparr>"

definition LinearModelBuilder_add ::
  "('d, 'l) fpu \<Rightarrow> ('d, 'l) LinearModelBuilder \<Rightarrow> u64 \<Rightarrow> int \<Rightarrow> ('d, 'l) LinearModelBuilder" where
  "LinearModelBuilder_add F b x y =
     b\<lparr>lb_count := Suc (lb_count b),
       x_sum := l_add F (x_sum b) (l_of_u64 F x),
       y_sum := l_add F (y_sum b) (l_of_int F y),
       xx_sum := l_add F (xx_sum b) (l_mul F (l_of_u64 F x) (l_of_u64 F x)),
       xy_sum := l_add F (xy_sum b) (l_mul F (l_of_u64 F x) (l_of_int F y)),
       x_min := min x (x_min b),
       x_max := max x (x_max b),
       y_min := d_std_min F (d_of_int F y) (y_min b),
       y_max := d_std_max F (d_of_int F y) (y_max b)\<rparr>"

definition LinearModelBuilder_build :: "('d, 'l) fpu \<Rightarrow> ('d, 'l) LinearModelBuilder \<Rightarrow> 'd LinearModel" where
  "LinearModelBuilder_build F b =
     (let n = l_of_int F (int (lb_count b));
          denom = l_sub F (l_mul F n (xx_sum b)) (l_mul F (x_sum b) (x_sum b))
      in if lb_count b \<le> 1 then \<lparr>model_a = d_of_int F 0, model_b = l_to_d F (y_sum b)\<rparr>
         else if l_eq F denom (l_of_int F 0)
         then \<lparr>model_a = d_of_int F 0,
               model_b = d_div F (l_to_d F (y_sum b)) (d_of_int F (int (lb_count b)))\<rparr>
         else let slope = l_to_d F (l_div F (l_sub F (l_mul F n (xy_sum b)) (l_mul F (x_sum b) (y_sum b))) denom);
                  intercept = l_to_d F (l_div F (l_sub F (y_sum b) (l_mul F (d_to_l F slope) (x_sum b))) n)
              in if d_le F slope (d_of_int F 0)
                 then let a = d_div F (d_sub F (y_max b) (y_min b)) (d_of_u64 F (x_max b - x_min b))
                      in \<lparr>model_a = a, model_b = d_mul F (d_neg F (d_of_u64 F (x_min b))) a\<rparr>
                 else \<lparr>model_a = slope, model_b = intercept\<rparr>)"

definition linear_sample :: nat where
  "linear_sample = 8"

text \<open>
  \<^verbatim>\<open>rmi_line_model::init\<close> over the keys \<open>first[0], ..., first[size - 1]\<close>; the constructor
  argument \<^verbatim>\<open>sg_num\<close> is not used by the code.
\<close>

function rmi_line_model_init_loop ::
  "('d, 'l) fpu \<Rightarrow> u64 list \<Rightarrow> nat \<Rightarrow> ('d, 'l) LinearModelBuilder \<Rightarrow> ('d, 'l) LinearModelBuilder" where
  "rmi_line_model_init_loop F first i b =
     (if i < length first
      then rmi_line_model_init_loop F first (i + linear_sample)
             (LinearModelBuilder_add F b (first ! i) (size_to_int i))
      else b)"
  by pat_completeness auto
termination
  by (relation "measure (\<lambda>(F, first, i, b). length first - i)") (auto simp: linear_sample_def)

declare rmi_line_model_init_loop.simps [simp del]

definition rmi_line_model_init :: "('d, 'l) fpu \<Rightarrow> u64 list \<Rightarrow> 'd LinearModel" where
  "rmi_line_model_init F first =
     LinearModelBuilder_build F (rmi_line_model_init_loop F first 0 (LinearModelBuilder_clear F))"

definition rmi_line_model_predict :: "('d, 'l) fpu \<Rightarrow> 'd LinearModel \<Rightarrow> u64 \<Rightarrow> int" where
  "rmi_line_model_predict F m key = LinearModel_predict F m key"

text \<open>\<^verbatim>\<open>rmi_line_model::builder_t\<close>: the inner builder and \<^verbatim>\<open>key_seq\<close>.\<close>

definition builder_t_new :: "('d, 'l) fpu \<Rightarrow> ('d, 'l) LinearModelBuilder \<times> nat" where
  "builder_t_new F = (LinearModelBuilder_clear F, 0)"

definition builder_t_add ::
  "('d, 'l) fpu \<Rightarrow> ('d, 'l) LinearModelBuilder \<times> nat \<Rightarrow> u64 \<Rightarrow> int \<Rightarrow> ('d, 'l) LinearModelBuilder \<times> nat" where
  "builder_t_add F bs key y =
     (if snd bs mod linear_sample = 0 then LinearModelBuilder_add F (fst bs) key y else fst bs,
      Suc (snd bs))"

text \<open>\<^verbatim>\<open>add_one\<close> does not sample.\<close>

definition builder_t_add_one ::
  "('d, 'l) fpu \<Rightarrow> ('d, 'l) LinearModelBuilder \<times> nat \<Rightarrow> u64 \<Rightarrow> int \<Rightarrow> ('d, 'l) LinearModelBuilder \<times> nat" where
  "builder_t_add_one F bs key y = (LinearModelBuilder_add F (fst bs) key y, Suc (snd bs))"

definition builder_t_build :: "('d, 'l) fpu \<Rightarrow> ('d, 'l) LinearModelBuilder \<times> nat \<Rightarrow> 'd LinearModel" where
  "builder_t_build F bs = LinearModelBuilder_build F (fst bs)"

section \<open>Monotone predictions\<close>

text \<open>A builder after some additions of increasing keys: the extrema bracket what was added.\<close>

definition fed :: "('d, 'l) fpu \<Rightarrow> ('d, 'l) LinearModelBuilder \<Rightarrow> bool" where
  "fed F b \<longleftrightarrow> (if lb_count b = 0 then x_max b = 0 else d_le F (y_min b) (y_max b) \<and> x_min b \<le> x_max b) \<and>
     (2 \<le> lb_count b \<longrightarrow> x_min b < x_max b) \<and> d_finite F (y_min b) \<and> d_finite F (y_max b)"

text \<open>The model is made of numbers, and no prediction for a key of \<open>K\<close> overflows.\<close>

definition sound_model :: "('d, 'l) fpu \<Rightarrow> u64 set \<Rightarrow> 'd LinearModel \<Rightarrow> bool" where
  "sound_model F K m \<longleftrightarrow> d_finite F (model_a m) \<and> d_finite F (model_b m) \<and>
     (\<forall>k\<in>K. d_fits_int F (LinearModel_predict_double F m k))"

text \<open>
  What the index relies on: laws of IEEE 754 in round-to-nearest. Comparisons are transitive also
  with infinities and NaNs, and total on finite numbers; the rounded operations are monotone; the
  conversions of integers are finite and monotone. The conversion to \<^verbatim>\<open>int\<close> is monotone where
  C++ defines it. The last three are exact or far from overflow: they concern the weights of a cache.
\<close>

locale fp_arith =
  fixes F :: "('d, 'l) fpu"
  assumes total: "d_finite F x \<Longrightarrow> d_finite F y \<Longrightarrow> d_le F x y \<or> d_le F y x"
    and trans: "d_le F x y \<Longrightarrow> d_le F y z \<Longrightarrow> d_le F x z"
    and less_iff: "d_finite F x \<Longrightarrow> d_finite F y \<Longrightarrow> d_less F x y \<longleftrightarrow> \<not> d_le F y x"
    and finite_of_u64: "d_finite F (d_of_u64 F k)"
    and finite_of_int: "d_finite F (d_of_int F i)"
    and finite_limits: "d_finite F (d_max F)" "d_finite F (d_lowest F)"
    and of_u64_mono: "k \<le> k' \<Longrightarrow> d_le F (d_of_u64 F k) (d_of_u64 F k')"
    and of_u64_pos: "0 < k \<Longrightarrow> d_less F (d_of_int F 0) (d_of_u64 F k)"
    and add_mono: "d_le F x y \<Longrightarrow> d_finite F z \<Longrightarrow> d_le F (d_add F x z) (d_add F y z)"
    and mul_mono: "d_le F (d_of_int F 0) a \<Longrightarrow> d_le F x y \<Longrightarrow> d_finite F a \<Longrightarrow> d_finite F x \<Longrightarrow> d_finite F y \<Longrightarrow>
      d_le F (d_mul F a x) (d_mul F a y)"
    and sub_nonneg: "d_le F x y \<Longrightarrow> d_finite F x \<Longrightarrow> d_finite F y \<Longrightarrow> d_le F (d_of_int F 0) (d_sub F y x)"
    and div_nonneg: "d_le F (d_of_int F 0) x \<Longrightarrow> d_less F (d_of_int F 0) y \<Longrightarrow> d_finite F y \<Longrightarrow>
      d_le F (d_of_int F 0) (d_div F x y)"
    and to_int_mono: "d_le F x y \<Longrightarrow> d_fits_int F x \<Longrightarrow> d_fits_int F y \<Longrightarrow>
      sint (d_to_int F x) \<le> sint (d_to_int F y)"
    and add_zero: "d_add F (d_of_int F 0) (d_of_u64 F k) = d_of_u64 F k"
    and mul_one: "d_mul F (d_of_u64 F k) (d_of_int F 1) = d_of_u64 F k"
    and finite_add_u64: "d_finite F (d_add F (d_of_u64 F k) (d_of_u64 F k'))"
begin

lemma refl: "d_finite F x \<Longrightarrow> d_le F x x"
  using total by blast

lemma fed_clear: "fed F (LinearModelBuilder_clear F)"
  by (simp add: fed_def LinearModelBuilder_clear_def finite_limits)

lemma std_min_max:
  assumes "d_finite F u" and "d_finite F v"
  shows "d_finite F (d_std_min F u v)" "d_finite F (d_std_max F u v)"
    and "d_le F (d_std_min F u v) u" "d_le F u (d_std_max F u v)"
  using assms total [of u v] refl [of u] by (auto simp: d_std_min_def d_std_max_def less_iff)

lemma fed_add:
  assumes "fed F b" and "0 < lb_count b \<Longrightarrow> x_max b < x"
  shows "fed F (LinearModelBuilder_add F b x y)"
proof -
  have fin: "d_finite F (y_min b)" "d_finite F (y_max b)" using assms(1) by (simp_all add: fed_def)
  note mm = std_min_max [OF finite_of_int [of y] fin(1)] std_min_max [OF finite_of_int [of y] fin(2)]
  have "d_le F (d_std_min F (d_of_int F y) (y_min b)) (d_std_max F (d_of_int F y) (y_max b))"
    by (rule trans [OF mm(3,8)])
  moreover have "min x u \<le> max x v" for u v :: u64 by (rule order.trans [of _ x]) simp_all
  ultimately show ?thesis
    using assms mm(1,6) by (auto simp: fed_def LinearModelBuilder_add_def)
qed

lemma build_slope:
  assumes "fed F b" and fin: "d_finite F (model_a (LinearModelBuilder_build F b))"
  shows "d_le F (d_of_int F 0) (model_a (LinearModelBuilder_build F b))"
proof -
  have "d_le F (d_of_int F 0) (d_div F (d_sub F (y_max b) (y_min b)) (d_of_u64 F (x_max b - x_min b)))"
    if "1 < lb_count b"
  proof (intro div_nonneg sub_nonneg of_u64_pos finite_of_u64)
    show "d_le F (y_min b) (y_max b)" "d_finite F (y_min b)" "d_finite F (y_max b)"
      using assms(1) that by (simp_all add: fed_def)
    show "0 < x_max b - x_min b" using assms(1) that by (auto simp: fed_def word_greater_zero_iff)
  qed
  moreover have "d_le F (d_of_int F 0) y" if "d_finite F y" "\<not> d_le F y (d_of_int F 0)" for y
    using total [OF finite_of_int that(1)] that(2) by blast
  ultimately show ?thesis
    using fin refl [OF finite_of_int] by (simp add: LinearModelBuilder_build_def Let_def split: if_splits)
qed

lemma predict_mono:
  assumes "d_le F (d_of_int F 0) (model_a m)" and "sound_model F K m" and "k \<in> K" and "k' \<in> K" and "k \<le> k'"
  shows "rmi_line_model_predict F m k \<le> rmi_line_model_predict F m k'"
  unfolding rmi_line_model_predict_def LinearModel_predict_def
  using assms
  by (intro to_int_mono add_mono mul_mono of_u64_mono finite_of_u64)
    (auto simp: sound_model_def LinearModel_predict_double_def)

text \<open>Training on strictly increasing keys.\<close>

lemma fed_add_max:
  assumes "fed F b" and "0 < lb_count b \<Longrightarrow> x_max b < x"
  shows "x_max (LinearModelBuilder_add F b x y) = x"
  using assms by (auto simp: fed_def LinearModelBuilder_add_def max_def split: if_splits)

lemma init_loop_fed:
  assumes "sorted_wrt (<) ks" and "fed F b"
    and "0 < lb_count b \<Longrightarrow> i < length ks \<Longrightarrow> x_max b < ks ! i"
  shows "fed F (rmi_line_model_init_loop F ks i b)"
  using assms
proof (induction "length ks - i" arbitrary: i b rule: less_induct)
  case less
  show ?case
  proof (cases "i < length ks")
    case True
    let ?b = "LinearModelBuilder_add F b (ks ! i) (size_to_int i)"
    have "ks ! i < ks ! (i + linear_sample)" if "i + linear_sample < length ks"
      using less.prems(1) that by (auto simp: linear_sample_def intro: sorted_wrt_nth_less)
    moreover have "x_max ?b = ks ! i" by (rule fed_add_max) (use less.prems(2,3) True in auto)
    moreover have "fed F ?b" by (rule fed_add) (use less.prems(2,3) True in auto)
    ultimately have "fed F (rmi_line_model_init_loop F ks (i + linear_sample) ?b)"
      using True less.prems(1) by (intro less.hyps) (auto simp: linear_sample_def)
    with True show ?thesis by (subst rmi_line_model_init_loop.simps) simp
  next
    case False
    then show ?thesis using less.prems by (subst rmi_line_model_init_loop.simps) simp
  qed
qed

lemma init_slope:
  "sorted_wrt (<) ks \<Longrightarrow> d_finite F (model_a (rmi_line_model_init F ks)) \<Longrightarrow>
   d_le F (d_of_int F 0) (model_a (rmi_line_model_init F ks))"
  unfolding rmi_line_model_init_def
  by (intro build_slope init_loop_fed fed_clear) (auto simp: LinearModelBuilder_clear_def)

end

text \<open>The sampling builder, fed with the keys at their positions, trains the model of \<^verbatim>\<open>init\<close>.\<close>

lemma builder_is_init_loop:
  "fst (fold (\<lambda>(k, y) bs. builder_t_add F bs k y) (zip (drop i ks) (map size_to_int [i..<length ks])) (b, i)) =
   rmi_line_model_init_loop F ks (linear_sample * ((i + 7) div linear_sample)) b"
proof (induction "length ks - i" arbitrary: i b)
  case 0
  then have "length ks \<le> linear_sample * ((i + 7) div linear_sample)" by (simp add: linear_sample_def)
  then show ?case using 0 by (subst rmi_line_model_init_loop.simps) simp
next
  case (Suc n)
  then have i: "i < length ks" "n = length ks - Suc i" by auto
  let ?b = "fst (builder_t_add F (b, i) (ks ! i) (size_to_int i))"
  let ?up = "\<lambda>i. linear_sample * ((i + 7) div linear_sample)"
  have step: "zip (drop i ks) (map size_to_int [i..<length ks]) =
      (ks ! i, size_to_int i) # zip (drop (Suc i) ks) (map size_to_int [Suc i..<length ks])"
    using i(1) by (simp add: upt_conv_Cons flip: Cons_nth_drop_Suc)
  have "rmi_line_model_init_loop F ks (?up (Suc i)) ?b = rmi_line_model_init_loop F ks (?up i) b"
  proof (cases "i mod linear_sample = 0")
    case True
    then have "?up i = i" "?up (Suc i) = i + linear_sample" unfolding linear_sample_def by presburger+
    then show ?thesis
      using True i(1) by (subst (2) rmi_line_model_init_loop.simps) (simp add: builder_t_add_def)
  next
    case False
    then have up: "?up (Suc i) = ?up i" unfolding linear_sample_def by presburger
    show ?thesis unfolding up using False by (simp add: builder_t_add_def)
  qed
  then show ?case
    using Suc.hyps(1) [OF i(2), of ?b] by (simp add: step builder_t_add_def)
qed

lemma builder_is_init:
  "builder_t_build F (fold (\<lambda>(k, y) bs. builder_t_add F bs k y) (zip ks (map size_to_int [0..<length ks])) (builder_t_new F)) =
   rmi_line_model_init F ks"
  using builder_is_init_loop [of F 0 ks "LinearModelBuilder_clear F"]
  by (simp add: builder_t_build_def builder_t_new_def rmi_line_model_init_def linear_sample_def)

section \<open>Safe keys\<close>

text \<open>
  The keys that a client may use: 0, the separator of the first group, is one, and models trained on
  increasing keys of \<open>K\<close> do not overflow on \<open>K\<close>. Without this the index is not correct: the conversion of
  a larger prediction is undefined, and on x86 such a key lands in the first group.
\<close>

locale fp_keys = fp_arith F for F :: "('d, 'l) fpu" +
  fixes K :: "u64 set"
  assumes zero_key: "0 \<in> K"
    and constant_model: "sound_model F K \<lparr>model_a = d_of_int F 0, model_b = d_of_int F 0\<rparr>"
    and trained: "sorted_wrt (<) ks \<Longrightarrow> set ks \<subseteq> K \<Longrightarrow> sound_model F K (rmi_line_model_init F ks)"
begin

lemma trained_mono:
  assumes "sorted_wrt (<) ks" and "set ks \<subseteq> K" and "k \<in> K" and "k' \<in> K" and "k \<le> k'"
  shows "rmi_line_model_predict F (rmi_line_model_init F ks) k \<le> rmi_line_model_predict F (rmi_line_model_init F ks) k'"
proof (rule predict_mono [OF init_slope [OF assms(1)] trained [OF assms(1,2)] assms(3-5)])
  show "d_finite F (model_a (rmi_line_model_init F ks))" using trained [OF assms(1,2)] by (simp add: sound_model_def)
qed

end


section \<open>Exact arithmetic\<close>

definition trunc_int :: "rat \<Rightarrow> int" where
  "trunc_int x = (if x < 0 then \<lceil>x\<rceil> else \<lfloor>x\<rfloor>)"

text \<open>The conversion of x86: outside of the range of \<^verbatim>\<open>int\<close> the result is \<^verbatim>\<open>INT_MIN\<close>.\<close>

definition in_int32 :: "int \<Rightarrow> bool" where
  "in_int32 i \<longleftrightarrow> - (2 ^ 31) \<le> i \<and> i < 2 ^ 31"

definition x86_int32 :: "int \<Rightarrow> 32 word" where
  "x86_int32 i = word_of_int (if in_int32 i then i else - (2 ^ 31))"

definition rat_fpu :: "(rat, rat) fpu" where
  "rat_fpu = \<lparr>d_of_u64 = (\<lambda>k. of_int (uint k)), d_of_int = of_int, d_add = (+), d_sub = (-), d_mul = (*),
     d_div = (/), d_neg = uminus, d_le = (\<le>), d_less = (<), d_max = 2 ^ 1024, d_lowest = - (2 ^ 1024),
     d_to_int = (\<lambda>x. x86_int32 (trunc_int x)), d_to_l = id, l_of_u64 = (\<lambda>k. of_int (uint k)),
     l_of_int = of_int, l_add = (+), l_sub = (-), l_mul = (*), l_div = (/), l_eq = (=), l_to_d = id,
     d_finite = (\<lambda>x. True), d_fits_int = (\<lambda>x. in_int32 (trunc_int x))\<rparr>"

lemma trunc_int_mono: "x \<le> y \<Longrightarrow> trunc_int x \<le> trunc_int y"
  unfolding trunc_int_def by (auto simp: ceiling_mono floor_mono)
    (meson ceiling_le_zero dual_order.trans less_imp_le not_less zero_le_floor)

lemma sint_x86_int32: "in_int32 i \<Longrightarrow> sint (x86_int32 i) = i"
  unfolding x86_int32_def in_int32_def by (simp add: sint_sbintrunc' signed_take_bit_int_eq_self)

lemma in_int32_trunc: "- (2 ^ 31) < x \<Longrightarrow> x < 2 ^ 31 \<Longrightarrow> in_int32 (trunc_int x)"
  by (simp add: in_int32_def trunc_int_def le_ceiling_iff le_floor_iff ceiling_less_iff floor_less_iff)

interpretation exact: fp_arith rat_fpu
proof
  show "0 < k \<Longrightarrow> d_less rat_fpu (d_of_int rat_fpu 0) (d_of_u64 rat_fpu k)" for k
    by (simp add: rat_fpu_def word_less_def del: of_int_uint)
  show "sint (d_to_int rat_fpu x) \<le> sint (d_to_int rat_fpu y)"
    if "d_le rat_fpu x y" "d_fits_int rat_fpu x" "d_fits_int rat_fpu y" for x y
    using that trunc_int_mono [of x y] by (simp add: rat_fpu_def sint_x86_int32)
qed (auto simp: rat_fpu_def word_le_def mult_left_mono simp del: of_int_uint)

text \<open>
  The regression over the samples \<open>(ks ! 8j, 8j)\<close>. Distinct integer keys grow at least as fast as their
  positions, so that the slope is at most 1 (Chebyshev's sum inequality).
\<close>

abbreviation sample_x :: "u64 list \<Rightarrow> nat \<Rightarrow> rat" where
  "sample_x ks j \<equiv> of_int (uint (ks ! (8 * j)))"

abbreviation sample_y :: "nat \<Rightarrow> rat" where
  "sample_y j \<equiv> of_nat (8 * j)"

definition sampled :: "u64 list \<Rightarrow> nat \<Rightarrow> (rat, rat) LinearModelBuilder \<Rightarrow> bool" where
  "sampled ks n b \<longleftrightarrow> lb_count b = n \<and> x_sum b = (\<Sum>j=0..<n. sample_x ks j) \<and> y_sum b = (\<Sum>j=0..<n. sample_y j) \<and>
     xx_sum b = (\<Sum>j=0..<n. sample_x ks j * sample_x ks j) \<and> xy_sum b = (\<Sum>j=0..<n. sample_x ks j * sample_y j) \<and>
     (if n = 0 then x_min b = - 1 \<and> x_max b = 0 \<and> y_min b = 2 ^ 1024 \<and> y_max b = - (2 ^ 1024)
      else x_min b = ks ! 0 \<and> x_max b = ks ! (8 * (n - 1)) \<and> y_min b = 0 \<and> y_max b = sample_y (n - 1))"

lemma size_to_int_small: "i < 2 ^ 31 \<Longrightarrow> size_to_int i = int i"
proof -
  assume "i < 2 ^ 31"
  moreover have "(word_of_nat i :: 32 word) = word_of_int (int i)" by simp
  ultimately show ?thesis
    unfolding size_to_int_def by (simp only: sint_sbintrunc') (simp add: signed_take_bit_int_eq_self)
qed

lemma sampled_add:
  assumes "sampled ks n b" and "sorted_wrt (<) ks" and "8 * n < length ks" and "length ks \<le> 2 ^ 31"
  shows "sampled ks (Suc n) (LinearModelBuilder_add rat_fpu b (ks ! (8 * n)) (size_to_int (8 * n)))"
proof -
  have y: "size_to_int (8 * n) = int (8 * n)" using assms(3,4) by (intro size_to_int_small) simp
  let ?b = "LinearModelBuilder_add rat_fpu b (ks ! (8 * n)) (int (8 * n))"
  have ext: "x_min ?b = ks ! 0 \<and> x_max ?b = ks ! (8 * n) \<and> y_min ?b = 0 \<and> y_max ?b = sample_y n"
  proof (cases n)
    case 0
    then show ?thesis
      using assms(1) by (simp add: sampled_def LinearModelBuilder_add_def rat_fpu_def d_std_min_def d_std_max_def)
  next
    case (Suc m)
    have "ks ! 0 < ks ! (8 * n)" "ks ! (8 * m) < ks ! (8 * n)"
      using Suc assms(2,3) by (auto intro!: sorted_wrt_nth_less [of "(<)"])
    then show ?thesis
      using assms(1) Suc
      by (simp add: sampled_def LinearModelBuilder_add_def rat_fpu_def d_std_min_def d_std_max_def min_absorb2
          max_absorb1 less_imp_le)
  qed
  then show ?thesis
    using assms(1) unfolding y
    by (simp add: sampled_def) (simp add: LinearModelBuilder_add_def rat_fpu_def)
qed

lemma sampled_init_loop:
  assumes "sampled ks n b" and "sorted_wrt (<) ks" and "length ks \<le> 2 ^ 31" and "n = 0 \<or> 8 * (n - 1) < length ks"
  shows "\<exists>m. sampled ks m (rmi_line_model_init_loop rat_fpu ks (8 * n) b) \<and> (m = 0 \<or> 8 * (m - 1) < length ks)"
  using assms
proof (induction "length ks - 8 * n" arbitrary: n b rule: less_induct)
  case less
  show ?case
  proof (cases "8 * n < length ks")
    case True
    note add = sampled_add [OF less.prems(1,2) True less.prems(3)]
    have "length ks - 8 * Suc n < length ks - 8 * n" using True by simp
    from less.hyps [OF this add less.prems(2,3)] True show ?thesis
      by (subst rmi_line_model_init_loop.simps) (simp add: linear_sample_def add.commute)
  next
    case False
    then show ?thesis using less.prems by (subst rmi_line_model_init_loop.simps) auto
  qed
qed


lemma regression_slope:
  fixes x y :: "nat \<Rightarrow> 'a::linordered_idom"
  assumes "\<And>i j. i \<le> j \<Longrightarrow> j < n \<Longrightarrow> x i \<le> x j" and "\<And>i j. i \<le> j \<Longrightarrow> j < n \<Longrightarrow> x i - y i \<le> x j - y j"
  shows "of_nat n * (\<Sum>j=0..<n. x j * y j) - (\<Sum>j=0..<n. x j) * (\<Sum>j=0..<n. y j) \<le>
      of_nat n * (\<Sum>j=0..<n. x j * x j) - (\<Sum>j=0..<n. x j) * (\<Sum>j=0..<n. x j)"
    and "0 \<le> of_nat n * (\<Sum>j=0..<n. x j * x j) - (\<Sum>j=0..<n. x j) * (\<Sum>j=0..<n. x j)"
proof -
  have "of_nat n * (\<Sum>j=0..<n. x j * (y j - x j)) \<le> (\<Sum>j=0..<n. x j) * (\<Sum>j=0..<n. y j - x j)"
    using assms by (intro Chebyshev_sum_upper) (auto simp: algebra_simps)
  then show "of_nat n * (\<Sum>j=0..<n. x j * y j) - (\<Sum>j=0..<n. x j) * (\<Sum>j=0..<n. y j) \<le>
      of_nat n * (\<Sum>j=0..<n. x j * x j) - (\<Sum>j=0..<n. x j) * (\<Sum>j=0..<n. x j)"
    by (simp add: right_diff_distrib sum_subtractf algebra_simps)
  have "of_nat n * (\<Sum>j=0..<n. x j * - x j) \<le> (\<Sum>j=0..<n. x j) * (\<Sum>j=0..<n. - x j)"
    using assms(1) by (intro Chebyshev_sum_upper) auto
  then show "0 \<le> of_nat n * (\<Sum>j=0..<n. x j * x j) - (\<Sum>j=0..<n. x j) * (\<Sum>j=0..<n. x j)"
    by (simp add: sum_negf)
qed

lemma line_bounds:
  fixes s k X Y B :: "'a::linordered_field"
  assumes "0 \<le> s" "s \<le> 1" "0 \<le> k" "k < B" "0 \<le> Y" "Y \<le> X" "X < B"
  shows "- B < s * k + (Y - s * X)" and "s * k + (Y - s * X) < B"
proof -
  define q where "q = s * (k - X)"
  have "q \<le> max 0 (k - X)" "min 0 (k - X) \<le> q"
    using assms(1,2) mult_right_mono [of s 1 "k - X"] mult_right_mono_neg [of s 1 "k - X"]
      mult_nonneg_nonneg [of s "k - X"] mult_nonneg_nonpos [of s "k - X"]
    by (cases "0 \<le> k - X"; simp add: q_def max_def min_def)+
  then have "- B < Y + q" "Y + q < B" using assms by (auto simp: max_def min_def split: if_splits)
  moreover have "s * k + (Y - s * X) = Y + q" by (simp add: q_def algebra_simps)
  ultimately show "- B < s * k + (Y - s * X)" and "s * k + (Y - s * X) < B" by (simp_all only:)
qed

text \<open>Keys below \<open>2 ^ 31\<close>: at most \<open>2 ^ 31\<close> of them, each at least its own position.\<close>

definition int_keys :: "u64 set" where
  "int_keys = {k. k < 2 ^ 31}"

lemma sorted_nth_growth:
  assumes "sorted_wrt (<) (ks :: u64 list)" and "i \<le> j" and "j < length ks"
  shows "uint (ks ! i) + int (j - i) \<le> uint (ks ! j)"
  using assms(2,3)
proof (induction rule: dec_induct)
  case (step l)
  then have "ks ! l < ks ! Suc l" using assms(1) by (intro sorted_wrt_nth_less [of "(<)"]) auto
  then show ?case using step by (simp add: word_less_def Suc_diff_le)
qed simp

lemma int_keys_uint: "k \<in> int_keys \<longleftrightarrow> uint k < 2 ^ 31"
  by (simp add: int_keys_def word_less_def)

lemma int_keys_rat: "k \<in> int_keys \<Longrightarrow> 0 \<le> rat_of_int (uint k) \<and> rat_of_int (uint k) < 2 ^ 31"
proof -
  assume "k \<in> int_keys"
  then have "rat_of_int (uint k) < rat_of_int (2 ^ 31)" using int_keys_uint by (simp only: of_int_less_iff)
  then show ?thesis by (simp del: of_int_uint)
qed

lemma int_keys_length:
  assumes "sorted_wrt (<) ks" and "set ks \<subseteq> int_keys"
  shows "length ks \<le> 2 ^ 31"
proof (cases "ks = []")
  case False
  then have "uint (ks ! 0) + int (length ks - 1) \<le> uint (ks ! (length ks - 1))"
    using sorted_nth_growth [OF assms(1), of 0 "length ks - 1"] by simp
  moreover have "uint (ks ! (length ks - 1)) < 2 ^ 31" using assms(2) False int_keys_uint by (metis (no_types) last_conv_nth last_in_set subsetD)
  moreover have "0 \<le> uint (ks ! 0)" by simp
  ultimately have "int (length ks - 1) < 2 ^ 31" by linarith
  then show ?thesis by simp
qed simp


lemma sample_bounds:
  assumes "sorted_wrt (<) ks" and "set ks \<subseteq> int_keys" and "8 * (n - 1) < length ks" and "0 < n"
  defines "X \<equiv> (\<Sum>j=0..<n. sample_x ks j) / of_nat n" and "Y \<equiv> (\<Sum>j=0..<n. sample_y j) / of_nat n"
  shows "i \<le> j \<Longrightarrow> j < n \<Longrightarrow> sample_x ks i \<le> sample_x ks j"
    and "i \<le> j \<Longrightarrow> j < n \<Longrightarrow> sample_x ks i - sample_y i \<le> sample_x ks j - sample_y j"
    and "0 \<le> Y" and "Y \<le> X" and "X < 2 ^ 31"
proof -
  have len: "8 * j < length ks" if "j < n" for j using that assms(3) by simp
  have grow: "sample_x ks i + (sample_y j - sample_y i) \<le> sample_x ks j" if "i \<le> j" "j < n" for i j
  proof -
    have "uint (ks ! (8 * i)) + int (8 * j - 8 * i) \<le> uint (ks ! (8 * j))"
      using sorted_nth_growth [OF assms(1), of "8 * i" "8 * j"] len that by simp
    then have "rat_of_int (uint (ks ! (8 * i)) + int (8 * j - 8 * i)) \<le> rat_of_int (uint (ks ! (8 * j)))"
      by (simp only: of_int_le_iff)
    then show ?thesis using that by (simp add: of_nat_diff del: of_int_uint)
  qed
  show "sample_x ks i \<le> sample_x ks j" "sample_x ks i - sample_y i \<le> sample_x ks j - sample_y j" if "i \<le> j" "j < n"
    using grow [OF that] that by (auto simp: algebra_simps simp del: of_int_uint) 
  have le: "sample_y j \<le> sample_x ks j" if "j < n" for j
  proof -
    have "0 \<le> sample_x ks 0" by (simp del: of_int_uint)
    moreover have "sample_x ks 0 + sample_y j \<le> sample_x ks j" using grow [of 0 j] that by (simp del: of_int_uint)
    ultimately show ?thesis by linarith
  qed
  have lt: "sample_x ks j < 2 ^ 31" if "j < n" for j
  proof -
    have "ks ! (8 * j) \<in> int_keys" using assms(2) len [OF that] by (meson nth_mem subsetD)
    then show ?thesis using int_keys_rat by blast
  qed
  show "0 \<le> Y" unfolding Y_def by (intro divide_nonneg_nonneg sum_nonneg) auto
  show "Y \<le> X" unfolding X_def Y_def using le by (intro divide_right_mono sum_mono) auto
  have "(\<Sum>j=0..<n. sample_x ks j) < (\<Sum>j=0..<n. 2 ^ 31)"
    using lt assms(4) by (intro sum_strict_mono) auto
  then show "X < 2 ^ 31" unfolding X_def using assms(4) by (simp add: divide_less_eq mult.commute)
qed


lemma extrema_slope:
  assumes b: "sampled ks n b" and ks: "sorted_wrt (<) ks" and len: "8 * (n - 1) < length ks" and n: "2 \<le> n"
  defines "a \<equiv> (y_max b - y_min b) / of_int (uint (x_max b - x_min b))"
  shows "0 \<le> a" and "a \<le> 1"
proof -
  have "uint (ks ! 0) + int (8 * (n - 1)) \<le> uint (ks ! (8 * (n - 1)))"
    using sorted_nth_growth [OF ks, of 0 "8 * (n - 1)"] len by simp
  moreover from this have "uint (ks ! (8 * (n - 1)) - ks ! 0) = uint (ks ! (8 * (n - 1))) - uint (ks ! 0)"
    by (intro uint_sub_lem [THEN iffD1]) linarith
  ultimately have "int (8 * (n - 1)) \<le> uint (x_max b - x_min b)" using b n by (simp add: sampled_def)
  then have "rat_of_int (int (8 * (n - 1))) \<le> rat_of_int (uint (x_max b - x_min b))" by (simp only: of_int_le_iff)
  moreover have "a = sample_y (n - 1) / rat_of_int (uint (x_max b - x_min b))" using b n by (simp add: a_def sampled_def del: of_int_uint)
  moreover have "0 < sample_y (n - 1)" using n by simp
  ultimately show "0 \<le> a" "a \<le> 1" by (simp_all add: divide_le_eq del: of_nat_mult of_int_uint)
qed

lemma sampled_sound:
  assumes b: "sampled ks n b" and ks: "sorted_wrt (<) ks" "set ks \<subseteq> int_keys" and n: "n = 0 \<or> 8 * (n - 1) < length ks"
  shows "sound_model rat_fpu int_keys (LinearModelBuilder_build rat_fpu b)"
proof -
  have "in_int32 (trunc_int (model_a (LinearModelBuilder_build rat_fpu b) * of_int (uint k) + model_b (LinearModelBuilder_build rat_fpu b)))"
    if key: "k \<in> int_keys" for k
  proof -
    define z where "z = rat_of_int (uint k)"
    have z: "0 \<le> z" "z < 2 ^ 31" using int_keys_rat [OF key] by (simp_all add: z_def del: of_int_uint)
    define Sx Sy Sxx Sxy where "Sx = (\<Sum>j=0..<n. sample_x ks j)" and "Sy = (\<Sum>j=0..<n. sample_y j)"
      and "Sxx = (\<Sum>j=0..<n. sample_x ks j * sample_x ks j)" and "Sxy = (\<Sum>j=0..<n. sample_x ks j * sample_y j)"
    note S = Sx_def Sy_def Sxx_def Sxy_def
    define d where "d = of_nat n * Sxx - Sx * Sx"
    define s where "s = (of_nat n * Sxy - Sx * Sy) / d"
    define a where "a = (y_max b - y_min b) / of_int (uint (x_max b - x_min b))"
    have build: "LinearModelBuilder_build rat_fpu b =
       (if n \<le> 1 then \<lparr>model_a = 0, model_b = Sy\<rparr> else if d = 0 then \<lparr>model_a = 0, model_b = Sy / of_nat n\<rparr>
        else if s \<le> 0 then \<lparr>model_a = a, model_b = - of_int (uint (x_min b)) * a\<rparr>
        else \<lparr>model_a = s, model_b = (Sy - s * Sx) / of_nat n\<rparr>)"
      using b by (simp add: LinearModelBuilder_build_def rat_fpu_def sampled_def S d_def s_def a_def Let_def del: of_int_uint)
    consider (one) "n \<le> 1" | (many) "2 \<le> n" by linarith
    then show ?thesis
    proof cases
      case one
      then have "n = 0 \<or> n = 1" by linarith
      then have "Sy = 0" by (auto simp: Sy_def)
      then show ?thesis unfolding build using one by (simp add: in_int32_def trunc_int_def)
    next
      case many
      then have pos: "0 < n" and len: "8 * (n - 1) < length ks" using n by auto
      note sb = sample_bounds [OF ks len pos]
      have Y: "0 \<le> Sy / of_nat n" "Sy / of_nat n \<le> Sx / of_nat n" "Sx / of_nat n < 2 ^ 31" using sb(3-5) by (simp_all add: S)
      note slope = regression_slope [of n "sample_x ks" sample_y, OF sb(1,2), folded S, folded d_def]
      consider (flat) "d = 0" | (extrema) "d \<noteq> 0" "s \<le> 0" | (regression) "d \<noteq> 0" "0 < s" by linarith
      then show ?thesis
      proof cases
        case flat
        have "in_int32 (trunc_int (Sy / of_nat n))" using Y by (intro in_int32_trunc) auto
        then show ?thesis unfolding build using many flat by simp
      next
        case extrema
        define x0 where "x0 = sample_x ks 0"
        have a: "0 \<le> a" "a \<le> 1" using extrema_slope [OF b ks(1) len many] by (simp_all add: a_def)
        have "ks ! 0 \<in> int_keys" using ks(2) len by (cases ks) auto
        then have "0 \<le> x0" "x0 < 2 ^ 31" using int_keys_rat by (simp_all add: x0_def del: of_int_uint)
        from line_bounds [OF a z order.refl this] have "in_int32 (trunc_int (a * z + (0 - a * x0)))"
          by (intro in_int32_trunc)
        moreover have "x_min b = ks ! 0" using b pos by (simp add: sampled_def)
        ultimately show ?thesis unfolding build using many extrema by (simp add: z_def x0_def mult.commute del: of_int_uint)
      next
        case regression
        have "0 < d" using slope(2) regression(1) by simp
        then have s: "0 \<le> s" "s \<le> 1" using regression(2) slope(1) by (simp_all add: s_def)
        from line_bounds [OF s z Y] have "in_int32 (trunc_int (s * z + (Sy / of_nat n - s * (Sx / of_nat n))))"
          by (intro in_int32_trunc)
        then show ?thesis unfolding build using many regression by (simp add: z_def diff_divide_distrib del: of_int_uint)
      qed
    qed
  qed
  then show ?thesis by (simp add: sound_model_def LinearModel_predict_double_def rat_fpu_def del: of_int_uint)
qed


lemma rat_trained:
  assumes "sorted_wrt (<) ks" and "set ks \<subseteq> int_keys"
  shows "sound_model rat_fpu int_keys (rmi_line_model_init rat_fpu ks)"
proof -
  have "sampled ks 0 (LinearModelBuilder_clear rat_fpu)"
    by (simp add: sampled_def LinearModelBuilder_clear_def rat_fpu_def)
  from sampled_init_loop [OF this assms(1) int_keys_length [OF assms]] obtain m where
    "sampled ks m (rmi_line_model_init_loop rat_fpu ks 0 (LinearModelBuilder_clear rat_fpu))" "m = 0 \<or> 8 * (m - 1) < length ks"
    by auto
  from sampled_sound [OF this(1) assms this(2)] show ?thesis by (simp add: rmi_line_model_init_def)
qed

interpretation exact: fp_keys rat_fpu int_keys
proof
  show "sound_model rat_fpu int_keys \<lparr>model_a = d_of_int rat_fpu 0, model_b = d_of_int rat_fpu 0\<rparr>"
    by (simp add: sound_model_def LinearModel_predict_double_def rat_fpu_def in_int32_def trunc_int_def)
qed (simp_all add: rat_trained int_keys_uint)

text \<open>
  Larger keys are not safe. With the model that predicts the position \<open>k\<close> for the key \<open>k\<close>, which dense
  keys train, the predictions of 100 and of \<open>2 ^ 40\<close> are in the wrong order on x86: the conversion
  to \<^verbatim>\<open>int\<close> of the second one gives \<^verbatim>\<open>INT_MIN\<close>.
\<close>

lemma dense_model: "rmi_line_model_init rat_fpu (map word_of_nat [0..<16]) = \<lparr>model_a = 1, model_b = 0\<rparr>"
proof -
  let ?ks = "map word_of_nat [0..<16] :: u64 list"
  have "rmi_line_model_init_loop rat_fpu ?ks 0 b =
      LinearModelBuilder_add rat_fpu (LinearModelBuilder_add rat_fpu b 0 0) 8 8" for b
    by (subst rmi_line_model_init_loop.simps, subst rmi_line_model_init_loop.simps, subst rmi_line_model_init_loop.simps)
      (simp add: linear_sample_def size_to_int_small)
  then show ?thesis
    by (simp add: rmi_line_model_init_def LinearModelBuilder_clear_def LinearModelBuilder_add_def
        LinearModelBuilder_build_def rat_fpu_def d_std_min_def d_std_max_def)
qed

lemma predict_overflow:
  "rmi_line_model_predict rat_fpu \<lparr>model_a = 1, model_b = 0\<rparr> 100 = 100"
  "rmi_line_model_predict rat_fpu \<lparr>model_a = 1, model_b = 0\<rparr> (2 ^ 40) = - (2 ^ 31)"
  by (simp_all add: rmi_line_model_predict_def LinearModel_predict_def rat_fpu_def x86_int32_def in_int32_def trunc_int_def)

end
