(* ===== verification/Nali_Group.thy ===== *)
theory Nali_Group
  imports Nali_Entry Rmi_Model
begin

text \<open>
  \<^verbatim>\<open>class group\<close> of \<^verbatim>\<open>src/src/nali.h\<close>: an array of entries, found by a learned model whose
  prediction is corrected by an exponential search. A full entry makes the group rebuild its
  array with one leaf per entry (\<^verbatim>\<open>expand\<close>) or, past \<^verbatim>\<open>max_entry_count\<close> leaves, report \<^verbatim>\<open>Full\<close>.
  Array indices are naturals: the code clamps a prediction to the array before it is used, and
  no index is decreased below zero.
\<close>

section \<open>Data\<close>

record 'd group =
  nr_entries :: nat
  next_entry_count :: nat
  group_min_key :: u64
  entry_space :: "PointerBEntry list"
  group_model :: "'d LinearModel"

definition max_entry_count :: nat where
  "max_entry_count = 1024"

definition min_entry_count :: nat where
  "min_entry_count = 64"

definition get_entry_key :: "PointerBEntry \<Rightarrow> u64" where
  "get_entry_key entry = PointerBEntry_entry_key entry"

text \<open>\<^verbatim>\<open>model.init(space, n, ..., get_entry_key)\<close>.\<close>

definition entry_model :: "('d, 'l) fpu \<Rightarrow> PointerBEntry list \<Rightarrow> nat \<Rightarrow> 'd LinearModel" where
  "entry_model F space n = rmi_line_model_init F (map get_entry_key (take n space))"

section \<open>Building a group\<close>

text \<open>\<^verbatim>\<open>Init\<close> leaves \<^verbatim>\<open>min_key\<close> as it is: \<open>g\<close> is the group before the call.\<close>

definition group_Init :: "('d, 'l) fpu \<Rightarrow> bheap \<Rightarrow> 'd group \<Rightarrow> bheap \<times> 'd group" where
  "group_Init F h g =
     (let (h', e) = PointerBEntry_new h 0 8
      in (h', g\<lparr>nr_entries := 1, entry_space := [e], group_model := entry_model F [e] 1,
               next_entry_count := 1\<rparr>))"

text \<open>The loop \<^verbatim>\<open>entry_space[new_entry_count++] = PointerBEntry(data[start + i].first, ..., 0)\<close>.\<close>

fun bulk_load_loop ::
  "bheap \<Rightarrow> PointerBEntry list \<Rightarrow> nat \<Rightarrow> (u64 \<times> u64) list \<Rightarrow> bheap \<times> PointerBEntry list" where
  "bulk_load_loop h space i [] = (h, space)"
| "bulk_load_loop h space i ((key, value) # data) =
     (let (h', e) = PointerBEntry_new_kv h key value 0
      in bulk_load_loop h' (space[i := e]) (Suc i) data)"

definition group_bulk_load ::
  "('d, 'l) fpu \<Rightarrow> bheap \<Rightarrow> 'd group \<Rightarrow> (u64 \<times> u64) list \<Rightarrow> nat \<Rightarrow> nat \<Rightarrow> bheap \<times> 'd group" where
  "group_bulk_load F h g data start cnt =
     (let (h', space) = bulk_load_loop h (entry_space g) 0 (take cnt (drop start data))
      in (h', g\<lparr>nr_entries := cnt, entry_space := space, group_min_key := fst (data ! 0),
               group_model := entry_model F space cnt, next_entry_count := cnt\<rparr>))"

definition group_inc_entry_count :: "'d group \<Rightarrow> 'd group" where
  "group_inc_entry_count g = g\<lparr>next_entry_count := Suc (next_entry_count g)\<rparr>"

definition group_reserve_space :: "'d group \<Rightarrow> 'd group" where
  "group_reserve_space g = g\<lparr>entry_space := replicate (next_entry_count g) zero_PointerBEntry\<rparr>"

definition group_append_entry :: "'d group \<Rightarrow> eentry \<Rightarrow> 'd group" where
  "group_append_entry g entry =
     g\<lparr>entry_space := (entry_space g)[nr_entries g := PointerBEntry_of_eentry entry],
       nr_entries := Suc (nr_entries g)\<rparr>"

definition group_re_tarin :: "('d, 'l) fpu \<Rightarrow> 'd group \<Rightarrow> 'd group" where
  "group_re_tarin F g =
     g\<lparr>group_model := entry_model F (entry_space g) (nr_entries g),
       group_min_key := PointerBEntry_entry_key (entry_space g ! 0)\<rparr>"

section \<open>Searching\<close>

abbreviation gkey :: "'d group \<Rightarrow> nat \<Rightarrow> u64" where
  "gkey g i \<equiv> PointerBEntry_entry_key (entry_space g ! i)"

function group_binary_search_upper_bound :: "'d group \<Rightarrow> nat \<Rightarrow> nat \<Rightarrow> u64 \<Rightarrow> nat" where
  "group_binary_search_upper_bound g l r key =
     (if l < r
      then let mid = l + (r - l) div 2
           in if gkey g mid \<le> key then group_binary_search_upper_bound g (mid + 1) r key
              else group_binary_search_upper_bound g l mid key
      else l)"
  by pat_completeness auto
termination
  by (relation "measure (\<lambda>(g, l, r, key). r - l)") auto

function group_linear_search_upper_bound :: "'d group \<Rightarrow> nat \<Rightarrow> nat \<Rightarrow> u64 \<Rightarrow> nat" where
  "group_linear_search_upper_bound g l r key =
     (if l < r \<and> gkey g l \<le> key then group_linear_search_upper_bound g (l + 1) r key else l)"
  by pat_completeness auto
termination
  by (relation "measure (\<lambda>(g, l, r, key). r - l)") auto

function group_binary_search_lower_bound :: "'d group \<Rightarrow> nat \<Rightarrow> nat \<Rightarrow> u64 \<Rightarrow> nat" where
  "group_binary_search_lower_bound g l r key =
     (if l < r
      then let mid = l + (r - l) div 2
           in if gkey g mid < key then group_binary_search_lower_bound g (mid + 1) r key
              else group_binary_search_lower_bound g l mid key
      else l)"
  by pat_completeness auto
termination
  by (relation "measure (\<lambda>(g, l, r, key). r - l)") auto

text \<open>
  The two loops that double \<^verbatim>\<open>bound\<close>, which starts at 1; the conjunct \<open>0 < bound\<close> is never
  false and gives termination.
\<close>

function exponential_bound :: "(nat \<Rightarrow> bool) \<Rightarrow> nat \<Rightarrow> nat \<Rightarrow> nat" where
  "exponential_bound test sz bound =
     (if 0 < bound \<and> bound < sz \<and> test bound then exponential_bound test sz (bound * 2) else bound)"
  by pat_completeness auto
termination
  by (relation "measure (\<lambda>(test, sz, bound). sz - bound)") auto

definition group_exponential_search_upper_bound :: "'d group \<Rightarrow> nat \<Rightarrow> u64 \<Rightarrow> nat" where
  "group_exponential_search_upper_bound g m key =
     (let (l, r) =
        (if key < gkey g m
         then let sz = m; bound = exponential_bound (\<lambda>b. key < gkey g (m - b)) sz 1
              in (m - min bound sz, m - bound div 2)
         else let sz = nr_entries g - m; bound = exponential_bound (\<lambda>b. gkey g (m + b) \<le> key) sz 1
              in (m + bound div 2, m + min bound sz))
      in if r < l + 6 then group_linear_search_upper_bound g l r key - 1
         else group_binary_search_upper_bound g l r key - 1)"

definition group_find_entry :: "('d, 'l) fpu \<Rightarrow> 'd group \<Rightarrow> u64 \<Rightarrow> nat" where
  "group_find_entry F g key =
     (let m = rmi_line_model_predict F (group_model g) key;
          m' = min (max 0 m) (int (nr_entries g) - 1)
      in group_exponential_search_upper_bound g (nat m') key)"

section \<open>Operations\<close>

definition group_AdjustEntryKey :: "bheap \<Rightarrow> 'd group \<Rightarrow> 'd group" where
  "group_AdjustEntryKey h g =
     g\<lparr>entry_space := (entry_space g)[0 := PointerBEntry_AdjustEntryKey h (entry_space g ! 0)]\<rparr>"

text \<open>
  \<^verbatim>\<open>group::expand\<close>: the leaves of all entries, visited by \<^verbatim>\<open>PointerBEntry::EntryIter\<close>, become the
  entries of a new array of \<^verbatim>\<open>next_entry_count\<close> slots.
\<close>

definition expand_put :: "eentry \<Rightarrow> PointerBEntry list \<times> nat \<Rightarrow> PointerBEntry list \<times> nat" where
  "expand_put it sc = ((fst sc)[snd sc := PointerBEntry_of_eentry it], Suc (snd sc))"

definition expand_copy :: "PointerBEntry list \<Rightarrow> nat \<Rightarrow> PointerBEntry list \<Rightarrow> PointerBEntry list \<times> nat" where
  "expand_copy space nr new_space =
     fold (\<lambda>i. fold expand_put (PointerBEntry_EntryIter (space ! i))) [0..<nr] (new_space, 0)"

definition group_expand :: "('d, 'l) fpu \<Rightarrow> bheap \<Rightarrow> 'd group \<Rightarrow> 'd group" where
  "group_expand F h g =
     (let new_space = replicate (next_entry_count g) zero_PointerBEntry;
          space = (entry_space g)[0 := PointerBEntry_AdjustEntryKey h (entry_space g ! 0)];
          (new_space', n) = expand_copy space (nr_entries g) new_space
      in g\<lparr>entry_space := new_space', nr_entries := n, next_entry_count := n,
           group_model := entry_model F new_space' n\<rparr>)"

partial_function (option) group_Put ::
  "('d, 'l) fpu \<Rightarrow> bheap \<Rightarrow> 'd group \<Rightarrow> u64 \<Rightarrow> u64 \<Rightarrow> (status \<times> bheap \<times> 'd group) option" where
  "group_Put F h g key value =
     (let entry_id = group_find_entry F g key;
          (ret, h', e', split) = PointerBEntry_Put h (entry_space g ! entry_id) key value False;
          g' = g\<lparr>entry_space := (entry_space g)[entry_id := e'],
                 next_entry_count := next_entry_count g + (if split then 1 else 0)\<rparr>
      in if ret = Full
         then if max_entry_count < next_entry_count g' then Some (ret, h', g')
              else group_Put F h' (group_expand F h' g') key value
         else Some (ret, h', g'))"

text \<open>
  \<^verbatim>\<open>group::Get\<close> ends with \<^verbatim>\<open>if (!ret) assert(false)\<close>. \<^verbatim>\<open>src/CMakeLists.txt\<close> defines \<^verbatim>\<open>NDEBUG\<close> for every
  target (line 19), so that the assertion is not part of the program and a missing key is answered by
  false; a debug build stops there instead. The same goes for the other assertions of the sources.
\<close>

definition group_Get :: "('d, 'l) fpu \<Rightarrow> bheap \<Rightarrow> 'd group \<Rightarrow> u64 \<Rightarrow> u64 \<Rightarrow> bool \<times> u64" where
  "group_Get F h g key value = PointerBEntry_Get h (entry_space g ! group_find_entry F g key) key value"

definition group_fast_fail :: "('d, 'l) fpu \<Rightarrow> bheap \<Rightarrow> 'd group \<Rightarrow> u64 \<Rightarrow> u64 \<Rightarrow> bool \<times> u64" where
  "group_fast_fail F h g key value =
     (if nr_entries g \<le> 0 \<or> key < group_min_key g then (False, value) else group_Get F h g key value)"

definition group_scan_fast_fail :: "'d group \<Rightarrow> u64 \<Rightarrow> bool" where
  "group_scan_fast_fail g key = (if nr_entries g \<le> 0 \<or> key < group_min_key g then False else True)"

definition group_Update ::
  "('d, 'l) fpu \<Rightarrow> bheap \<Rightarrow> 'd group \<Rightarrow> u64 \<Rightarrow> u64 \<Rightarrow> u64 \<Rightarrow> bool \<times> u64 \<times> bheap" where
  "group_Update F h g key value old_offset =
     PointerBEntry_Update h (entry_space g ! group_find_entry F g key) key value old_offset"

definition group_Delete ::
  "('d, 'l) fpu \<Rightarrow> bheap \<Rightarrow> 'd group \<Rightarrow> u64 \<Rightarrow> u64 option \<Rightarrow> bool \<times> u64 option \<times> bheap" where
  "group_Delete F h g key old_log_offset =
     PointerBEntry_Delete h (entry_space g ! group_find_entry F g key) key old_log_offset"

definition group_get_num_keys :: "bheap \<Rightarrow> 'd group \<Rightarrow> nat" where
  "group_get_num_keys h g =
     sum_list (map (\<lambda>i. PointerBEntry_get_num_keys h (entry_space g ! i)) [0..<nr_entries g])"

declare group_binary_search_upper_bound.simps [simp del] group_linear_search_upper_bound.simps [simp del]
  group_binary_search_lower_bound.simps [simp del] exponential_bound.simps [simp del]

section \<open>The searches\<close>

definition group_keys :: "'d group \<Rightarrow> u64 list" where
  "group_keys g = map PointerBEntry_entry_key (take (nr_entries g) (entry_space g))"

text \<open>A range that contains the upper bound of \<open>k\<close>.\<close>

definition brackets :: "'d group \<Rightarrow> u64 \<Rightarrow> nat \<Rightarrow> nat \<Rightarrow> bool" where
  "brackets g k l r \<longleftrightarrow> l \<le> r \<and> r \<le> nr_entries g \<and> (\<forall>i<l. gkey g i \<le> k) \<and>
     (\<forall>i. r \<le> i \<longrightarrow> i < nr_entries g \<longrightarrow> k < gkey g i)"

lemma brackets_point:
  assumes "brackets g k l l" and "nr_entries g \<le> length (entry_space g)"
  shows "upper_bound (group_keys g) k = l"
  by (rule upper_bound_eqI) (use assms in \<open>auto simp: brackets_def group_keys_def\<close>)

lemma gkey_mono:
  assumes "sorted (group_keys g)" and "nr_entries g \<le> length (entry_space g)" and "i \<le> j" and "j < nr_entries g"
  shows "gkey g i \<le> gkey g j"
  using sorted_nth_mono [OF assms(1,3)] assms by (simp add: group_keys_def)

lemma brackets_left:
  assumes "brackets g k l r" and "sorted (group_keys g)" and "nr_entries g \<le> length (entry_space g)"
    and "i < r" and "gkey g i \<le> k"
  shows "brackets g k (Suc i) r"
proof -
  have "gkey g j \<le> k" if "j < Suc i" for j
    using gkey_mono [OF assms(2,3), of j i] that assms by (auto simp: brackets_def)
  then show ?thesis using assms by (auto simp: brackets_def)
qed

lemma brackets_right:
  assumes "brackets g k l r" and "sorted (group_keys g)" and "nr_entries g \<le> length (entry_space g)"
    and "l \<le> i" and "i < r" and "k < gkey g i"
  shows "brackets g k l i"
proof -
  have "k < gkey g j" if "i \<le> j" "j < nr_entries g" for j
    using gkey_mono [OF assms(2,3) that] assms(6) by simp
  then show ?thesis using assms by (auto simp: brackets_def)
qed

lemma binary_upper:
  assumes "brackets g k l r" and "sorted (group_keys g)" and "nr_entries g \<le> length (entry_space g)"
  shows "group_binary_search_upper_bound g l r k = upper_bound (group_keys g) k"
  using assms
proof (induction g l r k rule: group_binary_search_upper_bound.induct)
  case (1 g l r k)
  let ?mid = "l + (r - l) div 2"
  show ?case
  proof (cases "l < r")
    case True
    then have mid: "l \<le> ?mid" "?mid < r" by auto
    show ?thesis
    proof (cases "gkey g ?mid \<le> k")
      case le: True
      have "group_binary_search_upper_bound g (?mid + 1) r k = upper_bound (group_keys g) k"
        using brackets_left [OF "1.prems" mid(2) le] "1.prems" by (intro "1.IH"(1) [OF True refl le]) auto
      then show ?thesis using True le by (subst group_binary_search_upper_bound.simps) (simp add: Let_def)
    next
      case gt: False
      have "group_binary_search_upper_bound g l ?mid k = upper_bound (group_keys g) k"
        using brackets_right [OF "1.prems" mid] "1.prems" gt by (intro "1.IH"(2) [OF True refl gt]) auto
      then show ?thesis using True gt by (subst group_binary_search_upper_bound.simps) (simp add: Let_def)
    qed
  next
    case False
    then have "r = l" using "1.prems"(1) by (simp add: brackets_def)
    with False show ?thesis using brackets_point [of g k l] "1.prems"
      by (subst group_binary_search_upper_bound.simps) simp
  qed
qed

lemma linear_upper:
  assumes "brackets g k l r" and "sorted (group_keys g)" and "nr_entries g \<le> length (entry_space g)"
  shows "group_linear_search_upper_bound g l r k = upper_bound (group_keys g) k"
  using assms
proof (induction g l r k rule: group_linear_search_upper_bound.induct)
  case (1 g l r k)
  show ?case
  proof (cases "l < r \<and> gkey g l \<le> k")
    case True
    then have "group_linear_search_upper_bound g (l + 1) r k = upper_bound (group_keys g) k"
      using brackets_left [OF "1.prems"] "1.prems" by (intro "1.IH") auto
    then show ?thesis using True by (subst group_linear_search_upper_bound.simps) simp
  next
    case False
    have "brackets g k l l"
      using False "1.prems" brackets_right [OF "1.prems", of l] by (cases "l < r") (auto simp: brackets_def)
    then show ?thesis using False brackets_point [of g k l] "1.prems"
      by (subst group_linear_search_upper_bound.simps) auto
  qed
qed

text \<open>Where the doubling loop stops.\<close>

lemma exponential_bound_stop:
  assumes "0 < bound" and "bound div 2 = 0 \<or> (test (bound div 2) \<and> bound div 2 < sz)"
  defines "b \<equiv> exponential_bound test sz bound"
  shows "0 < b" and "sz \<le> b \<or> \<not> test b" and "b div 2 = 0 \<or> (test (b div 2) \<and> b div 2 < sz)"
proof -
  have "0 < b \<and> (sz \<le> b \<or> \<not> test b) \<and> (b div 2 = 0 \<or> (test (b div 2) \<and> b div 2 < sz))"
    using assms(1,2) unfolding b_def
  proof (induction test sz bound rule: exponential_bound.induct)
    case (1 test sz bound)
    then show ?case
      by (subst (1 2 3 4 5 6) exponential_bound.simps) auto
  qed
  then show "0 < b" "sz \<le> b \<or> \<not> test b" "b div 2 = 0 \<or> (test (b div 2) \<and> b div 2 < sz)" by auto
qed

text \<open>
  The exponential search finds the slot of the key from any starting point in the array: the
  quality of the prediction matters for time only.
\<close>

lemma exponential_search:
  assumes sorted: "sorted (group_keys g)" and len: "nr_entries g \<le> length (entry_space g)"
    and m: "m < nr_entries g"
  shows "group_exponential_search_upper_bound g m k = slot (group_keys g) k"
proof -
  have last: "(if r < l + 6 then group_linear_search_upper_bound g l r k - 1
      else group_binary_search_upper_bound g l r k - 1) = slot (group_keys g) k" if "brackets g k l r" for l r
    using binary_upper [OF that sorted len] linear_upper [OF that sorted len] by (simp add: slot_def)
  have all: "brackets g k 0 (nr_entries g)" by (simp add: brackets_def)
  show ?thesis
  proof (cases "k < gkey g m")
    case True
    define b where "b = exponential_bound (\<lambda>b. k < gkey g (m - b)) m 1"
    note b = exponential_bound_stop [of 1 "\<lambda>b. k < gkey g (m - b)" m, folded b_def, simplified]
    have half: "b div 2 \<le> m" using b(3) by linarith
    have "k < gkey g (m - b div 2)" using b(3) True by auto
    then have right: "brackets g k 0 (m - b div 2)"
      using m by (intro brackets_right [OF all sorted len]) auto
    have "brackets g k (m - min b m) (m - b div 2)"
    proof (cases "m \<le> b")
      case True
      then show ?thesis using right by simp
    next
      case False
      then have "gkey g (m - b) \<le> k" using b(2) by simp
      moreover have "m - b < m - b div 2" using False b(1) by linarith
      ultimately show ?thesis
        using brackets_left [OF right sorted len, of "m - b"] False by (auto simp: brackets_def)
    qed
    from last [OF this] True show ?thesis
      unfolding b_def group_exponential_search_upper_bound_def by (simp only: Let_def if_True if_False prod.case)
  next
    case False
    let ?n = "nr_entries g - m"
    define b where "b = exponential_bound (\<lambda>b. gkey g (m + b) \<le> k) ?n 1"
    note b = exponential_bound_stop [of 1 "\<lambda>b. gkey g (m + b) \<le> k" ?n, folded b_def, simplified]
    have "gkey g (m + b div 2) \<le> k" "m + b div 2 < nr_entries g" using b(3) False m by auto
    then have left: "brackets g k (m + b div 2) (nr_entries g)"
      using brackets_left [OF all sorted len, of "m + b div 2"] by (auto simp: brackets_def)
    have "brackets g k (m + b div 2) (m + min b ?n)"
    proof (cases "?n \<le> b")
      case True
      then show ?thesis using left m by simp
    next
      case less: False
      then have "k < gkey g (m + b)" using b(2) by simp
      then show ?thesis
        using brackets_right [OF left sorted len, of "m + b"] less by (auto simp: min_def)
    qed
    from last [OF this] False show ?thesis
      unfolding b_def group_exponential_search_upper_bound_def by (simp only: Let_def if_True if_False prod.case)
  qed
qed

lemma find_entry_slot:
  assumes "sorted (group_keys g)" and "nr_entries g \<le> length (entry_space g)" and "0 < nr_entries g"
  shows "group_find_entry F g k = slot (group_keys g) k"
  unfolding group_find_entry_def Let_def
  by (rule exponential_search [OF assms(1,2)]) (use assms(3) in linarith)

text \<open>The lower bound search: everything before it is smaller, everything from it on is not.\<close>

lemma binary_lower:
  assumes "sorted (group_keys g)" and "nr_entries g \<le> length (entry_space g)"
    and "l \<le> r" and "r \<le> nr_entries g" and "\<forall>i<l. gkey g i < k"
    and "\<forall>i. r \<le> i \<longrightarrow> i < nr_entries g \<longrightarrow> k \<le> gkey g i"
  defines "p \<equiv> group_binary_search_lower_bound g l r k"
  shows "l \<le> p \<and> p \<le> r \<and> (\<forall>i<p. gkey g i < k) \<and> (\<forall>i. p \<le> i \<longrightarrow> i < nr_entries g \<longrightarrow> k \<le> gkey g i)"
  using assms(1-6) unfolding p_def
proof (induction g l r k rule: group_binary_search_lower_bound.induct)
  case (1 g l r k)
  let ?mid = "l + (r - l) div 2"
  show ?case
  proof (cases "l < r")
    case True
    then have mid: "l \<le> ?mid" "?mid < r" "?mid < nr_entries g" using "1.prems"(4) by auto
    show ?thesis
    proof (cases "gkey g ?mid < k")
      case lt: True
      have low: "\<forall>i<?mid + 1. gkey g i < k"
        using gkey_mono [OF "1.prems"(1,2) _ mid(3)] lt by (auto simp: less_Suc_eq_le intro: le_less_trans)
      have eq: "group_binary_search_lower_bound g l r k = group_binary_search_lower_bound g (?mid + 1) r k"
        using True lt by (subst group_binary_search_lower_bound.simps) (simp add: Let_def)
      have "?mid + 1 \<le> r" using mid by simp
      from "1.IH"(1) [OF True refl lt "1.prems"(1,2) this "1.prems"(4) low "1.prems"(6)] mid(1)
      show ?thesis unfolding eq by (meson order.trans le_add1)
    next
      case ge: False
      have high: "\<forall>i. ?mid \<le> i \<longrightarrow> i < nr_entries g \<longrightarrow> k \<le> gkey g i"
        using gkey_mono [OF "1.prems"(1,2)] ge by (meson not_less order.trans)
      have eq: "group_binary_search_lower_bound g l r k = group_binary_search_lower_bound g l ?mid k"
        using True ge by (subst group_binary_search_lower_bound.simps) (simp add: Let_def)
      from "1.IH"(2) [OF True refl ge "1.prems"(1,2) mid(1) less_imp_le [OF mid(3)] "1.prems"(5) high] mid(2)
      show ?thesis unfolding eq by (meson order.trans less_imp_le)
    qed
  next
    case False
    then have "group_binary_search_lower_bound g l r k = l"
      by (subst group_binary_search_lower_bound.simps) simp
    then show ?thesis using "1.prems" False by simp
  qed
qed

section \<open>The group as a leaf store\<close>

definition gents :: "'d group \<Rightarrow> PointerBEntry list" where
  "gents g = take (nr_entries g) (entry_space g)"

definition gflat :: "bheap \<Rightarrow> 'd group \<Rightarrow> leaf list" where
  "gflat h g = flats bflat h (gents g)"

definition gptrs :: "'d group \<Rightarrow> nat list" where
  "gptrs g = all_ptrs bptrs (gents g)"

definition group_wf :: "bheap \<Rightarrow> 'd group \<Rightarrow> bool" where
  "group_wf h g \<longleftrightarrow> 0 < nr_entries g \<and> nr_entries g \<le> length (entry_space g) \<and>
     all_wf bentry_wf h (gents g) \<and> next_entry_count g = sum_list (map PointerBEntry_entries (gents g))"

abbreviation entries_ok :: "bheap \<Rightarrow> PointerBEntry list \<Rightarrow> bool" where
  "entries_ok \<equiv> store_ok (flats bflat) (all_ptrs bptrs) (all_wf bentry_wf)"

abbreviation group_ok :: "bheap \<Rightarrow> 'd group \<Rightarrow> bool" where
  "group_ok \<equiv> store_ok gflat gptrs group_wf"

abbreviation group_step ::
  "u64 \<Rightarrow> u64 option \<Rightarrow> bheap \<Rightarrow> 'd group \<Rightarrow> bheap \<Rightarrow> 'd group \<Rightarrow> bool" where
  "group_step \<equiv> store_step gflat gptrs group_wf"

lemma gents_ne: "group_wf h g \<Longrightarrow> gents g \<noteq> []"
  by (auto simp: group_wf_def gents_def)

lemma gents_nth: "i < nr_entries g \<Longrightarrow> gents g ! i = entry_space g ! i"
  by (simp add: gents_def)

lemma group_entries_ok: "group_ok h g \<Longrightarrow> entries_ok h (gents g)"
  by (simp add: store_ok_def group_wf_def gflat_def gptrs_def)

lemma length_flats: "length (flats bflat h es) = sum_list (map PointerBEntry_entries es)"
  by (simp add: flats_def length_concat comp_def)

interpretation group: leaf_store gflat gptrs group_wf
proof
  show "group_wf h g \<Longrightarrow> gflat h g \<noteq> []" for h and g :: "'d group"
    using gents_ne [of h g] entry.flat_ne
    by (cases "gents g") (auto simp: gflat_def flats_def group_wf_def all_wf_def)
  show "group_wf h g \<Longrightarrow> p \<in> set (gptrs g) \<Longrightarrow> p < next_free h" for h p and g :: "'d group"
    using entry.ptrs_below by (auto simp: group_wf_def gptrs_def all_ptrs_def all_wf_def)
  show "gflat h' g = gflat h g \<and> group_wf h' g"
    if "group_wf h g" "\<And>p. p \<in> set (gptrs g) \<Longrightarrow> store h' p = store h p" "next_free h \<le> next_free h'"
    for h h' and g :: "'d group"
  proof -
    have "bflat h' e = bflat h e \<and> bentry_wf h' e" if "e \<in> set (gents g)" for e
      using that \<open>group_wf h g\<close> \<open>next_free h \<le> next_free h'\<close> \<open>\<And>p. p \<in> set (gptrs g) \<Longrightarrow> _ p\<close>
      by (intro entry.frame) (auto simp: group_wf_def all_wf_def gptrs_def all_ptrs_def)
    then show ?thesis
      using that(1) by (auto simp: gflat_def flats_def group_wf_def all_wf_def intro!: arg_cong [of _ _ concat])
  qed
qed

lemma group_keys_eq:
  assumes "group_wf h g"
  shows "group_keys g = map (\<lambda>e. sep (hd (bflat h e))) (gents g)"
  using assms unfolding group_keys_def gents_def [symmetric]
  by (auto simp: group_wf_def all_wf_def sep_hd_bflat)

lemma group_keys_sorted:
  assumes "group_ok h g"
  shows "sorted_wrt (<) (group_keys g)"
proof -
  have wf: "group_wf h g" and ord: "ordered (concat (map (bflat h) (gents g)))"
    using assms by (auto simp: store_ok_def gflat_def flats_def)
  have "all_wf bentry_wf h (gents g)" using wf by (simp add: group_wf_def)
  from ordered_concat_seps [OF ord entry.flats_ne [OF this]] show ?thesis
    by (simp add: group_keys_eq [OF wf] comp_def)
qed

lemma group_find:
  assumes "group_ok h g"
  shows "group_find_entry F g k = slot (map (\<lambda>e. sep (hd (bflat h e))) (gents g)) k"
    and "group_find_entry F g k < nr_entries g"
    and "entry_ok h (entry_space g ! group_find_entry F g k)"
    and "leaf_map (gflat h g) k = leaf_map (bflat h (entry_space g ! group_find_entry F g k)) k"
proof -
  have wf: "group_wf h g" using assms by (simp add: store_ok_def)
  show p: "group_find_entry F g k = slot (map (\<lambda>e. sep (hd (bflat h e))) (gents g)) k"
    using find_entry_slot [of g F k] wf strict_sorted_imp_sorted [OF group_keys_sorted [OF assms]]
    by (simp add: group_wf_def group_keys_eq [OF wf])
  note at = entry.flats_slot [OF group_entries_ok [OF assms] gents_ne [OF wf], of k, folded p]
  show less: "group_find_entry F g k < nr_entries g" using at(1) wf by (simp add: gents_def group_wf_def)
  show "entry_ok h (entry_space g ! group_find_entry F g k)"
    "leaf_map (gflat h g) k = leaf_map (bflat h (entry_space g ! group_find_entry F g k)) k"
    using at(2,3) gents_nth [OF less] by (simp_all add: gflat_def)
qed

text \<open>A step of the entry of the key is a step of the group.\<close>

lemma group_of_entry_step:
  assumes ok: "group_ok h g" and step: "entry_step k r h (entry_space g ! group_find_entry F g k) h' e'"
    and g': "gents g' = (gents g)[group_find_entry F g k := e']" "nr_entries g' = nr_entries g"
    "length (entry_space g') = length (entry_space g)"
    and n: "next_entry_count g' + PointerBEntry_entries (entry_space g ! group_find_entry F g k) =
      next_entry_count g + PointerBEntry_entries e'"
  shows "group_step k r h g h' g'"
proof -
  let ?p = "group_find_entry F g k"
  note at = group_find [OF ok, where F = F and k = k]
  have wf: "group_wf h g" using ok by (simp add: store_ok_def)
  have len: "?p < length (gents g)" using at(2) wf by (simp add: gents_def group_wf_def)
  have "store_step (flats bflat) (all_ptrs bptrs) (all_wf bentry_wf) k r h (gents g) h' ((gents g)[?p := e'])"
    using entry.flats_step [OF group_entries_ok [OF ok] gents_ne [OF wf], of k r h' e', folded at(1)]
      step gents_nth [OF at(2)] by simp
  then have st: "store_step (flats bflat) (all_ptrs bptrs) (all_wf bentry_wf) k r h (gents g) h' (gents g')"
    using g'(1) by simp
  have "sum_list (map PointerBEntry_entries (gents g')) + PointerBEntry_entries (entry_space g ! ?p) =
      sum_list (map PointerBEntry_entries (gents g)) + PointerBEntry_entries e'"
    using len gents_nth [OF at(2)] elem_le_sum_list [of ?p "map PointerBEntry_entries (gents g)"]
    by (simp add: g'(1) map_update sum_list_update)
  then have "group_wf h' g'"
    using n wf g'(2,3) st by (simp add: group_wf_def store_step_def)
  then show ?thesis using st by (simp add: store_step_def gflat_def gptrs_def)
qed

lemma group_Get_correct:
  assumes "group_ok h g"
  shows "group_Get F h g k v =
    (case leaf_map (gflat h g) k of None \<Rightarrow> (False, v) | Some w \<Rightarrow> (True, w))"
  using entry_Get [OF group_find(3) [OF assms, of F k]] group_find(4) [OF assms, of k F]
  by (simp add: group_Get_def)

lemma group_Update_correct:
  assumes "group_ok h g"
  obtains (missing) "leaf_map (gflat h g) k = None" "group_Update F h g k v old = (False, old, h)"
  | (found) w h' where "leaf_map (gflat h g) k = Some w"
      "group_Update F h g k v old = (True, w, h')" "group_step k (Some v) h g h' g"
proof -
  note at = group_find [OF assms, where F = F and k = k]
  have len: "group_find_entry F g k < length (gents g)"
    using at(2) assms by (simp add: gents_def group_wf_def store_ok_def)
  show ?thesis
  proof (cases rule: entry_Update [OF at(3), of k v old])
    case 1
    then show ?thesis using missing at(4) by (simp add: group_Update_def)
  next
    case (2 w h')
    have "group_step k (Some v) h g h' g"
      using group_of_entry_step [OF assms 2(3)] gents_nth [OF at(2)] len by (metis list_update_id)
    then show ?thesis using found 2 at(4) by (simp add: group_Update_def)
  qed
qed

lemma group_Delete_correct:
  assumes "group_ok h g"
  obtains (missing) "leaf_map (gflat h g) k = None" "group_Delete F h g k out = (False, out, h)"
  | (found) w h' where "leaf_map (gflat h g) k = Some w"
      "group_Delete F h g k out = (True, set_out out w, h')" "group_step k None h g h' g"
proof -
  note at = group_find [OF assms, where F = F and k = k]
  have len: "group_find_entry F g k < length (gents g)"
    using at(2) assms by (simp add: gents_def group_wf_def store_ok_def)
  show ?thesis
  proof (cases rule: entry_Delete [OF at(3), of k out])
    case 1
    then show ?thesis using missing at(4) by (simp add: group_Delete_def)
  next
    case (2 w h')
    have "group_step k None h g h' g"
      using group_of_entry_step [OF assms 2(3)] gents_nth [OF at(2)] len by (metis list_update_id)
    then show ?thesis using found 2 at(4) by (simp add: group_Delete_def)
  qed
qed

section \<open>Expansion\<close>

text \<open>The array that the copying loops fill.\<close>

lemma fold_expand_put:
  assumes "n + length xs \<le> length sp"
  shows "fold expand_put xs (sp, n) =
    (take n sp @ map PointerBEntry_of_eentry xs @ drop (n + length xs) sp, n + length xs)"
  using assms
proof (induction xs arbitrary: sp n)
  case (Cons x xs)
  then show ?case
    by (simp add: expand_put_def take_Suc_conv_app_nth take_update_swap drop_update_cancel
        list_update_append)
qed simp

definition leaves :: "PointerBEntry list \<Rightarrow> eentry list" where
  "leaves es = concat (map PointerBEntry_EntryIter es)"

lemma flats_leaves: "flats bflat h es = map (leaf_of h) (leaves es)"
  by (induction es) (simp_all add: flats_def leaves_def bflat_def)

lemma ptrs_leaves: "all_ptrs bptrs es = map pointer (leaves es)"
  by (induction es) (simp_all add: all_ptrs_def leaves_def bptrs_def)

lemma length_leaves: "length (leaves es) = sum_list (map PointerBEntry_entries es)"
  using length_flats [of undefined es] by (simp add: flats_leaves)

lemma expand_copy_eq:
  assumes "nr \<le> length space" and "length new_space = length (leaves (take nr space))"
  shows "expand_copy space nr new_space =
    (map PointerBEntry_of_eentry (leaves (take nr space)), length new_space)"
proof -
  have "fold (\<lambda>i. fold expand_put (PointerBEntry_EntryIter (space ! i))) is sc =
      fold expand_put (concat (map (\<lambda>i. PointerBEntry_EntryIter (space ! i)) is)) sc" for "is" sc
    by (induction "is" arbitrary: sc) auto
  moreover have "concat (map (\<lambda>i. PointerBEntry_EntryIter (space ! i)) [0..<nr]) = leaves (take nr space)"
    unfolding leaves_def using assms(1) by (intro arg_cong [of _ _ concat] nth_equalityI) auto
  ultimately show ?thesis
    using assms fold_expand_put [of 0 "leaves (take nr space)" new_space] by (simp add: expand_copy_def)
qed

text \<open>Entries of one leaf each have the same leaves.\<close>

lemma leaves_of_eentry: "flats bflat h (map PointerBEntry_of_eentry xs) = map (leaf_of h) xs"
  "all_ptrs bptrs (map PointerBEntry_of_eentry xs) = map pointer xs"
  by (induction xs) (simp_all add: flats_def all_ptrs_def)

lemma all_wf_of_eentry:
  "all_wf bentry_wf h es \<Longrightarrow> all_wf bentry_wf h (map PointerBEntry_of_eentry (leaves es))"
  by (auto simp: all_wf_def leaves_def intro: of_eentry_wf)

text \<open>Adjusting the separator of the first leaf.\<close>

definition adjust_first :: "bheap \<Rightarrow> PointerBEntry list \<Rightarrow> PointerBEntry list" where
  "adjust_first h es = es[0 := PointerBEntry_AdjustEntryKey h (es ! 0)]"

lemma adjust_first_views:
  assumes "all_wf bentry_wf h es" and "es \<noteq> []"
  shows "all_wf bentry_wf h (adjust_first h es)" and "all_ptrs bptrs (adjust_first h es) = all_ptrs bptrs es"
    and "sum_list (map PointerBEntry_entries (adjust_first h es)) = sum_list (map PointerBEntry_entries es)"
    and "flats bflat h (adjust_first h es) =
      (hd (flats bflat h es))\<lparr>sep := Min (lrep (hd (flats bflat h es)))\<rparr> # tl (flats bflat h es)"
proof -
  obtain e es' where es: "es = e # es'" using assms(2) by (cases es) auto
  have wf: "bentry_wf h e" using assms(1) es by (simp add: all_wf_def)
  show "all_wf bentry_wf h (adjust_first h es)"
    using assms(1) es Adjust_wf by (auto simp: adjust_first_def all_wf_def)
  show "all_ptrs bptrs (adjust_first h es) = all_ptrs bptrs es"
    "sum_list (map PointerBEntry_entries (adjust_first h es)) = sum_list (map PointerBEntry_entries es)"
    by (simp_all add: adjust_first_def es all_ptrs_def)
  show "flats bflat h (adjust_first h es) =
      (hd (flats bflat h es))\<lparr>sep := Min (lrep (hd (flats bflat h es)))\<rparr> # tl (flats bflat h es)"
    using bflat_ne [OF wf] by (simp add: adjust_first_def es flats_def Adjust_bflat [OF wf])
qed

lemma lrep_flats: "all_wf bentry_wf h es \<Longrightarrow> x \<in> set (flats bflat h es) \<Longrightarrow> finite (lrep x) \<and> lrep x \<noteq> {}"
proof -
  assume wf: "all_wf bentry_wf h es" and "x \<in> set (flats bflat h es)"
  then obtain e i where e: "e \<in> set es" "i < PointerBEntry_entries e" "x = leaf_of h (entrys e i)"
    by (auto simp: flats_def bflat_eq)
  then have "buncket_wf (store h (pointer (entrys e i)))"
    using wf bentry_wf_node by (auto simp: all_wf_def)
  then show "finite (lrep x) \<and> lrep x \<noteq> {}"
    using e(3) by (auto simp: leaf_of_def rep_keys_def buncket_wf_def)
qed

lemma adjust_lstep:
  assumes "entries_ok h es" and "es \<noteq> []"
  shows "lstep k (leaf_map (flats bflat h es) k) (flats bflat h es) (flats bflat h (adjust_first h es))"
proof -
  have wf: "all_wf bentry_wf h es" and ord: "ordered (flats bflat h es)" using assms(1) by (auto simp: store_ok_def)
  have ne: "flats bflat h es \<noteq> []"
    using assms(2) entry.flats_ne [OF wf] by (cases es) (auto simp: flats_def)
  then obtain x xs where x: "flats bflat h es = x # xs" by (cases "flats bflat h es") auto
  have "lstep k (leaf_map ([] @ x # xs) k) ([] @ x # xs) ([] @ x\<lparr>sep := Min (lrep x)\<rparr> # xs)"
    using lrep_flats [OF wf, of x] x ord by (intro lstep_raise) auto
  then show ?thesis using adjust_first_views(4) [OF wf assms(2)] x by simp
qed

lemma group_expand_correct:
  fixes F :: "('d, 'l) fpu"
  assumes ok: "group_ok h g"
  defines "g' \<equiv> group_expand F h g"
  shows "group_step k (leaf_map (gflat h g) k) h g h g'" and "group_min_key g' = group_min_key g"
    and "\<And>e. e \<in> set (gents g') \<Longrightarrow> PointerBEntry_entries e = 1"
    and "next_entry_count g' = next_entry_count g"
proof -
  let ?es = "adjust_first h (gents g)" and ?n = "next_entry_count g"
  have wf: "group_wf h g" and hw: "bheap_wf h" and eok: "entries_ok h (gents g)"
    and dist: "distinct (gptrs g)"
    using ok group_entries_ok by (auto simp: store_ok_def)
  have awf: "all_wf bentry_wf h (gents g)" using wf by (simp add: group_wf_def)
  note adj = adjust_first_views [OF awf gents_ne [OF wf]]
  have sp: "take (nr_entries g) ((entry_space g)[0 := PointerBEntry_AdjustEntryKey h (entry_space g ! 0)]) = ?es"
    using wf by (simp add: adjust_first_def gents_def group_wf_def take_update_swap)
  have len: "length (leaves ?es) = ?n" using wf adj(3) by (simp add: length_leaves group_wf_def)
  have copy: "expand_copy ((entry_space g)[0 := PointerBEntry_AdjustEntryKey h (entry_space g ! 0)])
      (nr_entries g) (replicate ?n zero_PointerBEntry) = (map PointerBEntry_of_eentry (leaves ?es), ?n)"
    using expand_copy_eq wf len by (simp add: sp group_wf_def)
  have space: "entry_space g' = map PointerBEntry_of_eentry (leaves ?es)"
    and n: "nr_entries g' = ?n" "next_entry_count g' = ?n" and mk: "group_min_key g' = group_min_key g"
    by (simp_all add: g'_def group_expand_def Let_def copy)
  have ents: "gents g' = map PointerBEntry_of_eentry (leaves ?es)" using len by (simp add: gents_def space n)
  show "group_min_key g' = group_min_key g" by (rule mk)
  show "PointerBEntry_entries e = 1" if "e \<in> set (gents g')" for e using that by (auto simp: ents)
  show "next_entry_count g' = ?n" by (rule n)
  have flat: "gflat h g' = flats bflat h ?es" 
    unfolding gflat_def ents leaves_of_eentry by (simp only: flats_leaves)
  have ptrs: "gptrs g' = gptrs g" by (simp add: gptrs_def ents leaves_of_eentry adj(2) flip: ptrs_leaves)
  have "0 < ?n"
    using wf awf by (cases "gents g") (auto simp: group_wf_def all_wf_def bentry_wf_def gents_def)
  then have "group_wf h g'"
    using all_wf_of_eentry [OF adj(1)] len n by (simp add: group_wf_def ents space comp_def sum_list_triv)
  then show "group_step k (leaf_map (gflat h g) k) h g h g'"
    using adjust_lstep [OF eok gents_ne [OF wf], of k] heap_step_refl [OF hw] dist
    by (simp add: store_step_def flat ptrs gflat_def [of h g])
qed

section \<open>Insertion\<close>

text \<open>One round of \<^verbatim>\<open>Put\<close> when the entry of the key takes it.\<close>

lemma group_Put_round:
  assumes ok: "group_ok h g" and new: "leaf_map (gflat h g) k = None"
  obtains (full) e where "e \<in> set (gents g)" "PointerBEntry_entries e = pb_entry_count"
      "group_Put F h g k v = (if max_entry_count < next_entry_count g then Some (Full, h, g)
         else group_Put F h (group_expand F h g) k v)"
  | (stored) h' g' where "group_Put F h g k v = Some (OK, h', g')" "group_step k (Some v) h g h' g'"
      "group_min_key g' = group_min_key g"
proof -
  let ?p = "group_find_entry F g k"
  let ?e = "entry_space g ! ?p"
  note at = group_find [OF ok, where F = F and k = k]
  have len: "?p < length (gents g)" "?p < length (entry_space g)"
    using at(2) ok by (simp_all add: gents_def group_wf_def store_ok_def)
  have e: "?e \<in> set (gents g)" using nth_mem [OF len(1)] gents_nth [OF at(2)] by simp
  have none: "leaf_map (bflat h ?e) k = None" using new at(4) by simp
  show ?thesis
  proof (cases rule: entry_Put [OF at(3) none, of v False])
    case 1
    have "group_Put F h g k v = (if max_entry_count < next_entry_count g then Some (Full, h, g)
         else group_Put F h (group_expand F h g) k v)"
      by (subst group_Put.simps) (simp add: 1(2) Let_def)
    then show ?thesis using full [OF e 1(1)] by simp
  next
    case (2 h' e' s')
    define g' where "g' = g\<lparr>entry_space := (entry_space g)[?p := e'],
        next_entry_count := next_entry_count g + (if s' then 1 else 0)\<rparr>"
    have put: "group_Put F h g k v = Some (OK, h', g')"
      by (subst group_Put.simps) (simp add: 2(1) Let_def g'_def)
    have "group_step k (Some v) h g h' g'"
    proof (rule group_of_entry_step [OF ok 2(2)])
      show "gents g' = (gents g)[?p := e']" by (simp add: gents_def g'_def take_update_swap)
      show "next_entry_count g' + PointerBEntry_entries ?e = next_entry_count g + PointerBEntry_entries e'"
        using 2(3) by (auto simp: g'_def)
    qed (simp_all add: g'_def)
    then show ?thesis using stored [OF put] by (simp add: g'_def)
  qed
qed

text \<open>
  \<^verbatim>\<open>group::Put\<close> of a new key always returns: it reports \<^verbatim>\<open>Full\<close> only past the maximal number of
  leaves and with an entry of four leaves, and then changes nothing; otherwise it succeeds
  after at most one expansion.
\<close>

theorem group_Put_correct:
  assumes ok: "group_ok h g" and new: "leaf_map (gflat h g) k = None"
  obtains (full) e where "e \<in> set (gents g)" "PointerBEntry_entries e = pb_entry_count"
      "max_entry_count < next_entry_count g" "group_Put F h g k v = Some (Full, h, g)"
  | (stored) h' g' where "group_Put F h g k v = Some (OK, h', g')" "group_step k (Some v) h g h' g'"
      "group_min_key g' = group_min_key g"
proof (cases rule: group_Put_round [OF ok new, of F v])
  case (1 e)
  show ?thesis
  proof (cases "max_entry_count < next_entry_count g")
    case True
    then show ?thesis using full 1 by simp
  next
    case False
    let ?g = "group_expand F h g"
    note ex = group_expand_correct [OF ok, where F = F]
    have ok': "group_ok h ?g" by (rule store_step_ok [OF ex(1) [of k]])
    have new': "leaf_map (gflat h ?g) k = None" using store_step_map [OF ex(1) [of k]] new by simp
    show ?thesis
    proof (cases rule: group_Put_round [OF ok' new', of F v])
      case (1 e')
      then show ?thesis using ex(3) [of e'] by (simp add: pb_entry_count_def)
    next
      case (2 h' g')
      have "group_step k (Some v) h g h' g'" by (rule store_step_trans [OF ex(1) 2(2)])
      then show ?thesis using stored [of h' g'] 1 2 False ex(2) by simp
    qed
  qed
next
  case (2 h' g')
  then show ?thesis using stored by blast
qed

section \<open>Initial groups\<close>

text \<open>
  A new node is not cleared: until the first key is stored, the key that its first slot happens to hold
  is the one that \<^verbatim>\<open>AdjustEntryKey\<close> reads.
\<close>

definition fresh_in :: "u64 set \<Rightarrow> bheap \<Rightarrow> bool" where
  "fresh_in K h \<longleftrightarrow> kv_key (hd (records (store h (next_free h)))) \<in> K"

lemma group_Init_correct:
  fixes F :: "('d, 'l) fpu"
  assumes hw: "bheap_wf h" and init: "group_Init F h g = (h', g')"
  shows "group_ok h' g'" and "leaf_map (gflat h' g') = Map.empty" and "nr_entries g' = 1"
    and "entry_space g' = [PointerBEntry_of_eentry \<lparr>entry_key = 0, pointer = next_free h, prefix_bytes = 8,
      suffix_bytes = 0, buf_entries = 1\<rparr>]"
    and "fresh_in K h \<Longrightarrow> 0 \<in> K \<Longrightarrow> leaves_in K (gflat h' g')"
proof -
  let ?b = "UnSortBuncket (store h (next_free h))"
  let ?x = "\<lparr>entry_key = 0, pointer = next_free h, prefix_bytes = 8, suffix_bytes = 0, buf_entries = 1\<rparr>"
  have h': "h' = h\<lparr>store := (store h)(next_free h := ?b), next_free := Suc (next_free h)\<rparr>"
    and g': "entry_space g' = [PointerBEntry_of_eentry ?x]" "nr_entries g' = 1" "next_entry_count g' = 1"
    using init by (auto simp: group_Init_def PointerBEntry_new_def new_UnSortBuncket_def Let_def
        PointerBEntry_of_eentry_def)
  have len: "length (records (store h x)) = entry_count" for x using hw by (simp add: bheap_wf_def)
  have b: "kvs ?b = []" "buncket_wf ?b"
    using len by (simp_all add: buncket_wf_def UnSortBuncket_def buf_size_def max_entry_count_param_def
        kvs_def live_def)
  have ents: "gents g' = [PointerBEntry_of_eentry ?x]" by (simp add: gents_def g')
  have flat: "gflat h' g' = [\<lparr>sep = 0, lkvs = [], lrep = set (rep_keys ?b)\<rparr>]"
    by (simp add: gflat_def flats_def ents leaf_of_def h' b)
  have "bentry_wf h' (PointerBEntry_of_eentry ?x)"
    using b(2) unfolding bentry_wf_def of_eentry_views
    by (simp add: h' EntryIter_eq pb_entry_count_def PointerBEntry_of_eentry_def PointerBEntry_entries_def
        eentry_IsValid_def eentry_meta_def)
  then have "group_wf h' g'" by (simp add: group_wf_def ents g' all_wf_def)
  moreover have "bheap_wf h'" using len b(2) by (simp add: bheap_wf_def h' buncket_wf_def)
  moreover have "ordered (gflat h' g')" by (simp add: flat ordered_Cons leaf_ok_def)
  ultimately show "group_ok h' g'" by (simp add: store_ok_def gptrs_def ents all_ptrs_def)
  show "leaf_map (gflat h' g') = Map.empty" by (simp add: flat)
  have "records (store h (next_free h)) \<noteq> []" using len [of "next_free h"] by auto
  then have "rep_keys ?b = [kv_key (hd (records (store h (next_free h))))]"
    by (cases "records (store h (next_free h))") (simp_all add: rep_keys_def UnSortBuncket_def)
  then show "leaves_in K (gflat h' g')" if "fresh_in K h" "0 \<in> K" using that by (simp add: flat leaves_in_def fresh_in_def)
qed (use init in \<open>auto simp: group_Init_def PointerBEntry_new_def new_UnSortBuncket_def Let_def
        PointerBEntry_of_eentry_def\<close>)

text \<open>The leaf of a bulk loaded pair, and what the loading loop builds.\<close>

definition kv_leaf :: "u64 \<times> u64 \<Rightarrow> leaf" where
  "kv_leaf kv = \<lparr>sep = fst kv, lkvs = [kv], lrep = {fst kv}\<rparr>"

lemma bulk_load_loop_correct:
  assumes "bheap_wf h" and "i + length data \<le> length space" and "bulk_load_loop h space i data = (h', space')"
  obtains es where "space' = take i space @ es @ drop (i + length data) space" "length es = length data"
    "flats bflat h' es = map kv_leaf data" "all_ptrs bptrs es = [next_free h..<next_free h']"
    "all_wf bentry_wf h' es" "heap_step {} h h'" "\<forall>e\<in>set es. PointerBEntry_entries e = 1"
  using assms
proof (induction data arbitrary: h space i thesis)
  case Nil
  then show ?case by (simp add: flats_def all_ptrs_def all_wf_def heap_step_def)
next
  case (Cons kv data)
  obtain k v where kv: "kv = (k, v)" by fastforce
  obtain h1 e where new: "PointerBEntry_new_kv h k v 0 = (h1, e)" by fastforce
  note nv = new_kv_views [OF Cons.prems(2), where k = k and v = v, unfolded new fst_conv snd_conv]
  have step: "heap_step {} h h1" using nv(4,5,6) by (auto simp: heap_step_def)
  have rest: "bulk_load_loop h1 (space[i := e]) (Suc i) data = (h', space')"
    using Cons.prems(4) kv new by simp
  obtain es where es: "space' = take (Suc i) (space[i := e]) @ es @ drop (Suc i + length data) (space[i := e])"
    "length es = length data" "flats bflat h' es = map kv_leaf data"
    "all_ptrs bptrs es = [next_free h1..<next_free h']" "all_wf bentry_wf h' es" "heap_step {} h1 h'"
    "\<forall>e\<in>set es. PointerBEntry_entries e = 1"
    using Cons.IH [OF _ nv(6) _ rest] Cons.prems(3) by auto
  have keep: "bflat h' e = bflat h1 e" "bentry_wf h' e"
    using entry.frame_step [OF nv(2) es(6)] by simp_all
  have less: "next_free h < next_free h'" using es(6) nv(4) by (simp add: heap_step_def)
  show ?case
  proof (rule Cons.prems(1) [of "e # es"])
    show "space' = take i space @ (e # es) @ drop (i + length (kv # data)) space"
      using es(1) Cons.prems(3) by (simp add: take_Suc_conv_app_nth take_update_swap list_update_append)
    show "flats bflat h' (e # es) = map kv_leaf (kv # data)"
      using es(3) keep(1) nv(1) by (simp add: flats_def kv_leaf_def kv)
    show "all_ptrs bptrs (e # es) = [next_free h..<next_free h']"
      using es(4) nv(3,4) less by (simp add: all_ptrs_def upt_conv_Cons)
    show "heap_step {} h h'" using step es(6) by (rule heap_step_trans) simp
  qed (use es keep nv(7) in \<open>auto simp: all_wf_def\<close>)
qed

end
