(* ===== verification/Nali_Tree.thy ===== *)
theory Nali_Tree
  imports Nali_Group
begin

text \<open>
  \<^verbatim>\<open>class Nali\<close> of \<^verbatim>\<open>src/src/nali.h\<close>: the array of groups and the root model that predicts the
  group of a key. \<^verbatim>\<open>find_group\<close> corrects a prediction downwards; a group that is full makes the
  tree redistribute all leaves over new groups (\<^verbatim>\<open>ExpandTree\<close>). The operations are the
  single-threaded ones: the spinlock of the group is taken and released around each of them,
  and \<^verbatim>\<open>trans_begin\<close> waits while \<^verbatim>\<open>is_tree_expand\<close> is set, which is \<open>None\<close> here (no other thread
  resets it). The theorems relate every operation to the map that the leaves denote.
\<close>

section \<open>Data\<close>

record 'd nali =
  group_space :: "'d group list"
  root_model :: "'d LinearModel"
  root_expand_times :: nat
  is_tree_expand :: bool

abbreviation nr_groups :: "'d nali \<Rightarrow> nat" where
  "nr_groups t \<equiv> length (group_space t)"

text \<open>A group after \<^verbatim>\<open>memset(..., 0, ...)\<close>.\<close>

definition zero_group :: "('d, 'l) fpu \<Rightarrow> 'd group" where
  "zero_group F = \<lparr>nr_entries = 0, next_entry_count = 0, group_min_key = 0, entry_space = [],
     group_model = \<lparr>model_a = d_of_int F 0, model_b = d_of_int F 0\<rparr>\<rparr>"

text \<open>
  \<^verbatim>\<open>int group_id = model.predict(key) / min_entry_count\<close>: the prediction is converted to the
  unsigned 64-bit type of \<^verbatim>\<open>min_entry_count\<close>, divided there, and truncated to \<^verbatim>\<open>int\<close>.
\<close>

definition predicted_group :: "int \<Rightarrow> int" where
  "predicted_group p = sint (ucast (word_of_int p div word_of_nat min_entry_count :: 64 word) :: 32 word)"

definition clamp_group :: "int \<Rightarrow> nat \<Rightarrow> nat" where
  "clamp_group group_id nr = nat (min (max 0 group_id) (int nr - 1))"

definition group_id :: "('d, 'l) fpu \<Rightarrow> 'd LinearModel \<Rightarrow> nat \<Rightarrow> u64 \<Rightarrow> nat" where
  "group_id F m nr key = clamp_group (predicted_group (rmi_line_model_predict F m key)) nr"

section \<open>Finding a group\<close>

fun find_group_down :: "'d group list \<Rightarrow> u64 \<Rightarrow> nat \<Rightarrow> nat" where
  "find_group_down gs key 0 = 0"
| "find_group_down gs key (Suc i) =
     (if nr_entries (gs ! Suc i) = 0 \<or> key < gkey (gs ! Suc i) 0 then find_group_down gs key i else Suc i)"

text \<open>The loop upwards reads past the array when every group is empty; the model stops there.\<close>

function find_group_up :: "'d group list \<Rightarrow> nat \<Rightarrow> nat" where
  "find_group_up gs i = (if i < length gs \<and> nr_entries (gs ! i) = 0 then find_group_up gs (Suc i) else i)"
  by pat_completeness auto
termination
  by (relation "measure (\<lambda>(gs, i). length gs - i)") auto

definition find_group :: "('d, 'l) fpu \<Rightarrow> 'd nali \<Rightarrow> u64 \<Rightarrow> nat" where
  "find_group F t key =
     find_group_up (group_space t)
       (find_group_down (group_space t) key (group_id F (root_model t) (nr_groups t) key))"

section \<open>Initialisation and expansion\<close>

text \<open>The constructor \<^verbatim>\<open>Nali()\<close>; the model starts as the constant 0.\<close>

definition nali_new :: "('d, 'l) fpu \<Rightarrow> 'd nali" where
  "nali_new F = \<lparr>group_space = [], root_model = \<lparr>model_a = d_of_int F 0, model_b = d_of_int F 0\<rparr>,
     root_expand_times = 0, is_tree_expand = False\<rparr>"

text \<open>\<^verbatim>\<open>Init\<close>; \<open>g\<close> is the memory of the new group, \<open>t\<close> the tree before the call.\<close>

definition nali_Init :: "('d, 'l) fpu \<Rightarrow> bheap \<Rightarrow> 'd nali \<Rightarrow> 'd group \<Rightarrow> bheap \<times> 'd nali" where
  "nali_Init F h t g = (let (h', g') = group_Init F h g in (h', t\<lparr>group_space := [g']\<rparr>))"

text \<open>What a loop over \<^verbatim>\<open>group::EntryIter\<close> visits from entry \<open>cur_idx\<close>, leaf \<open>b\<close> on.\<close>

function group_EntryIter_visit :: "'d group \<Rightarrow> nat \<Rightarrow> nat \<Rightarrow> eentry list" where
  "group_EntryIter_visit g cur_idx b =
     (if nr_entries g \<le> cur_idx then []
      else let e = entry_space g ! cur_idx; (b', more) = EntryIter_next e b
           in entrys e b #
              (if more then group_EntryIter_visit g cur_idx b' else group_EntryIter_visit g (Suc cur_idx) 0))"
  by pat_completeness auto
termination
  by (relation "measures [\<lambda>(g, i, b). nr_entries g - i,
        \<lambda>(g, i, b). PointerBEntry_entries (entry_space g ! i) - b]")
    (auto simp: EntryIter_next_def split: if_splits)

definition group_EntryIter :: "'d group \<Rightarrow> eentry list" where
  "group_EntryIter g = group_EntryIter_visit g 0 0"

text \<open>The loop that trains the root model: \<open>bulder.add(entry_key, entry_seq)\<close> for every leaf.\<close>

definition ExpandTree_train ::
  "('d, 'l) fpu \<Rightarrow> eentry list \<Rightarrow> ('d, 'l) LinearModelBuilder \<times> nat \<Rightarrow> nat \<Rightarrow> ('d, 'l) LinearModelBuilder \<times> nat" where
  "ExpandTree_train F xs bs entry_seq =
     fold (\<lambda>(k, y) bs. builder_t_add F bs k y)
       (zip (map entry_key xs) (map size_to_int [entry_seq..<entry_seq + length xs])) bs"

text \<open>The three passes over the new groups: count, reserve, append; then retrain.\<close>

definition ExpandTree_count :: "(u64 \<Rightarrow> nat) \<Rightarrow> eentry list \<Rightarrow> 'd group list \<Rightarrow> 'd group list" where
  "ExpandTree_count gid xs gs =
     fold (\<lambda>x gs. gs[gid (entry_key x) := group_inc_entry_count (gs ! gid (entry_key x))]) xs gs"

definition ExpandTree_reserve :: "'d group list \<Rightarrow> 'd group list" where
  "ExpandTree_reserve gs = map (\<lambda>g. if next_entry_count g = 0 then g else group_reserve_space g) gs"

definition ExpandTree_append :: "(u64 \<Rightarrow> nat) \<Rightarrow> eentry list \<Rightarrow> 'd group list \<Rightarrow> 'd group list" where
  "ExpandTree_append gid xs gs =
     fold (\<lambda>x gs. gs[gid (entry_key x) := group_append_entry (gs ! gid (entry_key x)) x]) xs gs"

definition ExpandTree_retrain :: "('d, 'l) fpu \<Rightarrow> 'd group list \<Rightarrow> 'd group list" where
  "ExpandTree_retrain F gs = map (\<lambda>g. if next_entry_count g = 0 then g else group_re_tarin F g) gs"

definition ExpandTree :: "('d, 'l) fpu \<Rightarrow> bheap \<Rightarrow> 'd nali \<Rightarrow> 'd nali" where
  "ExpandTree F h t =
     (if is_tree_expand t then t
      else let gs = map (\<lambda>g. if next_entry_count g = 0 then g else group_AdjustEntryKey h g) (group_space t);
               entry_count = sum_list (map next_entry_count gs);
               seen = concat (map (\<lambda>g. if next_entry_count g = 0 then [] else group_EntryIter g) gs);
               m = builder_t_build F (ExpandTree_train F seen (builder_t_new F) 0);
               new_nr_groups = (entry_count + (min_entry_count - 1)) div min_entry_count;
               gid = group_id F m new_nr_groups;
               xs = concat (map group_EntryIter gs);
               new0 = replicate new_nr_groups (zero_group F);
               new1 = ExpandTree_count gid xs new0;
               new2 = ExpandTree_reserve new1;
               new3 = ExpandTree_append gid xs new2;
               new4 = ExpandTree_retrain F new3
           in t\<lparr>group_space := new4, root_model := m, root_expand_times := Suc (root_expand_times t),
                is_tree_expand := False\<rparr>)"

section \<open>Operations\<close>

text \<open>\<open>None\<close>: the call does not return.\<close>

partial_function (option) nali_Put ::
  "('d, 'l) fpu \<Rightarrow> bheap \<Rightarrow> 'd nali \<Rightarrow> u64 \<Rightarrow> u64 \<Rightarrow> (status \<times> bheap \<times> 'd nali) option" where
  "nali_Put F h t key value =
     (if is_tree_expand t then None
      else let gid = find_group F t key
           in case group_Put F h (group_space t ! gid) key value of
                None \<Rightarrow> None
              | Some (ret, h', g') \<Rightarrow>
                  (let t' = t\<lparr>group_space := (group_space t)[gid := g']\<rparr>
                   in if ret = Full then nali_Put F h' (ExpandTree F h' t') key value
                      else Some (ret, h', t')))"

definition nali_Update ::
  "('d, 'l) fpu \<Rightarrow> bheap \<Rightarrow> 'd nali \<Rightarrow> u64 \<Rightarrow> u64 \<Rightarrow> u64 \<Rightarrow> (bool \<times> u64 \<times> bheap) option" where
  "nali_Update F h t key value old_offset =
     (if is_tree_expand t then None
      else Some (group_Update F h (group_space t ! find_group F t key) key value old_offset))"

definition find_fast :: "('d, 'l) fpu \<Rightarrow> bheap \<Rightarrow> 'd nali \<Rightarrow> u64 \<Rightarrow> u64 \<Rightarrow> bool \<times> u64" where
  "find_fast F h t key value =
     group_fast_fail F h (group_space t ! group_id F (root_model t) (nr_groups t) key) key value"

definition find_slow :: "('d, 'l) fpu \<Rightarrow> bheap \<Rightarrow> 'd nali \<Rightarrow> u64 \<Rightarrow> u64 \<Rightarrow> bool \<times> u64" where
  "find_slow F h t key value = group_Get F h (group_space t ! find_group F t key) key value"

definition nali_Get :: "('d, 'l) fpu \<Rightarrow> bheap \<Rightarrow> 'd nali \<Rightarrow> u64 \<Rightarrow> u64 \<Rightarrow> (bool \<times> u64) option" where
  "nali_Get F h t key value =
     (if is_tree_expand t then None
      else let (found, value') = find_fast F h t key value
           in if found then Some (True, value') else Some (find_slow F h t key value'))"

definition nali_Delete ::
  "('d, 'l) fpu \<Rightarrow> bheap \<Rightarrow> 'd nali \<Rightarrow> u64 \<Rightarrow> u64 option \<Rightarrow> (bool \<times> u64 option \<times> bheap) option" where
  "nali_Delete F h t key old_log_offset =
     (if is_tree_expand t then None
      else Some (group_Delete F h (group_space t ! find_group F t key) key old_log_offset))"

section \<open>Bulk loading\<close>

fun bulk_load_groups ::
  "('d, 'l) fpu \<Rightarrow> (u64 \<times> u64) list \<Rightarrow> nat \<Rightarrow> bheap \<Rightarrow> 'd group list \<Rightarrow> bheap \<times> 'd group list" where
  "bulk_load_groups F data start h [] = (h, [])"
| "bulk_load_groups F data start h (g # gs) =
     (if next_entry_count g = 0
      then let (h', gs') = bulk_load_groups F data start h gs in (h', g # gs')
      else let (h1, g') = group_bulk_load F h (group_reserve_space g) data start (next_entry_count g);
               (h2, gs') = bulk_load_groups F data (start + next_entry_count g') h1 gs
           in (h2, g' # gs'))"

definition nali_bulk_load ::
  "('d, 'l) fpu \<Rightarrow> bheap \<Rightarrow> 'd nali \<Rightarrow> (u64 \<times> u64) list \<Rightarrow> bheap \<times> 'd nali" where
  "nali_bulk_load F h t data =
     (let m = rmi_line_model_init F (map fst data);
          n = length data div min_entry_count;
          counted = fold (\<lambda>kv gs. let gid = group_id F m n (fst kv)
                                  in gs[gid := group_inc_entry_count (gs ! gid)])
                      data (replicate n (zero_group F));
          (h', gs) = bulk_load_groups F data 0 h counted
      in (h', t\<lparr>group_space := gs, root_model := m\<rparr>))"

declare find_group_up.simps [simp del] group_EntryIter_visit.simps [simp del]

section \<open>Predictions of the root model\<close>

lemma predicted_group_eq:
  assumes "- (2 ^ 31) \<le> p" and "p < 2 ^ 31"
  shows "predicted_group p = p div 64"
proof -
  have "uint (word_of_int p div word_of_nat 64 :: 64 word) = (p mod 2 ^ 64) div 64"
    by (simp add: uint_div_distrib uint_word_of_int)
  then have u: "ucast (word_of_int p div word_of_nat 64 :: 64 word) =
      (word_of_int ((p mod 2 ^ 64) div 64) :: 32 word)"
    by (metis ucast_eq)
  have "(word_of_int ((p mod 2 ^ 64) div 64) :: 32 word) = word_of_int (p div 64)"
  proof (cases "0 \<le> p")
    case True
    then show ?thesis using assms by simp
  next
    case False
    then have "p mod 2 ^ 64 = p + 2 ^ 64"
      using assms by (intro mod_pos_pos_trivial [THEN trans [OF mod_add_self2 [symmetric]]]) auto
    moreover have "(p + 2 ^ 64) div 64 = p div 64 + 2 ^ 58" by simp
    moreover have "(word_of_int (p div 64 + 2 ^ 58) :: 32 word) = word_of_int (p div 64)"
      by (simp add: word_of_int_eq_iff take_bit_eq_mod mod_add_right_eq [symmetric])
    ultimately show ?thesis by simp
  qed
  moreover have "signed_take_bit 31 (p div 64) = p div 64"
    using assms by (intro signed_take_bit_int_eq_self) auto
  ultimately show ?thesis
    unfolding predicted_group_def min_entry_count_def u by (simp add: sint_sbintrunc')
qed

definition mono_model :: "('d, 'l) fpu \<Rightarrow> u64 set \<Rightarrow> 'd LinearModel \<Rightarrow> bool" where
  "mono_model F K m \<longleftrightarrow>
     (\<forall>k\<in>K. \<forall>k'\<in>K. k \<le> k' \<longrightarrow> rmi_line_model_predict F m k \<le> rmi_line_model_predict F m k')"

lemma predict_range: "- (2 ^ 31) \<le> rmi_line_model_predict F m k" "rmi_line_model_predict F m k < 2 ^ 31"
  using sint_range_size [where w = "d_to_int F (d_add F (d_mul F (model_a m) (d_of_u64 F k)) (model_b m))"]
  by (simp_all add: rmi_line_model_predict_def LinearModel_predict_def word_size)

lemma group_id_eq: "group_id F m nr k = clamp_group (rmi_line_model_predict F m k div 64) nr"
  by (simp add: group_id_def predicted_group_eq [OF predict_range])

lemma group_id_less: "0 < nr \<Longrightarrow> group_id F m nr k < nr"
  by (simp add: group_id_def clamp_group_def)

lemma group_id_mono:
  assumes "mono_model F K m" and "k \<in> K" and "k' \<in> K" and "k \<le> k'"
  shows "group_id F m nr k \<le> group_id F m nr k'"
proof -
  have "rmi_line_model_predict F m k div 64 \<le> rmi_line_model_predict F m k' div 64"
    using assms by (intro zdiv_mono1) (auto simp: mono_model_def)
  then show ?thesis unfolding group_id_eq clamp_group_def by (intro nat_mono min.mono max.mono) auto
qed

text \<open>
  With a key outside of such a set the order is lost: under the model that dense keys train, the
  clamped group of \<open>2 ^ 40\<close> is the first one, that of 100 is not.
\<close>

lemma group_id_overflow:
  "group_id rat_fpu (rmi_line_model_init rat_fpu (map word_of_nat [0..<16])) 2 100 = 1"
  "group_id rat_fpu (rmi_line_model_init rat_fpu (map word_of_nat [0..<16])) 2 (2 ^ 40) = 0"
  unfolding dense_model group_id_eq predict_overflow by (simp_all add: clamp_group_def)

section \<open>Finding a group\<close>

abbreviation nonempty :: "'d group \<Rightarrow> bool" where
  "nonempty g \<equiv> nr_entries g \<noteq> 0"

lemma find_group_down_spec:
  fixes gs :: "'d group list" and k :: u64
  defines "j \<equiv> \<lambda>i. find_group_down gs k i"
  shows "j i \<le> i \<and> (\<forall>l. j i < l \<longrightarrow> l \<le> i \<longrightarrow> nonempty (gs ! l) \<longrightarrow> k < gkey (gs ! l) 0) \<and>
    (j i = 0 \<or> nonempty (gs ! j i) \<and> gkey (gs ! j i) 0 \<le> k)"
proof (induction i)
  case 0
  then show ?case by (simp add: j_def)
next
  case (Suc i)
  show ?case
  proof (cases "nr_entries (gs ! Suc i) = 0 \<or> k < gkey (gs ! Suc i) 0")
    case True
    then have "j (Suc i) = j i" by (simp add: j_def)
    with Suc True show ?thesis by (auto simp: le_Suc_eq)
  next
    case False
    then have "j (Suc i) = Suc i" by (simp add: j_def)
    with False show ?thesis by (simp add: not_less)
  qed
qed

lemma find_group_up_spec:
  assumes "l < length gs" and "i \<le> l" and "nonempty (gs ! l)"
  shows "i \<le> find_group_up gs i \<and> find_group_up gs i < length gs \<and> nonempty (gs ! find_group_up gs i) \<and>
    (\<forall>j. i \<le> j \<longrightarrow> j < find_group_up gs i \<longrightarrow> nr_entries (gs ! j) = 0)"
  using assms
proof (induction gs i rule: find_group_up.induct)
  case (1 gs i)
  show ?case
  proof (cases "nr_entries (gs ! i) = 0")
    case True
    then have less: "i < length gs" "Suc i \<le> l" using "1.prems" by (auto simp: Suc_le_eq le_less)
    have up: "find_group_up gs i = find_group_up gs (Suc i)"
      using True less(1) by (subst find_group_up.simps) simp
    have "\<forall>j. i \<le> j \<longrightarrow> j < find_group_up gs (Suc i) \<longrightarrow> nr_entries (gs ! j) = 0"
      using "1.IH" [OF conjI [OF less(1) True] "1.prems"(1) less(2) "1.prems"(3)] True by (metis le_antisym not_less_eq_eq)
    then show ?thesis
      using "1.IH" [OF conjI [OF less(1) True] "1.prems"(1) less(2) "1.prems"(3)] unfolding up by simp
  next
    case False
    then have "find_group_up gs i = i" by (subst find_group_up.simps) simp
    with False "1.prems" show ?thesis by simp
  qed
qed

text \<open>
  The first separator of a group predicts the group itself or a later one; this may fail for
  the first group that is not empty, to which smaller keys are added.
\<close>

definition at_home :: "('d, 'l) fpu \<Rightarrow> 'd LinearModel \<Rightarrow> 'd group list \<Rightarrow> bool" where
  "at_home F m gs \<longleftrightarrow> (\<forall>i<length gs. \<forall>j<i. nonempty (gs ! i) \<longrightarrow> nonempty (gs ! j) \<longrightarrow>
     i \<le> group_id F m (length gs) (gkey (gs ! i) 0))"

lemma find_group_spec:
  fixes k :: u64
  assumes home: "at_home F (root_model t) (group_space t)" and ne: "\<exists>g\<in>set (group_space t). nonempty g"
  defines "i \<equiv> find_group F t k" and "gs \<equiv> group_space t"
  shows "i < nr_groups t" and "nonempty (gs ! i)"
    and "mono_model F K (root_model t) \<Longrightarrow> k \<in> K \<Longrightarrow> gkey (gs ! l) 0 \<in> K \<Longrightarrow>
      i < l \<Longrightarrow> l < nr_groups t \<Longrightarrow> nonempty (gs ! l) \<Longrightarrow> k < gkey (gs ! l) 0"
    and "j < i \<Longrightarrow> nonempty (gs ! j) \<Longrightarrow> gkey (gs ! i) 0 \<le> k"
proof -
  define p where "p = group_id F (root_model t) (nr_groups t) k"
  define d where "d = find_group_down gs k p"
  have i: "i = find_group_up gs d" by (simp add: i_def find_group_def gs_def d_def p_def)
  note down = find_group_down_spec [of gs k p, folded d_def]
  obtain l0 where l0: "l0 < length gs" "nonempty (gs ! l0)" using ne by (auto simp: gs_def in_set_conv_nth)
  have "0 < length gs" using l0(1) by linarith
  from group_id_less [OF this] have p: "p < length gs" by (simp add: p_def gs_def)
  have "\<exists>l. l < length gs \<and> d \<le> l \<and> nonempty (gs ! l)"
    using down l0 p by (metis le0 le_less_trans order_refl)
  then obtain l1 where "l1 < length gs" "d \<le> l1" "nonempty (gs ! l1)" by blast
  note up = find_group_up_spec [OF this, folded i]
  show less: "i < nr_groups t" and nei: "nonempty (gs ! i)" using up by (simp_all add: gs_def)
  show "k < gkey (gs ! l) 0"
    if K: "mono_model F K (root_model t)" "k \<in> K" "gkey (gs ! l) 0 \<in> K"
      and l: "i < l" "l < nr_groups t" "nonempty (gs ! l)" for l
  proof (cases "l \<le> p")
    case True
    then show ?thesis using down up l by auto
  next
    case False
    have l': "l \<le> group_id F (root_model t) (nr_groups t) (gkey (gs ! l) 0)"
      using home l nei unfolding at_home_def gs_def by blast
    show ?thesis
    proof (rule ccontr)
      assume "\<not> ?thesis"
      then have "gkey (gs ! l) 0 \<le> k" by simp
      from group_id_mono [OF K(1,3,2) this] l' have "l \<le> p" unfolding p_def by (rule order.trans [rotated])
      with False show False by simp
    qed
  qed
  show "gkey (gs ! i) 0 \<le> k" if j: "j < i" "nonempty (gs ! j)" for j
  proof -
    have quiet: "nr_entries (gs ! x) = 0" if "d \<le> x" "x < i" for x using up that by simp
    have "\<not> d \<le> j" using quiet [of j] j by auto
    then have d: "nonempty (gs ! d)" "gkey (gs ! d) 0 \<le> k" using down by simp_all
    have "\<not> d < i" using quiet [of d] d(1) by auto
    then have "i = d" using up by linarith
    with d(2) show ?thesis by simp
  qed
qed

section \<open>The invariant of the tree\<close>

definition tgroups :: "'d nali \<Rightarrow> 'd group list" where
  "tgroups t = filter nonempty (group_space t)"

abbreviation groups_ok :: "bheap \<Rightarrow> 'd group list \<Rightarrow> bool" where
  "groups_ok \<equiv> store_ok (flats gflat) (all_ptrs gptrs) (all_wf group_wf)"

text \<open>
  \<open>K\<close> is the set of the keys that clients use: all separators and keys are in it, and the root model is
  monotone on it.
\<close>

definition tree_ok :: "('d, 'l) fpu \<Rightarrow> u64 set \<Rightarrow> bheap \<Rightarrow> 'd nali \<Rightarrow> bool" where
  "tree_ok F K h t \<longleftrightarrow> groups_ok h (tgroups t) \<and> tgroups t \<noteq> [] \<and> mono_model F K (root_model t) \<and>
     leaves_in K (flats gflat h (tgroups t)) \<and>
     at_home F (root_model t) (group_space t) \<and> \<not> is_tree_expand t \<and>
     (\<forall>g\<in>set (group_space t). nr_entries g = 0 \<longrightarrow> next_entry_count g = 0)"

text \<open>The map that the tree denotes.\<close>

definition tree_map :: "bheap \<Rightarrow> 'd nali \<Rightarrow> u64 \<rightharpoonup> u64" where
  "tree_map h t = leaf_map (flats gflat h (tgroups t))"

lemma gkey_first:
  assumes "group_wf h g"
  shows "gkey g 0 = sep (hd (gflat h g))"
proof -
  obtain e es where es: "gents g = e # es" using gents_ne [OF assms] by (cases "gents g") auto
  then have wf: "bentry_wf h e" using assms by (simp add: group_wf_def all_wf_def)
  have "entry_space g ! 0 = e" using es gents_nth [of 0 g] assms by (simp add: group_wf_def)
  then show ?thesis using sep_hd_bflat [OF wf] bflat_ne [OF wf] by (simp add: gflat_def flats_def es)
qed

lemma nonempty_wf: "group_wf h g \<Longrightarrow> nonempty g"
  by (simp add: group_wf_def)

lemma tree_group_wf:
  "tree_ok F K h t \<Longrightarrow> i < nr_groups t \<Longrightarrow> nonempty (group_space t ! i) \<Longrightarrow> group_wf h (group_space t ! i)"
  by (simp add: tree_ok_def store_ok_def all_wf_def tgroups_def)

lemma tree_gkey:
  assumes ok: "tree_ok F K h t" and i: "i < nr_groups t" "nonempty (group_space t ! i)"
  shows "gkey (group_space t ! i) 0 \<in> K"
proof -
  have wf: "group_wf h (group_space t ! i)" by (rule tree_group_wf [OF ok i])
  have "group_space t ! i \<in> set (tgroups t)" using i by (simp add: tgroups_def)
  then have "hd (gflat h (group_space t ! i)) \<in> set (flats gflat h (tgroups t))"
    using hd_in_set [OF group.flat_ne [OF wf]] by (auto simp: flats_def)
  then show ?thesis using ok gkey_first [OF wf] by (simp add: tree_ok_def leaves_in_def)
qed

text \<open>Any group that is not empty is a part of the tree.\<close>

lemma tree_group_ok:
  assumes ok: "tree_ok F K h t" and i: "i < nr_groups t" "nonempty (group_space t ! i)"
  shows "group_ok h (group_space t ! i)"
    and "leaf_map (gflat h (group_space t ! i)) k = Some w \<Longrightarrow> tree_map h t k = Some w"
proof -
  let ?g = "group_space t ! i"
  have "?g \<in> set (tgroups t)" using i by (simp add: tgroups_def)
  then obtain A B where split: "tgroups t = A @ ?g # B" by (meson split_list)
  have ord: "ordered (flats gflat h A @ gflat h ?g @ flats gflat h B)"
    using ok by (simp add: tree_ok_def store_ok_def split flats_def)
  show "group_ok h ?g"
    using ok tree_group_wf [OF ok i] ord
    by (simp add: tree_ok_def store_ok_def split all_ptrs_def ordered_append)
  show "tree_map h t k = Some w" if "leaf_map (gflat h ?g) k = Some w"
    using leaf_map_part [OF ord that] by (simp add: tree_map_def split flats_def)
qed

lemma tree_find_group:
  assumes ok: "tree_ok F K h t"
  shows "find_group F t k < nr_groups t" and "nonempty (group_space t ! find_group F t k)"
proof -
  have home: "at_home F (root_model t) (group_space t)" and "tgroups t \<noteq> []" using ok by (auto simp: tree_ok_def)
  then have "\<exists>g\<in>set (group_space t). nonempty g" by (auto simp: tgroups_def filter_empty_conv)
  from find_group_spec(1,2) [OF home this, where k = k]
  show "find_group F t k < nr_groups t" "nonempty (group_space t ! find_group F t k)" by auto
qed

lemma filter_split:
  "i < length gs \<Longrightarrow> P (gs ! i) \<Longrightarrow>
   filter P gs = filter P (take i gs) @ gs ! i # filter P (drop (Suc i) gs)"
  by (metis filter.simps(2) filter_append id_take_nth_drop)

text \<open>\<^verbatim>\<open>find_group\<close> picks the group whose separators surround the key.\<close>

lemma tree_find:
  fixes k :: u64
  assumes ok: "tree_ok F K h t" and key: "k \<in> K"
  defines "i \<equiv> find_group F t k" and "gs \<equiv> group_space t"
  defines "p \<equiv> slot (map (\<lambda>g. sep (hd (gflat h g))) (tgroups t)) k"
  shows "i < nr_groups t" and "nonempty (gs ! i)" and "p = length (filter nonempty (take i gs))"
    and "tgroups t ! p = gs ! i"
    and "filter nonempty (take i gs) \<noteq> [] \<Longrightarrow> gkey (gs ! i) 0 \<le> k"
proof -
  have mono: "mono_model F K (root_model t)" and home: "at_home F (root_model t) (group_space t)"
    and gok: "groups_ok h (tgroups t)" and "tgroups t \<noteq> []"
    using ok by (auto simp: tree_ok_def)
  then have ne: "\<exists>g\<in>set (group_space t). nonempty g" by (auto simp: tgroups_def filter_empty_conv)
  note at = find_group_spec [OF home ne, where k = k, folded i_def gs_def]
  show less: "i < nr_groups t" and nei: "nonempty (gs ! i)" using at(1,2) by (simp_all add: gs_def)
  let ?A = "filter nonempty (take i gs)" and ?B = "filter nonempty (drop (Suc i) gs)"
  let ?key = "\<lambda>g. sep (hd (gflat h g))"
  have split: "tgroups t = ?A @ gs ! i # ?B"
    using filter_split [of i gs nonempty] less nei by (simp add: tgroups_def gs_def)
  have wf: "all_wf group_wf h (tgroups t)" and ord: "ordered (concat (map (gflat h) (tgroups t)))"
    using gok by (auto simp: store_ok_def flats_def)
  have key': "?key g = gkey g 0" if "g \<in> set (tgroups t)" for g
    using gkey_first [of h g] wf that by (simp add: all_wf_def)
  have "sorted (map ?key (tgroups t))"
    using strict_sorted_imp_sorted [OF ordered_concat_seps [OF ord group.flats_ne [OF wf]]] by (simp add: comp_def)
  then have sorted: "sorted (map ?key ?A @ ?key (gs ! i) # map ?key ?B)" by (simp add: split)
  show low: "gkey (gs ! i) 0 \<le> k" if "?A \<noteq> []"
  proof -
    obtain g where "g \<in> set (take i gs)" "nonempty g" using \<open>?A \<noteq> []\<close> by (auto simp: filter_empty_conv)
    then obtain j where "j < i" "nonempty (gs ! j)" by (auto simp: in_set_conv_nth)
    then show ?thesis by (rule at(4))
  qed
  have high: "k < b" if "b \<in> set (map ?key ?B)" for b
  proof -
    obtain g where g: "g \<in> set (drop (Suc i) gs)" "nonempty g" "b = ?key g" using \<open>b \<in> set (map ?key ?B)\<close> by auto
    then obtain l where l: "i < l" "l < length gs" "g = gs ! l"
      by (auto simp: in_set_conv_nth) (metis less_add_Suc1 less_diff_conv add.commute add_Suc_right)
    have "g \<in> set (tgroups t)" using g l by (simp add: tgroups_def gs_def)
    then have "k < gkey (gs ! l) 0"
      using tree_gkey [OF ok, of l] l g by (intro at(3) [OF mono \<open>k \<in> K\<close>]) (auto simp: gs_def)
    then show ?thesis using key' [OF \<open>g \<in> set (tgroups t)\<close>] l g by simp
  qed
  have "slot (map ?key ?A @ ?key (gs ! i) # map ?key ?B) k = length (map ?key ?A)"
  proof (rule slot_eqI [OF sorted high])
    show "?key (gs ! i) \<le> k" if "map ?key ?A \<noteq> []"
      using low that key' [of "gs ! i"] less nei by (simp add: tgroups_def gs_def)
  qed
  then show p: "p = length ?A" by (simp add: p_def split)
  show "tgroups t ! p = gs ! i" unfolding p split by simp
qed

lemma tree_at:
  assumes ok: "tree_ok F K h t"
  shows "group_ok h (group_space t ! find_group F t k)"
    and "tree_map h t k = leaf_map (gflat h (group_space t ! find_group F t k)) k"
proof -
  note gr = tree_group_ok [OF ok tree_find_group [OF ok, of k]]
  show "group_ok h (group_space t ! find_group F t k)" by (rule gr(1))
  have gok: "groups_ok h (tgroups t)" "tgroups t \<noteq> []" using ok by (auto simp: tree_ok_def)
  show "tree_map h t k = leaf_map (gflat h (group_space t ! find_group F t k)) k"
  proof (cases "k \<in> K")
    case True
    then show ?thesis
      using group.flats_slot(3) [OF gok, of k] tree_find(4) [OF ok True] by (simp add: tree_map_def)
  next
    case False
    then have "tree_map h t k = None"
      using ok leaves_in_map [of "flats gflat h (tgroups t)" K k] by (simp add: tree_map_def tree_ok_def store_ok_def)
    then show ?thesis using gr(2) [of k] by (cases "leaf_map (gflat h (group_space t ! find_group F t k)) k") auto
  qed
qed

lemma tree_map_keys: "tree_ok F K h t \<Longrightarrow> tree_map h t k = Some w \<Longrightarrow> k \<in> K"
  using leaves_in_map [of "flats gflat h (tgroups t)" K k] by (auto simp: tree_map_def tree_ok_def store_ok_def)

text \<open>A step of the group of the key is a step of the tree.\<close>

lemma tree_step:
  assumes ok: "tree_ok F K h t" and key: "k \<in> K" and step: "group_step k r h (group_space t ! find_group F t k) h' g'"
  defines "t' \<equiv> t\<lparr>group_space := (group_space t)[find_group F t k := g']\<rparr>"
  shows "tree_ok F K h' t'" and "tree_map h' t' = (tree_map h t)(k := r)"
proof -
  define i where "i = find_group F t k"
  let ?gs = "group_space t"
  let ?p = "slot (map (\<lambda>g. sep (hd (gflat h g))) (tgroups t)) k"
  note at = tree_find [OF ok key, folded i_def]
  have gok: "groups_ok h (tgroups t)" "tgroups t \<noteq> []" and home: "at_home F (root_model t) ?gs"
    and mono: "mono_model F K (root_model t)" and lin: "leaves_in K (flats gflat h (tgroups t))"
    and empty: "\<forall>g\<in>set ?gs. nr_entries g = 0 \<longrightarrow> next_entry_count g = 0"
    using ok by (auto simp: tree_ok_def)
  have wf': "group_wf h' g'" and ls: "lstep k r (gflat h (?gs ! i)) (gflat h' g')"
    using step by (auto simp: store_step_def i_def)
  have "tgroups t' = (tgroups t)[?p := g']"
    using at(1,2,3) nonempty_wf [OF wf'] filter_split [of i ?gs nonempty] filter_split [of i "?gs[i := g']" nonempty]
    by (simp add: tgroups_def t'_def list_update_append flip: i_def)
  then have st: "store_step (flats gflat) (all_ptrs gptrs) (all_wf group_wf) k r h (tgroups t) h' (tgroups t')"
    using group.flats_step [OF gok, of k r h' g'] step at(4) by (simp add: i_def)
  then have "lstep k r (flats gflat h (tgroups t)) (flats gflat h' (tgroups t'))" by (simp add: store_step_def)
  from leaves_in_lstep [OF this lin key] have lin': "leaves_in K (flats gflat h' (tgroups t'))" .
  have mem': "g' \<in> set (tgroups t')"
    using at(1) nonempty_wf [OF wf'] set_update_memI [of i ?gs g'] by (simp add: tgroups_def t'_def i_def)
  have "at_home F (root_model t) (?gs[i := g'])"
    unfolding at_home_def
  proof (intro allI impI)
    fix a b assume ab: "a < length (?gs[i := g'])" "b < a" "nonempty (?gs[i := g'] ! a)" "nonempty (?gs[i := g'] ! b)"
    have old: "nonempty (?gs ! a)" "nonempty (?gs ! b)"
      using ab at(1,2) by (auto simp: nth_list_update split: if_splits)
    have ha: "a \<le> group_id F (root_model t) (length ?gs) (gkey (?gs ! a) 0)"
      using home ab old by (simp add: at_home_def)
    show "a \<le> group_id F (root_model t) (length (?gs[i := g'])) (gkey (?gs[i := g'] ! a) 0)"
    proof (cases "a = i")
      case True
      have "gkey (?gs ! i) 0 \<le> k"
        using ab(2) old(2) True at(1) nth_mem [of b "take i ?gs"] by (intro at(5)) (auto simp: filter_empty_conv)
      moreover have "min (gkey (?gs ! i) 0) k \<le> gkey g' 0"
        using ls group.flat_ne [OF wf'] gkey_first [OF wf'] gkey_first [OF tree_group_wf [OF ok at(1,2)]]
        by (simp add: lstep_def)
      ultimately have "gkey (?gs ! i) 0 \<le> gkey g' 0" by simp
      moreover have "gkey (?gs ! i) 0 \<in> K" by (rule tree_gkey [OF ok at(1,2)])
      moreover have "gkey g' 0 \<in> K"
        using lin' mem' hd_in_set [OF group.flat_ne [OF wf']] gkey_first [OF wf'] by (auto simp: leaves_in_def flats_def)
      ultimately have "group_id F (root_model t) (length ?gs) (gkey (?gs ! i) 0) \<le> group_id F (root_model t) (length ?gs) (gkey g' 0)"
        by (intro group_id_mono [OF mono])
      with ha True at(1) show ?thesis by (simp add: order.trans)
    qed (use ha in simp)
  qed
  moreover have "\<forall>g\<in>set (?gs[i := g']). nr_entries g = 0 \<longrightarrow> next_entry_count g = 0"
    using empty nonempty_wf [OF wf'] set_update_subset_insert [of ?gs i g'] by auto
  moreover have "tgroups t' \<noteq> []" using mem' by auto
  ultimately show "tree_ok F K h' t'"
    using ok store_step_ok [OF st] lin' by (simp add: tree_ok_def t'_def i_def)
  show "tree_map h' t' = (tree_map h t)(k := r)"
    using store_step_map [OF st] by (simp add: tree_map_def)
qed

section \<open>Lookup, update and removal\<close>

lemma nali_Get_correct:
  assumes ok: "tree_ok F K h t"
  shows "nali_Get F h t k v =
    Some (case tree_map h t k of None \<Rightarrow> (False, v) | Some w \<Rightarrow> (True, w))"
proof -
  let ?g = "group_space t ! group_id F (root_model t) (nr_groups t) k"
  have run: "\<not> is_tree_expand t" using ok by (simp add: tree_ok_def)
  have slow: "find_slow F h t k v = (case tree_map h t k of None \<Rightarrow> (False, v) | Some w \<Rightarrow> (True, w))"
    using group_Get_correct [OF tree_at(1) [OF ok, of k], of F k v] tree_at(2) [OF ok, of k] by (simp add: find_slow_def)
  have "find_fast F h t k v = (False, v) \<or> (\<exists>w. find_fast F h t k v = (True, w) \<and> tree_map h t k = Some w)"
  proof (cases "nr_entries ?g \<le> 0 \<or> k < group_min_key ?g")
    case True
    then show ?thesis by (simp add: find_fast_def group_fast_fail_def)
  next
    case False
    then have ne: "nonempty ?g" by simp
    have "0 < nr_groups t" using ok by (auto simp: tree_ok_def tgroups_def)
    then have less: "group_id F (root_model t) (nr_groups t) k < nr_groups t" by (rule group_id_less)
    from group_Get_correct [OF tree_group_ok(1) [OF ok less ne], of F k v] tree_group_ok(2) [OF ok less ne, of k] False show ?thesis
      by (auto simp: find_fast_def group_fast_fail_def split: option.splits)
  qed
  then show ?thesis using run slow by (auto simp: nali_Get_def Let_def)
qed

lemma tree_update_id: "t\<lparr>group_space := (group_space t)[i := group_space t ! i]\<rparr> = t"
  by simp

lemma nali_Update_correct:
  assumes ok: "tree_ok F K h t"
  obtains (missing) "tree_map h t k = None" "nali_Update F h t k v old = Some (False, old, h)"
  | (found) w h' where "tree_map h t k = Some w" "nali_Update F h t k v old = Some (True, w, h')"
      "tree_ok F K h' t" "tree_map h' t = (tree_map h t)(k \<mapsto> v)"
proof -
  have run: "\<not> is_tree_expand t" using ok by (simp add: tree_ok_def)
  note at = tree_at [OF ok, of k]
  show ?thesis
  proof (cases rule: group_Update_correct [OF at(1), of k F v old])
    case 1
    then show ?thesis using missing run at(2) by (simp add: nali_Update_def)
  next
    case (2 w h')
    have "tree_map h t k = Some w" using 2 at(2) by simp
    from tree_map_keys [OF ok this] have key: "k \<in> K" .
    note st = tree_step [OF ok key 2(3), unfolded tree_update_id]
    show ?thesis using found [OF _ _ st] 2 run at(2) by (simp add: nali_Update_def)
  qed
qed

lemma nali_Delete_correct:
  assumes ok: "tree_ok F K h t"
  obtains (missing) "tree_map h t k = None" "nali_Delete F h t k out = Some (False, out, h)"
  | (found) w h' where "tree_map h t k = Some w" "nali_Delete F h t k out = Some (True, set_out out w, h')"
      "tree_ok F K h' t" "tree_map h' t = (tree_map h t)(k := None)"
proof -
  have run: "\<not> is_tree_expand t" using ok by (simp add: tree_ok_def)
  note at = tree_at [OF ok, of k]
  show ?thesis
  proof (cases rule: group_Delete_correct [OF at(1), of k F out])
    case 1
    then show ?thesis using missing run at(2) by (simp add: nali_Delete_def)
  next
    case (2 w h')
    have "tree_map h t k = Some w" using 2 at(2) by simp
    from tree_map_keys [OF ok this] have key: "k \<in> K" .
    note st = tree_step [OF ok key 2(3), unfolded tree_update_id]
    show ?thesis using found [OF _ _ st] 2 run at(2) by (simp add: nali_Delete_def)
  qed
qed

section \<open>Expansion\<close>

lemma group_EntryIter_visit_eq:
  assumes "nr_entries g \<le> length (entry_space g)" and "\<forall>e\<in>set (gents g). 1 \<le> PointerBEntry_entries e"
    and "i < nr_entries g \<Longrightarrow> b < PointerBEntry_entries (entry_space g ! i)"
  shows "group_EntryIter_visit g i b =
    drop b (leaves (drop i (gents g)))"
  using assms
proof (induction g i b rule: group_EntryIter_visit.induct)
  case (1 g i b)
  let ?e = "entry_space g ! i"
  show ?case
  proof (cases "nr_entries g \<le> i")
    case True
    then show ?thesis by (subst group_EntryIter_visit.simps) (simp add: gents_def leaves_def)
  next
    case False
    then have b: "b < PointerBEntry_entries ?e" using "1.prems"(3) by simp
    have len: "length (PointerBEntry_EntryIter ?e) = PointerBEntry_entries ?e" by (simp add: EntryIter_eq)
    have i: "i < length (gents g)" "gents g ! i = ?e" using False "1.prems"(1) by (auto simp: gents_def)
    have drop: "leaves (drop i (gents g)) = PointerBEntry_EntryIter ?e @ leaves (drop (Suc i) (gents g))"
      using i by (simp add: leaves_def flip: Cons_nth_drop_Suc)
    have nth: "PointerBEntry_EntryIter ?e ! b = entrys ?e b" using b by (simp add: EntryIter_eq)
    show ?thesis
    proof (cases "b + 1 < PointerBEntry_entries ?e")
      case True
      then have "group_EntryIter_visit g i (b + 1) = drop (b + 1) (leaves (drop i (gents g)))"
        using "1.prems" False by (intro "1.IH"(1) [OF False refl refl, of _ True]) (auto simp: EntryIter_next_def)
      then show ?thesis
        using False True b len nth by (subst group_EntryIter_visit.simps)
          (simp add: EntryIter_next_def Let_def drop flip: Cons_nth_drop_Suc)
    next
      case last: False
      have "group_EntryIter_visit g (Suc i) 0 = drop 0 (leaves (drop (Suc i) (gents g)))"
      proof (rule "1.IH"(2) [OF False refl refl, of "PointerBEntry_entries ?e" False])
        show "(PointerBEntry_entries ?e, False) = EntryIter_next ?e b" using last by (simp add: EntryIter_next_def)
        show "0 < PointerBEntry_entries (entry_space g ! Suc i)" if "Suc i < nr_entries g"
        proof -
          have "entry_space g ! Suc i \<in> set (gents g)"
            using nth_mem [of "Suc i" "gents g"] that "1.prems"(1) by (simp add: gents_def)
          then show ?thesis using "1.prems"(2) by fastforce
        qed
      qed (use "1.prems" in auto)
      then show ?thesis
        using False last b len nth by (subst group_EntryIter_visit.simps)
          (simp add: EntryIter_next_def Let_def drop flip: Cons_nth_drop_Suc)
    qed
  qed
qed

lemma group_EntryIter_leaves:
  assumes "group_wf h g"
  shows "group_EntryIter g = leaves (gents g)"
proof -
  have pos: "1 \<le> PointerBEntry_entries e" if "e \<in> set (gents g)" for e
    using assms that by (auto simp: group_wf_def all_wf_def bentry_wf_def)
  have "entry_space g ! 0 \<in> set (gents g)"
    using assms nth_mem [of 0 "gents g"] by (simp add: group_wf_def gents_def)
  then show ?thesis
    using group_EntryIter_visit_eq [of g 0 0] assms pos
    by (simp add: group_EntryIter_def group_wf_def Suc_le_eq)
qed

text \<open>The group that the passes of \<^verbatim>\<open>ExpandTree\<close> build from the leaves \<open>ys\<close>.\<close>

definition rebuilt :: "('d, 'l) fpu \<Rightarrow> eentry list \<Rightarrow> 'd group" where
  "rebuilt F ys = (if ys = [] then zero_group F else
     \<lparr>nr_entries = length ys, next_entry_count = length ys, group_min_key = entry_key (hd ys),
      entry_space = map PointerBEntry_of_eentry ys,
      group_model = entry_model F (map PointerBEntry_of_eentry ys) (length ys)\<rparr>)"

lemma fold_inc: "fold (\<lambda>x. group_inc_entry_count) ys g = g\<lparr>next_entry_count := next_entry_count g + length ys\<rparr>"
  by (induction ys arbitrary: g) (simp_all add: group_inc_entry_count_def)

lemma fold_append:
  assumes "nr_entries g + length ys \<le> length (entry_space g)"
  shows "fold (\<lambda>x g. group_append_entry g x) ys g =
    g\<lparr>entry_space := take (nr_entries g) (entry_space g) @ map PointerBEntry_of_eentry ys @
         drop (nr_entries g + length ys) (entry_space g),
      nr_entries := nr_entries g + length ys\<rparr>"
  using assms
proof (induction ys arbitrary: g)
  case (Cons y ys)
  then show ?case
    by (simp add: group_append_entry_def take_Suc_conv_app_nth take_update_swap drop_update_cancel
        list_update_append)
qed simp

lemma ExpandTree_lengths [simp]:
  "length (ExpandTree_count gid xs gs) = length gs"
  "length (ExpandTree_append gid xs gs) = length gs"
  "length (ExpandTree_reserve gs) = length gs"
  "length (ExpandTree_retrain F gs) = length gs"
  unfolding ExpandTree_count_def ExpandTree_append_def
  using fold_update_length [of "\<lambda>x. gid (entry_key x)" "\<lambda>x. group_inc_entry_count" xs gs]
    fold_update_length [of "\<lambda>x. gid (entry_key x)" "\<lambda>x g. group_append_entry g x" xs gs]
  by (simp_all add: ExpandTree_reserve_def ExpandTree_retrain_def)

lemma ExpandTree_nths:
  assumes "j < length gs"
  shows "ExpandTree_count gid xs gs ! j = fold (\<lambda>x. group_inc_entry_count) (filter (\<lambda>x. gid (entry_key x) = j) xs) (gs ! j)"
    and "ExpandTree_append gid xs gs ! j =
      fold (\<lambda>x g. group_append_entry g x) (filter (\<lambda>x. gid (entry_key x) = j) xs) (gs ! j)"
  unfolding ExpandTree_count_def ExpandTree_append_def
  using fold_update_nth [OF assms, of "\<lambda>x. gid (entry_key x)" "\<lambda>x. group_inc_entry_count" xs]
    fold_update_nth [OF assms, of "\<lambda>x. gid (entry_key x)" "\<lambda>x g. group_append_entry g x" xs]
  by simp_all

lemma rebuild_groups:
  "ExpandTree_retrain F (ExpandTree_append gid xs (ExpandTree_reserve
      (ExpandTree_count gid xs (replicate n (zero_group F))))) =
   map (\<lambda>j. rebuilt F (filter (\<lambda>x. gid (entry_key x) = j) xs)) [0..<n]" (is "?new = ?spec")
proof (rule nth_equalityI)
  fix j assume "j < length ?new"
  then have j: "j < n" by simp
  define ys where "ys = filter (\<lambda>x. gid (entry_key x) = j) xs"
  let ?g = "(zero_group F)\<lparr>next_entry_count := length ys\<rparr>"
  let ?r = "if length ys = 0 then ?g else group_reserve_space ?g"
  have "ExpandTree_reserve (ExpandTree_count gid xs (replicate n (zero_group F))) ! j = ?r"
    using j by (simp add: ExpandTree_reserve_def ExpandTree_nths fold_inc zero_group_def flip: ys_def)
  then have "?new ! j = (let g = fold (\<lambda>x g. group_append_entry g x) ys ?r
      in if next_entry_count g = 0 then g else group_re_tarin F g)"
    using j by (simp add: ExpandTree_retrain_def ExpandTree_nths Let_def flip: ys_def)
  moreover have "fold (\<lambda>x g. group_append_entry g x) ys ?r =
      ?r\<lparr>entry_space := map PointerBEntry_of_eentry ys, nr_entries := length ys\<rparr>"
    by (subst fold_append) (auto simp: group_reserve_space_def zero_group_def)
  ultimately have "?new ! j = rebuilt F ys"
    by (cases ys) (auto simp: rebuilt_def group_reserve_space_def group_re_tarin_def zero_group_def Let_def)
  then show "?new ! j = ?spec ! j" using j by (simp add: ys_def)
qed simp

lemma rebuilt_views:
  "gents (rebuilt F ys) = map PointerBEntry_of_eentry ys"
  "gflat h (rebuilt F ys) = map (leaf_of h) ys"
  "gptrs (rebuilt F ys) = map pointer ys"
  "nr_entries (rebuilt F ys) = length ys" "next_entry_count (rebuilt F ys) = length ys"
  "ys \<noteq> [] \<Longrightarrow> gkey (rebuilt F ys) 0 = entry_key (hd ys)"
proof -
  show g: "gents (rebuilt F ys) = map PointerBEntry_of_eentry ys"
    by (simp add: rebuilt_def gents_def zero_group_def)
  show "gflat h (rebuilt F ys) = map (leaf_of h) ys" "gptrs (rebuilt F ys) = map pointer ys"
    by (simp_all add: gflat_def gptrs_def g leaves_of_eentry)
qed (auto simp: rebuilt_def zero_group_def hd_conv_nth)

lemma concat_nonempty:
  assumes "\<And>g. \<not> nonempty g \<Longrightarrow> g \<in> set gs \<Longrightarrow> f g = []"
  shows "concat (map f (filter nonempty gs)) = concat (map f gs)"
  using assms by (induction gs) auto

text \<open>Ordered leaves, distributed by a monotone model.\<close>

lemma distribute:
  fixes F :: "('d, 'l) fpu"
  assumes ord: "ordered (map (leaf_of h) xs)" and dist: "distinct (map pointer xs)" and hw: "bheap_wf h"
    and wf: "all_wf bentry_wf h (map PointerBEntry_of_eentry xs)" and ne: "xs \<noteq> []"
    and lin: "leaves_in K (map (leaf_of h) xs)"
    and mono: "mono_model F K (root_model t)" and run: "\<not> is_tree_expand t" and n: "0 < n"
    and gs: "group_space t =
      map (\<lambda>j. rebuilt F (filter (\<lambda>x. group_id F (root_model t) n (entry_key x) = j) xs)) [0..<n]"
  shows "tree_ok F K h t" and "tree_map h t = leaf_map (map (leaf_of h) xs)"
    and "\<And>g e. g \<in> set (tgroups t) \<Longrightarrow> e \<in> set (gents g) \<Longrightarrow> PointerBEntry_entries e = 1"
proof -
  let ?gid = "\<lambda>x. group_id F (root_model t) n (entry_key x)"
  let ?ys = "\<lambda>j. filter (\<lambda>x. ?gid x = j) xs"
  have keys: "entry_key x \<in> K" if "x \<in> set xs" for x using lin that by (simp add: leaves_in_def)
  have "sorted_wrt (<) (map entry_key xs)" using ordered_sorted [OF ord] by (simp add: comp_def)
  then have "sorted (map ?gid xs)"
    using group_id_mono [OF mono keys keys, of _ _ n] unfolding sorted_map
    by (auto simp: sorted_wrt_map elim!: sorted_wrt_mono_rel [rotated])
  then have whole: "concat (map ?ys [0..<n]) = xs"
    by (rule concat_filter_mono) (simp add: group_id_less n)
  have flat: "flats gflat h (tgroups t) = map (leaf_of h) xs"
  proof -
    have "flats gflat h (tgroups t) = concat (map (gflat h) (group_space t))"
      unfolding flats_def tgroups_def by (rule concat_nonempty) (auto simp: gs rebuilt_views)
    also have "\<dots> = map (leaf_of h) (concat (map ?ys [0..<n]))"
      by (simp add: gs rebuilt_views map_concat comp_def)
    finally show ?thesis by (simp only: whole)
  qed
  have ptrs: "all_ptrs gptrs (tgroups t) = map pointer xs"
  proof -
    have "all_ptrs gptrs (tgroups t) = concat (map gptrs (group_space t))"
      unfolding all_ptrs_def tgroups_def by (rule concat_nonempty) (auto simp: gs rebuilt_views)
    also have "\<dots> = map pointer (concat (map ?ys [0..<n]))"
      by (simp add: gs rebuilt_views map_concat comp_def)
    finally show ?thesis by (simp only: whole)
  qed
  have gwf: "group_wf h g" if mem: "g \<in> set (tgroups t)" for g
  proof -
    obtain j where g: "g = rebuilt F (?ys j)" and "?ys j \<noteq> []"
      using mem by (auto simp: tgroups_def gs rebuilt_views)
    then show ?thesis
      using wf by (simp add: group_wf_def rebuilt_views comp_def sum_list_triv all_wf_def)
        (auto simp: rebuilt_def)
  qed
  show "tree_map h t = leaf_map (map (leaf_of h) xs)" by (simp add: tree_map_def flat)
  show "PointerBEntry_entries e = 1" if "g \<in> set (tgroups t)" "e \<in> set (gents g)" for g e
    using that by (auto simp: tgroups_def gs rebuilt_views)
  have "at_home F (root_model t) (group_space t)"
    unfolding at_home_def
  proof (intro allI impI)
    fix i j assume i: "i < length (group_space t)" "nonempty (group_space t ! i)"
    then have y: "?ys i \<noteq> []" by (simp add: gs rebuilt_views)
    then have "?gid (hd (?ys i)) = i" using hd_in_set [OF y] by simp
    then show "i \<le> group_id F (root_model t) (length (group_space t)) (gkey (group_space t ! i) 0)"
      using i y by (simp add: gs rebuilt_views)
  qed
  moreover have "tgroups t \<noteq> []"
    using flat ne by (auto simp: flats_def)
  moreover have "groups_ok h (tgroups t)"
    using gwf ord dist hw by (simp add: store_ok_def flat ptrs all_wf_def)
  moreover have "\<forall>g\<in>set (group_space t). nr_entries g = 0 \<longrightarrow> next_entry_count g = 0"
    by (simp add: gs rebuilt_views)
  ultimately show "tree_ok F K h t" using mono run lin by (simp add: tree_ok_def flat)
qed

text \<open>The leaves that \<^verbatim>\<open>ExpandTree\<close> visits, after the first separators were adjusted.\<close>

lemma gents_Adjust:
  assumes "group_wf h g"
  shows "gents (group_AdjustEntryKey h g) = adjust_first h (gents g)"
    and "nr_entries (group_AdjustEntryKey h g) = nr_entries g"
    and "group_wf h (group_AdjustEntryKey h g)"
    and "gflat h (group_AdjustEntryKey h g) = raise_hd (gflat h g)"
    and "gptrs (group_AdjustEntryKey h g) = gptrs g"
    and "next_entry_count (group_AdjustEntryKey h g) = next_entry_count g"
proof -
  show g: "gents (group_AdjustEntryKey h g) = adjust_first h (gents g)"
    using assms by (simp add: group_AdjustEntryKey_def gents_def adjust_first_def take_update_swap group_wf_def)
  show n: "nr_entries (group_AdjustEntryKey h g) = nr_entries g"
    "next_entry_count (group_AdjustEntryKey h g) = next_entry_count g"
    by (simp_all add: group_AdjustEntryKey_def)
  have "all_wf bentry_wf h (gents g)" using assms by (simp add: group_wf_def)
  note adj = adjust_first_views [OF this gents_ne [OF assms]]
  show "group_wf h (group_AdjustEntryKey h g)"
    using assms adj(1,3) n by (simp add: group_wf_def g) (simp add: group_AdjustEntryKey_def)
  show "gflat h (group_AdjustEntryKey h g) = raise_hd (gflat h g)" "gptrs (group_AdjustEntryKey h g) = gptrs g"
    using adj(2,4) by (simp_all add: gflat_def gptrs_def g raise_hd_def)
qed

definition adjusted :: "bheap \<Rightarrow> 'd nali \<Rightarrow> 'd group list" where
  "adjusted h t = map (\<lambda>g. if next_entry_count g = 0 then g else group_AdjustEntryKey h g) (group_space t)"

lemma tgroups_wf: "tree_ok F K h t \<Longrightarrow> g \<in> set (tgroups t) \<Longrightarrow> group_wf h g"
  by (simp add: tree_ok_def store_ok_def all_wf_def)

lemma next_entry_count_zero:
  assumes ok: "tree_ok F K h t" and mem: "g \<in> set (group_space t)"
  shows "next_entry_count g = 0 \<longleftrightarrow> \<not> nonempty g"
proof (cases "nonempty g")
  case True
  then have wf: "group_wf h g" using tgroups_wf [OF ok] mem by (simp add: tgroups_def)
  then have "next_entry_count g = length (gflat h g)" by (simp add: gflat_def length_flats group_wf_def)
  then show ?thesis using True group.flat_ne [OF wf] by simp
qed (use ok mem in \<open>simp add: tree_ok_def\<close>)

lemma adjusted_eq:
  assumes ok: "tree_ok F K h t"
  shows "adjusted h t = map (\<lambda>g. if nonempty g then group_AdjustEntryKey h g else g) (group_space t)"
  using next_entry_count_zero [OF ok] by (simp add: adjusted_def)

lemma adjusted_nonempty:
  assumes ok: "tree_ok F K h t"
  shows "filter nonempty (adjusted h t) = map (group_AdjustEntryKey h) (tgroups t)"
    and "g \<in> set (adjusted h t) \<Longrightarrow> next_entry_count g = 0 \<longleftrightarrow> \<not> nonempty g"
proof -
  have n: "nr_entries (group_AdjustEntryKey h g) = nr_entries g"
    "next_entry_count (group_AdjustEntryKey h g) = next_entry_count g" for g :: "'a group"
    by (simp_all add: group_AdjustEntryKey_def)
  show "filter nonempty (adjusted h t) = map (group_AdjustEntryKey h) (tgroups t)"
    unfolding adjusted_eq [OF ok] tgroups_def by (induction "group_space t") (simp_all add: n filter_map comp_def)
  show "next_entry_count g = 0 \<longleftrightarrow> \<not> nonempty g" if "g \<in> set (adjusted h t)"
    using that next_entry_count_zero [OF ok] by (auto simp: adjusted_eq [OF ok] n)
qed

lemma expand_leaves:
  assumes ok: "tree_ok F K h t"
  defines "xs \<equiv> concat (map group_EntryIter (adjusted h t))"
  shows "concat (map (\<lambda>g. if next_entry_count g = 0 then [] else group_EntryIter g) (adjusted h t)) = xs"
    and "xs = concat (map (\<lambda>g. leaves (gents (group_AdjustEntryKey h g))) (tgroups t))"
    and "sum_list (map next_entry_count (adjusted h t)) = length xs"
proof -
  let ?tgs = "map (group_AdjustEntryKey h) (tgroups t)"
  have nil: "\<not> nonempty g \<Longrightarrow> group_EntryIter g = []" for g :: "'a group"
    by (simp add: group_EntryIter_def group_EntryIter_visit.simps)
  have wf: "group_wf h g" if "g \<in> set ?tgs" for g
    using that gents_Adjust(3) tgroups_wf [OF ok] by auto
  show "concat (map (\<lambda>g. if next_entry_count g = 0 then [] else group_EntryIter g) (adjusted h t)) = xs"
    unfolding xs_def using adjusted_nonempty(2) [OF ok] nil by (intro arg_cong [of _ _ concat]) auto
  have "xs = concat (map group_EntryIter ?tgs)"
    unfolding xs_def adjusted_nonempty(1) [OF ok, symmetric] by (rule concat_nonempty [symmetric]) (rule nil)
  also have "\<dots> = concat (map (\<lambda>g. leaves (gents g)) ?tgs)"
    using wf group_EntryIter_leaves by (intro arg_cong [of _ _ concat] map_cong) auto
  finally show eq: "xs = concat (map (\<lambda>g. leaves (gents (group_AdjustEntryKey h g))) (tgroups t))"
    by (simp add: comp_def)
  have "sum_list (map next_entry_count (adjusted h t)) = sum_list (map next_entry_count ?tgs)"
    unfolding adjusted_nonempty(1) [OF ok, symmetric]
    using adjusted_nonempty(2) [OF ok] by (intro sum_list_map_filter [symmetric]) simp
  also have "map next_entry_count ?tgs = map (\<lambda>g. length (leaves (gents g))) ?tgs"
    using wf by (intro map_cong) (auto simp: group_wf_def length_leaves)
  finally show "sum_list (map next_entry_count (adjusted h t)) = length xs"
    by (simp add: eq length_concat comp_def)
qed

lemma expand_leaves_ok:
  assumes ok: "tree_ok F K h t"
  defines "xs \<equiv> concat (map group_EntryIter (adjusted h t))"
  shows "ordered (map (leaf_of h) xs)" and "leaf_map (map (leaf_of h) xs) = tree_map h t"
    and "distinct (map pointer xs)" and "all_wf bentry_wf h (map PointerBEntry_of_eentry xs)" and "xs \<noteq> []"
    and "leaves_in K (map (leaf_of h) xs)"
proof -
  let ?xss = "map (gflat h) (tgroups t)"
  have wf: "all_wf group_wf h (tgroups t)" and ord: "ordered (concat ?xss)" and ne: "tgroups t \<noteq> []"
    and dist: "distinct (all_ptrs gptrs (tgroups t))"
    using ok by (auto simp: tree_ok_def store_ok_def flats_def)
  have gwf: "group_wf h g" if "g \<in> set (tgroups t)" for g using wf that by (simp add: all_wf_def)
  note xs = expand_leaves(2) [OF ok, folded xs_def]
  have flat: "map (leaf_of h) xs = concat (map raise_hd ?xss)"
    unfolding xs map_concat using gents_Adjust(4) gwf
    by (intro arg_cong [of _ _ concat]) (auto simp: gflat_def flats_leaves)
  have rep: "finite (lrep x) \<and> lrep x \<noteq> {}" if "x \<in> set (concat ?xss)" for x
    using that gwf by (auto simp: gflat_def group_wf_def dest: lrep_flats [rotated])
  note up = raise_hds [of "[]" ?xss, unfolded append_Nil, OF ord group.flats_ne [OF wf] rep]
  have "leaves_in K (concat ?xss)" using ok by (simp add: tree_ok_def flats_def)
  from leaves_in_raise [OF this group.flats_ne [OF wf] rep] show "leaves_in K (map (leaf_of h) xs)" by (simp only: flat)
  show "ordered (map (leaf_of h) xs)" "leaf_map (map (leaf_of h) xs) = tree_map h t"
    using up by (simp_all add: flat tree_map_def flats_def)
  have "map pointer xs = all_ptrs gptrs (tgroups t)"
    unfolding xs map_concat all_ptrs_def using gents_Adjust(5) gwf
    by (intro arg_cong [of _ _ concat]) (auto simp: gptrs_def ptrs_leaves)
  then show "distinct (map pointer xs)" using dist by simp
  show "all_wf bentry_wf h (map PointerBEntry_of_eentry xs)"
    unfolding xs using gents_Adjust(3) gwf all_wf_of_eentry by (fastforce simp: all_wf_def group_wf_def)
  show "xs \<noteq> []"
  proof
    assume "xs = []"
    then have "concat (map raise_hd ?xss) = []" using flat by simp
    then show False using ne by (cases "tgroups t") (auto simp: raise_hd_def)
  qed
qed

text \<open>\<^verbatim>\<open>ExpandTree\<close> keeps the map and leaves one leaf in every entry.\<close>

context fp_keys
begin

lemma trained_model:
  assumes "sorted_wrt (<) ks" and "set ks \<subseteq> K"
  shows "mono_model F K (rmi_line_model_init F ks)"
  using trained_mono [OF assms] by (simp add: mono_model_def)

lemma initial_model: "mono_model F K (root_model (nali_new F))"
  using predict_mono [OF _ constant_model] refl [OF finite_of_int] by (simp add: mono_model_def nali_new_def)

text \<open>\<^verbatim>\<open>ExpandTree\<close> trains on all separators, sampled as \<^verbatim>\<open>init\<close> samples them.\<close>

lemma train_mono:
  assumes "sorted_wrt (<) (map entry_key xs)" and "entry_key ` set xs \<subseteq> K"
  shows "mono_model F K (builder_t_build F (ExpandTree_train F xs (builder_t_new F) 0))"
  using trained_model [of "map entry_key xs"] assms builder_is_init [of F "map entry_key xs"]
  by (simp add: ExpandTree_train_def)

lemma ExpandTree_correct:
  assumes ok: "tree_ok F K h t"
  shows "tree_ok F K h (ExpandTree F h t)" and "tree_map h (ExpandTree F h t) = tree_map h t"
    and "g \<in> set (tgroups (ExpandTree F h t)) \<Longrightarrow> e \<in> set (gents g) \<Longrightarrow> PointerBEntry_entries e = 1"
    and "root_expand_times (ExpandTree F h t) = Suc (root_expand_times t)"
proof -
  define xs where "xs = concat (map group_EntryIter (adjusted h t))"
  define m where "m = builder_t_build F (ExpandTree_train F xs (builder_t_new F) 0)"
  define n where "n = (length xs + (min_entry_count - 1)) div min_entry_count"
  note l = expand_leaves_ok [OF ok, folded xs_def] and l' = expand_leaves [OF ok, folded xs_def]
  have run: "\<not> is_tree_expand t" and hw: "bheap_wf h" using ok by (auto simp: tree_ok_def store_ok_def)
  have t': "group_space (ExpandTree F h t) =
      map (\<lambda>j. rebuilt F (filter (\<lambda>x. group_id F (root_model (ExpandTree F h t)) n (entry_key x) = j) xs)) [0..<n]"
    "root_model (ExpandTree F h t) = m" "\<not> is_tree_expand (ExpandTree F h t)"
    using run rebuild_groups [of F "group_id F m n" xs n]
    by (simp_all add: ExpandTree_def Let_def l'(1,3) n_def flip: adjusted_def xs_def m_def)
  have "sorted_wrt (<) (map entry_key xs)" using ordered_sorted [OF l(1)] by (simp add: comp_def)
  then have mono: "mono_model F K (root_model (ExpandTree F h t))"
    unfolding t'(2) m_def using l(6) by (intro train_mono) (auto simp: leaves_in_def)
  have "0 < n" using l(5) by (cases xs) (auto simp: n_def min_entry_count_def)
  note d = distribute [OF l(1,3) hw l(4,5,6) mono t'(3) this t'(1)]
  show "tree_ok F K h (ExpandTree F h t)" "tree_map h (ExpandTree F h t) = tree_map h t"
    "g \<in> set (tgroups (ExpandTree F h t)) \<Longrightarrow> e \<in> set (gents g) \<Longrightarrow> PointerBEntry_entries e = 1"
    using d l(2) by simp_all
  show "root_expand_times (ExpandTree F h t) = Suc (root_expand_times t)"
    using run by (simp add: ExpandTree_def Let_def)
qed

end

section \<open>Insertion\<close>

lemma nali_Put_round:
  assumes ok: "tree_ok F K h t" and key: "k \<in> K" and new: "tree_map h t k = None"
  obtains (full) g e where "g \<in> set (tgroups t)" "e \<in> set (gents g)" "PointerBEntry_entries e = pb_entry_count"
      "max_entry_count < next_entry_count g" "nali_Put F h t k v = nali_Put F h (ExpandTree F h t) k v"
  | (stored) h' t' where "nali_Put F h t k v = Some (OK, h', t')" "tree_ok F K h' t'"
      "tree_map h' t' = (tree_map h t)(k \<mapsto> v)" "root_expand_times t' = root_expand_times t"
proof -
  have run: "\<not> is_tree_expand t" using ok by (simp add: tree_ok_def)
  let ?g = "group_space t ! find_group F t k"
  note at = tree_at [OF ok, of k]
  have mem: "?g \<in> set (tgroups t)"
    using tree_find_group [OF ok, of k] by (simp add: tgroups_def)
  have new': "leaf_map (gflat h ?g) k = None" using new at(2) by simp
  show ?thesis
  proof (cases rule: group_Put_correct [OF at(1) new', of F v])
    case (1 e)
    have "nali_Put F h t k v = nali_Put F h (ExpandTree F h t) k v"
      by (subst nali_Put.simps) (simp add: run 1(4) Let_def)
    then show ?thesis using full [OF mem] 1 by blast
  next
    case (2 h' g')
    note st = tree_step [OF ok key 2(2)]
    have "nali_Put F h t k v = Some (OK, h', t\<lparr>group_space := (group_space t)[find_group F t k := g']\<rparr>)"
      by (subst nali_Put.simps) (simp add: run 2(1) Let_def)
    then show ?thesis using stored [OF _ st] by simp
  qed
qed

text \<open>
  \<^verbatim>\<open>Put\<close> of a new key returns \<^verbatim>\<open>OK\<close>, after at most one \<^verbatim>\<open>ExpandTree\<close>, and adds the pair to the map.
\<close>

context fp_keys
begin

lemma nali_Put_correct:
  assumes ok: "tree_ok F K h t" and key: "k \<in> K" and new: "tree_map h t k = None"
  obtains h' t' where "nali_Put F h t k v = Some (OK, h', t')" "tree_ok F K h' t'"
    "tree_map h' t' = (tree_map h t)(k \<mapsto> v)" "root_expand_times t' \<le> Suc (root_expand_times t)"
proof (cases rule: nali_Put_round [OF ok key new, of v])
  case (1 g e)
  note ex = ExpandTree_correct [OF ok]
  have new': "tree_map h (ExpandTree F h t) k = None" using ex(2) new by simp
  show ?thesis
  proof (cases rule: nali_Put_round [OF ex(1) key new', of v])
    case (1 g' e')
    then show ?thesis using ex(3) by (simp add: pb_entry_count_def)
  next
    case (2 h' t')
    then show ?thesis using that 1(5) ex(2,4) by simp
  qed
next
  case (2 h' t')
  then show ?thesis using that by simp
qed

end

section \<open>Initial trees\<close>

lemma nali_Init_correct:
  assumes hw: "bheap_wf h" and raw: "fresh_in K h" and init: "nali_Init F h t g = (h', t')"
    and mono: "mono_model F K (root_model t)" and zero: "0 \<in> K" and run: "\<not> is_tree_expand t"
  shows "tree_ok F K h' t'" and "tree_map h' t' = Map.empty"
proof -
  obtain g' where g': "group_Init F h g = (h', g')" "t' = t\<lparr>group_space := [g']\<rparr>"
    using init by (auto simp: nali_Init_def split: prod.splits)
  note gi = group_Init_correct [OF hw g'(1)]
  have tg: "tgroups t' = [g']" using gi(3) by (simp add: tgroups_def g'(2))
  have "groups_ok h' (tgroups t')"
    using gi(1) by (simp add: tg store_ok_def flats_def all_ptrs_def all_wf_def)
  moreover have "tgroups t' \<noteq> []" by (simp add: tg)
  ultimately show "tree_ok F K h' t'"
    using mono run gi(3) gi(5) [OF raw zero] unfolding tree_ok_def by (simp add: at_home_def tg flats_def) (simp add: g'(2))
  show "tree_map h' t' = Map.empty" using gi(2) by (simp add: tree_map_def tg flats_def)
qed

text \<open>One loaded group, and the loop over all of them.\<close>

definition loaded :: "('d, 'l) fpu \<Rightarrow> bheap \<Rightarrow> (u64 \<times> u64) list \<Rightarrow> 'd group \<Rightarrow> bool" where
  "loaded F h ds g \<longleftrightarrow> (if ds = [] then g = zero_group F else group_wf h g \<and> gflat h g = map kv_leaf ds)"

lemma group_bulk_load_correct:
  fixes F :: "('d, 'l) fpu"
  assumes hw: "bheap_wf h" and ds: "take cnt (drop start data) = ds" "length ds = cnt" "ds \<noteq> []"
    and load: "group_bulk_load F h (group_reserve_space ((zero_group F)\<lparr>next_entry_count := cnt\<rparr>)) data start cnt =
      (h', g)"
  shows "loaded F h' ds g" and "gptrs g = [next_free h..<next_free h']" and "heap_step {} h h'"
    and "next_entry_count g = cnt"
proof -
  obtain space where loop: "bulk_load_loop h (replicate cnt zero_PointerBEntry) 0 ds = (h', space)"
    and g: "entry_space g = space" "nr_entries g = cnt" "next_entry_count g = cnt"
    using load ds by (auto simp: group_bulk_load_def group_reserve_space_def Let_def split: prod.splits)
  obtain es where es: "space = take 0 (replicate cnt zero_PointerBEntry) @ es @
        drop (0 + length ds) (replicate cnt zero_PointerBEntry)" "length es = length ds"
      "flats bflat h' es = map kv_leaf ds" "all_ptrs bptrs es = [next_free h..<next_free h']"
      "all_wf bentry_wf h' es" "heap_step {} h h'" "\<forall>e\<in>set es. PointerBEntry_entries e = 1"
    using bulk_load_loop_correct [OF hw _ loop] ds(2) by auto
  have ge: "gents g = es" using g es(1,2) ds(2) by (simp add: gents_def)
  have "sum_list (map PointerBEntry_entries es) = cnt"
    using length_flats [of h' es] es(3) ds(2) by simp
  moreover have "0 < cnt" using ds(2,3) by auto
  ultimately have "group_wf h' g" using g ge es(1,2,5) ds(2) by (simp add: group_wf_def)
  then show "loaded F h' ds g" using ds(3) es(3) by (simp add: loaded_def gflat_def ge)
  show "gptrs g = [next_free h..<next_free h']" "heap_step {} h h'" "next_entry_count g = cnt"
    using es(4,6) g(3) by (simp_all add: gptrs_def ge)
qed

lemma bulk_load_groups_correct:
  fixes F :: "('d, 'l) fpu"
  assumes "bheap_wf h" and "drop start data = concat dss"
    and "bulk_load_groups F data start h (map (\<lambda>ds. (zero_group F)\<lparr>next_entry_count := length ds\<rparr>) dss) = (h', gs)"
  shows "list_all2 (loaded F h') dss gs \<and> concat (map gptrs gs) = [next_free h..<next_free h'] \<and> heap_step {} h h'"
  using assms
proof (induction dss arbitrary: h start gs)
  case Nil
  then show ?case by (simp add: heap_step_def)
next
  case (Cons ds dss)
  let ?z = "\<lambda>ds. (zero_group F)\<lparr>next_entry_count := length ds\<rparr>"
  show ?case
  proof (cases "ds = []")
    case True
    then obtain gs' where rest: "bulk_load_groups F data start h (map ?z dss) = (h', gs')"
      and gs: "gs = ?z [] # gs'"
      using Cons.prems(3) by (auto split: prod.splits)
    have "gptrs (?z []) = []" by (simp add: gptrs_def gents_def zero_group_def all_ptrs_def)
    moreover have "loaded F h' [] (?z [])" by (simp add: loaded_def zero_group_def)
    ultimately show ?thesis using Cons.IH [OF Cons.prems(1) _ rest] Cons.prems(2) True gs by simp
  next
    case False
    then obtain h1 g1 gs' where load: "group_bulk_load F h (group_reserve_space (?z ds)) data start (length ds) = (h1, g1)"
      and rest: "bulk_load_groups F data (start + next_entry_count g1) h1 (map ?z dss) = (h', gs')"
      and gs: "gs = g1 # gs'"
      using Cons.prems(3) by (auto simp: Let_def split: prod.splits)
    have ds: "take (length ds) (drop start data) = ds" using Cons.prems(2) by simp
    note g1 = group_bulk_load_correct [OF Cons.prems(1) ds refl False load]
    have drop: "drop (start + next_entry_count g1) data = concat dss"
      using Cons.prems(2) g1(4) by (metis drop_drop add.commute append_eq_conv_conj concat.simps(2))
    have hw1: "bheap_wf h1" using g1(3) by (simp add: heap_step_def)
    note IH = Cons.IH [OF hw1 drop rest]
    have le: "next_free h \<le> next_free h1" "next_free h1 \<le> next_free h'"
      using g1(3) IH by (auto simp: heap_step_def)
    have "group_wf h1 g1" using g1(1) False by (simp add: loaded_def)
    moreover have "heap_step {} h1 h'" using IH by blast
    ultimately have "gflat h' g1 = gflat h1 g1" "group_wf h' g1" using group.frame_step by blast+
    then have "loaded F h' ds g1" using g1(1) False by (simp add: loaded_def)
    moreover have "gptrs g1 @ [next_free h1..<next_free h'] = [next_free h..<next_free h']"
      unfolding g1(2) using le by (metis le_iff_add upt_add_eq_append)
    moreover have "heap_step {} h h'" using g1(3) IH by (auto intro: heap_step_trans)
    ultimately show ?thesis using IH by (simp add: gs)
  qed
qed

lemma loaded_tree:
  assumes "list_all2 (loaded F h) dss (group_space t)"
  shows "\<And>g. g \<in> set (tgroups t) \<Longrightarrow> group_wf h g"
    and "\<And>i. i < length dss \<Longrightarrow> nonempty (group_space t ! i) \<Longrightarrow> dss ! i \<noteq> []"
    and "\<And>i. i < length dss \<Longrightarrow> nonempty (group_space t ! i) \<Longrightarrow> fst (hd (dss ! i)) = gkey (group_space t ! i) 0"
    and "flats gflat h (tgroups t) = map kv_leaf (concat dss)"
    and "all_ptrs gptrs (tgroups t) = concat (map gptrs (group_space t))"
    and "\<And>g. g \<in> set (group_space t) \<Longrightarrow> nr_entries g = 0 \<Longrightarrow> next_entry_count g = 0"
proof -
  let ?gs = "group_space t"
  have at: "loaded F h (dss ! i) (?gs ! i)" if "i < length dss" for i
    using assms that by (simp add: list_all2_conv_all_nth)
  have in_gs: "\<exists>i<length dss. g = ?gs ! i" if "g \<in> set ?gs" for g
    using that list_all2_lengthD [OF assms] by (metis in_set_conv_nth)
  have zero: "nr_entries (zero_group F) = 0" "next_entry_count (zero_group F) = 0"
    "gflat h (zero_group F) = []" "gptrs (zero_group F) = []"
    by (simp_all add: zero_group_def gflat_def gptrs_def gents_def flats_def all_ptrs_def)
  have empty: "g = zero_group F" if g: "g \<in> set ?gs" "\<not> nonempty g" for g
  proof -
    obtain i where "i < length dss" "g = ?gs ! i" using in_gs [OF g(1)] by blast
    then show ?thesis using at [of i] g(2) nonempty_wf [of h g] by (auto simp: loaded_def split: if_splits)
  qed
  show wf: "group_wf h g" if g: "g \<in> set (tgroups t)" for g
  proof -
    obtain i where "i < length dss" "g = ?gs ! i" using in_gs [of g] g by (auto simp: tgroups_def)
    then show ?thesis using at [of i] g zero by (auto simp: loaded_def tgroups_def split: if_splits)
  qed
  show ne: "dss ! i \<noteq> []" if "i < length dss" "nonempty (?gs ! i)" for i
    using at [OF that(1)] that(2) zero by (auto simp: loaded_def split: if_splits)
  show "fst (hd (dss ! i)) = gkey (?gs ! i) 0" if "i < length dss" "nonempty (?gs ! i)" for i
    using at [OF that(1)] ne [OF that] gkey_first [of h "?gs ! i"] by (simp add: loaded_def hd_map kv_leaf_def)
  show "next_entry_count g = 0" if "g \<in> set ?gs" "nr_entries g = 0" for g
    using empty [of g] that zero by simp
  have "flats gflat h (tgroups t) = concat (map (gflat h) ?gs)"
    unfolding flats_def tgroups_def using empty zero by (intro concat_nonempty) auto
  also have "map (gflat h) ?gs = map (map kv_leaf) dss"
  proof (rule nth_equalityI)
    show "length (map (gflat h) ?gs) = length (map (map kv_leaf) dss)" using list_all2_lengthD [OF assms] by simp
    fix i assume "i < length (map (gflat h) ?gs)"
    then show "map (gflat h) ?gs ! i = map (map kv_leaf) dss ! i"
      using at [of i] list_all2_lengthD [OF assms] zero(3) by (auto simp: loaded_def split: if_splits)
  qed
  finally show "flats gflat h (tgroups t) = map kv_leaf (concat dss)" by (simp add: map_concat)
  show "all_ptrs gptrs (tgroups t) = concat (map gptrs ?gs)"
    unfolding all_ptrs_def tgroups_def using empty zero by (intro concat_nonempty) auto
qed

lemma ordered_kv_leaf: "sorted_wrt (<) (map fst data) \<Longrightarrow> ordered (map kv_leaf data)"
  by (induction data) (auto simp: ordered_Cons kv_leaf_def leaf_ok_def leaf_before_def)

lemma leaf_map_kv_leaf: "leaf_map (map kv_leaf data) = map_of data"
proof -
  have "concat (map lkvs (map kv_leaf data)) = data" by (induction data) (simp_all add: kv_leaf_def)
  then show ?thesis by (simp add: leaf_map_def)
qed

context fp_keys
begin

text \<open>\<^verbatim>\<open>bulk_load\<close> of strictly increasing keys, enough for one group.\<close>

lemma nali_bulk_load_correct:
  assumes hw: "bheap_wf h" and sorted: "sorted_wrt (<) (map fst data)" and len: "min_entry_count \<le> length data"
    and keys: "fst ` set data \<subseteq> K" and run: "\<not> is_tree_expand t" and load: "nali_bulk_load F h t data = (h', t')"
  shows "tree_ok F K h' t'" and "tree_map h' t' = map_of data"
proof -
  define m where "m = rmi_line_model_init F (map fst data)"
  define n where "n = length data div min_entry_count"
  define gid where "gid = (\<lambda>kv :: u64 \<times> u64. group_id F m n (fst kv))"
  define dss where "dss = map (\<lambda>j. filter (\<lambda>kv. gid kv = j) data) [0..<n]"
  have n: "0 < n" using len by (simp add: n_def min_entry_count_def div_greater_zero_iff)
  have mono: "mono_model F K m" unfolding m_def using keys by (intro trained_model sorted) simp
  have "sorted (map gid data)"
    using sorted group_id_mono [OF mono subsetD [OF keys] subsetD [OF keys], of _ _ n] unfolding sorted_map gid_def
    by (auto simp: sorted_wrt_map rev_image_eqI elim!: sorted_wrt_mono_rel [rotated])
  then have whole: "concat dss = data"
    unfolding dss_def by (rule concat_filter_mono) (simp add: gid_def group_id_less n)
  have counted: "fold (\<lambda>kv gs. gs[gid kv := group_inc_entry_count (gs ! gid kv)]) data (replicate n (zero_group F)) =
      map (\<lambda>ds. (zero_group F)\<lparr>next_entry_count := length ds\<rparr>) dss" (is "?c = ?d")
  proof (rule nth_equalityI)
    show len: "length ?c = length ?d"
      using fold_update_length [of gid "\<lambda>x. group_inc_entry_count" data "replicate n (zero_group F)"]
      by (simp add: dss_def)
    fix j assume "j < length ?c"
    then have j: "j < n" using len by (simp add: dss_def)
    then show "?c ! j = ?d ! j"
      using fold_update_nth [of j "replicate n (zero_group F)" gid "\<lambda>x. group_inc_entry_count" data]
      by (simp add: dss_def fold_inc zero_group_def)
  qed
  have "bulk_load_groups F data 0 h (map (\<lambda>ds. (zero_group F)\<lparr>next_entry_count := length ds\<rparr>) dss) =
      (h', group_space t')" and m': "root_model t' = m" and run': "\<not> is_tree_expand t'"
    using load run unfolding nali_bulk_load_def
    by (auto simp: Let_def counted [unfolded gid_def] simp flip: m_def n_def split: prod.splits)
  then have bl: "list_all2 (loaded F h') dss (group_space t')"
    "concat (map gptrs (group_space t')) = [next_free h..<next_free h']" "heap_step {} h h'"
    using bulk_load_groups_correct [OF hw, of 0 data dss F h' "group_space t'"] whole by auto
  note lt = loaded_tree [OF bl(1)]
  have ord: "ordered (map kv_leaf data)" and map: "leaf_map (map kv_leaf data) = map_of data"
    using ordered_kv_leaf [OF sorted] leaf_map_kv_leaf by auto
  have "at_home F (root_model t') (group_space t')"
    unfolding at_home_def
  proof (intro allI impI)
    fix i j assume i: "i < length (group_space t')" "nonempty (group_space t' ! i)"
    then have y: "dss ! i \<noteq> []" "i < n" "fst (hd (dss ! i)) = gkey (group_space t' ! i) 0"
      using lt(2,3) list_all2_lengthD [OF bl(1)] by (auto simp: dss_def)
    then have "gid (hd (dss ! i)) = i" using hd_in_set [OF y(1)] by (auto simp: dss_def)
    then show "i \<le> group_id F (root_model t') (length (group_space t')) (gkey (group_space t' ! i) 0)"
      using y(3) list_all2_lengthD [OF bl(1)] by (simp add: gid_def m' dss_def)
  qed
  moreover have "groups_ok h' (tgroups t')"
    using lt(1,4,5) ord bl(2,3) by (simp add: store_ok_def whole all_wf_def heap_step_def)
  moreover have "tgroups t' \<noteq> []"
  proof
    assume "tgroups t' = []"
    then have "map kv_leaf (concat dss) = []" using lt(4) by (simp add: flats_def)
    then show False using len by (simp only: whole) (simp add: min_entry_count_def)
  qed
  moreover have "leaves_in K (map kv_leaf data)" using keys by (auto simp: leaves_in_def kv_leaf_def)
  ultimately show "tree_ok F K h' t'" using mono run' lt(4,6) by (simp add: tree_ok_def m' whole)
  show "tree_map h' t' = map_of data" using lt(4) map by (simp add: tree_map_def whole)
qed

end

end
