(* ===== verification/Tree_Interface.thy ===== *)
theory Tree_Interface
  imports Nali_Prelude
begin

text \<open>
  The abstract class \<^verbatim>\<open>Tree\<close> of \<^verbatim>\<open>src/include/tree.h\<close>, through which the log database uses an index: a
  record of the operations, and the locale \<open>tree_index\<close> with the contract of a map from keys to
  64-bit payloads. \<open>None\<close> is a call that does not return. A call has an in/out argument for
  each reference or pointer argument of the code.
\<close>

record 's tree_ops =
  t_bulk_load :: "'s \<Rightarrow> (u64 \<times> u64) list \<Rightarrow> 's option"
  t_insert :: "'s \<Rightarrow> u64 \<Rightarrow> u64 \<Rightarrow> (bool \<times> 's) option"
  t_search :: "'s \<Rightarrow> u64 \<Rightarrow> u64 \<Rightarrow> (bool \<times> u64) option"
  t_erase :: "'s \<Rightarrow> u64 \<Rightarrow> u64 option \<Rightarrow> (bool \<times> u64 option \<times> 's) option"
  t_update :: "'s \<Rightarrow> u64 \<Rightarrow> u64 \<Rightarrow> u64 \<Rightarrow> (bool \<times> u64 \<times> 's) option"

text \<open>
  The contract. \<open>tmap\<close> is the map that a state denotes, \<open>keys\<close> the keys that may be inserted, and \<open>ins\<close> what
  an insertion returns. An insertion is specified for new keys only; lookups, updates and removals are
  specified for every key.
\<close>

locale tree_index =
  fixes T :: "'s tree_ops" and good :: "'s \<Rightarrow> bool" and tmap :: "'s \<Rightarrow> u64 \<rightharpoonup> u64" and keys :: "u64 set"
    and ins :: bool
  assumes search_law: "good s \<Longrightarrow> t_search T s k v =
      Some (case tmap s k of None \<Rightarrow> (False, v) | Some w \<Rightarrow> (True, w))"
    and insert_law: "good s \<Longrightarrow> k \<in> keys \<Longrightarrow> tmap s k = None \<Longrightarrow>
      \<exists>s'. t_insert T s k v = Some (ins, s') \<and> good s' \<and> tmap s' = (tmap s)(k \<mapsto> v)"
    and update_missing: "good s \<Longrightarrow> tmap s k = None \<Longrightarrow> t_update T s k v old = Some (False, old, s)"
    and update_found: "good s \<Longrightarrow> tmap s k = Some w \<Longrightarrow>
      \<exists>s'. t_update T s k v old = Some (True, w, s') \<and> good s' \<and> tmap s' = (tmap s)(k \<mapsto> v)"
    and erase_missing: "good s \<Longrightarrow> tmap s k = None \<Longrightarrow> t_erase T s k out = Some (False, out, s)"
    and erase_found: "good s \<Longrightarrow> tmap s k = Some w \<Longrightarrow>
      \<exists>s'. t_erase T s k out = Some (True, map_option (\<lambda>_. w) out, s') \<and> good s' \<and> tmap s' = (tmap s)(k := None)"
begin

lemma search_inserted:
  assumes "good s" and "k \<in> keys" and "tmap s k = None"
  obtains s' where "t_insert T s k v = Some (ins, s')" "good s'" "t_search T s' k x = Some (True, v)"
    "\<And>k'. k' \<noteq> k \<Longrightarrow> t_search T s' k' x = t_search T s k' x"
  using insert_law [OF assms, of v] assms(1) by (auto simp: search_law)

lemma search_updated:
  assumes "good s" and "tmap s k = Some w"
  obtains s' where "t_update T s k v old = Some (True, w, s')" "good s'" "t_search T s' k x = Some (True, v)"
    "\<And>k'. k' \<noteq> k \<Longrightarrow> t_search T s' k' x = t_search T s k' x"
  using update_found [OF assms, of v old] assms(1) by (auto simp: search_law)

lemma search_erased:
  assumes "good s" and "tmap s k = Some w"
  obtains s' where "t_erase T s k out = Some (True, map_option (\<lambda>_. w) out, s')" "good s'"
    "t_search T s' k x = Some (False, x)" "\<And>k'. k' \<noteq> k \<Longrightarrow> t_search T s' k' x = t_search T s k' x"
  using erase_found [OF assms, of out] assms(1) by (auto simp: search_law)

end

text \<open>An index that also builds itself from pairs with new, distinct keys.\<close>

locale bulk_index = tree_index +
  assumes bulk_load_law: "good s \<Longrightarrow> distinct (map fst kvs) \<Longrightarrow> fst ` set kvs \<subseteq> keys \<Longrightarrow>
      \<forall>k\<in>fst ` set kvs. tmap s k = None \<Longrightarrow>
      \<exists>s'. t_bulk_load T s kvs = Some s' \<and> good s' \<and> tmap s' = tmap s ++ map_of kvs"

section \<open>Runs\<close>

datatype tree_op = Insert u64 u64 | Search u64 | Erase u64 | Update u64 u64

datatype tree_res = Inserted bool | Found u64 | NotFound | Erased bool | Updated bool

text \<open>
  A run of operations, the callers' out arguments starting as 0, and what the map says that the
  calls answer, where \<open>ins\<close> is the answer of an insertion.
\<close>

fun run :: "'s tree_ops \<Rightarrow> 's \<Rightarrow> tree_op list \<Rightarrow> tree_res list option" where
  "run T s [] = Some []"
| "run T s (Insert k v # ops) =
     (case t_insert T s k v of None \<Rightarrow> None | Some (b, s') \<Rightarrow> map_option ((#) (Inserted b)) (run T s' ops))"
| "run T s (Search k # ops) =
     (case t_search T s k 0 of None \<Rightarrow> None
      | Some (b, v) \<Rightarrow> map_option ((#) (if b then Found v else NotFound)) (run T s ops))"
| "run T s (Erase k # ops) =
     (case t_erase T s k None of None \<Rightarrow> None
      | Some (b, out, s') \<Rightarrow> map_option ((#) (Erased b)) (run T s' ops))"
| "run T s (Update k v # ops) =
     (case t_update T s k v 0 of None \<Rightarrow> None
      | Some (b, old, s') \<Rightarrow> map_option ((#) (Updated b)) (run T s' ops))"

fun spec_run :: "bool \<Rightarrow> (u64 \<rightharpoonup> u64) \<Rightarrow> tree_op list \<Rightarrow> tree_res list" where
  "spec_run ins m [] = []"
| "spec_run ins m (Insert k v # ops) = Inserted ins # spec_run ins (m(k \<mapsto> v)) ops"
| "spec_run ins m (Search k # ops) = (case m k of None \<Rightarrow> NotFound | Some v \<Rightarrow> Found v) # spec_run ins m ops"
| "spec_run ins m (Erase k # ops) = Erased (m k \<noteq> None) # spec_run ins (m(k := None)) ops"
| "spec_run ins m (Update k v # ops) =
     Updated (m k \<noteq> None) # spec_run ins (if m k = None then m else m(k \<mapsto> v)) ops"

text \<open>Only keys of \<open>keys\<close> are inserted, and none while it is present.\<close>

fun fresh_inserts :: "u64 set \<Rightarrow> (u64 \<rightharpoonup> u64) \<Rightarrow> tree_op list \<Rightarrow> bool" where
  "fresh_inserts keys m [] = True"
| "fresh_inserts keys m (Insert k v # ops) = (k \<in> keys \<and> m k = None \<and> fresh_inserts keys (m(k \<mapsto> v)) ops)"
| "fresh_inserts keys m (Search k # ops) = fresh_inserts keys m ops"
| "fresh_inserts keys m (Erase k # ops) = fresh_inserts keys (m(k := None)) ops"
| "fresh_inserts keys m (Update k v # ops) = fresh_inserts keys (if m k = None then m else m(k \<mapsto> v)) ops"

context tree_index
begin

theorem run_refines:
  assumes "good s" and "fresh_inserts keys (tmap s) ops"
  shows "run T s ops = Some (spec_run ins (tmap s) ops)"
  using assms
proof (induction ops arbitrary: s)
  case (Cons op ops)
  show ?case
  proof (cases op)
    case (Insert k v)
    then obtain s' where s': "t_insert T s k v = Some (ins, s')" "good s'" and m: "tmap s' = (tmap s)(k \<mapsto> v)"
      using insert_law [OF Cons.prems(1)] Cons.prems(2) by (metis fresh_inserts.simps(2))
    have "run T s' ops = Some (spec_run ins (tmap s') ops)"
      using Cons.prems(2) Insert by (intro Cons.IH s'(2)) (simp only: m fresh_inserts.simps)
    then show ?thesis by (simp add: Insert s'(1) m)
  next
    case (Search k)
    then show ?thesis using Cons search_law [OF Cons.prems(1), of k 0] by (auto split: option.splits)
  next
    case (Erase k)
    show ?thesis
    proof (cases "tmap s k")
      case None
      then have "(tmap s)(k := None) = tmap s" by auto
      then show ?thesis using Cons Erase None erase_missing [OF Cons.prems(1) None, of None] by simp
    next
      case (Some w)
      then obtain s' where s': "t_erase T s k None = Some (True, None, s')" "good s'" and m: "tmap s' = (tmap s)(k := None)"
        using erase_found [OF Cons.prems(1) Some, of None] by auto
      have "run T s' ops = Some (spec_run ins (tmap s') ops)"
        using Cons.prems(2) Erase by (intro Cons.IH s'(2)) (simp only: m fresh_inserts.simps)
      then show ?thesis by (simp add: Erase Some s'(1) m)
    qed
  next
    case (Update k v)
    show ?thesis
    proof (cases "tmap s k")
      case None
      then show ?thesis using Cons Update update_missing [OF Cons.prems(1) None, of v 0] by simp
    next
      case (Some w)
      then obtain s' where s': "t_update T s k v 0 = Some (True, w, s')" "good s'" and m: "tmap s' = (tmap s)(k \<mapsto> v)"
        using update_found [OF Cons.prems(1) Some, of v 0] by auto
      have "run T s' ops = Some (spec_run ins (tmap s') ops)"
        using Cons.prems(2) Update Some
        by (intro Cons.IH s'(2)) (simp only: m fresh_inserts.simps option.distinct if_False)
      then show ?thesis by (simp add: Update Some s'(1) m)
    qed
  qed
qed simp

end

end
