(* ===== verification/Nali_DB.thy ===== *)
theory Nali_DB
  imports Nali_Tree Tree_Interface
begin

text \<open>
  \<^verbatim>\<open>class nalidb\<close> of \<^verbatim>\<open>src/include/db_interface.h\<close>, the learned index behind the interface \<^verbatim>\<open>Tree\<close>: its
  state is the node heap and the tree. It meets the contract of \<open>tree_index\<close> for every floating
  point arithmetic with the laws of \<open>fp_arith\<close> and every set of keys that is safe for it (\<open>fp_keys\<close>).
  A successful \<^verbatim>\<open>insert\<close> returns \<^verbatim>\<open>false\<close>: \<^verbatim>\<open>status::OK\<close> is 0.
\<close>

type_synonym 'd nalidb = "bheap \<times> 'd nali"

text \<open>The constructor: \<^verbatim>\<open>new Nali()\<close> and \<^verbatim>\<open>Init()\<close>; \<open>g\<close> is the memory of the first group.\<close>

definition nalidb_new :: "('d, 'l) fpu \<Rightarrow> bheap \<Rightarrow> 'd group \<Rightarrow> 'd nalidb" where
  "nalidb_new F h g = nali_Init F h (nali_new F) g"

text \<open>The status that \<^verbatim>\<open>Put\<close> returns is converted to \<^verbatim>\<open>bool\<close>.\<close>

definition nalidb_insert :: "('d, 'l) fpu \<Rightarrow> 'd nalidb \<Rightarrow> u64 \<Rightarrow> u64 \<Rightarrow> (bool \<times> 'd nalidb) option" where
  "nalidb_insert F s key payload =
     (case nali_Put F (fst s) (snd s) key payload of
        None \<Rightarrow> None
      | Some (ret, h', t') \<Rightarrow> Some (status_to_int ret \<noteq> 0, (h', t')))"

fun nalidb_bulk_load :: "('d, 'l) fpu \<Rightarrow> 'd nalidb \<Rightarrow> (u64 \<times> u64) list \<Rightarrow> 'd nalidb option" where
  "nalidb_bulk_load F s [] = Some s"
| "nalidb_bulk_load F s ((k, v) # pairs) =
     (case nali_Put F (fst s) (snd s) k v of
        None \<Rightarrow> None
      | Some (ret, h', t') \<Rightarrow> nalidb_bulk_load F (h', t') pairs)"

definition nalidb_search :: "('d, 'l) fpu \<Rightarrow> 'd nalidb \<Rightarrow> u64 \<Rightarrow> u64 \<Rightarrow> (bool \<times> u64) option" where
  "nalidb_search F s key payload = nali_Get F (fst s) (snd s) key payload"

definition nalidb_erase ::
  "('d, 'l) fpu \<Rightarrow> 'd nalidb \<Rightarrow> u64 \<Rightarrow> u64 option \<Rightarrow> (bool \<times> u64 option \<times> 'd nalidb) option" where
  "nalidb_erase F s key log_offset =
     (case nali_Delete F (fst s) (snd s) key log_offset of
        None \<Rightarrow> None
      | Some (b, out, h') \<Rightarrow> Some (b, out, (h', snd s)))"

definition nalidb_update ::
  "('d, 'l) fpu \<Rightarrow> 'd nalidb \<Rightarrow> u64 \<Rightarrow> u64 \<Rightarrow> u64 \<Rightarrow> (bool \<times> u64 \<times> 'd nalidb) option" where
  "nalidb_update F s key payload log_offset =
     (case nali_Update F (fst s) (snd s) key payload log_offset of
        None \<Rightarrow> None
      | Some (b, old, h') \<Rightarrow> Some (b, old, (h', snd s)))"

definition nalidb_ops :: "('d, 'l) fpu \<Rightarrow> 'd nalidb tree_ops" where
  "nalidb_ops F = \<lparr>t_bulk_load = nalidb_bulk_load F, t_insert = nalidb_insert F, t_search = nalidb_search F,
     t_erase = nalidb_erase F, t_update = nalidb_update F\<rparr>"

definition nalidb_ok :: "('d, 'l) fpu \<Rightarrow> u64 set \<Rightarrow> 'd nalidb \<Rightarrow> bool" where
  "nalidb_ok F K s \<longleftrightarrow> tree_ok F K (fst s) (snd s)"

definition nalidb_map :: "'d nalidb \<Rightarrow> u64 \<rightharpoonup> u64" where
  "nalidb_map s = tree_map (fst s) (snd s)"

lemma set_out_map: "set_out out w = map_option (\<lambda>_. w) out"
  by (cases out) (simp_all add: set_out_def)

sublocale fp_keys \<subseteq> index: tree_index "nalidb_ops F" "nalidb_ok F K" nalidb_map K False
proof
  fix s k v old out w
  assume ok: "nalidb_ok F K s"
  then have ok': "tree_ok F K (fst s) (snd s)" by (simp add: nalidb_ok_def)
  show "t_search (nalidb_ops F) s k v =
      Some (case nalidb_map s k of None \<Rightarrow> (False, v) | Some w \<Rightarrow> (True, w))"
    by (simp add: nalidb_ops_def nalidb_search_def nalidb_map_def nali_Get_correct [OF ok'])
  show "\<exists>s'. t_insert (nalidb_ops F) s k v = Some (False, s') \<and> nalidb_ok F K s' \<and>
      nalidb_map s' = (nalidb_map s)(k \<mapsto> v)" if "k \<in> K" "nalidb_map s k = None"
    by (rule nali_Put_correct [OF ok' that(1), of v]) (use that in \<open>auto simp: nalidb_ops_def nalidb_insert_def nalidb_map_def nalidb_ok_def\<close>)
  show "t_update (nalidb_ops F) s k v old = Some (False, old, s)" if "nalidb_map s k = None"
    by (rule nali_Update_correct [OF ok', of k v old]) (use that in \<open>auto simp: nalidb_ops_def nalidb_update_def nalidb_map_def\<close>)
  show "\<exists>s'. t_update (nalidb_ops F) s k v old = Some (True, w, s') \<and> nalidb_ok F K s' \<and>
      nalidb_map s' = (nalidb_map s)(k \<mapsto> v)" if "nalidb_map s k = Some w"
    by (rule nali_Update_correct [OF ok', of k v old]) (use that in \<open>auto simp: nalidb_ops_def nalidb_update_def nalidb_map_def nalidb_ok_def\<close>)
  show "t_erase (nalidb_ops F) s k out = Some (False, out, s)" if "nalidb_map s k = None"
    by (rule nali_Delete_correct [OF ok', of k out]) (use that in \<open>auto simp: nalidb_ops_def nalidb_erase_def nalidb_map_def\<close>)
  show "\<exists>s'. t_erase (nalidb_ops F) s k out = Some (True, map_option (\<lambda>_. w) out, s') \<and> nalidb_ok F K s' \<and>
      nalidb_map s' = (nalidb_map s)(k := None)" if "nalidb_map s k = Some w"
    by (rule nali_Delete_correct [OF ok', of k out]) (use that in \<open>auto simp: nalidb_ops_def nalidb_erase_def nalidb_map_def nalidb_ok_def set_out_map\<close>)
qed

context fp_keys
begin

lemma is_tree_index: "tree_index (nalidb_ops F) (nalidb_ok F K) nalidb_map K False"
  by unfold_locales

lemma nalidb_new_ok:
  assumes "bheap_wf h" and "fresh_in K h"
  shows "nalidb_ok F K (nalidb_new F h g)" and "nalidb_map (nalidb_new F h g) = Map.empty"
proof -
  note init = nali_Init_correct [OF assms _ initial_model zero_key, of g "fst (nalidb_new F h g)" "snd (nalidb_new F h g)"]
  show "nalidb_ok F K (nalidb_new F h g)" "nalidb_map (nalidb_new F h g) = Map.empty"
    using init by (simp_all add: nalidb_ok_def nalidb_map_def nalidb_new_def) (simp_all add: nali_new_def)
qed

lemma nalidb_bulk_load_correct:
  assumes "nalidb_ok F K s" and "distinct (map fst pairs)" and "fst ` set pairs \<subseteq> K" and "\<forall>k\<in>fst ` set pairs. nalidb_map s k = None"
  shows "\<exists>s'. nalidb_bulk_load F s pairs = Some s' \<and> nalidb_ok F K s' \<and> nalidb_map s' = nalidb_map s ++ map_of pairs"
  using assms
proof (induction pairs arbitrary: s)
  case (Cons kv pairs)
  obtain k v where kv: "kv = (k, v)" by fastforce
  have ok: "tree_ok F K (fst s) (snd s)" using Cons.prems(1) by (simp add: nalidb_ok_def)
  have new: "tree_map (fst s) (snd s) k = None" using Cons.prems(4) kv by (simp add: nalidb_map_def)
  obtain h' t' where put: "nali_Put F (fst s) (snd s) k v = Some (OK, h', t')" "tree_ok F K h' t'"
    and map: "tree_map h' t' = (tree_map (fst s) (snd s))(k \<mapsto> v)"
    by (rule nali_Put_correct [OF ok _ new, of v]) (use Cons.prems(3) kv in auto)
  have map': "nalidb_map (h', t') = (nalidb_map s)(k \<mapsto> v)" by (simp add: nalidb_map_def map)
  have "k \<notin> fst ` set pairs" using Cons.prems(2) kv by simp
  then have "\<forall>k'\<in>fst ` set pairs. nalidb_map (h', t') k' = None"
    using Cons.prems(4) kv unfolding map' by auto
  then obtain s' where s': "nalidb_bulk_load F (h', t') pairs = Some s'" "nalidb_ok F K s'"
    and m: "nalidb_map s' = nalidb_map (h', t') ++ map_of pairs"
    using Cons.IH [of "(h', t')"] Cons.prems(2,3) put(2) by (auto simp: nalidb_ok_def)
  have "nalidb_map s' = nalidb_map s ++ map_of (kv # pairs)"
    unfolding m map' kv using \<open>k \<notin> fst ` set pairs\<close>
    by (simp add: map_add_upd_left dom_map_of_conv_image_fst)
  moreover have "nalidb_bulk_load F s (kv # pairs) = Some s'" using s'(1) put(1) kv by simp
  ultimately show ?case using s'(2) by blast
qed simp

end

sublocale fp_keys \<subseteq> bulk: bulk_index "nalidb_ops F" "nalidb_ok F K" nalidb_map K False
proof
  fix s :: "'d nalidb" and kvs :: "(u64 \<times> u64) list"
  assume "nalidb_ok F K s" and "distinct (map fst kvs)" and "fst ` set kvs \<subseteq> K" and "\<forall>k\<in>fst ` set kvs. nalidb_map s k = None"
  from nalidb_bulk_load_correct [OF this]
  show "\<exists>s'. t_bulk_load (nalidb_ops F) s kvs = Some s' \<and> nalidb_ok F K s' \<and> nalidb_map s' = nalidb_map s ++ map_of kvs"
    by (simp add: nalidb_ops_def)
qed

context fp_keys
begin

lemma is_bulk_index: "bulk_index (nalidb_ops F) (nalidb_ok F K) nalidb_map K False"
  by unfold_locales

end

end
