(* ===== verification/Kvlog.thy ===== *)
theory Kvlog
  imports Nali_Prelude
begin

unbundle bit_operations_syntax

text \<open>
  The value log of \<^verbatim>\<open>src/src/nali_kvlog.h\<close>, for 8-byte keys and values. A log record is 32 bytes in a
  16 MB page of persistent memory; pages are files, one sequence of them for each NUMA node and
  hash shard. An index stores a packed 64-bit position (\<^verbatim>\<open>last_log_offest\<close>), which a table of page
  addresses translates back. A mapped page is a block of 64-bit cells at byte offsets; the outcome
  of \<^verbatim>\<open>pmem_map_file\<close> is a parameter. \<^verbatim>\<open>exit(1)\<close> and an access outside of the table are
  errors of a sum type.
\<close>

section \<open>Log positions\<close>

datatype OP_t = INSERT | DELETE | UPDATE | TRASH

fun op_code :: "OP_t \<Rightarrow> 2 word" where
  "op_code INSERT = 0"
| "op_code DELETE = 1"
| "op_code UPDATE = 2"
| "op_code TRASH = 3"

record last_log_offest =
  vlen :: "16 word"
  numa_id :: "8 word"
  ppage_id :: "8 word"
  log_offset :: "32 word"

definition vlen_mask :: u64 where "vlen_mask = push_bit 48 0xffff"
definition numa_id_mask :: u64 where "numa_id_mask = push_bit 40 0xff"
definition ppage_id_mask :: u64 where "ppage_id_mask = push_bit 32 0xff"
definition log_offset_mask :: u64 where "log_offset_mask = 0xffffffff"

text \<open>The constructor from \<^verbatim>\<open>addr_info\<close>, and the packing.\<close>

definition of_addr_info :: "u64 \<Rightarrow> last_log_offest" where
  "of_addr_info addr_info =
     \<lparr>vlen = ucast (drop_bit 48 (addr_info AND vlen_mask)),
      numa_id = ucast (drop_bit 40 (addr_info AND numa_id_mask)),
      ppage_id = ucast (drop_bit 32 (addr_info AND ppage_id_mask)),
      log_offset = ucast (addr_info AND log_offset_mask)\<rparr>"

definition to_uint64_t_offset :: "last_log_offest \<Rightarrow> u64" where
  "to_uint64_t_offset i =
     push_bit 48 (ucast (vlen i)) OR push_bit 40 (ucast (numa_id i)) OR
     push_bit 32 (ucast (ppage_id i)) OR ucast (log_offset i)"

section \<open>Log records\<close>

record Pair_t =
  pair_op :: "2 word"
  pair_version :: "62 word"
  pair_key :: u64
  pair_value :: u64
  u_offset :: u64

text \<open>The constructors; \<open>raw\<close> is the memory of the object where the code leaves fields unset.\<close>

definition Pair_t_new :: "Pair_t \<Rightarrow> u64 \<Rightarrow> u64 \<Rightarrow> Pair_t" where
  "Pair_t_new raw k v = raw\<lparr>pair_key := k, pair_value := v, u_offset := - 1\<rparr>"

definition Pair_t_key :: "Pair_t \<Rightarrow> u64 \<Rightarrow> Pair_t" where
  "Pair_t_key raw k = raw\<lparr>pair_key := k\<rparr>"

definition set_version :: "Pair_t \<Rightarrow> u64 \<Rightarrow> Pair_t" where
  "set_version p old_version = p\<lparr>pair_version := ucast (old_version + 1)\<rparr>"

definition set_op :: "Pair_t \<Rightarrow> OP_t \<Rightarrow> Pair_t" where
  "set_op p o' = p\<lparr>pair_op := op_code o'\<rparr>"

definition set_last_log_offest :: "Pair_t \<Rightarrow> u64 \<Rightarrow> Pair_t" where
  "set_last_log_offest p off = p\<lparr>u_offset := off\<rparr>"

definition pair_size :: nat where
  "pair_size = 8 + 8 + 8 + 8"

text \<open>The word that holds the bit fields \<^verbatim>\<open>op\<close> (2 bits) and \<^verbatim>\<open>version\<close> (62 bits).\<close>

definition pair_header :: "Pair_t \<Rightarrow> u64" where
  "pair_header p = ucast (pair_op p) OR push_bit 2 (ucast (pair_version p))"

type_synonym block = "nat \<Rightarrow> u64"

definition store_persist :: "Pair_t \<Rightarrow> block \<Rightarrow> nat \<Rightarrow> block" where
  "store_persist p m a = m(a := pair_header p, a + 8 := pair_key p, a + 16 := pair_value p, a + 24 := u_offset p)"

definition load_pair :: "block \<Rightarrow> nat \<Rightarrow> Pair_t" where
  "load_pair m a = \<lparr>pair_op = ucast (m a), pair_version = ucast (drop_bit 2 (m a)),
     pair_key = m (a + 8), pair_value = m (a + 16), u_offset = m (a + 24)\<rparr>"

section \<open>Pages\<close>

definition PPAGE_SIZE :: nat where
  "PPAGE_SIZE = 16 * 1024 * 1024"

definition numa_node_num :: nat where
  "numa_node_num = 2"

definition MAX_LOF_FILE_ID :: nat where
  "MAX_LOF_FILE_ID = 32"

definition max_shards :: nat where
  "max_shards = 256"

text \<open>\<^verbatim>\<open>init_numa_map\<close> and \<^verbatim>\<open>get_numa_id\<close>, for the 64 threads of the map.\<close>

definition get_numa_id :: "nat \<Rightarrow> nat" where
  "get_numa_id thread_id =
     (if thread_id < 16 then 0 else if thread_id < 32 then 1 else if thread_id < 48 then 0 else 1)"

record ppage =
  pp_numa_id :: nat
  pp_hash_id :: nat
  pp_ppage_id :: u64
  sz_allocated :: nat
  sz_freed :: nat
  start_addr :: "nat option"

text \<open>
  The log: the page table, the freed sizes, the current page and the version counter of each
  shard, the mapped blocks and the files.
\<close>

record logkv =
  start_addr_arr :: "nat \<Rightarrow> nat \<Rightarrow> nat \<Rightarrow> nat option"
  freed_arr :: "nat \<Rightarrow> nat \<Rightarrow> nat \<Rightarrow> nat"
  ppages :: "nat \<Rightarrow> nat \<Rightarrow> ppage"
  versions :: "nat \<Rightarrow> u64"
  pmem :: "nat \<Rightarrow> block"
  next_map :: nat
  files :: "(nat \<times> nat \<times> nat) list"

datatype fault = Exit1 | OutOfBounds | NullAccess

text \<open>
  \<^verbatim>\<open>alloc_new_ppage\<close>: the file must not exist; \<open>mapped f\<close> tells whether \<^verbatim>\<open>pmem_map_file\<close> succeeds on
  it. The table has \<^verbatim>\<open>MAX_LOF_FILE_ID\<close> entries per shard.
\<close>

definition alloc_new_ppage ::
  "(nat \<times> nat \<times> nat \<Rightarrow> bool) \<Rightarrow> logkv \<Rightarrow> nat \<Rightarrow> nat \<Rightarrow> nat \<Rightarrow> fault + (logkv \<times> nat)" where
  "alloc_new_ppage mapped s numa hash page =
     (if (numa, hash, page) \<in> set (files s) \<or> \<not> mapped (numa, hash, page) then Inl Exit1
      else if numa_node_num \<le> numa \<or> max_shards \<le> hash \<or> MAX_LOF_FILE_ID \<le> page then Inl OutOfBounds
      else let b = next_map s
           in Inr (s\<lparr>pmem := (pmem s)(b := (\<lambda>_. - 1)), next_map := Suc b, files := (numa, hash, page) # files s,
                     start_addr_arr := (start_addr_arr s)(numa := (start_addr_arr s numa)
                       (hash := (start_addr_arr s numa hash)(page := Some b)))\<rparr>, b))"

abbreviation set_ppage :: "logkv \<Rightarrow> nat \<Rightarrow> nat \<Rightarrow> ppage \<Rightarrow> logkv" where
  "set_ppage s numa hash pp \<equiv> s\<lparr>ppages := (ppages s)(numa := (ppages s numa)(hash := pp))\<rparr>"

definition PPage_new ::
  "(nat \<times> nat \<times> nat \<Rightarrow> bool) \<Rightarrow> logkv \<Rightarrow> nat \<Rightarrow> nat \<Rightarrow> bool \<Rightarrow> fault + (logkv \<times> ppage)" where
  "PPage_new mapped s numa hash recovery =
     (let pp = \<lparr>pp_numa_id = numa, pp_hash_id = hash, pp_ppage_id = - 1, sz_allocated = 0, sz_freed = 0,
                start_addr = None\<rparr>
      in if recovery then Inr (s, pp)
         else case alloc_new_ppage mapped s numa hash (unat (pp_ppage_id pp + 1)) of
                Inl e \<Rightarrow> Inl e
              | Inr (s', b) \<Rightarrow> Inr (s', pp\<lparr>pp_ppage_id := pp_ppage_id pp + 1, start_addr := Some b\<rparr>))"

text \<open>\<^verbatim>\<open>PPage::alloc\<close> of the page object at \<open>(numa, hash)\<close>: the address is a block and an offset.\<close>

definition PPage_alloc ::
  "(nat \<times> nat \<times> nat \<Rightarrow> bool) \<Rightarrow> logkv \<Rightarrow> nat \<Rightarrow> nat \<Rightarrow> last_log_offest \<Rightarrow> nat \<Rightarrow>
   fault + (logkv \<times> last_log_offest \<times> nat option \<times> nat)" where
  "PPage_alloc mapped s numa hash log_info alloc_size =
     (let pp = ppages s numa hash;
          page = (if PPAGE_SIZE - sz_allocated pp < alloc_size
                  then case alloc_new_ppage mapped s (pp_numa_id pp) (pp_hash_id pp) (unat (pp_ppage_id pp + 1)) of
                         Inl e \<Rightarrow> Inl e
                       | Inr (s', b) \<Rightarrow> Inr (s', pp\<lparr>pp_ppage_id := pp_ppage_id pp + 1, start_addr := Some b,
                                                   sz_allocated := 0, sz_freed := 0\<rparr>)
                  else Inr (s, pp))
      in case page of
           Inl e \<Rightarrow> Inl e
         | Inr (s', pp') \<Rightarrow>
             Inr (set_ppage s' numa hash (pp'\<lparr>sz_allocated := sz_allocated pp' + alloc_size\<rparr>),
                  log_info\<lparr>numa_id := word_of_nat (pp_numa_id pp'), ppage_id := ucast (pp_ppage_id pp'),
                           log_offset := word_of_nat (sz_allocated pp')\<rparr>,
                  start_addr pp', sz_allocated pp'))"

section \<open>The log\<close>

text \<open>The constructor \<^verbatim>\<open>LogKV(recovery)\<close>, for \<open>shards\<close> = \<^verbatim>\<open>NALI_VERSION_SHARDS\<close>.\<close>

definition empty_log :: "logkv" where
  "empty_log = \<lparr>start_addr_arr = (\<lambda>_ _ _. None), freed_arr = (\<lambda>_ _ _. 0),
     ppages = (\<lambda>_ _. \<lparr>pp_numa_id = 0, pp_hash_id = 0, pp_ppage_id = - 1, sz_allocated = 0, sz_freed = 0, start_addr = None\<rparr>),
     versions = (\<lambda>_. 0), pmem = (\<lambda>_ _. 0), next_map = 0, files = []\<rparr>"

fun LogKV_pages :: "(nat \<times> nat \<times> nat \<Rightarrow> bool) \<Rightarrow> bool \<Rightarrow> (nat \<times> nat) list \<Rightarrow> logkv \<Rightarrow> fault + logkv" where
  "LogKV_pages mapped recovery [] s = Inr s"
| "LogKV_pages mapped recovery ((numa, hash) # rest) s =
     (case PPage_new mapped s numa hash recovery of
        Inl e \<Rightarrow> Inl e
      | Inr (s', pp) \<Rightarrow>
          LogKV_pages mapped recovery rest
            ((set_ppage s' numa hash pp)\<lparr>start_addr_arr := (start_addr_arr s')(numa := (start_addr_arr s' numa)
               (hash := (start_addr_arr s' numa hash)(0 := start_addr pp)))\<rparr>))"

definition LogKV_new :: "(nat \<times> nat \<times> nat \<Rightarrow> bool) \<Rightarrow> nat \<Rightarrow> bool \<Rightarrow> fault + logkv" where
  "LogKV_new mapped shards recovery =
     LogKV_pages mapped recovery (List.product [0..<numa_node_num] [0..<shards]) empty_log"

definition alloc_log ::
  "(nat \<times> nat \<times> nat \<Rightarrow> bool) \<Rightarrow> nat \<Rightarrow> logkv \<Rightarrow> nat \<Rightarrow> u64 \<Rightarrow> last_log_offest \<Rightarrow> nat \<Rightarrow>
   fault + (logkv \<times> last_log_offest \<times> nat option \<times> nat)" where
  "alloc_log mapped shards s thread hash_key log_info alloc_size =
     PPage_alloc mapped s (get_numa_id thread) (unat hash_key mod shards) log_info alloc_size"

definition get_addr :: "nat \<Rightarrow> logkv \<Rightarrow> last_log_offest \<Rightarrow> u64 \<Rightarrow> nat option \<times> nat" where
  "get_addr shards s log_info hash_key =
     (start_addr_arr s (unat (numa_id log_info)) (unat hash_key mod shards) (unat (ppage_id log_info)),
      unat (log_offset log_info))"

text \<open>\<^verbatim>\<open>version_alloctor::get_version\<close>: the counter before it is incremented.\<close>

definition get_version :: "nat \<Rightarrow> logkv \<Rightarrow> u64 \<Rightarrow> logkv \<times> u64" where
  "get_version shards s hash_key =
     (let i = unat hash_key mod shards
      in (s\<lparr>versions := (versions s)(i := versions s i + 1)\<rparr>, versions s i))"

text \<open>
  Writing a record at an address that \<^verbatim>\<open>alloc_log\<close> returned. A page object without a page yields
  an offset to a null pointer.
\<close>

definition store_at :: "logkv \<Rightarrow> Pair_t \<Rightarrow> nat \<Rightarrow> nat \<Rightarrow> logkv" where
  "store_at s p b off = s\<lparr>pmem := (pmem s)(b := store_persist p (pmem s b) off)\<rparr>"

definition store_log :: "logkv \<Rightarrow> Pair_t \<Rightarrow> nat option \<Rightarrow> nat \<Rightarrow> fault + logkv" where
  "store_log s p addr off = (case addr of None \<Rightarrow> Inl NullAccess | Some b \<Rightarrow> Inr (store_at s p b off))"

text \<open>\<^verbatim>\<open>last_log_offest()\<close>: only \<^verbatim>\<open>numa_id_\<close> is set; \<open>raw_info\<close> is the rest of the object.\<close>

definition no_log_info :: "last_log_offest \<Rightarrow> last_log_offest" where
  "no_log_info raw_info = raw_info\<lparr>numa_id := 255\<rparr>"

definition LogKV_insert ::
  "(nat \<times> nat \<times> nat \<Rightarrow> bool) \<Rightarrow> nat \<Rightarrow> logkv \<Rightarrow> nat \<Rightarrow> Pair_t \<Rightarrow> last_log_offest \<Rightarrow> u64 \<Rightarrow> u64 \<Rightarrow> u64 \<Rightarrow>
   fault + (logkv \<times> u64)" where
  "LogKV_insert mapped shards s thread raw raw_info key payload hash_key =
     (let p = Pair_t_new raw key payload;
          (s1, v) = get_version shards s hash_key;
          p = set_op (set_version p v) INSERT;
          log_info = (no_log_info raw_info)\<lparr>vlen := 8\<rparr>
      in case alloc_log mapped shards s1 thread hash_key log_info pair_size of
           Inl e \<Rightarrow> Inl e
         | Inr (s2, info, addr, off) \<Rightarrow>
             (case store_log s2 p addr off of Inl e \<Rightarrow> Inl e | Inr s3 \<Rightarrow> Inr (s3, to_uint64_t_offset info)))"

definition LogKV_erase ::
  "(nat \<times> nat \<times> nat \<Rightarrow> bool) \<Rightarrow> nat \<Rightarrow> logkv \<Rightarrow> nat \<Rightarrow> Pair_t \<Rightarrow> last_log_offest \<Rightarrow> u64 \<Rightarrow> u64 \<Rightarrow> u64 \<Rightarrow>
   fault + logkv" where
  "LogKV_erase mapped shards s thread raw raw_info key hash_key old_log_offset =
     (let p = Pair_t_key raw key;
          (s1, v) = get_version shards s hash_key;
          p = set_last_log_offest (set_op (set_version p v) DELETE) old_log_offset
      in case alloc_log mapped shards s1 thread hash_key (no_log_info raw_info) pair_size of
           Inl e \<Rightarrow> Inl e
         | Inr (s2, info, addr, off) \<Rightarrow> store_log s2 p addr off)"

text \<open>\<^verbatim>\<open>update_step1\<close> reserves the record and returns its address and position; \<open>p\<close> is in/out.\<close>

definition LogKV_update_step1 ::
  "(nat \<times> nat \<times> nat \<Rightarrow> bool) \<Rightarrow> nat \<Rightarrow> logkv \<Rightarrow> nat \<Rightarrow> last_log_offest \<Rightarrow> u64 \<Rightarrow> Pair_t \<Rightarrow>
   fault + (logkv \<times> Pair_t \<times> u64 \<times> nat option \<times> nat)" where
  "LogKV_update_step1 mapped shards s thread raw_info hash_key p =
     (let (s1, v) = get_version shards s hash_key;
          p = set_op (set_version p v) UPDATE;
          log_info = (no_log_info raw_info)\<lparr>vlen := 8\<rparr>
      in case alloc_log mapped shards s1 thread hash_key log_info pair_size of
           Inl e \<Rightarrow> Inl e
         | Inr (s2, info, addr, off) \<Rightarrow> Inr (s2, p, to_uint64_t_offset info, addr, off))"

text \<open>\<^verbatim>\<open>set_page_start_addr\<close> of the recovery.\<close>

definition set_page_start_addr :: "logkv \<Rightarrow> nat \<Rightarrow> nat \<Rightarrow> nat \<Rightarrow> nat \<Rightarrow> logkv" where
  "set_page_start_addr s numa hash page addr =
     (let s' = s\<lparr>start_addr_arr := (start_addr_arr s)(numa := (start_addr_arr s numa)
                  (hash := (start_addr_arr s numa hash)(page := Some addr)))\<rparr>;
          pp = ppages s numa hash
      in if sint (ucast (pp_ppage_id pp) :: 32 word) < int page
         then set_ppage s' numa hash (pp\<lparr>pp_ppage_id := word_of_nat page\<rparr>) else s')"

section \<open>Round trips\<close>

lemma masks: "(0xffff :: u64) = mask 16" "(0xff :: u64) = mask 8" "(0xffffffff :: u64) = mask 32"
  by (simp_all add: mask_eq_exp_minus_1)

lemma no_bit:
  "\<not> bit (w8 :: 8 word) (8 + n)" "\<not> bit w8 (16 + n)" "\<not> bit (w32 :: 32 word) (32 + n)"
  "\<not> bit w32 (40 + n)" "\<not> bit w32 (48 + n)"
  by (auto dest: bit_imp_le_length)

lemmas offset_defs = of_addr_info_def to_uint64_t_offset_def vlen_mask_def numa_id_mask_def
  ppage_id_mask_def log_offset_mask_def masks

lemma of_addr_info_packed: "of_addr_info (to_uint64_t_offset i) = i"
  unfolding offset_defs by (cases i) (auto simp: bit_simps no_bit intro!: bit_word_eqI)


lemma packed_of_addr_info: "to_uint64_t_offset (of_addr_info w) = w"
proof (rule bit_word_eqI)
  fix n assume n: "n < LENGTH(64)"
  consider "n < 32" | "32 \<le> n" "n < 40" | "40 \<le> n" "n < 48" | "48 \<le> n" by linarith
  then show "bit (to_uint64_t_offset (of_addr_info w)) n = bit w n"
    unfolding offset_defs using n by cases (simp_all add: bit_simps less_diff_conv2)
qed

lemma no_bit2: "\<not> bit (w2 :: 2 word) (Suc (Suc n))"
  by (auto dest: bit_imp_le_length)

lemma load_store_persist: "load_pair (store_persist p m a) a = p"
  by (cases p) (auto simp: load_pair_def store_persist_def pair_header_def bit_simps no_bit2
      intro!: bit_word_eqI)

section \<open>The invariant of the log\<close>

abbreviation cur_page :: "logkv \<Rightarrow> nat \<Rightarrow> nat \<Rightarrow> nat" where
  "cur_page s numa hash \<equiv> unat (pp_ppage_id (ppages s numa hash))"

text \<open>
  Every shard has a current page, whose block the page table holds; later pages do not exist
  yet, and different pages are different blocks.
\<close>

definition shard_wf :: "logkv \<Rightarrow> nat \<Rightarrow> nat \<Rightarrow> bool" where
  "shard_wf s numa hash \<longleftrightarrow>
     (let pp = ppages s numa hash
      in pp_numa_id pp = numa \<and> pp_hash_id pp = hash \<and> cur_page s numa hash < MAX_LOF_FILE_ID \<and>
         sz_allocated pp \<le> PPAGE_SIZE \<and> start_addr pp \<noteq> None \<and>
         start_addr_arr s numa hash (cur_page s numa hash) = start_addr pp \<and>
         (\<forall>page. start_addr_arr s numa hash page \<noteq> None \<or> (numa, hash, page) \<in> set (files s) \<longrightarrow>
            page \<le> cur_page s numa hash))"

definition blocks_wf :: "logkv \<Rightarrow> bool" where
  "blocks_wf s \<longleftrightarrow> (\<forall>n h p b. start_addr_arr s n h p = Some b \<longrightarrow> b < next_map s \<and>
     (\<forall>n' h' p'. start_addr_arr s n' h' p' = Some b \<longrightarrow> n' = n \<and> h' = h \<and> p' = p))"

definition log_wf :: "nat \<Rightarrow> logkv \<Rightarrow> bool" where
  "log_wf shards s \<longleftrightarrow> 0 < shards \<and> shards \<le> max_shards \<and> blocks_wf s \<and>
     (\<forall>numa hash. numa < numa_node_num \<longrightarrow> hash < shards \<longrightarrow> shard_wf s numa hash)"

text \<open>A position that the log has issued, and the record there.\<close>

definition live_at :: "logkv \<Rightarrow> nat \<Rightarrow> nat \<Rightarrow> nat \<Rightarrow> nat \<Rightarrow> bool" where
  "live_at s numa hash page off \<longleftrightarrow> numa < numa_node_num \<and> start_addr_arr s numa hash page \<noteq> None \<and>
     (page < cur_page s numa hash \<or>
      page = cur_page s numa hash \<and> off + pair_size \<le> sz_allocated (ppages s numa hash))"

definition pair_at :: "logkv \<Rightarrow> nat \<Rightarrow> nat \<Rightarrow> nat \<Rightarrow> nat \<Rightarrow> Pair_t" where
  "pair_at s numa hash page off = load_pair (pmem s (the (start_addr_arr s numa hash page))) off"

definition log_live :: "nat \<Rightarrow> logkv \<Rightarrow> u64 \<Rightarrow> u64 \<Rightarrow> bool" where
  "log_live shards s hash_key w \<longleftrightarrow>
     (let i = of_addr_info w in live_at s (unat (numa_id i)) (unat hash_key mod shards) (unat (ppage_id i)) (unat (log_offset i)))"

definition log_pair :: "nat \<Rightarrow> logkv \<Rightarrow> u64 \<Rightarrow> u64 \<Rightarrow> Pair_t" where
  "log_pair shards s hash_key w =
     (let i = of_addr_info w in pair_at s (unat (numa_id i)) (unat hash_key mod shards) (unat (ppage_id i)) (unat (log_offset i)))"

text \<open>Room for one more record: in the page, or in a page that can still be created.\<close>

definition has_room :: "(nat \<times> nat \<times> nat \<Rightarrow> bool) \<Rightarrow> nat \<Rightarrow> logkv \<Rightarrow> nat \<Rightarrow> u64 \<Rightarrow> bool" where
  "has_room mapped shards s thread hash_key \<longleftrightarrow>
     (let n = get_numa_id thread; h = unat hash_key mod shards
      in sz_allocated (ppages s n h) + pair_size \<le> PPAGE_SIZE \<or>
         (Suc (cur_page s n h) < MAX_LOF_FILE_ID \<and> mapped (n, h, Suc (cur_page s n h))))"

lemma get_numa_id_less: "get_numa_id thread < numa_node_num"
  by (simp add: get_numa_id_def numa_node_num_def)

subsection \<open>A new page\<close>

lemma unat_ppage_Suc: "unat (w :: u64) < MAX_LOF_FILE_ID \<Longrightarrow> unat (w + 1) = Suc (unat w)"
  by (simp add: MAX_LOF_FILE_ID_def unat_word_ariths)

text \<open>The state after \<^verbatim>\<open>alloc_new_ppage\<close> and the switch of the shard to the new page.\<close>

definition next_page :: "logkv \<Rightarrow> nat \<Rightarrow> nat \<Rightarrow> logkv" where
  "next_page s n h =
     (let p = Suc (cur_page s n h); b = next_map s
      in s\<lparr>pmem := (pmem s)(b := (\<lambda>_. - 1)), next_map := Suc b, files := (n, h, p) # files s,
           start_addr_arr := (start_addr_arr s)(n := (start_addr_arr s n)(h := (start_addr_arr s n h)(p := Some b))),
           ppages := (ppages s)(n := (ppages s n)(h := (ppages s n h)\<lparr>pp_ppage_id := pp_ppage_id (ppages s n h) + 1,
             start_addr := Some b, sz_allocated := 0, sz_freed := 0\<rparr>))\<rparr>)"

lemma next_page_wf:
  assumes wf: "log_wf shards s" and n: "n < numa_node_num" and h: "h < shards"
    and room: "Suc (cur_page s n h) < MAX_LOF_FILE_ID"
  shows "log_wf shards (next_page s n h)"
proof -
  have sh: "shard_wf s n h" and bl: "blocks_wf s" using wf n h by (auto simp: log_wf_def)
  have free: "start_addr_arr s n h (Suc (cur_page s n h)) = None"
    using sh unfolding shard_wf_def Let_def by (metis Suc_n_not_le_n)
  have id: "unat (pp_ppage_id (ppages s n h) + 1) = Suc (cur_page s n h)"
    using room by (intro unat_ppage_Suc) simp
  have "shard_wf (next_page s n h) n' h'" if "n' < numa_node_num" "h' < shards" for n' h'
  proof (cases "n' = n \<and> h' = h")
    case True
    have "page \<le> Suc (cur_page s n h)" if "start_addr_arr s n h page \<noteq> None \<or> (n, h, page) \<in> set (files s)" for page
      using sh that unfolding shard_wf_def Let_def by (meson le_SucI)
    then show ?thesis
      using sh True room id by (auto simp: shard_wf_def next_page_def Let_def split: if_splits)
  next
    case False
    moreover have "shard_wf s n' h'" using wf that by (simp add: log_wf_def)
    ultimately show ?thesis by (auto simp: shard_wf_def next_page_def Let_def split: if_splits)
  qed
  moreover have "blocks_wf (next_page s n h)"
    using bl free unfolding blocks_wf_def next_page_def Let_def by (auto split: if_splits) (metis less_SucI less_irrefl)+
  ultimately show ?thesis using wf by (simp add: log_wf_def)
qed

text \<open>Issued records stay where they are and keep their contents.\<close>

definition log_extends :: "nat \<Rightarrow> logkv \<Rightarrow> logkv \<Rightarrow> bool" where
  "log_extends shards s s' \<longleftrightarrow> (\<forall>hash_key w. log_live shards s hash_key w \<longrightarrow>
     log_live shards s' hash_key w \<and> log_pair shards s' hash_key w = log_pair shards s hash_key w)"

lemma log_extendsI:
  assumes "\<And>n h p o'. live_at s n h p o' \<Longrightarrow> live_at s' n h p o' \<and> pair_at s' n h p o' = pair_at s n h p o'"
  shows "log_extends shards s s'"
  using assms by (simp add: log_extends_def log_live_def log_pair_def Let_def)

lemma log_extends_trans: "log_extends shards s s' \<Longrightarrow> log_extends shards s' s'' \<Longrightarrow> log_extends shards s s''"
  by (simp add: log_extends_def)

lemma log_extends_refl: "log_extends shards s s"
  by (simp add: log_extends_def)

lemma next_page_extends:
  assumes wf: "log_wf shards s" and n: "n < numa_node_num" and h: "h < shards"
    and room: "Suc (cur_page s n h) < MAX_LOF_FILE_ID"
  shows "log_extends shards s (next_page s n h)"
proof (rule log_extendsI)
  fix n' h' p o' assume live: "live_at s n' h' p o'"
  have bl: "blocks_wf s" using wf by (simp add: log_wf_def)
  obtain b where b: "start_addr_arr s n' h' p = Some b" using live by (auto simp: live_at_def)
  then have "b \<noteq> next_map s" using bl unfolding blocks_wf_def by blast
  have id: "unat (pp_ppage_id (ppages s n h) + 1) = Suc (cur_page s n h)"
    using room by (intro unat_ppage_Suc) simp
  have "\<not> (n' = n \<and> h' = h \<and> p = Suc (cur_page s n h))" using live by (auto simp: live_at_def)
  then have b': "start_addr_arr (next_page s n h) n' h' p = Some b" using b by (auto simp: next_page_def Let_def)
  have "live_at (next_page s n h) n' h' p o'"
    using live b' id by (auto simp: live_at_def next_page_def Let_def)
  moreover have "pair_at (next_page s n h) n' h' p o' = pair_at s n' h' p o'"
    using \<open>b \<noteq> next_map s\<close> b b' by (simp add: pair_at_def) (simp add: next_page_def Let_def)
  ultimately show "live_at (next_page s n h) n' h' p o' \<and> pair_at (next_page s n h) n' h' p o' = pair_at s n' h' p o'"
    by simp
qed

subsection \<open>Appending a record\<close>

definition reserve :: "logkv \<Rightarrow> nat \<Rightarrow> nat \<Rightarrow> logkv" where
  "reserve s n h = set_ppage s n h ((ppages s n h)\<lparr>sz_allocated := sz_allocated (ppages s n h) + pair_size\<rparr>)"

definition ready :: "logkv \<Rightarrow> nat \<Rightarrow> nat \<Rightarrow> logkv" where
  "ready s n h = (if sz_allocated (ppages s n h) + pair_size \<le> PPAGE_SIZE then s else next_page s n h)"

lemma ready_correct:
  assumes wf: "log_wf shards s" and n: "n < numa_node_num" and h: "h < shards"
    and room: "sz_allocated (ppages s n h) + pair_size \<le> PPAGE_SIZE \<or> Suc (cur_page s n h) < MAX_LOF_FILE_ID"
  shows "log_wf shards (ready s n h)" and "log_extends shards s (ready s n h)"
    and "sz_allocated (ppages (ready s n h) n h) + pair_size \<le> PPAGE_SIZE"
    and "\<not> live_at s n h (cur_page (ready s n h) n h) (sz_allocated (ppages (ready s n h) n h))"
    and "versions (ready s n h) = versions s"
proof -
  show "log_wf shards (ready s n h)" "log_extends shards s (ready s n h)"
    using next_page_wf [OF wf n h] next_page_extends [OF wf n h] wf room
    by (auto simp: ready_def log_extends_refl)
  show "sz_allocated (ppages (ready s n h) n h) + pair_size \<le> PPAGE_SIZE"
    by (auto simp: ready_def next_page_def Let_def pair_size_def PPAGE_SIZE_def)
  show "\<not> live_at s n h (cur_page (ready s n h) n h) (sz_allocated (ppages (ready s n h) n h))"
  proof (cases "sz_allocated (ppages s n h) + pair_size \<le> PPAGE_SIZE")
    case True
    then show ?thesis by (simp add: ready_def live_at_def pair_size_def)
  next
    case False
    then have "unat (pp_ppage_id (ppages s n h) + 1) = Suc (cur_page s n h)"
      using room by (intro unat_ppage_Suc) simp
    with False show ?thesis by (simp add: ready_def live_at_def next_page_def Let_def)
  qed
qed (simp add: ready_def next_page_def Let_def)

lemma PPage_alloc_ready:
  assumes wf: "log_wf shards s" and n: "n < numa_node_num" and h: "h < shards"
    and room: "sz_allocated (ppages s n h) + pair_size \<le> PPAGE_SIZE \<or>
      Suc (cur_page s n h) < MAX_LOF_FILE_ID \<and> mapped (n, h, Suc (cur_page s n h))"
  shows "PPage_alloc mapped s n h info pair_size =
    (let s1 = ready s n h; pp = ppages s1 n h
     in Inr (reserve s1 n h, info\<lparr>numa_id := word_of_nat n, ppage_id := ucast (pp_ppage_id pp),
          log_offset := word_of_nat (sz_allocated pp)\<rparr>, start_addr pp, sz_allocated pp))"
proof -
  have sh: "shard_wf s n h" using wf n h by (simp add: log_wf_def)
  then have ids: "pp_numa_id (ppages s n h) = n" "pp_hash_id (ppages s n h) = h"
    and sz: "sz_allocated (ppages s n h) \<le> PPAGE_SIZE" by (auto simp: shard_wf_def Let_def)
  show ?thesis
  proof (cases "sz_allocated (ppages s n h) + pair_size \<le> PPAGE_SIZE")
    case True
    then have "\<not> PPAGE_SIZE - sz_allocated (ppages s n h) < pair_size" by simp
    then show ?thesis using True ids by (simp add: PPage_alloc_def ready_def reserve_def Let_def)
  next
    case False
    then have less: "PPAGE_SIZE - sz_allocated (ppages s n h) < pair_size" using sz by linarith
    have id: "unat (pp_ppage_id (ppages s n h) + 1) = Suc (cur_page s n h)"
      using room False by (intro unat_ppage_Suc) simp
    have "(n, h, Suc (cur_page s n h)) \<notin> set (files s)"
      using sh unfolding shard_wf_def Let_def by (metis Suc_n_not_le_n)
    then have "alloc_new_ppage mapped s n h (Suc (cur_page s n h)) =
        Inr (s\<lparr>pmem := (pmem s)(next_map s := (\<lambda>_. - 1)), next_map := Suc (next_map s),
               files := (n, h, Suc (cur_page s n h)) # files s,
               start_addr_arr := (start_addr_arr s)(n := (start_addr_arr s n)
                 (h := (start_addr_arr s n h)(Suc (cur_page s n h) := Some (next_map s))))\<rparr>, next_map s)"
      using room False n h wf by (auto simp: alloc_new_ppage_def Let_def log_wf_def)
    then show ?thesis
      using False less ids id by (simp add: PPage_alloc_def ready_def next_page_def reserve_def Let_def)
  qed
qed

text \<open>The page after the last one of the table.\<close>

lemma PPage_alloc_overflow:
  assumes wf: "log_wf shards s" and n: "n < numa_node_num" and h: "h < shards" and last: "cur_page s n h = 31"
    and full: "PPAGE_SIZE < sz_allocated (ppages s n h) + alloc_size" and m: "mapped (n, h, 32)"
  shows "PPage_alloc mapped s n h log_info alloc_size = Inl OutOfBounds"
proof -
  have sh: "shard_wf s n h" using wf n h by (simp add: log_wf_def)
  then have ids: "pp_numa_id (ppages s n h) = n" "pp_hash_id (ppages s n h) = h"
    and sz: "sz_allocated (ppages s n h) \<le> PPAGE_SIZE" by (auto simp: shard_wf_def Let_def)
  have less: "PPAGE_SIZE - sz_allocated (ppages s n h) < alloc_size" using sz full by linarith
  have id: "unat (pp_ppage_id (ppages s n h) + 1) = 32"
    using unat_ppage_Suc [of "pp_ppage_id (ppages s n h)"] last by (simp add: MAX_LOF_FILE_ID_def)
  have "(n, h, 32) \<notin> set (files s)" using sh last by (auto simp: shard_wf_def Let_def)
  with less ids id m show ?thesis by (simp add: PPage_alloc_def alloc_new_ppage_def MAX_LOF_FILE_ID_def Let_def)
qed

lemma reserve_correct:
  assumes wf: "log_wf shards s" and n: "n < numa_node_num" and h: "h < shards"
    and room: "sz_allocated (ppages s n h) + pair_size \<le> PPAGE_SIZE"
  shows "log_wf shards (reserve s n h)" and "log_extends shards s (reserve s n h)"
    and "live_at (reserve s n h) n h (cur_page s n h) (sz_allocated (ppages s n h))"
    and "start_addr_arr (reserve s n h) = start_addr_arr s"
proof -
  have "shard_wf (reserve s n h) n' h'" if "n' < numa_node_num" "h' < shards" for n' h'
    using wf that room unfolding log_wf_def shard_wf_def Let_def by (auto simp: reserve_def)
  then show "log_wf shards (reserve s n h)" using wf by (simp add: log_wf_def blocks_wf_def reserve_def)
  show "log_extends shards s (reserve s n h)"
    by (rule log_extendsI) (auto simp: live_at_def pair_at_def reserve_def)
  have "shard_wf s n h" using wf n h by (simp add: log_wf_def)
  then show "live_at (reserve s n h) n h (cur_page s n h) (sz_allocated (ppages s n h))"
    using n by (auto simp: live_at_def reserve_def shard_wf_def Let_def)
qed (simp add: reserve_def)


lemma store_at_wf: "log_wf shards (store_at s p b off) = log_wf shards s"
  by (simp add: store_at_def log_wf_def blocks_wf_def shard_wf_def)

lemma store_at_live: "live_at (store_at s p b off) = live_at s"
  by (simp add: store_at_def live_at_def fun_eq_iff)

text \<open>
  Reserving the next record of a shard and writing it: the position is new, the record can be
  read there, and every issued record keeps its contents.
\<close>

lemma append_correct:
  fixes hash_key :: u64 and shards thread :: nat
  defines "h \<equiv> unat hash_key mod shards" and "n \<equiv> get_numa_id thread"
  assumes wf: "log_wf shards s" and room: "has_room mapped shards s thread hash_key"
  obtains s2 info b off where
    "alloc_log mapped shards s thread hash_key log_info pair_size = Inr (s2, info, Some b, off)"
    and "vlen info = vlen log_info" and "log_wf shards s2" and "log_extends shards s s2"
    and "get_addr shards s2 info hash_key = (Some b, off)"
    and "log_live shards s2 hash_key (to_uint64_t_offset info)"
    and "\<not> log_live shards s hash_key (to_uint64_t_offset info)"
    and "\<And>p. log_pair shards (store_at s2 p b off) hash_key (to_uint64_t_offset info) = p"
    and "\<And>p. log_extends shards s (store_at s2 p b off)"
    and "versions s2 = versions s"
proof -
  have n: "n < numa_node_num" by (simp add: n_def get_numa_id_less)
  have h: "h < shards" using wf by (simp add: h_def log_wf_def)
  have room': "sz_allocated (ppages s n h) + pair_size \<le> PPAGE_SIZE \<or>
      Suc (cur_page s n h) < MAX_LOF_FILE_ID \<and> mapped (n, h, Suc (cur_page s n h))"
    using room by (simp add: has_room_def n_def h_def Let_def)
  define s1 where "s1 = ready s n h"
  define off where "off = sz_allocated (ppages s1 n h)"
  define info where "info = log_info\<lparr>numa_id := word_of_nat n, ppage_id := ucast (pp_ppage_id (ppages s1 n h)),
          log_offset := word_of_nat off\<rparr>"
  have wf1: "log_wf shards s1" and ext1: "log_extends shards s s1" and fit: "off + pair_size \<le> PPAGE_SIZE"
    and new: "\<not> live_at s n h (cur_page s1 n h) off" and ver: "versions s1 = versions s"
    using ready_correct [OF wf n h] room' by (auto simp: s1_def off_def)
  have "shard_wf s1 n h" using wf1 n h by (simp add: log_wf_def)
  then obtain b where b: "start_addr (ppages s1 n h) = Some b" "start_addr_arr s1 n h (cur_page s1 n h) = Some b"
    and cur: "cur_page s1 n h < MAX_LOF_FILE_ID"
    by (auto simp: shard_wf_def Let_def)
  have un: "unat (numa_id info) = n" "unat (ppage_id info) = cur_page s1 n h" "unat (log_offset info) = off"
    using n cur fit
    by (simp_all add: info_def numa_node_num_def MAX_LOF_FILE_ID_def PPAGE_SIZE_def pair_size_def
        unsigned_of_nat unsigned_ucast_eq take_bit_nat_eq_self)
  define s2 where "s2 = reserve s1 n h"
  have wf2: "log_wf shards s2" and ext2: "log_extends shards s1 s2" and live2: "live_at s2 n h (cur_page s1 n h) off"
    and arr: "start_addr_arr s2 = start_addr_arr s1"
    using reserve_correct [OF wf1 n h] fit by (auto simp: s2_def off_def)
  have pos: "of_addr_info (to_uint64_t_offset info) = info" by (rule of_addr_info_packed)
  have "alloc_log mapped shards s thread hash_key log_info pair_size = Inr (s2, info, Some b, off)"
    using PPage_alloc_ready [where mapped = mapped, OF wf n h room'] b
    by (simp add: alloc_log_def h_def [symmetric] n_def [symmetric] s1_def s2_def info_def off_def Let_def)
  moreover have "vlen info = vlen log_info" by (simp add: info_def)
  moreover have "get_addr shards s2 info hash_key = (Some b, off)"
    using b arr by (simp add: get_addr_def un h_def [symmetric])
  moreover have "log_live shards s2 hash_key (to_uint64_t_offset info)"
    "\<not> log_live shards s hash_key (to_uint64_t_offset info)"
    using live2 new by (simp_all add: log_live_def pos un h_def [symmetric] Let_def)
  moreover have "log_pair shards (store_at s2 p b off) hash_key (to_uint64_t_offset info) = p" for p
    using b arr by (simp add: log_pair_def pos un h_def [symmetric] Let_def pair_at_def store_at_def load_store_persist)
  moreover have "log_extends shards s1 (store_at s2 p b off)" for p
  proof (rule log_extendsI)
    fix n' h' q o' assume live: "live_at s1 n' h' q o'"
    then obtain b' where b': "start_addr_arr s1 n' h' q = Some b'" by (auto simp: live_at_def)
    have "blocks_wf s1" using wf1 by (simp add: log_wf_def)
    then have same: "b' = b \<Longrightarrow> n' = n \<and> h' = h \<and> q = cur_page s1 n h"
      using b b' unfolding blocks_wf_def by blast
    have "pair_at (store_at s2 p b off) n' h' q o' = pair_at s1 n' h' q o'"
    proof (cases "b' = b")
      case True
      then have "o' + pair_size \<le> off" using same live by (auto simp: live_at_def off_def)
      with True b' arr show ?thesis
        by (simp add: pair_at_def store_at_def s2_def reserve_def load_pair_def store_persist_def pair_size_def)
    qed (use b' arr in \<open>simp add: pair_at_def store_at_def s2_def reserve_def\<close>)
    moreover have "live_at s2 n' h' q o'" using live by (auto simp: live_at_def s2_def reserve_def)
    ultimately show "live_at (store_at s2 p b off) n' h' q o' \<and>
        pair_at (store_at s2 p b off) n' h' q o' = pair_at s1 n' h' q o'"
      by (simp add: store_at_live)
  qed
  moreover have "versions s2 = versions s" using ver by (simp add: s2_def reserve_def)
  ultimately show thesis
    using that wf2 log_extends_trans [OF ext1] ext2 by blast
qed

subsection \<open>The operations\<close>

lemma versions_only:
  "log_wf shards (s\<lparr>versions := v\<rparr>) = log_wf shards s"
  "log_live shards (s\<lparr>versions := v\<rparr>) = log_live shards s"
  "log_pair shards (s\<lparr>versions := v\<rparr>) = log_pair shards s"
  "has_room mapped shards (s\<lparr>versions := v\<rparr>) = has_room mapped shards s"
  by (simp_all add: log_wf_def blocks_wf_def shard_wf_def log_live_def live_at_def log_pair_def pair_at_def
      has_room_def Let_def fun_eq_iff)

lemma versions_extends: "log_extends shards (s\<lparr>versions := v\<rparr>) s' = log_extends shards s s'"
  by (simp add: log_extends_def versions_only)

definition next_version :: "nat \<Rightarrow> logkv \<Rightarrow> u64 \<Rightarrow> 62 word" where
  "next_version shards s hash_key = ucast (versions s (unat hash_key mod shards) + 1)"

definition appended :: "nat \<Rightarrow> logkv \<Rightarrow> logkv \<Rightarrow> u64 \<Rightarrow> u64 \<Rightarrow> Pair_t \<Rightarrow> bool" where
  "appended shards s s' hash_key w p \<longleftrightarrow> log_wf shards s' \<and> log_extends shards s s' \<and>
     log_live shards s' hash_key w \<and> \<not> log_live shards s hash_key w \<and> log_pair shards s' hash_key w = p"

lemma get_version_eq:
  "get_version shards s hash_key = (fst (get_version shards s hash_key), versions s (unat hash_key mod shards))"
  by (simp add: get_version_def Let_def)

lemma append_versioned:
  assumes wf: "log_wf shards s" and room: "has_room mapped shards s thread hash_key"
  obtains s2 info b off where
    "alloc_log mapped shards (fst (get_version shards s hash_key)) thread hash_key log_info pair_size =
       Inr (s2, info, Some b, off)"
    and "vlen info = vlen log_info" and "log_wf shards s2" and "log_extends shards s s2"
    and "log_live shards s2 hash_key (to_uint64_t_offset info)"
    and "\<And>p. appended shards s (store_at s2 p b off) hash_key (to_uint64_t_offset info) p"
proof -
  define s1 where "s1 = fst (get_version shards s hash_key)"
  obtain v where s1: "s1 = s\<lparr>versions := v\<rparr>" by (simp add: s1_def get_version_def Let_def)
  have wf1: "log_wf shards s1" and room1: "has_room mapped shards s1 thread hash_key"
    using wf room by (simp_all add: s1 versions_only)
  show thesis
  proof (rule append_correct [where mapped = mapped and log_info = log_info, OF wf1 room1])
    fix s2 info b off
    assume al: "alloc_log mapped shards s1 thread hash_key log_info pair_size = Inr (s2, info, Some b, off)"
      and vl: "vlen info = vlen log_info" and wf2: "log_wf shards s2" and ext1: "log_extends shards s1 s2"
      and l2: "log_live shards s2 hash_key (to_uint64_t_offset info)"
      and l1: "\<not> log_live shards s1 hash_key (to_uint64_t_offset info)"
      and rd: "\<And>p. log_pair shards (store_at s2 p b off) hash_key (to_uint64_t_offset info) = p"
      and ext: "\<And>p. log_extends shards s1 (store_at s2 p b off)"
    have "appended shards s (store_at s2 p b off) hash_key (to_uint64_t_offset info) p" for p
      unfolding appended_def using wf2 l2 l1 rd [of p] ext [of p]
      by (simp add: store_at_wf s1 versions_only versions_extends) (simp add: log_live_def store_at_live)
    then show thesis
      using that al vl wf2 ext1 l2 by (simp add: s1_def [symmetric]) (simp add: s1 versions_extends)
  qed
qed

text \<open>The records that the operations write.\<close>

definition insert_record :: "nat \<Rightarrow> logkv \<Rightarrow> u64 \<Rightarrow> u64 \<Rightarrow> u64 \<Rightarrow> Pair_t" where
  "insert_record shards s hash_key key payload =
     \<lparr>pair_op = op_code INSERT, pair_version = next_version shards s hash_key, pair_key = key,
      pair_value = payload, u_offset = - 1\<rparr>"

lemma LogKV_insert_ok:
  assumes wf: "log_wf shards s" and room: "has_room mapped shards s thread hash_key"
  obtains s' w where "LogKV_insert mapped shards s thread raw raw_info key payload hash_key = Inr (s', w)"
    and "appended shards s s' hash_key w (insert_record shards s hash_key key payload)"
    and "vlen (of_addr_info w) = 8"
proof -
  define p where "p = set_op (set_version (Pair_t_new raw key payload) (versions s (unat hash_key mod shards))) INSERT"
  have p: "p = insert_record shards s hash_key key payload"
    by (simp add: p_def insert_record_def set_op_def set_version_def Pair_t_new_def next_version_def)
  show thesis
  proof (rule append_versioned [where mapped = mapped and log_info = "(no_log_info raw_info)\<lparr>vlen := 8\<rparr>", OF wf room])
    fix s2 info b off
    assume al: "alloc_log mapped shards (fst (get_version shards s hash_key)) thread hash_key
        ((no_log_info raw_info)\<lparr>vlen := 8\<rparr>) pair_size = Inr (s2, info, Some b, off)"
      and vl: "vlen info = vlen ((no_log_info raw_info)\<lparr>vlen := 8\<rparr>)"
      and app: "\<And>p. appended shards s (store_at s2 p b off) hash_key (to_uint64_t_offset info) p"
    have "LogKV_insert mapped shards s thread raw raw_info key payload hash_key =
        Inr (store_at s2 p b off, to_uint64_t_offset info)"
      using al by (subst LogKV_insert_def, subst get_version_eq) (simp add: p_def store_log_def Let_def)
    then show thesis using that app [of p] vl unfolding p by (simp add: of_addr_info_packed)
  qed
qed

text \<open>One record takes 32 bytes of the page.\<close>

lemma LogKV_insert_room:
  assumes wf: "log_wf shards s"
    and sz: "sz_allocated (ppages s (get_numa_id thread) (unat hash_key mod shards)) + 2 * pair_size \<le> PPAGE_SIZE"
    and ins: "LogKV_insert mapped shards s thread raw raw_info key payload hash_key = Inr (s', w)"
  shows "has_room mapped shards s' thread hash_key"
proof -
  let ?n = "get_numa_id thread" and ?h = "unat hash_key mod shards"
  define s1 where "s1 = fst (get_version shards s hash_key)"
  obtain v where s1: "s1 = s\<lparr>versions := v\<rparr>" by (simp add: s1_def get_version_def Let_def)
  have wf1: "log_wf shards s1" using wf by (simp add: s1 versions_only)
  have h: "?h < shards" using wf by (simp add: log_wf_def)
  have fit: "sz_allocated (ppages s1 ?n ?h) + pair_size \<le> PPAGE_SIZE" using sz by (simp add: s1)
  have ready: "ready s1 ?n ?h = s1" using fit by (simp add: ready_def)
  obtain info a off where "alloc_log mapped shards s1 thread hash_key ((no_log_info raw_info)\<lparr>vlen := 8\<rparr>) pair_size =
      Inr (reserve s1 ?n ?h, info, a, off)"
    using PPage_alloc_ready [where mapped = mapped, OF wf1 get_numa_id_less h disjI1 [OF fit]] ready
    by (simp add: alloc_log_def Let_def)
  then obtain p b where "s' = store_at (reserve s1 ?n ?h) p b off"
    using ins by (subst (asm) LogKV_insert_def, subst (asm) get_version_eq)
      (auto simp: s1_def store_log_def Let_def split: option.splits sum.splits)
  then have "ppages s' = ppages (reserve s1 ?n ?h)" by (simp add: store_at_def)
  then show ?thesis using sz by (simp add: has_room_def reserve_def s1 Let_def)
qed

lemma LogKV_erase_ok:
  assumes wf: "log_wf shards s" and room: "has_room mapped shards s thread hash_key"
  obtains s' w where "LogKV_erase mapped shards s thread raw raw_info key hash_key old = Inr s'"
    and "appended shards s s' hash_key w
      (raw\<lparr>pair_op := op_code DELETE, pair_version := next_version shards s hash_key, pair_key := key, u_offset := old\<rparr>)"
proof -
  define p where "p = set_last_log_offest (set_op (set_version (Pair_t_key raw key)
    (versions s (unat hash_key mod shards))) DELETE) old"
  have p: "p = raw\<lparr>pair_op := op_code DELETE, pair_version := next_version shards s hash_key, pair_key := key,
      u_offset := old\<rparr>"
    by (simp add: p_def set_op_def set_version_def set_last_log_offest_def Pair_t_key_def next_version_def)
  show thesis
  proof (rule append_versioned [where mapped = mapped and log_info = "no_log_info raw_info", OF wf room])
    fix s2 info b off
    assume al: "alloc_log mapped shards (fst (get_version shards s hash_key)) thread hash_key
        (no_log_info raw_info) pair_size = Inr (s2, info, Some b, off)"
      and app: "\<And>p. appended shards s (store_at s2 p b off) hash_key (to_uint64_t_offset info) p"
    have "LogKV_erase mapped shards s thread raw raw_info key hash_key old = Inr (store_at s2 p b off)"
      using al by (subst LogKV_erase_def, subst get_version_eq) (simp add: p_def store_log_def Let_def)
    then show thesis using that app [of p] unfolding p by blast
  qed
qed

lemma LogKV_update_step1_ok:
  assumes wf: "log_wf shards s" and room: "has_room mapped shards s thread hash_key"
  obtains s' w b off where "LogKV_update_step1 mapped shards s thread raw_info hash_key p =
      Inr (s', p\<lparr>pair_op := op_code UPDATE, pair_version := next_version shards s hash_key\<rparr>, w, Some b, off)"
    and "log_wf shards s'" and "log_extends shards s s'" and "vlen (of_addr_info w) = 8"
    and "\<And>q. appended shards s (store_at s' q b off) hash_key w q"
proof (rule append_versioned [where mapped = mapped and log_info = "(no_log_info raw_info)\<lparr>vlen := 8\<rparr>", OF wf room])
  fix s2 info b off
  assume al: "alloc_log mapped shards (fst (get_version shards s hash_key)) thread hash_key
      ((no_log_info raw_info)\<lparr>vlen := 8\<rparr>) pair_size = Inr (s2, info, Some b, off)"
    and vl: "vlen info = vlen ((no_log_info raw_info)\<lparr>vlen := 8\<rparr>)"
    and wf2: "log_wf shards s2" and ext: "log_extends shards s s2"
    and app: "\<And>p. appended shards s (store_at s2 p b off) hash_key (to_uint64_t_offset info) p"
  have "LogKV_update_step1 mapped shards s thread raw_info hash_key p =
      Inr (s2, p\<lparr>pair_op := op_code UPDATE, pair_version := next_version shards s hash_key\<rparr>,
           to_uint64_t_offset info, Some b, off)"
    using al by (subst LogKV_update_step1_def, subst get_version_eq)
      (simp add: Let_def set_op_def set_version_def next_version_def)
  then show thesis using that wf2 ext app vl by (simp add: of_addr_info_packed)
qed

subsection \<open>A new log\<close>

definition pages_wf :: "(nat \<times> nat) set \<Rightarrow> logkv \<Rightarrow> bool" where
  "pages_wf done s \<longleftrightarrow> blocks_wf s \<and> (\<forall>n h. (n, h) \<in> done \<longrightarrow> shard_wf s n h \<and> cur_page s n h = 0 \<and>
       sz_allocated (ppages s n h) = 0) \<and>
     (\<forall>n h p. (n, h) \<notin> done \<longrightarrow> start_addr_arr s n h p = None \<and> (n, h, p) \<notin> set (files s))"

lemma pages_wf_insertI:
  assumes "blocks_wf s" and "shard_wf s n h" "cur_page s n h = 0" "sz_allocated (ppages s n h) = 0"
    and "\<And>n' h'. (n', h') \<in> done \<Longrightarrow> shard_wf s n' h' \<and> cur_page s n' h' = 0 \<and> sz_allocated (ppages s n' h') = 0"
    and "\<And>n' h' p. (n', h') \<notin> insert (n, h) done \<Longrightarrow> start_addr_arr s n' h' p = None \<and> (n', h', p) \<notin> set (files s)"
  shows "pages_wf (insert (n, h) done) s"
  unfolding pages_wf_def using assms by auto

lemma page_created:
  assumes wf: "pages_wf done s" and new: "(n, h) \<notin> done" and m: "mapped (n, h, 0)"
    and n: "n < numa_node_num" and h: "h < max_shards"
  obtains s' pp where "PPage_new mapped s n h False = Inr (s', pp)"
    and "pages_wf (insert (n, h) done) ((set_ppage s' n h pp)\<lparr>start_addr_arr := (start_addr_arr s')(n := (start_addr_arr s' n)
               (h := (start_addr_arr s' n h)(0 := start_addr pp)))\<rparr>)"
proof -
  define b where "b = next_map s"
  define s' where "s' = s\<lparr>pmem := (pmem s)(b := (\<lambda>_. - 1)), next_map := Suc b, files := (n, h, 0) # files s,
    start_addr_arr := (start_addr_arr s)(n := (start_addr_arr s n)(h := (start_addr_arr s n h)(0 := Some b)))\<rparr>"
  define pp where "pp = \<lparr>pp_numa_id = n, pp_hash_id = h, pp_ppage_id = 0, sz_allocated = 0, sz_freed = 0,
                start_addr = Some b\<rparr>"
  have none: "start_addr_arr s n h p = None" "(n, h, p) \<notin> set (files s)" for p
    using wf new by (auto simp: pages_wf_def)
  have bl: "blocks_wf s" using wf by (simp add: pages_wf_def)
  have created: "PPage_new mapped s n h False = Inr (s', pp)"
    using none m n h by (simp add: PPage_new_def alloc_new_ppage_def s'_def b_def pp_def Let_def MAX_LOF_FILE_ID_def)
  have "blocks_wf s'"
    using bl none(1) unfolding blocks_wf_def s'_def b_def
    by (auto split: if_splits) (metis less_SucI less_irrefl)+
  then have "blocks_wf (set_ppage s' n h pp)" by (simp add: blocks_wf_def)
  moreover have "shard_wf (set_ppage s' n h pp) n h"
    using none by (simp add: shard_wf_def s'_def pp_def MAX_LOF_FILE_ID_def PPAGE_SIZE_def)
  moreover have "shard_wf (set_ppage s' n h pp) n' h' \<and> cur_page (set_ppage s' n h pp) n' h' = 0 \<and>
      sz_allocated (ppages (set_ppage s' n h pp) n' h') = 0" if old: "(n', h') \<in> done" for n' h'
  proof -
    have "shard_wf s n' h'" "cur_page s n' h' = 0" "sz_allocated (ppages s n' h') = 0"
      using wf old by (auto simp: pages_wf_def)
    moreover have ne: "n' \<noteq> n \<or> h' \<noteq> h" using old new by auto
    then have "ppages (set_ppage s' n h pp) n' h' = ppages s n' h'"
      "start_addr_arr (set_ppage s' n h pp) n' h' = start_addr_arr s n' h'"
      "(n', h', p) \<in> set (files (set_ppage s' n h pp)) \<longleftrightarrow> (n', h', p) \<in> set (files s)" for p
      by (auto simp: s'_def)
    ultimately show ?thesis by (simp only: shard_wf_def Let_def simp_thms) blast
  qed
  moreover have "start_addr_arr (set_ppage s' n h pp) n' h' p = None \<and> (n', h', p) \<notin> set (files (set_ppage s' n h pp))"
    if "(n', h') \<notin> insert (n, h) done" for n' h' p
  proof -
    have "start_addr_arr s n' h' p = None \<and> (n', h', p) \<notin> set (files s)"
      using wf that unfolding pages_wf_def by blast
    then show ?thesis using that by (auto simp: s'_def)
  qed
  moreover have "cur_page (set_ppage s' n h pp) n h = 0" "sz_allocated (ppages (set_ppage s' n h pp) n h) = 0"
    by (simp_all add: pp_def)
  ultimately have "pages_wf (insert (n, h) done) (set_ppage s' n h pp)"
    by (intro pages_wf_insertI)
  moreover have "(set_ppage s' n h pp)\<lparr>start_addr_arr := (start_addr_arr s')(n := (start_addr_arr s' n)
               (h := (start_addr_arr s' n h)(0 := start_addr pp)))\<rparr> = set_ppage s' n h pp"
    by (rule logkv.equality) (simp_all add: s'_def pp_def)
  ultimately show thesis using that created by simp
qed

lemma LogKV_pages_wf:
  assumes "pages_wf done s" and "distinct xs" and "set xs \<inter> done = {}"
    and "\<forall>(n, h) \<in> set xs. mapped (n, h, 0) \<and> n < numa_node_num \<and> h < max_shards"
  shows "\<exists>s'. LogKV_pages mapped False xs s = Inr s' \<and> pages_wf (set xs \<union> done) s'"
  using assms
proof (induction xs arbitrary: s "done")
  case (Cons x xs)
  obtain n h where x: "x = (n, h)" by fastforce
  have new: "(n, h) \<notin> done" and m: "mapped (n, h, 0)" and n: "n < numa_node_num" and h: "h < max_shards"
    using Cons.prems x by auto
  obtain s' pp where new_eq: "PPage_new mapped s n h False = Inr (s', pp)"
    and wf': "pages_wf (insert (n, h) done) ((set_ppage s' n h pp)\<lparr>start_addr_arr := (start_addr_arr s')(n := (start_addr_arr s' n)
               (h := (start_addr_arr s' n h)(0 := start_addr pp)))\<rparr>)"
    using page_created [where mapped = mapped, OF Cons.prems(1) new m n h] by blast
  have "set xs \<inter> insert (n, h) done = {}" using Cons.prems x by auto
  from Cons.IH [OF wf' _ this] Cons.prems new_eq show ?case by (auto simp: x)
qed simp

lemma LogKV_new_ok:
  assumes shards: "0 < shards" "shards \<le> max_shards" and m: "\<And>n h. mapped (n, h, 0)"
  obtains s where "LogKV_new mapped shards False = Inr s" and "log_wf shards s"
    and "\<And>hash_key w. \<not> log_live shards s hash_key w" and "\<And>mapped thread hash_key. has_room mapped shards s thread hash_key"
    and "\<And>thread hash_key. sz_allocated (ppages s (get_numa_id thread) (unat (hash_key :: u64) mod shards)) = 0"
proof -
  let ?xs = "List.product [0..<numa_node_num] [0..<shards]"
  have "pages_wf {} empty_log" by (simp add: pages_wf_def blocks_wf_def empty_log_def)
  from LogKV_pages_wf [OF this, where xs = ?xs and mapped = mapped]
  obtain s where s: "LogKV_pages mapped False ?xs empty_log = Inr s" and wf: "pages_wf (set ?xs) s"
    using m shards by (auto simp: distinct_product)
  have "log_wf shards s" using wf shards by (auto simp: log_wf_def pages_wf_def)
  moreover have "\<not> log_live shards s hash_key w" for hash_key w
    using wf shards(1) unfolding log_live_def live_at_def pages_wf_def Let_def by (auto simp: pair_size_def)
  moreover have sz: "sz_allocated (ppages s (get_numa_id thread) (unat (hash_key :: u64) mod shards)) = 0" for thread hash_key
  proof -
    have "(get_numa_id thread, unat hash_key mod shards) \<in> set ?xs" using get_numa_id_less shards(1) by auto
    then show ?thesis using wf unfolding pages_wf_def by blast
  qed
  moreover have "has_room mapped' shards s thread hash_key" for mapped' thread hash_key
    using sz [of thread hash_key] by (simp add: has_room_def pair_size_def PPAGE_SIZE_def Let_def)
  ultimately show thesis using that s by (simp add: LogKV_new_def)
qed

end
