(* ===== verification/Clht.thy ===== *)
theory Clht
  imports Rmi_Model
begin

unbundle bit_operations_syntax

text \<open>
  The cache-line hash table that the log database uses as its read cache
  (\<^verbatim>\<open>src/src/clht/clht_lb_res.cc\<close>, \<^verbatim>\<open>src/include/clht/clht_lb_res.h\<close>), run by one thread in the configuration
  of the header: \<^verbatim>\<open>CLHT_READ_ONLY_FAIL\<close> 1, \<^verbatim>\<open>CLHT_HELP_RESIZE\<close> 0, \<^verbatim>\<open>CLHT_DO_CHECK_STATUS\<close> 0, \<^verbatim>\<open>CLHT_DO_GC\<close> 0.
  A bucket holds three slots, a lock byte and the overflow bucket behind \<^verbatim>\<open>next\<close>; key 0 marks an
  empty slot. The outcome of the allocation of a table and the thread's metadata are parameters,
  so is floating point arithmetic, which only chooses the new size. A lock that is never released,
  a null pointer and the exhausted depth of nested resizes are errors of a sum type.
\<close>

section \<open>Data\<close>

datatype bucket_t = Bucket (bk_lock: "8 word") (bk_key: "u64 list") (bk_val: "u64 list") (bk_next: "bucket_t option")

definition ENTRIES_PER_BUCKET :: nat where "ENTRIES_PER_BUCKET = 3"
definition LOCK_FREE :: "8 word" where "LOCK_FREE = 0"
definition LOCK_UPDATE :: "8 word" where "LOCK_UPDATE = 1"
definition LOCK_RESIZE :: "8 word" where "LOCK_RESIZE = 2"
definition CLHT_PERC_EXPANSIONS :: nat where "CLHT_PERC_EXPANSIONS = 1"
definition CLHT_MAX_EXPANSIONS :: int where "CLHT_MAX_EXPANSIONS = 24"
definition CLHT_PERC_FULL_DOUBLE :: int where "CLHT_PERC_FULL_DOUBLE = 50"
definition CLHT_OCCUP_AFTER_RES :: int where "CLHT_OCCUP_AFTER_RES = 40"
definition CLHT_PERC_FULL_HALVE :: int where "CLHT_PERC_FULL_HALVE = 5"
definition CLHT_RATIO_HALVE :: u64 where "CLHT_RATIO_HALVE = 8"

record clht_hashtable_t =
  num_buckets :: u64
  table :: "bucket_t list"
  hash :: u64
  ht_version :: u64
  num_expands :: "32 word"
  num_expands_threshold :: "32 word"
  table_new :: bool

text \<open>\<open>olds\<close> are the tables behind \<^verbatim>\<open>ht->table_prev\<close>, the latest first; \<^verbatim>\<open>table_new\<close> of a table tells
  whether the pointer is set.\<close>

record clht_t =
  ht :: clht_hashtable_t
  olds :: "clht_hashtable_t list"
  resize_lock :: "8 word"
  status_lock :: "8 word"

datatype clht_fault = Blocked | NullPointer | OutOfFuel | IntOverflow

section \<open>Creation\<close>

text \<open>\<open>junk\<close> is the content of the values, which \<^verbatim>\<open>clht_bucket_create\<close> does not set.\<close>

definition clht_bucket_create :: "u64 list \<Rightarrow> bucket_t" where
  "clht_bucket_create junk = Bucket LOCK_FREE (replicate ENTRIES_PER_BUCKET 0) junk None"

definition clht_bucket_create_stats :: "u64 list \<Rightarrow> clht_hashtable_t \<Rightarrow> clht_hashtable_t \<times> bucket_t \<times> bool" where
  "clht_bucket_create_stats junk h =
     (let n = num_expands h + 1
      in (h\<lparr>num_expands := n\<rparr>, clht_bucket_create junk, n = num_expands_threshold h))"

text \<open>\<open>avail n\<close> tells whether the memory of a table of \<open>n\<close> buckets can be allocated; \<open>None\<close> is \<^verbatim>\<open>NULL\<close>.\<close>

definition clht_hashtable_create :: "(u64 \<Rightarrow> bool) \<Rightarrow> u64 \<Rightarrow> clht_hashtable_t option" where
  "clht_hashtable_create avail n =
     (if n = 0 \<or> \<not> avail n then None
      else let t = of_nat CLHT_PERC_EXPANSIONS * ucast n
           in Some \<lparr>num_buckets = n,
                    table = replicate (unat n) (Bucket LOCK_FREE (replicate ENTRIES_PER_BUCKET 0)
                      (replicate ENTRIES_PER_BUCKET 0) None),
                    hash = n - 1, ht_version = 0, num_expands = 0,
                    num_expands_threshold = (if t = 0 then 1 else t), table_new = False\<rparr>)"

definition clht_create :: "(u64 \<Rightarrow> bool) \<Rightarrow> u64 \<Rightarrow> clht_t option" where
  "clht_create avail n =
     map_option (\<lambda>t. \<lparr>ht = t, olds = [], resize_lock = LOCK_FREE, status_lock = LOCK_FREE\<rparr>)
       (clht_hashtable_create avail n)"

definition clht_hash :: "clht_hashtable_t \<Rightarrow> u64 \<Rightarrow> u64" where
  "clht_hash h key = key AND hash h"

section \<open>Lookup\<close>

text \<open>The loop over the slots of a bucket: the first that holds \<open>key\<close>.\<close>

fun find_key :: "u64 list \<Rightarrow> u64 \<Rightarrow> nat option" where
  "find_key [] key = None"
| "find_key (k # ks) key = (if k = key then Some 0 else map_option Suc (find_key ks key))"

fun get_chain :: "bucket_t \<Rightarrow> u64 \<Rightarrow> u64" where
  "get_chain (Bucket l ks vs nxt) key =
     (case find_key ks key of
        Some j \<Rightarrow> vs ! j
      | None \<Rightarrow> (case nxt of None \<Rightarrow> 0 | Some b \<Rightarrow> get_chain b key))"

definition clht_get :: "clht_hashtable_t \<Rightarrow> u64 \<Rightarrow> u64" where
  "clht_get h key = get_chain (table h ! unat (clht_hash h key)) key"

fun bucket_exists :: "bucket_t \<Rightarrow> u64 \<Rightarrow> bool" where
  "bucket_exists (Bucket l ks vs nxt) key =
     (if find_key ks key \<noteq> None then True
      else case nxt of None \<Rightarrow> False | Some b \<Rightarrow> bucket_exists b key)"

section \<open>Locks\<close>

text \<open>\<^verbatim>\<open>lock_acq_chk_resize\<close>: the lock byte afterwards, and whether the lock was taken.\<close>

definition lock_acq_chk_resize :: "8 word \<Rightarrow> bool \<Rightarrow> clht_fault + (8 word \<times> bool)" where
  "lock_acq_chk_resize lock new_set =
     (if lock = LOCK_UPDATE then Inl Blocked
      else if lock = LOCK_RESIZE then (if new_set then Inr (lock, False) else Inl Blocked)
      else Inr (if lock = LOCK_FREE then LOCK_UPDATE else lock, True))"

definition lock_acq_resize :: "8 word \<Rightarrow> clht_fault + (8 word \<times> bool)" where
  "lock_acq_resize lock =
     (if lock = LOCK_UPDATE then Inl Blocked
      else if lock = LOCK_RESIZE then Inr (lock, False)
      else Inr (if lock = LOCK_FREE then LOCK_RESIZE else lock, True))"

definition set_lock :: "bucket_t \<Rightarrow> 8 word \<Rightarrow> bucket_t" where
  "set_lock b l = Bucket l (bk_key b) (bk_val b) (bk_next b)"

text \<open>
  \<^verbatim>\<open>while (!LOCK_ACQ(lock, hashtable))\<close>: a failed attempt is repeated on \<^verbatim>\<open>h->ht\<close>, which no other
  thread replaces here.
\<close>

definition lock_acquire :: "clht_hashtable_t \<Rightarrow> bucket_t \<Rightarrow> clht_fault + bucket_t" where
  "lock_acquire h b =
     (case lock_acq_chk_resize (bk_lock b) (table_new h) of
        Inl e \<Rightarrow> Inl e
      | Inr (l, taken) \<Rightarrow> if taken then Inr (set_lock b l) else Inl Blocked)"

section \<open>Insertion and removal\<close>

text \<open>
  The scan of \<^verbatim>\<open>clht_put\<close>: \<open>None\<close> when the key is present, otherwise the first empty slot as the
  position of its bucket in the chain and its index.
\<close>

fun scan_slots :: "u64 list \<Rightarrow> u64 \<Rightarrow> nat \<Rightarrow> nat \<Rightarrow> (nat \<times> nat) option \<Rightarrow> (nat \<times> nat) option option" where
  "scan_slots [] key i j emp = Some emp"
| "scan_slots (k # ks) key i j emp =
     (if k = key then None
      else scan_slots ks key i (Suc j) (if emp = None \<and> k = 0 then Some (i, j) else emp))"

fun scan_chain :: "bucket_t \<Rightarrow> u64 \<Rightarrow> nat \<Rightarrow> (nat \<times> nat) option \<Rightarrow> (nat \<times> nat) option option" where
  "scan_chain (Bucket l ks vs nxt) key i emp =
     (case scan_slots ks key i 0 emp of
        None \<Rightarrow> None
      | Some e \<Rightarrow> (case nxt of None \<Rightarrow> Some e | Some b \<Rightarrow> scan_chain b key (Suc i) e))"

text \<open>Writing a slot, and linking a bucket behind the last one.\<close>

fun write_slot :: "bucket_t \<Rightarrow> nat \<Rightarrow> nat \<Rightarrow> u64 \<Rightarrow> u64 \<Rightarrow> bucket_t" where
  "write_slot (Bucket l ks vs nxt) 0 j key val = Bucket l (ks[j := key]) (vs[j := val]) nxt"
| "write_slot (Bucket l ks vs nxt) (Suc i) j key val =
     Bucket l ks vs (map_option (\<lambda>b. write_slot b i j key val) nxt)"

fun link_last :: "bucket_t \<Rightarrow> bucket_t \<Rightarrow> bucket_t" where
  "link_last (Bucket l ks vs None) new = Bucket l ks vs (Some new)"
| "link_last (Bucket l ks vs (Some b)) new = Bucket l ks vs (Some (link_last b new))"

definition new_bucket_with :: "bucket_t \<Rightarrow> u64 \<Rightarrow> u64 \<Rightarrow> bucket_t" where
  "new_bucket_with b key val = write_slot b 0 0 key val"

definition set_bin :: "clht_hashtable_t \<Rightarrow> nat \<Rightarrow> bucket_t \<Rightarrow> clht_hashtable_t" where
  "set_bin h bin b = h\<lparr>table := (table h)[bin := b]\<rparr>"

text \<open>The part of \<^verbatim>\<open>clht_put\<close> under the lock: the result, the table and whether to resize.\<close>

definition put_locked :: "u64 list \<Rightarrow> clht_hashtable_t \<Rightarrow> nat \<Rightarrow> bucket_t \<Rightarrow> u64 \<Rightarrow> u64 \<Rightarrow> bool \<times> clht_hashtable_t \<times> bool" where
  "put_locked junk h bin b key val =
     (case scan_chain b key 0 None of
        None \<Rightarrow> (False, set_bin h bin (set_lock b LOCK_FREE), False)
      | Some (Some (i, j)) \<Rightarrow> (True, set_bin h bin (set_lock (write_slot b i j key val) LOCK_FREE), False)
      | Some None \<Rightarrow>
          (let (h', new, resize) = clht_bucket_create_stats junk h
           in (True, set_bin h' bin (set_lock (link_last b (new_bucket_with new key val)) LOCK_FREE), resize)))"

text \<open>The removal under the lock: the key of the slot is cleared, the value stays.\<close>

fun remove_chain :: "bucket_t \<Rightarrow> u64 \<Rightarrow> (u64 \<times> bucket_t) option" where
  "remove_chain (Bucket l ks vs nxt) key =
     (case find_key ks key of
        Some j \<Rightarrow> Some (vs ! j, Bucket l (ks[j := 0]) vs nxt)
      | None \<Rightarrow> (case nxt of None \<Rightarrow> None
                 | Some b \<Rightarrow> map_option (\<lambda>(v, b'). (v, Bucket l ks vs (Some b'))) (remove_chain b key)))"

definition clht_remove :: "clht_t \<Rightarrow> u64 \<Rightarrow> clht_fault + (u64 \<times> clht_t)" where
  "clht_remove h key =
     (let t = ht h; bin = unat (clht_hash t key)
      in if \<not> bucket_exists (table t ! bin) key then Inr (0, h)
         else case lock_acquire t (table t ! bin) of
                Inl e \<Rightarrow> Inl e
              | Inr b \<Rightarrow> (case remove_chain b key of
                  None \<Rightarrow> Inr (0, h\<lparr>ht := set_bin t bin (set_lock b LOCK_FREE)\<rparr>)
                | Some (v, b') \<Rightarrow> Inr (v, h\<lparr>ht := set_bin t bin (set_lock b' LOCK_FREE)\<rparr>)))"

section \<open>Resizing\<close>

text \<open>\<^verbatim>\<open>clht_put_seq\<close>: the first empty slot of the chain, or a new bucket.\<close>

fun empty_slot :: "bucket_t \<Rightarrow> nat \<Rightarrow> (nat \<times> nat) option" where
  "empty_slot (Bucket l ks vs nxt) i =
     (case find_key ks 0 of
        Some j \<Rightarrow> Some (i, j)
      | None \<Rightarrow> (case nxt of None \<Rightarrow> None | Some b \<Rightarrow> empty_slot b (Suc i)))"

definition clht_put_seq :: "u64 list \<Rightarrow> clht_hashtable_t \<Rightarrow> u64 \<Rightarrow> u64 \<Rightarrow> nat \<Rightarrow> clht_hashtable_t" where
  "clht_put_seq junk h key val bin =
     (let b = table h ! bin
      in case empty_slot b 0 of
           Some (i, j) \<Rightarrow> set_bin h bin (write_slot b i j key val)
         | None \<Rightarrow> (let (h', new, _) = clht_bucket_create_stats junk h
                    in set_bin h' bin (link_last b (new_bucket_with new key val))))"

definition cpy_slot :: "u64 list \<Rightarrow> u64 \<times> u64 \<Rightarrow> clht_hashtable_t \<Rightarrow> clht_hashtable_t" where
  "cpy_slot junk kv h =
     (if fst kv \<noteq> 0 then clht_put_seq junk h (fst kv) (snd kv) (unat (clht_hash h (fst kv))) else h)"

fun cpy_chain :: "u64 list \<Rightarrow> bucket_t \<Rightarrow> clht_hashtable_t \<Rightarrow> clht_hashtable_t" where
  "cpy_chain junk (Bucket l ks vs nxt) h =
     (let h' = fold (cpy_slot junk) (zip ks vs) h
      in case nxt of None \<Rightarrow> h' | Some b \<Rightarrow> cpy_chain junk b h')"

text \<open>The bucket afterwards, the new table, and the result.\<close>

definition bucket_cpy :: "u64 list \<Rightarrow> bucket_t \<Rightarrow> clht_hashtable_t \<Rightarrow> clht_fault + (bucket_t \<times> clht_hashtable_t \<times> bool)" where
  "bucket_cpy junk b ht_new =
     (case lock_acq_resize (bk_lock b) of
        Inl e \<Rightarrow> Inl e
      | Inr (l, taken) \<Rightarrow>
          if taken then Inr (set_lock b l, cpy_chain junk b ht_new, True) else Inr (b, ht_new, False))"

fun copy_table :: "u64 list \<Rightarrow> bucket_t list \<Rightarrow> clht_hashtable_t \<Rightarrow> clht_fault + (bucket_t list \<times> clht_hashtable_t)" where
  "copy_table junk [] h = Inr ([], h)"
| "copy_table junk (b # bs) h =
     (case bucket_cpy junk b h of
        Inl e \<Rightarrow> Inl e
      | Inr (b', h', _) \<Rightarrow> (case copy_table junk bs h' of
          Inl e \<Rightarrow> Inl e
        | Inr (bs', h'') \<Rightarrow> Inr (b' # bs', h'')))"

text \<open>\<^verbatim>\<open>clht_size\<close> and the statistics of \<^verbatim>\<open>ht_status\<close>.\<close>

fun chain_size :: "bucket_t \<Rightarrow> nat" where
  "chain_size (Bucket l ks vs nxt) =
     length (filter (\<lambda>k. 0 < k) ks) + (case nxt of None \<Rightarrow> 0 | Some b \<Rightarrow> chain_size b)"

definition clht_size :: "clht_hashtable_t \<Rightarrow> nat" where
  "clht_size h = sum_list (map chain_size (table h))"

fun chain_expands :: "bucket_t \<Rightarrow> nat" where
  "chain_expands (Bucket l ks vs nxt) = (case nxt of None \<Rightarrow> 0 | Some b \<Rightarrow> Suc (chain_expands b))"

definition expands_max :: "clht_hashtable_t \<Rightarrow> int" where
  "expands_max h = fold (\<lambda>b m. if m < int (chain_expands b) then int (chain_expands b) else m) (table h) 0"

definition full_ratio :: "('d, 'l) fpu \<Rightarrow> clht_hashtable_t \<Rightarrow> 'd" where
  "full_ratio F h =
     d_div F (d_mul F (d_of_int F 100) (d_of_u64 F (word_of_nat (clht_size h))))
       (d_of_u64 F (num_buckets h * of_nat ENTRIES_PER_BUCKET))"

definition pow2roundup :: "u64 \<Rightarrow> u64" where
  "pow2roundup x =
     (if x = 0 then 1
      else let x = x - 1; x = x OR drop_bit 1 x; x = x OR drop_bit 2 x; x = x OR drop_bit 4 x;
               x = x OR drop_bit 8 x; x = x OR drop_bit 16 x; x = x OR drop_bit 32 x
           in x + 1)"

text \<open>The factor: \<^verbatim>\<open>int inc_by\<close>, \<^verbatim>\<open>int inc_by_pow2\<close>.\<close>

definition inc_by_pow2 :: "('d, 'l) fpu \<Rightarrow> clht_hashtable_t \<Rightarrow> 32 word" where
  "inc_by_pow2 F h =
     (let inc_by = d_to_int F (d_div F (full_ratio F h) (d_of_int F CLHT_OCCUP_AFTER_RES));
          p = ucast (pow2roundup (scast inc_by)) :: 32 word
      in if p = 1 then 2 else p)"

text \<open>\<^verbatim>\<open>clht_gc_get_id\<close> reads the thread's metadata, \<open>None\<close> without \<^verbatim>\<open>clht_gc_thread_init\<close>.\<close>

definition clht_gc_get_id :: "int option \<Rightarrow> clht_fault + int" where
  "clht_gc_get_id ts = (case ts of None \<Rightarrow> Inl NullPointer | Some i \<Rightarrow> Inr i)"

text \<open>The new table: \<^verbatim>\<open>ht_resize_pes\<close> up to the copy.\<close>

definition resize_buckets :: "clht_hashtable_t \<Rightarrow> bool \<Rightarrow> 32 word \<Rightarrow> u64" where
  "resize_buckets h is_increase by = (if is_increase then scast by * num_buckets h else num_buckets h div CLHT_RATIO_HALVE)"

text \<open>
  The index of the copy loop is an \<^verbatim>\<open>int32_t\<close>: after the bucket \<open>2 ^ 31 - 1\<close> its increment overflows,
  which is the error \<open>IntOverflow\<close>.
\<close>

definition resize_table ::
  "(u64 \<Rightarrow> bool) \<Rightarrow> u64 list \<Rightarrow> clht_hashtable_t \<Rightarrow> u64 \<Rightarrow> clht_fault + (clht_hashtable_t \<times> clht_hashtable_t)" where
  "resize_table avail junk ht_old n =
     (case clht_hashtable_create avail n of
        None \<Rightarrow> Inl NullPointer
      | Some t \<Rightarrow> (case copy_table junk (take (2 ^ 31) (table ht_old)) (t\<lparr>ht_version := ht_version ht_old + 1\<rparr>) of
          Inl e \<Rightarrow> Inl e
        | Inr (bs, ht_new) \<Rightarrow>
            if 2 ^ 31 \<le> length (table ht_old) then Inl IntOverflow
            else Inr (ht_old\<lparr>table := bs, table_new := True\<rparr>, ht_new)))"

text \<open>
  \<^verbatim>\<open>ht_resize_pes\<close> and \<^verbatim>\<open>ht_status\<close> call each other; the first argument bounds the depth. \<^verbatim>\<open>TRYLOCK_ACQ\<close>
  leaves 0xff in the lock.
\<close>

fun ht_resize_pes :: "nat \<Rightarrow> ('d, 'l) fpu \<Rightarrow> (u64 \<Rightarrow> bool) \<Rightarrow> u64 list \<Rightarrow> int option \<Rightarrow> clht_t \<Rightarrow> bool \<Rightarrow> 32 word \<Rightarrow>
    clht_fault + (bool \<times> clht_t)"
  and ht_status :: "nat \<Rightarrow> ('d, 'l) fpu \<Rightarrow> (u64 \<Rightarrow> bool) \<Rightarrow> u64 list \<Rightarrow> int option \<Rightarrow> clht_t \<Rightarrow> bool \<Rightarrow> bool \<Rightarrow>
    clht_fault + (nat \<times> clht_t)" where
  "ht_resize_pes 0 F avail junk ts h is_increase by = Inl OutOfFuel"
| "ht_status 0 F avail junk ts h resize_increase just_print = Inl OutOfFuel"
| "ht_resize_pes (Suc n) F avail junk ts h is_increase by =
     (if resize_lock h \<noteq> 0 then Inr (False, h\<lparr>resize_lock := 0xff\<rparr>)
      else case resize_table avail junk (ht h) (resize_buckets (ht h) is_increase by) of
             Inl e \<Rightarrow> Inl e
           | Inr (ht_old, ht_new) \<Rightarrow>
               let h' = h\<lparr>ht := ht_new, olds := ht_old # olds h, resize_lock := LOCK_FREE\<rparr>
               in case clht_gc_get_id ts of
                    Inl e \<Rightarrow> Inl e
                  | Inr _ \<Rightarrow>
                      if num_expands_threshold ht_new \<le> num_expands ht_new
                      then case ht_status n F avail junk ts h' True False of
                             Inl e \<Rightarrow> Inl e
                           | Inr (_, h'') \<Rightarrow> Inr (True, h'')
                      else Inr (True, h'))"
| "ht_status (Suc n) F avail junk ts h resize_increase just_print =
     (if status_lock h \<noteq> 0 \<and> \<not> resize_increase then Inr (0, h\<lparr>status_lock := 0xff\<rparr>)
      else let h1 = h\<lparr>status_lock := 0xff\<rparr>; r = full_ratio F (ht h); zero = d_of_int F 0; size = clht_size (ht h);
               res = (if just_print then Inr h1
                      else if d_less F zero r \<and> d_less F r (d_of_int F CLHT_PERC_FULL_HALVE)
                      then case clht_gc_get_id ts of
                             Inl e \<Rightarrow> Inl e
                           | Inr _ \<Rightarrow> map_sum id snd (ht_resize_pes n F avail junk ts h1 False 33)
                      else if d_less F zero r \<and> d_less F (d_of_int F CLHT_PERC_FULL_DOUBLE) r \<or>
                              CLHT_MAX_EXPANSIONS < expands_max (ht h) \<or> resize_increase
                      then case clht_gc_get_id ts of
                             Inl e \<Rightarrow> Inl e
                           | Inr _ \<Rightarrow> map_sum id snd (ht_resize_pes n F avail junk ts h1 True (inc_by_pow2 F (ht h)))
                      else Inr h1)
           in case res of
                Inl e \<Rightarrow> Inl e
              | Inr h' \<Rightarrow> Inr (size, h'\<lparr>status_lock := LOCK_FREE\<rparr>))"

definition clht_put ::
  "nat \<Rightarrow> ('d, 'l) fpu \<Rightarrow> (u64 \<Rightarrow> bool) \<Rightarrow> u64 list \<Rightarrow> int option \<Rightarrow> clht_t \<Rightarrow> u64 \<Rightarrow> u64 \<Rightarrow> clht_fault + (bool \<times> clht_t)" where
  "clht_put fuel F avail junk ts h key val =
     (let t = ht h; bin = unat (clht_hash t key)
      in if bucket_exists (table t ! bin) key then Inr (False, h)
         else case lock_acquire t (table t ! bin) of
                Inl e \<Rightarrow> Inl e
              | Inr b \<Rightarrow>
                  let (ret, t', resize) = put_locked junk t bin b key val; h' = h\<lparr>ht := t'\<rparr>
                  in if resize
                     then case ht_status fuel F avail junk ts h' True False of
                            Inl e \<Rightarrow> Inl e
                          | Inr (_, h'') \<Rightarrow> Inr (ret, h'')
                     else Inr (ret, h'))"

text \<open>Memory statistics; \<open>sz_ptr\<close> and \<open>sz_bucket\<close> are the sizes of a pointer and of a bucket.\<close>

definition clht_size_mem :: "clht_hashtable_t option \<Rightarrow> u64" where
  "clht_size_mem h = (case h of None \<Rightarrow> 0 | Some t \<Rightarrow> 8 + (num_buckets t + ucast (num_expands t)) * 64)"

definition clht_size_mem_garbage :: "clht_t \<Rightarrow> u64" where
  "clht_size_mem_garbage h = fold (\<lambda>t tot. tot + clht_size_mem (Some t)) (olds h) 0"

section \<open>Chains\<close>

text \<open>The slots of a chain and the pairs that they hold; a well-formed chain has three slots per bucket.\<close>

fun slots :: "bucket_t \<Rightarrow> (u64 \<times> u64) list" where
  "slots (Bucket l ks vs nxt) = zip ks vs @ (case nxt of None \<Rightarrow> [] | Some b \<Rightarrow> slots b)"

fun chain_wf :: "bucket_t \<Rightarrow> bool" where
  "chain_wf (Bucket l ks vs nxt) \<longleftrightarrow> length ks = ENTRIES_PER_BUCKET \<and> length vs = ENTRIES_PER_BUCKET \<and>
     (case nxt of None \<Rightarrow> True | Some b \<Rightarrow> chain_wf b)"

definition pairs :: "bucket_t \<Rightarrow> (u64 \<times> u64) list" where
  "pairs b = filter (\<lambda>kv. fst kv \<noteq> 0) (slots b)"

lemma map_of_nonzero: "k \<noteq> 0 \<Longrightarrow> map_of (filter (\<lambda>kv. fst kv \<noteq> 0) xs) k = map_of xs k"
  by (induction xs) auto

lemma find_key_None: "find_key ks k = None \<longleftrightarrow> k \<notin> set ks"
  by (induction ks) auto

lemma find_key_Some: "find_key ks k = Some j \<Longrightarrow> j < length ks \<and> ks ! j = k \<and> k \<notin> set (take j ks)"
  by (induction ks arbitrary: j) (auto split: if_splits)

lemma find_key_zip:
  assumes "find_key ks k = Some j" and "length vs = length ks"
  shows "zip ks vs = zip (take j ks) (take j vs) @ (k, vs ! j) # zip (drop (Suc j) ks) (drop (Suc j) vs)"
    and "j < length ks" and "k \<notin> set (take j ks)"
proof -
  from find_key_Some [OF assms(1)] show j: "j < length ks" and "k \<notin> set (take j ks)" by auto
  have "ks = take j ks @ k # drop (Suc j) ks"
    using id_take_nth_drop [OF j] find_key_Some [OF assms(1)] by simp
  moreover have "vs = take j vs @ vs ! j # drop (Suc j) vs"
    using id_take_nth_drop j assms(2) by metis
  ultimately have "zip ks vs = zip (take j ks @ k # drop (Suc j) ks) (take j vs @ vs ! j # drop (Suc j) vs)"
    by simp
  then show "zip ks vs = zip (take j ks) (take j vs) @ (k, vs ! j) # zip (drop (Suc j) ks) (drop (Suc j) vs)"
    using assms(2) by simp
qed

lemma map_of_zip_find:
  assumes "length vs = length ks"
  shows "map_of (zip ks vs) k = map_option ((!) vs) (find_key ks k)"
  using assms by (induction ks vs rule: list_induct2') (auto simp: option.map_comp comp_def)

lemma zip_keys: "length vs = length ks \<Longrightarrow> fst ` set (zip ks vs) = set ks"
  by (metis map_fst_zip set_map)

lemma chain_keys: "chain_wf b \<Longrightarrow> bucket_exists b k \<longleftrightarrow> k \<in> fst ` set (slots b)"
proof (induction b k rule: bucket_exists.induct)
  case (1 l ks vs nxt k)
  then have len: "length vs = length ks" by simp
  have *: "fst ` set (zip ks vs) = set ks" using len by (intro zip_keys) simp
  show ?case
  proof (cases "find_key ks k")
    case None
    with 1 * show ?thesis by (auto simp: image_Un find_key_None split: option.splits)
  next
    case (Some j)
    then have "k \<in> set ks" using find_key_None [of ks k] by auto
    with Some * show ?thesis by (simp add: image_Un)
  qed
qed

lemma get_chain_slots:
  "chain_wf b \<Longrightarrow> get_chain b k = (case map_of (slots b) k of None \<Rightarrow> 0 | Some v \<Rightarrow> v)"
proof (induction b k rule: get_chain.induct)
  case (1 l ks vs nxt k)
  then have "map_of (zip ks vs) k = map_option ((!) vs) (find_key ks k)" by (intro map_of_zip_find) simp
  with 1 show ?case by (auto simp: map_add_def split: option.splits)
qed

text \<open>Writing a free slot or linking a bucket adds one pair.\<close>

definition adds :: "bucket_t \<Rightarrow> bucket_t \<Rightarrow> u64 \<Rightarrow> u64 \<Rightarrow> bool" where
  "adds b b' k v \<longleftrightarrow> (\<exists>xs ys. pairs b = xs @ ys \<and> pairs b' = xs @ (k, v) # ys)"

fun free_at :: "bucket_t \<Rightarrow> nat \<Rightarrow> nat \<Rightarrow> bool" where
  "free_at (Bucket l ks vs nxt) 0 j \<longleftrightarrow> j < length ks \<and> ks ! j = 0"
| "free_at (Bucket l ks vs nxt) (Suc i) j \<longleftrightarrow> (case nxt of None \<Rightarrow> False | Some b \<Rightarrow> free_at b i j)"

lemma zip_update: "j < length ks \<Longrightarrow> length vs = length ks \<Longrightarrow>
    zip (ks[j := k]) (vs[j := v]) = take j (zip ks vs) @ (k, v) # drop (Suc j) (zip ks vs)"
  by (simp add: upd_conv_take_nth_drop take_zip drop_zip)

lemma zip_split: "j < length ks \<Longrightarrow> length vs = length ks \<Longrightarrow>
    zip ks vs = take j (zip ks vs) @ (ks ! j, vs ! j) # drop (Suc j) (zip ks vs)"
  using id_take_nth_drop [of j "zip ks vs"] by simp

lemma write_slot_slots:
  "chain_wf b \<Longrightarrow> free_at b i j \<Longrightarrow> \<exists>xs w ys. slots b = xs @ (0, w) # ys \<and> slots (write_slot b i j k v) = xs @ (k, v) # ys"
proof (induction b i j k v rule: write_slot.induct)
  case (1 l ks vs nxt j k v)
  then have j: "j < length ks" "length vs = length ks" and z: "ks ! j = 0" by auto
  let ?ys = "drop (Suc j) (zip ks vs) @ (case nxt of None \<Rightarrow> [] | Some b \<Rightarrow> slots b)"
  have "slots (Bucket l ks vs nxt) = take j (zip ks vs) @ (0, vs ! j) # ?ys"
    using arg_cong [OF zip_split [OF j], of "\<lambda>z. z @ (case nxt of None \<Rightarrow> [] | Some b \<Rightarrow> slots b)"] z by simp
  moreover have "slots (write_slot (Bucket l ks vs nxt) 0 j k v) = take j (zip ks vs) @ (k, v) # ?ys"
    using zip_update [OF j] by simp
  ultimately show ?case by blast
next
  case (2 l ks vs nxt i j k v)
  then obtain b where nxt: "nxt = Some b" and free: "free_at b i j" by (auto split: option.splits)
  then obtain xs w ys where "slots b = xs @ (0, w) # ys" "slots (write_slot b i j k v) = xs @ (k, v) # ys"
    using 2 by auto
  then have "slots (Bucket l ks vs nxt) = (zip ks vs @ xs) @ (0, w) # ys"
    "slots (write_slot (Bucket l ks vs nxt) (Suc i) j k v) = (zip ks vs @ xs) @ (k, v) # ys"
    using nxt by simp_all
  then show ?case by blast
qed

lemma write_slot_wf: "chain_wf (write_slot b i j k v) = chain_wf b"
  by (induction b i j k v rule: write_slot.induct) (auto split: option.splits)

lemma write_slot_expands: "chain_expands (write_slot b i j k v) = chain_expands b"
  by (induction b i j k v rule: write_slot.induct) (auto split: option.splits)

lemma write_slot_adds: "chain_wf b \<Longrightarrow> free_at b i j \<Longrightarrow> k \<noteq> 0 \<Longrightarrow> adds b (write_slot b i j k v) k v"
  using write_slot_slots [of b i j k v] unfolding adds_def pairs_def by fastforce

lemma link_last_slots: "slots (link_last b n) = slots b @ slots n"
  by (induction b n rule: link_last.induct) auto

lemma link_last_wf: "chain_wf (link_last b n) \<longleftrightarrow> chain_wf b \<and> chain_wf n"
  by (induction b n rule: link_last.induct) auto

lemma link_last_expands: "chain_expands (link_last b n) = Suc (chain_expands b + chain_expands n)"
  by (induction b n rule: link_last.induct) auto

lemma set_lock_simps [simp]:
  "slots (set_lock b l) = slots b" "chain_wf (set_lock b l) = chain_wf b" "pairs (set_lock b l) = pairs b"
  "chain_expands (set_lock b l) = chain_expands b" "bk_lock (set_lock b l) = l"
  "scan_chain (set_lock b l) k i e = scan_chain b k i e" "free_at (set_lock b l) i j = free_at b i j"
  by (cases b; cases i; simp add: set_lock_def pairs_def)+

lemma new_bucket_with:
  assumes "length junk = ENTRIES_PER_BUCKET" and "k \<noteq> 0"
  shows "chain_wf (new_bucket_with (clht_bucket_create junk) k v)"
    and "pairs (new_bucket_with (clht_bucket_create junk) k v) = [(k, v)]"
    and "chain_expands (new_bucket_with (clht_bucket_create junk) k v) = 0"
proof -
  obtain a b c where junk: "junk = [a, b, c]"
    using assms(1) by (auto simp: ENTRIES_PER_BUCKET_def length_Suc_conv eval_nat_numeral)
  show "chain_wf (new_bucket_with (clht_bucket_create junk) k v)"
    "pairs (new_bucket_with (clht_bucket_create junk) k v) = [(k, v)]"
    "chain_expands (new_bucket_with (clht_bucket_create junk) k v) = 0"
    using assms(2) by (simp_all add: new_bucket_with_def clht_bucket_create_def junk pairs_def ENTRIES_PER_BUCKET_def eval_nat_numeral)
qed

lemma link_last_adds:
  assumes "length junk = ENTRIES_PER_BUCKET" and "k \<noteq> 0"
  shows "adds b (link_last b (new_bucket_with (clht_bucket_create junk) k v)) k v"
  using new_bucket_with(2) [OF assms, of v] unfolding adds_def pairs_def by (auto simp: link_last_slots)

lemma adds_facts:
  assumes "adds b b' k v" and "k \<notin> fst ` set (pairs b)"
  shows "map_of (pairs b') = (map_of (pairs b))(k \<mapsto> v)"
    and "fst ` set (pairs b') = insert k (fst ` set (pairs b))"
    and "distinct (map fst (pairs b)) \<Longrightarrow> distinct (map fst (pairs b'))"
    and "length (pairs b') = Suc (length (pairs b))"
proof -
  obtain xs ys where b: "pairs b = xs @ ys" "pairs b' = xs @ (k, v) # ys" using assms(1) by (auto simp: adds_def)
  have "map_of xs k = None" using assms(2) b by (simp add: map_of_eq_None_iff image_Un)
  then show "map_of (pairs b') = (map_of (pairs b))(k \<mapsto> v)"
    by (auto simp: b map_add_def fun_eq_iff split: option.splits)
  show "fst ` set (pairs b') = insert k (fst ` set (pairs b))"
    "distinct (map fst (pairs b)) \<Longrightarrow> distinct (map fst (pairs b'))"
    "length (pairs b') = Suc (length (pairs b))"
    using assms(2) by (auto simp: b image_Un)
qed

lemma scan_slots_None: "scan_slots ks k i j e = None \<longleftrightarrow> k \<in> set ks"
  by (induction ks k i j e rule: scan_slots.induct) auto

lemma scan_slots_keep: "scan_slots ks k i j (Some p) = Some r \<Longrightarrow> r = Some p"
  by (induction ks arbitrary: j) (auto split: if_splits)

lemma scan_slots_full: "scan_slots ks k i j None = Some None \<Longrightarrow> 0 \<notin> set ks"
  by (induction ks arbitrary: j) (auto split: if_splits dest: scan_slots_keep)

lemma scan_slots_free:
  "scan_slots ks k i j None = Some (Some (i', j')) \<Longrightarrow> i' = i \<and> (\<exists>m<length ks. j' = j + m \<and> ks ! m = 0)"
proof (induction ks arbitrary: j)
  case (Cons k' ks)
  show ?case
  proof (cases "k' = 0")
    case True
    then have "(i', j') = (i, j)" using Cons.prems by (auto split: if_splits dest: scan_slots_keep)
    then show ?thesis using True by auto
  next
    case False
    then have "scan_slots ks k i (Suc j) None = Some (Some (i', j'))" using Cons.prems by (auto split: if_splits)
    from Cons.IH [OF this] show ?thesis by auto
  qed
qed simp

lemma scan_chain_None: "chain_wf b \<Longrightarrow> scan_chain b k i e = None \<longleftrightarrow> k \<in> fst ` set (slots b)"
proof (induction b k i e rule: scan_chain.induct)
  case (1 l ks vs nxt k i e)
  from 1(2) have *: "fst ` set (zip ks vs) = set ks" by (intro zip_keys) simp
  show ?case
  proof (cases "scan_slots ks k i 0 e")
    case None
    then show ?thesis using scan_slots_None [of ks k i 0 e] * by (simp add: image_Un)
  next
    case (Some r)
    then have "k \<notin> set ks" using scan_slots_None [of ks k i 0 e] by simp
    with 1 Some * show ?thesis by (auto simp: image_Un split: option.splits)
  qed
qed

lemma scan_chain_keep: "scan_chain b k i (Some p) = Some r \<Longrightarrow> r = Some p"
proof (induction b k i "Some p" rule: scan_chain.induct)
  case (1 l ks vs nxt k i)
  then obtain r1 where r1: "scan_slots ks k i 0 (Some p) = Some r1" by (auto split: option.splits)
  then have "r1 = Some p" by (rule scan_slots_keep)
  with 1 r1 show ?case by (cases nxt) auto
qed

lemma scan_chain_full: "chain_wf b \<Longrightarrow> scan_chain b k i None = Some None \<Longrightarrow> 0 \<notin> fst ` set (slots b)"
proof (induction b k i "None :: (nat \<times> nat) option" rule: scan_chain.induct)
  case (1 l ks vs nxt k i)
  from 1(2) have *: "fst ` set (zip ks vs) = set ks" by (intro zip_keys) simp
  obtain r1 where r1: "scan_slots ks k i 0 None = Some r1" using 1 by (auto split: option.splits)
  then have "r1 = None" using 1 by (cases r1) (auto split: option.splits dest: scan_chain_keep)
  with r1 have nz: "0 \<notin> set ks" by (auto dest: scan_slots_full)
  show ?case
  proof (cases nxt)
    case (Some b)
    then have "0 \<notin> fst ` set (slots b)" using 1 r1 \<open>r1 = None\<close> by auto
    with nz * Some show ?thesis by (simp add: image_Un)
  qed (use nz * in \<open>simp add: image_Un\<close>)
qed

lemma scan_chain_free:
  "scan_chain b k i None = Some (Some (i', j)) \<Longrightarrow> i \<le> i' \<and> free_at b (i' - i) j"
proof (induction b k i "None :: (nat \<times> nat) option" rule: scan_chain.induct)
  case (1 l ks vs nxt k i)
  obtain r1 where r1: "scan_slots ks k i 0 None = Some r1" using 1 by (auto split: option.splits)
  show ?case
  proof (cases r1)
    case None
    then obtain b where b: "nxt = Some b" "scan_chain b k (Suc i) None = Some (Some (i', j))"
      using 1 r1 by (auto split: option.splits)
    have "Suc i \<le> i' \<and> free_at b (i' - Suc i) j"
      using 1(1) [OF r1 [unfolded None] b] .
    then have ih: "Suc i \<le> i'" "free_at b (i' - Suc i) j" by simp_all
    then have "i' - i = Suc (i' - Suc i)" by simp
    then show ?thesis using ih b by simp
  next
    case (Some p)
    then have "p = (i', j)" using 1 r1 by (auto split: option.splits dest: scan_chain_keep)
    then show ?thesis using scan_slots_free [of ks k i 0 i' j] r1 Some by auto
  qed
qed

lemma empty_slot_free:
  "chain_wf b \<Longrightarrow> (case empty_slot b i of None \<Rightarrow> 0 \<notin> fst ` set (slots b)
     | Some (i', j) \<Rightarrow> i \<le> i' \<and> free_at b (i' - i) j)"
proof (induction b i rule: empty_slot.induct)
  case (1 l ks vs nxt i)
  from 1(2) have *: "fst ` set (zip ks vs) = set ks" by (intro zip_keys) simp
  show ?case
  proof (cases "find_key ks 0")
    case None
    then have nz: "0 \<notin> set ks" by (simp add: find_key_None)
    show ?thesis
    proof (cases nxt)
      case (Some b)
      then have ih: "case empty_slot b (Suc i) of None \<Rightarrow> 0 \<notin> fst ` set (slots b)
        | Some (i', j) \<Rightarrow> Suc i \<le> i' \<and> free_at b (i' - Suc i) j" using 1 None by simp
      show ?thesis
      proof (cases "empty_slot b (Suc i)")
        case (Some p)
        then obtain i' j where p: "empty_slot b (Suc i) = Some (i', j)" by (cases p) auto
        then have "Suc i \<le> i'" "free_at b (i' - Suc i) j" using ih by auto
        moreover have "i' - i = Suc (i' - Suc i)" using \<open>Suc i \<le> i'\<close> by simp
        ultimately show ?thesis using None p \<open>nxt = Some b\<close> by simp
      qed (use ih nz * Some None in \<open>simp add: image_Un\<close>)
    qed (use nz * None in \<open>simp add: image_Un\<close>)
  next
    case (Some j)
    then show ?thesis using find_key_Some [OF Some] by simp
  qed
qed

section \<open>Tables\<close>

definition bin_ok :: "u64 \<Rightarrow> nat \<Rightarrow> bucket_t \<Rightarrow> bool" where
  "bin_ok m i b \<longleftrightarrow> chain_wf b \<and> distinct (map fst (pairs b)) \<and> (\<forall>k\<in>fst ` set (pairs b). unat (k AND m) = i)"

definition ht_ok :: "clht_hashtable_t \<Rightarrow> bool" where
  "ht_ok h \<longleftrightarrow> num_buckets h \<noteq> 0 \<and> length (table h) = unat (num_buckets h) \<and> hash h = num_buckets h - 1 \<and>
     (\<forall>i<length (table h). bin_ok (hash h) i (table h ! i))"

definition ht_map :: "clht_hashtable_t \<Rightarrow> u64 \<rightharpoonup> u64" where
  "ht_map h k = map_of (pairs (table h ! unat (clht_hash h k))) k"

definition unlocked :: "clht_hashtable_t \<Rightarrow> bool" where
  "unlocked h \<longleftrightarrow> (\<forall>b\<in>set (table h). bk_lock b = LOCK_FREE)"

lemma pairs_nonzero: "0 \<notin> fst ` set (pairs b)"
  by (auto simp: pairs_def)

lemma ht_map_0: "ht_map h 0 = None"
  using pairs_nonzero by (simp add: ht_map_def map_of_eq_None_iff)

lemma bin_less:
  assumes "ht_ok h"
  shows "unat (clht_hash h k) < length (table h)"
proof -
  have "clht_hash h k \<le> num_buckets h - 1"
    using assms by (simp add: clht_hash_def ht_ok_def word_and_le1)
  moreover have "num_buckets h - 1 < num_buckets h"
    using assms unat_gt_0 [of "num_buckets h"] by (simp add: ht_ok_def unat_minus_one word_less_nat_alt)
  ultimately show ?thesis using assms by (simp add: ht_ok_def word_less_nat_alt [symmetric])
qed

lemma ht_ok_bin: "ht_ok h \<Longrightarrow> i < length (table h) \<Longrightarrow> bin_ok (hash h) i (table h ! i)"
  unfolding ht_ok_def by blast

lemma ht_bin_ok: "ht_ok h \<Longrightarrow> bin_ok (hash h) (unat (clht_hash h k)) (table h ! unat (clht_hash h k))"
  using bin_less [of h k] by (auto simp: ht_ok_def)

lemma in_pairs_iff: "k \<noteq> 0 \<Longrightarrow> k \<in> fst ` set (pairs b) \<longleftrightarrow> k \<in> fst ` set (slots b)"
  by (force simp: pairs_def)

lemma map_of_pairs: "k \<noteq> 0 \<Longrightarrow> map_of (pairs b) k = map_of (slots b) k"
  by (simp add: pairs_def map_of_nonzero)

lemma clht_get_correct:
  assumes "ht_ok h" and "k \<noteq> 0"
  shows "clht_get h k = (case ht_map h k of None \<Rightarrow> 0 | Some v \<Rightarrow> v)"
  using ht_bin_ok [OF assms(1), of k] assms(2)
  by (simp add: clht_get_def ht_map_def get_chain_slots bin_ok_def map_of_pairs)

lemma exists_iff:
  assumes "ht_ok h" and "k \<noteq> 0"
  shows "bucket_exists (table h ! unat (clht_hash h k)) k \<longleftrightarrow> ht_map h k \<noteq> None"
  using ht_bin_ok [OF assms(1), of k] assms(2)
  by (simp add: chain_keys bin_ok_def ht_map_def map_of_eq_None_iff in_pairs_iff)

text \<open>Replacing a bin.\<close>

lemma set_bin_simps [simp]:
  "num_buckets (set_bin h i b) = num_buckets h" "hash (set_bin h i b) = hash h"
  "num_expands (set_bin h i b) = num_expands h" "num_expands_threshold (set_bin h i b) = num_expands_threshold h"
  "table (set_bin h i b) = (table h)[i := b]" "table_new (set_bin h i b) = table_new h"
  "clht_hash (set_bin h i b) k = clht_hash h k"
  by (simp_all add: set_bin_def clht_hash_def)

lemma ht_ok_set_bin:
  assumes "ht_ok h" and "bin_ok (hash h) i b"
  shows "ht_ok (set_bin h i b)"
proof -
  have "bin_ok (hash h) j ((table h)[i := b] ! j)" if "j < length (table h)" for j
    using assms that by (cases "j = i") (auto simp: ht_ok_def)
  with assms show ?thesis by (simp add: ht_ok_def)
qed

lemma ht_map_set_bin:
  assumes ok: "ht_ok h" and i: "i = unat (clht_hash h k)"
    and m: "map_of (pairs b) = (map_of (pairs (table h ! i)))(k := x)"
  shows "ht_map (set_bin h i b) = (ht_map h)(k := x)"
proof
  fix k'
  have "i < length (table h)" using bin_less [OF ok, of k] i by simp
  then show "ht_map (set_bin h i b) k' = ((ht_map h)(k := x)) k'"
    using i m by (cases "unat (clht_hash h k') = i") (auto simp: ht_map_def)
qed

lemma unlocked_set_bin: "unlocked h \<Longrightarrow> unlocked (set_bin h i (set_lock b LOCK_FREE))"
  using set_update_subset_insert [of "table h" i "set_lock b LOCK_FREE"] by (auto simp: unlocked_def)

lemma bin_ok_adds:
  assumes "bin_ok m i b" and "adds b b' k v" and "chain_wf b'" and "k \<notin> fst ` set (pairs b)" and "unat (k AND m) = i"
  shows "bin_ok m i b'"
  using assms adds_facts(2,3) [OF assms(2,4)] by (auto simp: bin_ok_def)

lemma put_into_bin:
  assumes ok: "ht_ok h" and new: "ht_map h k = None" and add: "adds (table h ! unat (clht_hash h k)) b' k v"
    and wf: "chain_wf b'"
  shows "ht_ok (set_bin h (unat (clht_hash h k)) b')"
    and "ht_map (set_bin h (unat (clht_hash h k)) b') = (ht_map h)(k \<mapsto> v)"
proof -
  let ?i = "unat (clht_hash h k)"
  have fresh: "k \<notin> fst ` set (pairs (table h ! ?i))" using new by (simp add: ht_map_def map_of_eq_None_iff)
  show "ht_ok (set_bin h ?i b')"
    using bin_ok_adds [OF ht_bin_ok [OF ok] add wf fresh] by (intro ht_ok_set_bin ok) (simp add: clht_hash_def)
  show "ht_map (set_bin h ?i b') = (ht_map h)(k \<mapsto> v)"
    using adds_facts(1) [OF add fresh] by (intro ht_map_set_bin ok) simp_all
qed

section \<open>Size\<close>

lemma chain_size_pairs: "chain_wf b \<Longrightarrow> chain_size b = length (pairs b)"
proof (induction b rule: chain_size.induct)
  case (1 l ks vs nxt)
  have "length (filter (\<lambda>k. 0 < k) ks) = length (filter (\<lambda>kv. fst kv \<noteq> 0) (zip ks vs))"
    if "length vs = length ks" for ks vs :: "u64 list"
    using that by (induction ks vs rule: list_induct2') (auto simp: word_neq_0_conv)
  with 1 show ?case by (cases nxt) (auto simp: pairs_def)
qed

definition all_pairs :: "bucket_t list \<Rightarrow> (u64 \<times> u64) list" where
  "all_pairs bs = concat (map pairs bs)"

lemma all_pairs_nth: "k \<in> fst ` set (all_pairs bs) \<longleftrightarrow> (\<exists>i<length bs. k \<in> fst ` set (pairs (bs ! i)))"
proof -
  have "k \<in> fst ` set (all_pairs bs) \<longleftrightarrow> (\<exists>b\<in>set bs. k \<in> fst ` set (pairs b))"
    by (simp add: all_pairs_def image_UN)
  then show ?thesis by (metis in_set_conv_nth)
qed

lemma clht_size_all: "ht_ok h \<Longrightarrow> clht_size h = length (all_pairs (table h))"
proof -
  assume "ht_ok h"
  then have "chain_wf b" if "b \<in> set (table h)" for b using that by (auto simp: ht_ok_def bin_ok_def in_set_conv_nth)
  then have "map chain_size (table h) = map (\<lambda>b. length (pairs b)) (table h)" by (simp add: chain_size_pairs)
  then have "clht_size h = sum_list (map (\<lambda>b. length (pairs b)) (table h))" by (simp only: clht_size_def)
  then show ?thesis by (simp add: all_pairs_def length_concat comp_def)
qed

lemma distinct_concat_bins:
  assumes "\<And>i. i < length bs \<Longrightarrow> distinct (map fst (pairs (bs ! i))) \<and> (\<forall>k\<in>fst ` set (pairs (bs ! i)). f k = c + i)"
  shows "distinct (map fst (all_pairs bs))"
  using assms
proof (induction bs arbitrary: c)
  case (Cons b bs)
  have b: "distinct (map fst (pairs b))" "\<forall>k\<in>fst ` set (pairs b). f k = c" using Cons.prems [of 0] by auto
  have tl: "distinct (map fst (pairs (bs ! i))) \<and> (\<forall>k\<in>fst ` set (pairs (bs ! i)). f k = Suc c + i)" if "i < length bs" for i
    using Cons.prems [of "Suc i"] that by simp
  have "f k \<noteq> c" if "k \<in> fst ` set (all_pairs bs)" for k
    using that tl unfolding all_pairs_nth by fastforce
  with b have "fst ` set (pairs b) \<inter> fst ` set (all_pairs bs) = {}" by blast
  with b(1) Cons.IH [OF tl] show ?case by (simp add: all_pairs_def)
qed (simp add: all_pairs_def)

lemma all_pairs_distinct: "ht_ok h \<Longrightarrow> distinct (map fst (all_pairs (table h)))"
  by (rule distinct_concat_bins [where f = "\<lambda>k. unat (k AND hash h)" and c = 0])
    (use ht_ok_bin in \<open>simp add: bin_ok_def\<close>)

lemma all_pairs_map:
  assumes ok: "ht_ok h"
  shows "map_of (all_pairs (table h)) = ht_map h"
proof
  fix k
  let ?i = "unat (clht_hash h k)"
  have d: "distinct (map fst (all_pairs (table h)))" by (rule all_pairs_distinct [OF ok])
  have in_all: "set (pairs (table h ! ?i)) \<subseteq> set (all_pairs (table h))"
    using nth_mem [OF bin_less [OF ok, of k]] by (auto simp: all_pairs_def)
  show "map_of (all_pairs (table h)) k = ht_map h k"
  proof (cases "ht_map h k")
    case (Some v)
    then have "(k, v) \<in> set (all_pairs (table h))" using in_all by (auto simp: ht_map_def dest: map_of_SomeD)
    then show ?thesis using d Some by (simp add: map_of_is_SomeI)
  next
    case None
    have "k \<notin> fst ` set (all_pairs (table h))"
    proof
      assume "k \<in> fst ` set (all_pairs (table h))"
      then obtain i where i: "i < length (table h)" "k \<in> fst ` set (pairs (table h ! i))"
        by (auto simp: all_pairs_nth)
      then have "i = ?i" using ht_ok_bin [OF ok i(1)] by (auto simp: bin_ok_def clht_hash_def)
      with i None show False by (simp add: ht_map_def map_of_eq_None_iff)
    qed
    then show ?thesis using None by (simp add: map_of_eq_None_iff)
  qed
qed

lemma clht_size_card:
  assumes "ht_ok h"
  shows "clht_size h = card (dom (ht_map h))"
proof -
  have "dom (ht_map h) = set (map fst (all_pairs (table h)))"
    using all_pairs_map [OF assms] by (metis dom_map_of_conv_image_fst set_map)
  then show ?thesis
    using distinct_card [OF all_pairs_distinct [OF assms]] clht_size_all [OF assms] by simp
qed

section \<open>Insertion and removal are map operations\<close>

definition clht_ok :: "clht_t \<Rightarrow> bool" where
  "clht_ok h \<longleftrightarrow> ht_ok (ht h) \<and> unlocked (ht h) \<and> resize_lock h = 0 \<and> status_lock h = 0"

lemma lock_acquire_free: "bk_lock b = LOCK_FREE \<Longrightarrow> lock_acquire h b = Inr (set_lock b LOCK_UPDATE)"
  by (simp add: lock_acquire_def lock_acq_chk_resize_def LOCK_FREE_def LOCK_UPDATE_def LOCK_RESIZE_def)

lemma set_lock_set_lock [simp]: "set_lock (set_lock b l) l' = set_lock b l'"
  by (simp add: set_lock_def)

lemma set_lock_write: "set_lock (write_slot (set_lock b l) i j k v) l' = set_lock (write_slot b i j k v) l'"
  by (cases b; cases i) (simp_all add: set_lock_def)

lemma set_lock_link: "set_lock (link_last (set_lock b l) n) l' = set_lock (link_last b n) l'"
  by (cases b; cases "bk_next b") (auto simp: set_lock_def)

lemma adds_set_lock [simp]: "adds b (set_lock b' l) k v = adds b b' k v"
  by (simp add: adds_def)

lemma ht_ok_expands [simp]:
  "ht_ok (h\<lparr>num_expands := n\<rparr>) = ht_ok h" "ht_map (h\<lparr>num_expands := n\<rparr>) = ht_map h"
  "unlocked (h\<lparr>num_expands := n\<rparr>) = unlocked h" "clht_hash (h\<lparr>num_expands := n\<rparr>) k = clht_hash h k"
  by (simp_all add: ht_ok_def ht_map_def unlocked_def clht_hash_def fun_eq_iff)

lemma put_locked_correct:
  assumes ok: "ht_ok h" and un: "unlocked h" and k: "k \<noteq> 0" and junk: "length junk = ENTRIES_PER_BUCKET"
    and new: "ht_map h k = None"
  obtains h' resize where
    "put_locked junk h (unat (clht_hash h k)) (set_lock (table h ! unat (clht_hash h k)) LOCK_UPDATE) k v = (True, h', resize)"
    and "ht_ok h'" and "unlocked h'" and "ht_map h' = (ht_map h)(k \<mapsto> v)" and "num_buckets h' = num_buckets h"
    and "resize \<Longrightarrow> num_expands h + 1 = num_expands_threshold h"
proof -
  let ?i = "unat (clht_hash h k)"
  let ?b = "table h ! ?i"
  have wf: "chain_wf ?b" using ht_bin_ok [OF ok, of k] by (simp add: bin_ok_def)
  have fresh: "k \<notin> fst ` set (slots ?b)" using new k by (simp add: ht_map_def map_of_eq_None_iff in_pairs_iff)
  then obtain r where r: "scan_chain ?b k 0 None = Some r" using scan_chain_None [OF wf, of k 0 None] by fastforce
  show thesis
  proof (cases r)
    case None
    let ?h = "h\<lparr>num_expands := num_expands h + 1\<rparr>"
    let ?b' = "set_lock (link_last ?b (new_bucket_with (clht_bucket_create junk) k v)) LOCK_FREE"
    have "adds (table ?h ! unat (clht_hash ?h k)) ?b' k v" "chain_wf ?b'"
      using link_last_adds [OF junk k] new_bucket_with(1) [OF junk k] wf by (simp_all add: link_last_wf)
    note put = put_into_bin [of ?h k ?b' v, OF _ _ this]
    show thesis
    proof (rule that)
      show "put_locked junk h ?i (set_lock ?b LOCK_UPDATE) k v =
          (True, set_bin ?h ?i ?b', num_expands h + 1 = num_expands_threshold h)"
        by (simp add: put_locked_def r None clht_bucket_create_stats_def Let_def set_lock_link)
      show "unlocked (set_bin ?h ?i ?b')" by (rule unlocked_set_bin) (simp add: un)
    qed (use put ok new in simp_all)
  next
    case (Some p)
    obtain i j where p: "p = (i, j)" by fastforce
    then have "free_at ?b i j" using scan_chain_free [of ?b k 0 i j] r Some by simp
    let ?b' = "set_lock (write_slot ?b i j k v) LOCK_FREE"
    have "adds ?b ?b' k v" "chain_wf ?b'"
      using write_slot_adds [OF wf \<open>free_at ?b i j\<close> k] wf by (simp_all add: write_slot_wf)
    note put = put_into_bin [OF ok new this]
    show thesis
    proof (rule that)
      show "put_locked junk h ?i (set_lock ?b LOCK_UPDATE) k v = (True, set_bin h ?i ?b', False)"
        by (simp add: put_locked_def r Some p set_lock_write)
      show "unlocked (set_bin h ?i ?b')" by (rule unlocked_set_bin [OF un])
    qed (use put in simp_all)
  qed
qed

lemma bin_unlocked: "ht_ok h \<Longrightarrow> unlocked h \<Longrightarrow> bk_lock (table h ! unat (clht_hash h k)) = LOCK_FREE"
  using bin_less [of h k] by (simp add: unlocked_def)

lemma remove_chain_slots:
  "chain_wf b \<Longrightarrow> (case remove_chain b k of
      None \<Rightarrow> k \<notin> fst ` set (slots b)
    | Some (v, b') \<Rightarrow> chain_wf b' \<and> (\<exists>xs ys. slots b = xs @ (k, v) # ys \<and> slots b' = xs @ (0, v) # ys \<and> k \<notin> fst ` set xs))"
proof (induction b k rule: remove_chain.induct)
  case (1 l ks vs nxt k)
  have len: "length vs = length ks" using 1(2) by simp
  note keys = zip_keys [OF len]
  show ?case
  proof (cases "find_key ks k")
    case None
    then have nk: "k \<notin> set ks" by (simp add: find_key_None)
    show ?thesis
    proof (cases nxt)
      case (Some b)
      show ?thesis
      proof (cases "remove_chain b k")
        case None
        then show ?thesis using 1 Some \<open>find_key ks k = None\<close> nk keys by (simp add: image_Un)
      next
        case (Some r)
        obtain v b' where r: "r = (v, b')" by fastforce
        with 1 \<open>nxt = Some b\<close> \<open>find_key ks k = None\<close> Some obtain xs ys where
          ih: "chain_wf b'" "slots b = xs @ (k, v) # ys" "slots b' = xs @ (0, v) # ys" "k \<notin> fst ` set xs" by auto
        then have "k \<notin> fst ` set (zip ks vs @ xs)" using nk keys by (simp add: image_Un)
        moreover have "slots (Bucket l ks vs nxt) = (zip ks vs @ xs) @ (k, v) # ys"
          "slots (Bucket l ks vs (Some b')) = (zip ks vs @ xs) @ (0, v) # ys" using ih \<open>nxt = Some b\<close> by simp_all
        moreover have "chain_wf (Bucket l ks vs (Some b'))" using 1(2) ih(1) by simp
        ultimately show ?thesis
          using \<open>nxt = Some b\<close> \<open>find_key ks k = None\<close> Some r by (simp del: slots.simps chain_wf.simps)
            (rule exI [of _ "zip ks vs @ xs"], rule exI [of _ ys], simp)
      qed
    qed (use None nk keys in \<open>simp add: image_Un\<close>)
  next
    case (Some j)
    note fk = find_key_zip [OF Some len]
    let ?ys = "zip (drop (Suc j) ks) (drop (Suc j) vs) @ (case nxt of None \<Rightarrow> [] | Some b \<Rightarrow> slots b)"
    have "slots (Bucket l ks vs nxt) = zip (take j ks) (take j vs) @ (k, vs ! j) # ?ys"
      using fk(1) by simp
    moreover have "zip (ks[j := 0]) vs = zip (take j ks) (take j vs) @ (0, vs ! j) # zip (drop (Suc j) ks) (drop (Suc j) vs)"
      using zip_update [OF fk(2) len, of 0 "vs ! j"] by (simp add: take_zip drop_zip)
    then have "slots (Bucket l (ks[j := 0]) vs nxt) = zip (take j ks) (take j vs) @ (0, vs ! j) # ?ys" by simp
    moreover have "k \<notin> fst ` set (zip (take j ks) (take j vs))"
      using fk(3) len by (simp add: zip_keys)
    moreover have "chain_wf (Bucket l (ks[j := 0]) vs nxt)" using 1(2) by simp
    ultimately show ?thesis using Some by (simp del: slots.simps chain_wf.simps) blast
  qed
qed

lemma remove_chain_pairs:
  assumes wf: "chain_wf b" and k: "k \<noteq> 0" and d: "distinct (map fst (pairs b))" and r: "remove_chain b k = Some (v, b')"
  shows "chain_wf b'" and "map_of (pairs b) k = Some v" and "map_of (pairs b') = (map_of (pairs b))(k := None)"
    and "set (pairs b') \<subseteq> set (pairs b)" and "distinct (map fst (pairs b'))"
proof -
  obtain xs ys where s: "chain_wf b'" "slots b = xs @ (k, v) # ys" "slots b' = xs @ (0, v) # ys"
    using remove_chain_slots [OF wf, of k] r by auto
  let ?f = "filter (\<lambda>kv. fst kv \<noteq> (0 :: u64))"
  have p: "pairs b = ?f xs @ (k, v) # ?f ys" "pairs b' = ?f xs @ ?f ys" using s k by (simp_all add: pairs_def)
  then have n: "k \<notin> fst ` set (?f xs)" "k \<notin> fst ` set (?f ys)" using d by auto
  show "chain_wf b'" by (rule s(1))
  show "map_of (pairs b) k = Some v" using d p by (intro map_of_is_SomeI) auto
  show "map_of (pairs b') = (map_of (pairs b))(k := None)"
  proof
    fix k'
    have "map_of (?f xs) k = None" "map_of (?f ys) k = None" using n by (simp_all only: map_of_eq_None_iff not_False_eq_True)
    then show "map_of (pairs b') k' = ((map_of (pairs b))(k := None)) k'"
      by (auto simp: p map_add_def split: option.splits)
  qed
  show "set (pairs b') \<subseteq> set (pairs b)" "distinct (map fst (pairs b'))" using d p by auto
qed

lemma remove_chain_set_lock:
  "remove_chain (set_lock b l) k = map_option (\<lambda>(v, b'). (v, set_lock b' l)) (remove_chain b k)"
  by (cases b) (auto simp: set_lock_def option.map_comp comp_def case_prod_unfold split: option.splits)

lemma clht_remove_correct:
  assumes ok: "clht_ok h" and k: "k \<noteq> 0"
  obtains h' where "clht_remove h k = Inr (case ht_map (ht h) k of None \<Rightarrow> 0 | Some v \<Rightarrow> v, h')"
    and "clht_ok h'" and "ht_map (ht h') = (ht_map (ht h))(k := None)"
proof (cases "ht_map (ht h) k")
  case None
  have "ht_ok (ht h)" using ok by (simp add: clht_ok_def)
  then have "clht_remove h k = Inr (0, h)" using exists_iff [of "ht h" k] k None by (simp add: clht_remove_def)
  moreover have "(ht_map (ht h))(k := None) = ht_map (ht h)" using None by auto
  ultimately show thesis using that [of h] ok None by simp
next
  case (Some v)
  define t where "t = ht h"
  let ?i = "unat (clht_hash t k)"
  have okt: "ht_ok t" and un: "unlocked t" using ok by (simp_all add: clht_ok_def t_def)
  have ex: "bucket_exists (table t ! ?i) k" using exists_iff [OF okt k] Some by (simp add: t_def)
  have bin: "bin_ok (hash t) ?i (table t ! ?i)" by (rule ht_bin_ok [OF okt])
  then have wf: "chain_wf (table t ! ?i)" and d: "distinct (map fst (pairs (table t ! ?i)))" by (simp_all add: bin_ok_def)
  have in_slots: "k \<in> fst ` set (slots (table t ! ?i))" using ex by (simp only: chain_keys [OF wf])
  obtain v' b' where r: "remove_chain (table t ! ?i) k = Some (v', b')"
  proof (cases "remove_chain (table t ! ?i) k")
    case None
    with remove_chain_slots [OF wf, of k] in_slots show thesis by simp
  qed (use that in auto)
  note rp = remove_chain_pairs [OF wf k d r]
  have v': "v' = v" using rp(2) Some by (simp add: ht_map_def t_def)
  have "bin_ok (hash t) ?i (set_lock b' LOCK_FREE)" using rp bin by (auto simp: bin_ok_def)
  then have ok': "ht_ok (set_bin t ?i (set_lock b' LOCK_FREE))" by (rule ht_ok_set_bin [OF okt])
  have "ht_map (set_bin t ?i (set_lock b' LOCK_FREE)) = (ht_map t)(k := None)"
    by (rule ht_map_set_bin [OF okt]) (simp_all add: rp(3))
  moreover have "clht_remove h k = Inr (v, h\<lparr>ht := set_bin t ?i (set_lock b' LOCK_FREE)\<rparr>)"
    using ex lock_acquire_free [OF bin_unlocked [OF okt un]] r v'
    by (simp add: clht_remove_def t_def [symmetric] remove_chain_set_lock Let_def)
  ultimately show thesis
    using that ok' unlocked_set_bin [OF un] ok Some by (simp add: clht_ok_def t_def)
qed

end
