(* ===== verification/Clht_Resize.thy ===== *)
theory Clht_Resize
  imports Clht
begin

unbundle bit_operations_syntax

text \<open>
  Resizing of the hash table: copying every chain into a new table keeps the map, the new table
  has no empty bucket in front of an overflow bucket, and so a table that is not overfull does not
  ask for another resize. With this, an insertion that triggers a resize returns.
\<close>

section \<open>Copying\<close>

text \<open>
  In a table that was only filled by \<^verbatim>\<open>clht_put_seq\<close> an overflow bucket is linked behind full buckets,
  and \<^verbatim>\<open>num_expands\<close> counts the overflow buckets.
\<close>

definition total_expands :: "clht_hashtable_t \<Rightarrow> nat" where
  "total_expands h = sum_list (map chain_expands (table h))"

definition compact :: "clht_hashtable_t \<Rightarrow> bool" where
  "compact h \<longleftrightarrow> (\<forall>b\<in>set (table h). 3 * chain_expands b \<le> length (pairs b)) \<and> num_expands h = word_of_nat (total_expands h)"

lemma slots_length: "chain_wf b \<Longrightarrow> length (slots b) = 3 * Suc (chain_expands b)"
  by (induction b rule: chain_expands.induct) (auto simp: ENTRIES_PER_BUCKET_def split: option.splits)

lemma full_pairs: "0 \<notin> fst ` set (slots b) \<Longrightarrow> pairs b = slots b"
  unfolding pairs_def by (rule filter_True) force

lemma sum_update: "i < length xs \<Longrightarrow> sum_list (xs[i := y :: nat]) + xs ! i = sum_list xs + y"
proof (induction xs arbitrary: i)
  case (Cons x xs)
  then show ?case by (cases i) (auto simp: algebra_simps)
qed simp

lemma total_expands_set_bin:
  "i < length (table h) \<Longrightarrow> total_expands (set_bin h i b) + chain_expands (table h ! i) = total_expands h + chain_expands b"
  using sum_update [of i "map chain_expands (table h)" "chain_expands b"] by (simp add: total_expands_def map_update)

lemma compact_set_bin:
  assumes "compact h" and "3 * chain_expands b \<le> length (pairs b)"
  shows "\<forall>b'\<in>set (table (set_bin h i b)). 3 * chain_expands b' \<le> length (pairs b')"
  using assms set_update_subset_insert [of "table h" i b] by (auto simp: compact_def)

definition seq_ok :: "clht_hashtable_t \<Rightarrow> bool" where
  "seq_ok h \<longleftrightarrow> ht_ok h \<and> unlocked h \<and> compact h"

lemma unlocked_chain:
  "bk_lock (write_slot b i j k v) = bk_lock b" "bk_lock (link_last b n) = bk_lock b"
  by (cases b; cases i; simp) (cases b; cases "bk_next b"; simp)

lemma unlocked_update: "unlocked h \<Longrightarrow> i < length (table h) \<Longrightarrow> bk_lock b = bk_lock (table h ! i) \<Longrightarrow> unlocked (set_bin h i b)"
  using set_update_subset_insert [of "table h" i b] nth_mem [of i "table h"] by (auto simp: unlocked_def)

lemma clht_put_seq_correct:
  fixes k :: u64
  assumes ok: "seq_ok h" and k: "k \<noteq> 0" and new: "ht_map h k = None" and junk: "length junk = ENTRIES_PER_BUCKET"
  shows "seq_ok (clht_put_seq junk h k v (unat (clht_hash h k)))"
    and "ht_map (clht_put_seq junk h k v (unat (clht_hash h k))) = (ht_map h)(k \<mapsto> v)"
    and "num_buckets (clht_put_seq junk h k v (unat (clht_hash h k))) = num_buckets h"
    and "num_expands_threshold (clht_put_seq junk h k v (unat (clht_hash h k))) = num_expands_threshold h"
    and "hash (clht_put_seq junk h k v (unat (clht_hash h k))) = hash h"
proof -
  let ?i = "unat (clht_hash h k)"
  let ?b = "table h ! ?i"
  have okh: "ht_ok h" and un: "unlocked h" and comp: "compact h" using ok by (simp_all add: seq_ok_def)
  have i: "?i < length (table h)" by (rule bin_less [OF okh])
  have wf: "chain_wf ?b" using ht_bin_ok [OF okh, of k] by (simp add: bin_ok_def)
  have cb: "3 * chain_expands ?b \<le> length (pairs ?b)" using comp nth_mem [OF i] by (simp add: compact_def)
  have fresh: "k \<notin> fst ` set (pairs ?b)" using new by (simp add: ht_map_def map_of_eq_None_iff)
  obtain h' where put: "clht_put_seq junk h k v ?i = h'" "seq_ok h'" "ht_map h' = (ht_map h)(k \<mapsto> v)"
    "num_buckets h' = num_buckets h" "num_expands_threshold h' = num_expands_threshold h" "hash h' = hash h"
  proof (cases "empty_slot ?b 0")
    case None
    let ?h = "h\<lparr>num_expands := num_expands h + 1\<rparr>"
    let ?b' = "link_last ?b (new_bucket_with (clht_bucket_create junk) k v)"
    have add: "adds ?b ?b' k v" and wf': "chain_wf ?b'"
      using link_last_adds [OF junk k] new_bucket_with(1) [OF junk k] wf by (simp_all add: link_last_wf)
    have ex: "chain_expands ?b' = Suc (chain_expands ?b)"
      by (simp add: link_last_expands new_bucket_with(3) [OF junk k])
    have "length (pairs ?b) = 3 * Suc (chain_expands ?b)"
      using empty_slot_free [OF wf, of 0] None by (simp add: full_pairs slots_length [OF wf])
    then have "3 * chain_expands ?b' \<le> length (pairs ?b')" using adds_facts(4) [OF add fresh] ex by simp
    then have c: "\<forall>b\<in>set (table (set_bin ?h ?i ?b')). 3 * chain_expands b \<le> length (pairs b)"
      using compact_set_bin [OF comp, of ?b' ?i] by simp
    have "total_expands (set_bin ?h ?i ?b') = Suc (total_expands h)"
      using total_expands_set_bin [of ?i ?h ?b'] i ex by (simp add: total_expands_def)
    then have "compact (set_bin ?h ?i ?b')" using c comp by (simp add: compact_def add.commute)
    moreover have "ht_ok (set_bin ?h ?i ?b')" "ht_map (set_bin ?h ?i ?b') = (ht_map h)(k \<mapsto> v)"
      using put_into_bin [of ?h k ?b' v] okh new add wf' by simp_all
    moreover have "unlocked (set_bin ?h ?i ?b')"
      using un i by (intro unlocked_update) (simp_all add: unlocked_chain)
    ultimately show thesis
      using None by (intro that [of "set_bin ?h ?i ?b'"])
        (simp_all add: clht_put_seq_def clht_bucket_create_stats_def Let_def seq_ok_def)
  next
    case (Some p)
    obtain m j where p: "p = (m, j)" by fastforce
    then have "free_at ?b m j" using empty_slot_free [OF wf, of 0] Some by simp
    let ?b' = "write_slot ?b m j k v"
    have add: "adds ?b ?b' k v" and wf': "chain_wf ?b'"
      using write_slot_adds [OF wf \<open>free_at ?b m j\<close> k] wf by (simp_all add: write_slot_wf)
    have "3 * chain_expands ?b' \<le> length (pairs ?b')"
      using cb adds_facts(4) [OF add fresh] by (simp add: write_slot_expands)
    then have c: "\<forall>b\<in>set (table (set_bin h ?i ?b')). 3 * chain_expands b \<le> length (pairs b)"
      by (rule compact_set_bin [OF comp])
    have "total_expands (set_bin h ?i ?b') = total_expands h"
      using total_expands_set_bin [OF i, of ?b'] by (simp add: write_slot_expands)
    then have "compact (set_bin h ?i ?b')" using c comp by (simp add: compact_def)
    moreover have "unlocked (set_bin h ?i ?b')" using un i by (intro unlocked_update) (simp_all add: unlocked_chain)
    ultimately show thesis
      using Some p put_into_bin [OF okh new add wf'] by (intro that [of "set_bin h ?i ?b'"])
        (simp_all add: clht_put_seq_def Let_def seq_ok_def)
  qed
  then show "seq_ok (clht_put_seq junk h k v ?i)" "ht_map (clht_put_seq junk h k v ?i) = (ht_map h)(k \<mapsto> v)"
    "num_buckets (clht_put_seq junk h k v ?i) = num_buckets h"
    "num_expands_threshold (clht_put_seq junk h k v ?i) = num_expands_threshold h"
    "hash (clht_put_seq junk h k v ?i) = hash h" by simp_all
qed

lemma copy_pairs:
  assumes "seq_ok h" and "length junk = ENTRIES_PER_BUCKET" and "distinct (map fst ps)"
    and "\<forall>k\<in>fst ` set ps. k \<noteq> 0 \<and> ht_map h k = None"
  shows "seq_ok (fold (cpy_slot junk) ps h) \<and> ht_map (fold (cpy_slot junk) ps h) = ht_map h ++ map_of ps \<and>
    num_buckets (fold (cpy_slot junk) ps h) = num_buckets h \<and>
    num_expands_threshold (fold (cpy_slot junk) ps h) = num_expands_threshold h"
  using assms
proof (induction ps arbitrary: h)
  case (Cons kv ps)
  obtain k v where kv: "kv = (k, v)" by fastforce
  have k: "k \<noteq> 0" "ht_map h k = None" and kps: "k \<notin> fst ` set ps" using Cons.prems kv by auto
  note put = clht_put_seq_correct [OF Cons.prems(1) k Cons.prems(2), of v]
  let ?h = "cpy_slot junk kv h"
  have h: "?h = clht_put_seq junk h k v (unat (clht_hash h k))" using k by (simp add: cpy_slot_def kv)
  have m: "ht_map ?h = (ht_map h)(k \<mapsto> v)" using put(2) by (simp only: h)
  have "seq_ok ?h" using put(1) by (simp only: h)
  moreover have "\<forall>k\<in>fst ` set ps. k \<noteq> 0 \<and> ht_map ?h k = None" using Cons.prems(4) kps unfolding m by auto
  ultimately have ih: "seq_ok (fold (cpy_slot junk) ps ?h)" "ht_map (fold (cpy_slot junk) ps ?h) = ht_map ?h ++ map_of ps"
    "num_buckets (fold (cpy_slot junk) ps ?h) = num_buckets ?h"
    "num_expands_threshold (fold (cpy_slot junk) ps ?h) = num_expands_threshold ?h"
    using Cons.IH [of ?h] Cons.prems(2,3) by simp_all
  have "ht_map ?h ++ map_of ps = ht_map h ++ map_of (kv # ps)"
    unfolding m using kps by (simp add: kv map_add_upd_left dom_map_of_conv_image_fst)
  with ih(2) have "ht_map (fold (cpy_slot junk) (kv # ps) h) = ht_map h ++ map_of (kv # ps)" by simp
  moreover have "num_buckets ?h = num_buckets h" "num_expands_threshold ?h = num_expands_threshold h"
    using put(3,4) by (simp_all only: h)
  moreover have "fold (cpy_slot junk) (kv # ps) h = fold (cpy_slot junk) ps ?h" by simp
  ultimately show ?case using ih(1,3,4) by (simp only: simp_thms)
qed simp

lemma cpy_chain_fold: "cpy_chain junk b h = fold (cpy_slot junk) (pairs b) h"
proof -
  have "fold (cpy_slot junk) (filter (\<lambda>kv. fst kv \<noteq> 0) xs) g = fold (cpy_slot junk) xs g" for xs g
    by (induction xs arbitrary: g) (auto simp: cpy_slot_def)
  moreover have "cpy_chain junk b h = fold (cpy_slot junk) (slots b) h"
    by (induction junk b h rule: cpy_chain.induct) (auto simp: Let_def split: option.splits)
  ultimately show ?thesis by (simp add: pairs_def)
qed

lemma copy_table_fold:
  "\<forall>b\<in>set bs. bk_lock b = LOCK_FREE \<Longrightarrow>
    copy_table junk bs h = Inr (map (\<lambda>b. set_lock b LOCK_RESIZE) bs, fold (cpy_slot junk) (all_pairs bs) h)"
  by (induction bs arbitrary: h)
    (simp_all add: bucket_cpy_def lock_acq_resize_def LOCK_FREE_def LOCK_UPDATE_def LOCK_RESIZE_def cpy_chain_fold all_pairs_def)

section \<open>The new table\<close>

lemma create_ok:
  assumes "clht_hashtable_create avail n = Some t"
  shows "seq_ok t" and "ht_map t = Map.empty" and "num_buckets t = n" and "n \<noteq> 0"
proof -
  let ?b = "Bucket LOCK_FREE (replicate ENTRIES_PER_BUCKET 0) (replicate ENTRIES_PER_BUCKET 0) None"
  have t: "n \<noteq> 0" "num_buckets t = n" "table t = replicate (unat n) ?b" "hash t = n - 1" "num_expands t = 0"
    using assms by (auto simp: clht_hashtable_create_def Let_def split: if_splits)
  have b: "pairs ?b = []" "chain_wf ?b" "chain_expands ?b = 0" by (simp_all add: pairs_def ENTRIES_PER_BUCKET_def eval_nat_numeral)
  have ok: "ht_ok t" using t b by (simp add: ht_ok_def bin_ok_def del: chain_wf.simps)
  show "seq_ok t"
    using ok t b by (simp add: seq_ok_def unlocked_def compact_def total_expands_def sum_list_replicate del: chain_expands.simps)
  show "ht_map t = Map.empty"
    using bin_less [OF ok] t b by (auto simp: ht_map_def fun_eq_iff)
  show "num_buckets t = n" "n \<noteq> 0" using t by simp_all
qed

lemma version_only:
  "seq_ok (t\<lparr>ht_version := v\<rparr>) = seq_ok t" "ht_map (t\<lparr>ht_version := v\<rparr>) = ht_map t"
  by (simp_all add: seq_ok_def ht_ok_def unlocked_def compact_def total_expands_def ht_map_def clht_hash_def fun_eq_iff)

lemma resize_table_correct:
  assumes ok: "ht_ok h" and un: "unlocked h" and small: "num_buckets h < 2 ^ 31" and n: "n \<noteq> 0" "avail n" and junk: "length junk = ENTRIES_PER_BUCKET"
  obtains old new where "resize_table avail junk h n = Inr (old, new)" and "seq_ok new" and "ht_map new = ht_map h"
    and "num_buckets new = n" and "num_expands_threshold new = (if (ucast n :: 32 word) = 0 then 1 else ucast n)"
proof -
  obtain t where t: "clht_hashtable_create avail n = Some t" using n by (simp add: clht_hashtable_create_def Let_def)
  then have thr: "num_expands_threshold t = (if (ucast n :: 32 word) = 0 then 1 else ucast n)"
    by (auto simp: clht_hashtable_create_def Let_def CLHT_PERC_EXPANSIONS_def split: if_splits)
  note c = create_ok [OF t]
  let ?t = "t\<lparr>ht_version := ht_version h + 1\<rparr>"
  have ok': "seq_ok ?t" "ht_map ?t = Map.empty"
    using c(1,2) by (simp_all add: version_only)
  have keys: "\<forall>k\<in>fst ` set (all_pairs (table h)). k \<noteq> 0 \<and> ht_map ?t k = None"
    using pairs_nonzero unfolding all_pairs_nth Ball_def by (metis ok'(2))
  note cp = copy_pairs [OF ok'(1) junk all_pairs_distinct [OF ok] keys]
  have "copy_table junk (table h) ?t =
      Inr (map (\<lambda>b. set_lock b LOCK_RESIZE) (table h), fold (cpy_slot junk) (all_pairs (table h)) ?t)"
    using un by (intro copy_table_fold) (simp add: unlocked_def)
  moreover have "length (table h) < 2 ^ 31" using ok small by (simp add: ht_ok_def word_less_nat_alt)
  ultimately have "resize_table avail junk h n =
      Inr (h\<lparr>table := map (\<lambda>b. set_lock b LOCK_RESIZE) (table h), table_new := True\<rparr>,
           fold (cpy_slot junk) (all_pairs (table h)) ?t)" using t by (simp add: resize_table_def)
  then show thesis
    by (rule that) (use cp c(3) thr in \<open>simp_all add: ok'(2) all_pairs_map [OF ok]\<close>)
qed

lemma compact_few_expands:
  assumes ok: "seq_ok h" and few: "clht_size h < 3 * unat (num_buckets h)" and small: "num_buckets h < 2 ^ 32"
    and thr: "num_expands_threshold h = (if (ucast (num_buckets h) :: 32 word) = 0 then 1 else ucast (num_buckets h))"
  shows "num_expands h < num_expands_threshold h"
proof -
  have okh: "ht_ok h" and comp: "compact h" using ok by (simp_all add: seq_ok_def)
  have "3 * total_expands h \<le> length (all_pairs (table h))"
  proof -
    have "3 * sum_list (map chain_expands bs) \<le> length (all_pairs bs)"
      if "\<forall>b\<in>set bs. 3 * chain_expands b \<le> length (pairs b)" for bs
      using that by (induction bs) (auto simp: all_pairs_def)
    then show ?thesis using comp by (simp add: compact_def total_expands_def)
  qed
  then have less: "total_expands h < unat (num_buckets h)" using few clht_size_all [OF okh] by simp
  have nb: "unat (num_buckets h) < 2 ^ 32" using small by (simp add: word_less_nat_alt)
  have u: "unat (ucast (num_buckets h) :: 32 word) = unat (num_buckets h)"
    using nb by (simp add: unsigned_ucast_eq take_bit_nat_eq_self)
  moreover have "unat (num_expands h) = total_expands h"
    using comp less nb by (simp add: compact_def unsigned_of_nat take_bit_nat_eq_self)
  ultimately have "num_expands h < ucast (num_buckets h)" using less by (simp add: word_less_nat_alt)
  moreover have "(ucast (num_buckets h) :: 32 word) \<noteq> 0" using u less by (metis gr_implies_not0 unsigned_0)
  ultimately show ?thesis by (simp add: thr)
qed

section \<open>Resizing and insertion\<close>

text \<open>The number of buckets that \<^verbatim>\<open>ht_status(h, 1, 0)\<close> asks for.\<close>

definition status_buckets :: "('d, 'l) fpu \<Rightarrow> clht_hashtable_t \<Rightarrow> u64" where
  "status_buckets F h =
     (let r = full_ratio F h
      in if d_less F (d_of_int F 0) r \<and> d_less F r (d_of_int F CLHT_PERC_FULL_HALVE) then resize_buckets h False 33
         else resize_buckets h True (inc_by_pow2 F h))"

text \<open>The new size is allocatable, new_size_fits the 32-bit counters and leaves the table not overfull.\<close>

definition new_size_fits :: "(u64 \<Rightarrow> bool) \<Rightarrow> nat \<Rightarrow> u64 \<Rightarrow> bool" where
  "new_size_fits avail elems n \<longleftrightarrow> n \<noteq> 0 \<and> avail n \<and> n < 2 ^ 32 \<and> elems < 3 * unat n"

lemma ht_resize_pes_correct:
  assumes ok: "ht_ok (ht h)" "unlocked (ht h)" "num_buckets (ht h) < 2 ^ 31" "resize_lock h = 0" and junk: "length junk = ENTRIES_PER_BUCKET"
    and n: "new_size_fits avail (clht_size (ht h)) (resize_buckets (ht h) inc fac)"
  obtains old new where "ht_resize_pes (Suc fuel) F avail junk (Some i) h inc fac =
      Inr (True, h\<lparr>ht := new, olds := old # olds h, resize_lock := 0\<rparr>)"
    and "seq_ok new" and "ht_map new = ht_map (ht h)" and "num_buckets new = resize_buckets (ht h) inc fac"
proof -
  let ?n = "resize_buckets (ht h) inc fac"
  have n': "?n \<noteq> 0" "avail ?n" using n by (simp_all add: new_size_fits_def)
  obtain old new where r: "resize_table avail junk (ht h) ?n = Inr (old, new)" "seq_ok new" "ht_map new = ht_map (ht h)"
    "num_buckets new = ?n" "num_expands_threshold new = (if (ucast ?n :: 32 word) = 0 then 1 else ucast ?n)"
    by (rule resize_table_correct [where avail = avail, OF ok(1-3) n' junk])
  have okn: "ht_ok new" using r(2) by (simp add: seq_ok_def)
  have "clht_size new = clht_size (ht h)"
    by (simp only: clht_size_card [OF okn] clht_size_card [OF ok(1)] r(3))
  then have "num_expands new < num_expands_threshold new"
    using n r(4,5) by (intro compact_few_expands r(2)) (simp_all add: new_size_fits_def)
  then have "\<not> num_expands_threshold new \<le> num_expands new" by simp
  then have "ht_resize_pes (Suc fuel) F avail junk (Some i) h inc fac =
      Inr (True, h\<lparr>ht := new, olds := old # olds h, resize_lock := 0\<rparr>)"
    using ok(4) r(1) by (simp add: clht_gc_get_id_def LOCK_FREE_def Let_def)
  with r show thesis using that by blast
qed

lemma ht_status_correct:
  assumes ok: "ht_ok (ht h)" "unlocked (ht h)" "num_buckets (ht h) < 2 ^ 31" "resize_lock h = 0" and junk: "length junk = ENTRIES_PER_BUCKET"
    and n: "new_size_fits avail (clht_size (ht h)) (status_buckets F (ht h))"
  obtains h' where "ht_status (Suc (Suc fuel)) F avail junk (Some i) h True False = Inr (clht_size (ht h), h')"
    and "clht_ok h'" and "ht_map (ht h') = ht_map (ht h)"
proof -
  let ?h1 = "h\<lparr>status_lock := 0xff\<rparr>"
  define half where "half \<longleftrightarrow> d_less F (d_of_int F 0) (full_ratio F (ht h)) \<and>
    d_less F (full_ratio F (ht h)) (d_of_int F CLHT_PERC_FULL_HALVE)"
  define fac where "fac = (if half then 33 else inc_by_pow2 F (ht h))"
  have fit: "new_size_fits avail (clht_size (ht ?h1)) (resize_buckets (ht ?h1) (\<not> half) fac)"
    using n by (cases half) (simp_all add: status_buckets_def half_def [symmetric] fac_def Let_def)
  have ok1: "ht_ok (ht ?h1)" "unlocked (ht ?h1)" "num_buckets (ht ?h1) < 2 ^ 31" "resize_lock ?h1 = 0" using ok by simp_all
  obtain old new where r: "ht_resize_pes (Suc fuel) F avail junk (Some i) ?h1 (\<not> half) fac =
      Inr (True, ?h1\<lparr>ht := new, olds := old # olds ?h1, resize_lock := 0\<rparr>)" "seq_ok new"
    "ht_map new = ht_map (ht ?h1)" "num_buckets new = resize_buckets (ht ?h1) (\<not> half) fac"
    by (rule ht_resize_pes_correct [where F = F, OF ok1 junk fit])
  let ?h' = "h\<lparr>status_lock := 0, ht := new, olds := old # olds h, resize_lock := 0\<rparr>"
  have "ht_status (Suc (Suc fuel)) F avail junk (Some i) h True False = Inr (clht_size (ht h), ?h')"
    using r(1) by (subst ht_status.simps(2))
      (cases half; simp add: Let_def clht_gc_get_id_def LOCK_FREE_def fac_def half_def [symmetric] del: ht_resize_pes.simps)
  moreover have "clht_ok ?h'" using r(2) by (simp add: clht_ok_def seq_ok_def)
  ultimately show thesis using that r(3) by simp
qed

lemma status_buckets_cong:
  "clht_size s = clht_size t \<Longrightarrow> num_buckets s = num_buckets t \<Longrightarrow> status_buckets F s = status_buckets F t"
  by (simp add: status_buckets_def full_ratio_def resize_buckets_def inc_by_pow2_def Let_def)

text \<open>
  An insertion of an absent key: what it does up to the call of \<^verbatim>\<open>ht_status\<close>, which it makes only when it
  links the bucket that reaches the threshold.
\<close>

lemma clht_put_locked:
  assumes ok: "clht_ok h" and k: "k \<noteq> 0" and junk: "length junk = ENTRIES_PER_BUCKET" and new: "ht_map (ht h) k = None"
  obtains t resize where "\<And>fuel F avail ts. clht_put fuel F avail junk ts h k v =
      (if resize then map_sum id (\<lambda>(_, h'). (True, h')) (ht_status fuel F avail junk ts (h\<lparr>ht := t\<rparr>) True False)
       else Inr (True, h\<lparr>ht := t\<rparr>))"
    and "ht_ok t" and "unlocked t" and "ht_map t = (ht_map (ht h))(k \<mapsto> v)" and "num_buckets t = num_buckets (ht h)"
    and "resize \<Longrightarrow> num_expands (ht h) + 1 = num_expands_threshold (ht h)"
proof -
  have okt: "ht_ok (ht h)" and un: "unlocked (ht h)" using ok by (simp_all add: clht_ok_def)
  obtain t resize where put: "put_locked junk (ht h) (unat (clht_hash (ht h) k))
      (set_lock (table (ht h) ! unat (clht_hash (ht h) k)) LOCK_UPDATE) k v = (True, t, resize)"
    and t: "ht_ok t" "unlocked t" "ht_map t = (ht_map (ht h))(k \<mapsto> v)" "num_buckets t = num_buckets (ht h)"
    and rs: "resize \<Longrightarrow> num_expands (ht h) + 1 = num_expands_threshold (ht h)"
    by (rule put_locked_correct [where v = v, OF okt un k junk new]) blast
  have ex: "\<not> bucket_exists (table (ht h) ! unat (clht_hash (ht h) k)) k" using exists_iff [OF okt k] new by simp
  note acq = lock_acquire_free [OF bin_unlocked [OF okt un, of k], of "ht h"]
  have "clht_put fuel F avail junk ts h k v =
      (if resize then map_sum id (\<lambda>(_, h'). (True, h')) (ht_status fuel F avail junk ts (h\<lparr>ht := t\<rparr>) True False)
       else Inr (True, h\<lparr>ht := t\<rparr>))" for fuel and F :: "('a, 'b) fpu" and avail ts
    using ex acq put by (simp add: clht_put_def Let_def split: sum.split)
  then show thesis by (rule that [OF _ t rs])
qed

lemma clht_put_room:
  assumes "clht_ok h" and "k \<noteq> 0" and "length junk = ENTRIES_PER_BUCKET" and "ht_map (ht h) k = None"
    and "num_expands (ht h) + 1 \<noteq> num_expands_threshold (ht h)"
  obtains h' where "clht_put fuel F avail junk ts h k v = Inr (True, h')"
    and "clht_ok h'" and "ht_map (ht h') = (ht_map (ht h))(k \<mapsto> v)"
proof (rule clht_put_locked [where v = v, OF assms(1-4)])
  fix t resize
  assume put: "\<And>fuel (F :: ('a, 'b) fpu) avail ts. clht_put fuel F avail junk ts h k v =
      (if resize then map_sum id (\<lambda>(_, h'). (True, h')) (ht_status fuel F avail junk ts (h\<lparr>ht := t\<rparr>) True False)
       else Inr (True, h\<lparr>ht := t\<rparr>))"
    and t: "ht_ok t" "unlocked t" "ht_map t = (ht_map (ht h))(k \<mapsto> v)"
    and "resize \<Longrightarrow> num_expands (ht h) + 1 = num_expands_threshold (ht h)"
  then have "clht_put fuel F avail junk ts h k v = Inr (True, h\<lparr>ht := t\<rparr>)" using assms(5) by auto
  moreover have "clht_ok (h\<lparr>ht := t\<rparr>)" using t assms(1) by (simp add: clht_ok_def)
  ultimately show thesis using that t(3) by simp
qed

text \<open>With a registered thread, and room for the new size, an insertion may also resize.\<close>

lemma clht_put_correct:
  assumes ok: "clht_ok h" and k: "k \<noteq> 0" and junk: "length junk = ENTRIES_PER_BUCKET" and new: "ht_map (ht h) k = None"
    and small: "num_buckets (ht h) < 2 ^ 31"
    and n: "num_expands (ht h) + 1 = num_expands_threshold (ht h) \<Longrightarrow>
      (\<And>t. clht_size t = Suc (clht_size (ht h)) \<Longrightarrow> num_buckets t = num_buckets (ht h) \<Longrightarrow>
        new_size_fits avail (Suc (clht_size (ht h))) (status_buckets F t))"
  obtains h' where "clht_put (Suc (Suc fuel)) F avail junk (Some i) h k v = Inr (True, h')"
    and "clht_ok h'" and "ht_map (ht h') = (ht_map (ht h))(k \<mapsto> v)"
proof (rule clht_put_locked [where v = v, OF ok k junk new])
  fix t resize
  assume put: "\<And>fuel (F :: ('a, 'b) fpu) avail ts. clht_put fuel F avail junk ts h k v =
      (if resize then map_sum id (\<lambda>(_, h'). (True, h')) (ht_status fuel F avail junk ts (h\<lparr>ht := t\<rparr>) True False)
       else Inr (True, h\<lparr>ht := t\<rparr>))"
    and t: "ht_ok t" "unlocked t" "ht_map t = (ht_map (ht h))(k \<mapsto> v)" "num_buckets t = num_buckets (ht h)"
    and rs: "resize \<Longrightarrow> num_expands (ht h) + 1 = num_expands_threshold (ht h)"
  show thesis
  proof (cases resize)
    case False
    then show thesis using that [of "h\<lparr>ht := t\<rparr>"] put t ok by (simp add: clht_ok_def)
  next
    case True
    let ?h = "h\<lparr>ht := t\<rparr>"
    have okt: "ht_ok (ht h)" using ok by (simp add: clht_ok_def)
    have "k \<notin> dom (ht_map (ht h))" "finite (dom (ht_map (ht h)))"
      using new finite_dom_map_of [of "all_pairs (table (ht h))"] by (auto simp: all_pairs_map [OF okt])
    then have size: "clht_size t = Suc (clht_size (ht h))"
      by (simp add: clht_size_card [OF t(1)] clht_size_card [OF okt] t(3))
    have fit: "new_size_fits avail (clht_size (ht ?h)) (status_buckets F (ht ?h))"
      using n [OF rs [OF True] size t(4)] size by simp
    have ok1: "ht_ok (ht ?h)" "unlocked (ht ?h)" "num_buckets (ht ?h) < 2 ^ 31" "resize_lock ?h = 0"
      using t ok small by (simp_all add: clht_ok_def)
    obtain h' where s: "ht_status (Suc (Suc fuel)) F avail junk (Some i) ?h True False = Inr (clht_size (ht ?h), h')"
      "clht_ok h'" "ht_map (ht h') = ht_map (ht ?h)"
      by (rule ht_status_correct [OF ok1 junk fit])
    then show thesis using that [of h'] put [of "Suc (Suc fuel)" F avail "Some i"] True t(3) by (simp del: ht_status.simps)
  qed
qed

lemma clht_put_present:
  assumes ok: "clht_ok h" and k: "k \<noteq> 0" and old: "ht_map (ht h) k \<noteq> None"
  shows "clht_put fuel F avail junk ts h k v = Inr (False, h)"
  using exists_iff [of "ht h" k] ok k old by (simp add: clht_put_def clht_ok_def)

end
