(* ===== verification/Clht_Growth.thy ===== *)
theory Clht_Growth
  imports Clht_Resize
begin

unbundle bit_operations_syntax

text \<open>
  The growth factor of the hash table: \<^verbatim>\<open>pow2roundup\<close> of \<^verbatim>\<open>src/include/clht/utils.h\<close> yields the least
  power of two above its argument, and with exact arithmetic the size that \<^verbatim>\<open>ht_status\<close> chooses
  always new_size_fits.
\<close>

section \<open>Rounding up to a power of two\<close>

text \<open>After the shifts by 1, 2, ..., \<open>s / 2\<close> a bit is set when one of the next \<open>s\<close> bits was.\<close>

definition smeared :: "nat \<Rightarrow> u64 \<Rightarrow> u64 \<Rightarrow> bool" where
  "smeared s y z \<longleftrightarrow> (\<forall>i. bit z i \<longleftrightarrow> (\<exists>j < s. bit y (i + j)))"

lemma smeared_step: "smeared s y z \<Longrightarrow> smeared (2 * s) y (z OR drop_bit s z)"
  unfolding smeared_def
proof
  fix i
  assume sm: "\<forall>i. bit z i \<longleftrightarrow> (\<exists>j < s. bit y (i + j))"
  have "bit (z OR drop_bit s z) i \<longleftrightarrow> (\<exists>j < s. bit y (i + j)) \<or> (\<exists>j < s. bit y (i + s + j))"
    using sm by (simp add: bit_simps add.commute)
  also have "\<dots> \<longleftrightarrow> (\<exists>j<2 * s. bit y (i + j))"
  proof
    assume "\<exists>j<2 * s. bit y (i + j)"
    then obtain j where "j < 2 * s" "bit y (i + j)" by blast
    then show "(\<exists>j < s. bit y (i + j)) \<or> (\<exists>j < s. bit y (i + s + j))"
      by (cases "j < s") (auto intro: exI [of _ "j - s"])
  next
    assume "(\<exists>j < s. bit y (i + j)) \<or> (\<exists>j < s. bit y (i + s + j))"
    then obtain j where "j < s" "bit y (i + j) \<or> bit y (i + (s + j))" by (auto simp: add.assoc)
    then show "\<exists>j<2 * s. bit y (i + j)" by (auto intro: exI [of _ j] exI [of _ "s + j"])
  qed
  finally show "bit (z OR drop_bit s z) i = (\<exists>j<2 * s. bit y (i + j))" .
qed

lemma smeared_1: "smeared 1 y y"
  by (simp add: smeared_def)

lemma smeared_mask:
  assumes "smeared 64 y z" and "y \<noteq> 0"
  obtains n where "z = mask (Suc n)" and "2 ^ n \<le> unat y" and "unat y < 2 ^ Suc n" and "n < 64"
proof -
  define n where "n = Max {i. bit y i}"
  have fin: "finite {i. bit y i}" by (rule finite_subset [of _ "{..<64}"]) (auto dest: bit_imp_le_length)
  have ne: "{i. bit y i} \<noteq> {}" using assms(2) by (auto simp: bit_eq_iff)
  have top: "bit y n" using Max_in [OF fin ne] by (simp add: n_def)
  have le: "i \<le> n" if "bit y i" for i using Max_ge [OF fin] that by (simp add: n_def)
  have n64: "n < 64" using bit_imp_le_length [OF top] by simp
  have "z = mask (Suc n)"
  proof (rule bit_word_eqI)
    fix i assume "i < LENGTH(64)"
    show "bit z i = bit (mask (Suc n) :: u64) i"
    proof (cases "i \<le> n")
      case True
      then have "\<exists>j<64. bit y (i + j)" using top n64 by (intro exI [of _ "n - i"]) simp
      then show ?thesis using assms(1) True \<open>i < LENGTH(64)\<close> by (simp add: smeared_def bit_simps)
    next
      case False
      then have "\<not> (\<exists>j<64. bit y (i + j))" using le by (meson le_trans le_add1)
      then show ?thesis using assms(1) False by (simp add: smeared_def bit_simps)
    qed
  qed
  moreover have "unat y < 2 ^ Suc n"
  proof -
    have "take_bit (Suc n) y = y" by (rule bit_word_eqI) (auto simp: bit_simps less_Suc_eq_le dest: le)
    then have "unat y = take_bit (Suc n) (unat y)" by (metis unsigned_take_bit_eq)
    then show ?thesis by (metis take_bit_nat_less_exp)
  qed
  moreover have "2 ^ n \<le> unat y"
  proof -
    have "bit (unat y) n" using top by (simp add: bit_unsigned_iff)
    then have "odd (unat y div 2 ^ n)" by (simp add: bit_iff_odd)
    then have "unat y div 2 ^ n \<noteq> 0" by (metis even_zero)
    then show ?thesis by (metis div_eq_0_iff not_less power_not_zero zero_neq_numeral)
  qed
  ultimately show thesis using that n64 by blast
qed

lemma pow2roundup_power:
  assumes "1 < x" and "x \<le> 2 ^ 63"
  obtains n where "unat (pow2roundup x) = 2 ^ Suc n" and "2 ^ n < unat x" and "unat x \<le> 2 ^ Suc n" and "n < 63"
proof -
  define y where "y = x - 1"
  define z1 where "z1 = y OR drop_bit 1 y"
  define z2 where "z2 = z1 OR drop_bit 2 z1"
  define z3 where "z3 = z2 OR drop_bit 4 z2"
  define z4 where "z4 = z3 OR drop_bit 8 z3"
  define z5 where "z5 = z4 OR drop_bit 16 z4"
  define z6 where "z6 = z5 OR drop_bit 32 z5"
  have x0: "x \<noteq> 0" using assms(1) by auto
  have "smeared 2 y z1" using smeared_step [OF smeared_1, of y] by (simp add: z1_def)
  then have "smeared 4 y z2" using smeared_step by (fastforce simp: z2_def)
  then have "smeared 8 y z3" using smeared_step by (fastforce simp: z3_def)
  then have "smeared 16 y z4" using smeared_step by (fastforce simp: z4_def)
  then have "smeared 32 y z5" using smeared_step by (fastforce simp: z5_def)
  then have sm: "smeared 64 y z6" using smeared_step by (fastforce simp: z6_def)
  have uy: "unat y = unat x - 1" using x0 by (simp add: y_def unat_minus_one)
  have ux: "1 < unat x" "unat x \<le> 2 ^ 63" using assms by (simp_all add: word_less_nat_alt word_le_nat_alt)
  then have "y \<noteq> 0" using uy by auto
  from smeared_mask [OF sm this] obtain n where n: "z6 = mask (Suc n)" "2 ^ n \<le> unat y" "unat y < 2 ^ Suc n" "n < 64" by blast
  have "(2::nat) ^ n < 2 ^ 63" using n(2) uy ux by linarith
  then have n63: "n < 63" by (rule power_less_imp_less_exp [rotated]) simp
  have "pow2roundup x = z6 + 1"
    using x0 by (simp add: pow2roundup_def Let_def y_def z1_def z2_def z3_def z4_def z5_def z6_def)
  also have "\<dots> = word_of_nat (2 ^ Suc n)" by (simp add: n(1) mask_eq_exp_minus_1)
  finally have p: "pow2roundup x = word_of_nat (2 ^ Suc n)" .
  have "(2::nat) ^ Suc n < 2 ^ 64" using n63 by (intro power_strict_increasing) simp_all
  then have "unat (pow2roundup x) = 2 ^ Suc n" 
    by (simp only: p unsigned_of_nat take_bit_eq_mod len_num1 len_bit0 mod_less) simp
  then show thesis using that n uy ux n63 by (auto simp: less_eq_Suc_le)
qed

lemma pow2roundup_0: "pow2roundup 0 = 1" and pow2roundup_1: "pow2roundup 1 = 1"
  by (simp_all add: pow2roundup_def)

section \<open>Exact arithmetic\<close>

text \<open>With exact arithmetic the factor is the quotient of the occupancy by 40 percent, rounded up to a power of two.\<close>

lemma pow2roundup_bounds:
  fixes f :: nat
  assumes "f < 2 ^ 30"
  defines "K \<equiv> (if pow2roundup (word_of_nat f) = 1 then 2 else unat (pow2roundup (word_of_nat f)))"
  shows "2 \<le> K" and "f \<le> K" and "K \<le> 2 * max 1 f" and "unat (pow2roundup (word_of_nat f)) < 2 ^ 31"
proof -
  have u: "unat (word_of_nat f :: u64) = f" using assms(1) by (simp add: unsigned_of_nat take_bit_nat_eq_self)
  have "2 \<le> K \<and> f \<le> K \<and> K \<le> 2 * max 1 f \<and> unat (pow2roundup (word_of_nat f)) < 2 ^ 31"
  proof (cases "f \<le> 1")
    case True
    then consider "f = 0" | "f = 1" by linarith
    then show ?thesis by cases (simp_all add: K_def pow2roundup_0 pow2roundup_1)
  next
    case False
    have "(1::u64) < word_of_nat f" using False u by (simp add: word_less_nat_alt)
    moreover have "(word_of_nat f :: u64) \<le> 2 ^ 63" using assms(1) u by (simp add: word_le_nat_alt)
    ultimately obtain n where n: "unat (pow2roundup (word_of_nat f)) = 2 ^ Suc n" "2 ^ n < f" "f \<le> 2 ^ Suc n"
      using pow2roundup_power u by metis
    then have "pow2roundup (word_of_nat f) \<noteq> 1" by auto
    with n assms(1) show ?thesis by (simp add: K_def)
  qed
  then show "2 \<le> K" "f \<le> K" "K \<le> 2 * max 1 f" "unat (pow2roundup (word_of_nat f)) < 2 ^ 31" by simp_all
qed

lemma scast_small:
  fixes w :: "32 word"
  assumes "unat w < 2 ^ 31"
  shows "(scast w :: u64) = word_of_nat (unat w)"
proof -
  have "uint w < 2 ^ 31" using assms by (simp add: uint_nat del: of_nat_unat)
  moreover have "- (2 ^ 31) \<le> uint w" by (rule order_trans [of _ 0]) simp_all
  ultimately have "sint w = uint w" by (simp add: sint_uint signed_take_bit_int_eq_self)
  then show ?thesis by (metis of_int_of_nat_eq scast_eq uint_nat)
qed

lemma exact_ratio:
  assumes "unat (num_buckets t) \<le> 2 ^ 28" and "clht_size t \<le> 2 ^ 28"
  shows "full_ratio rat_fpu t = 100 * of_nat (clht_size t) / (3 * of_nat (unat (num_buckets t)))"
proof -
  have "unat (word_of_nat (clht_size t) :: u64) = clht_size t"
    using assms(2) by (simp add: unsigned_of_nat take_bit_nat_eq_self)
  moreover have "unat (num_buckets t * of_nat ENTRIES_PER_BUCKET) = 3 * unat (num_buckets t)"
    using assms(1) by (simp add: ENTRIES_PER_BUCKET_def unat_word_ariths)
  ultimately show ?thesis
    by (simp add: full_ratio_def rat_fpu_def uint_nat del: of_int_uint of_nat_unat)
qed

lemma exact_factor:
  assumes "0 < unat (num_buckets t)" "unat (num_buckets t) \<le> 2 ^ 28" and "clht_size t \<le> 2 ^ 28"
  defines "f \<equiv> 5 * clht_size t div (6 * unat (num_buckets t))"
  shows "unat (scast (inc_by_pow2 rat_fpu t) :: u64) =
    (if pow2roundup (word_of_nat f) = 1 then 2 else unat (pow2roundup (word_of_nat f)))"
proof -
  let ?s = "clht_size t" and ?N = "unat (num_buckets t)"
  have "full_ratio rat_fpu t / 40 = (of_nat (5 * ?s) :: rat) / of_nat (6 * ?N)"
    by (simp add: exact_ratio [OF assms(2,3)] field_simps del: of_nat_unat)
  moreover have "\<not> (of_nat (5 * ?s) :: rat) / of_nat (6 * ?N) < 0" by (simp add: not_less del: of_nat_unat)
  ultimately have "trunc_int (full_ratio rat_fpu t / 40) = \<lfloor>(of_nat (5 * ?s) :: rat) / of_nat (6 * ?N)\<rfloor>"
    by (simp only: trunc_int_def if_False)
  also have "\<dots> = int f" unfolding f_def by (rule floor_divide_of_nat_eq)
  finally have tr: "trunc_int (full_ratio rat_fpu t / 40) = int f" .
  have "f \<le> ?s"
  proof -
    have "5 * ?s \<le> 6 * ?N * ?s" using assms(1) by simp
    then have "f \<le> (6 * ?N * ?s) div (6 * ?N)" unfolding f_def by (rule div_le_mono)
    then show ?thesis using assms(1) by simp
  qed
  then have f: "f < 2 ^ 30" using assms(3) by simp
  have "d_to_int rat_fpu (d_div rat_fpu (full_ratio rat_fpu t) (d_of_int rat_fpu CLHT_OCCUP_AFTER_RES)) = word_of_nat f"
    using tr f by (simp add: rat_fpu_def CLHT_OCCUP_AFTER_RES_def x86_int32_def in_int32_def)
  moreover have "unat (word_of_nat f :: 32 word) = f" using f by (simp add: unsigned_of_nat take_bit_nat_eq_self)
  then have "(scast (word_of_nat f :: 32 word) :: u64) = word_of_nat f" using f by (simp add: scast_small)
  ultimately have inc: "inc_by_pow2 rat_fpu t =
      (let p = ucast (pow2roundup (word_of_nat f)) :: 32 word in if p = 1 then 2 else p)"
    by (simp add: inc_by_pow2_def)
  define P where "P = pow2roundup (word_of_nat f)"
  have P: "unat P < 2 ^ 31" using pow2roundup_bounds(4) [OF f] by (simp add: P_def)
  then have up: "unat (ucast P :: 32 word) = unat P" by (simp add: unsigned_ucast_eq take_bit_nat_eq_self)
  then have one: "(ucast P :: 32 word) = 1 \<longleftrightarrow> P = 1" by (metis unsigned_1 word_unat_eq_iff)
  have "(scast (ucast P :: 32 word) :: u64) = P" using P up by (simp add: scast_small)
  moreover have "unat (scast (2 :: 32 word) :: u64) = 2" by (subst scast_small) simp_all
  ultimately show ?thesis using one by (simp add: inc P_def [symmetric] Let_def)
qed

lemma exact_fits:
  assumes N: "8 \<le> unat (num_buckets t)" "unat (num_buckets t) \<le> 2 ^ 28" and s: "clht_size t \<le> 2 ^ 28"
    and avail: "\<And>n. avail n"
  shows "new_size_fits avail (clht_size t) (status_buckets rat_fpu t)"
proof -
  let ?s = "clht_size t" and ?N = "unat (num_buckets t)"
  define r where "r = full_ratio rat_fpu t"
  have r: "r = 100 * of_nat ?s / (3 * of_nat ?N)" using exact_ratio [OF N(2) s] by (simp add: r_def)
  have Npos: "(0 :: rat) < of_nat ?N" using N(1) by (simp del: of_nat_unat)
  show ?thesis
  proof (cases "0 < r \<and> r < 5")
    case True
    then have "(100 :: rat) * of_nat ?s < 15 * of_nat ?N" using Npos by (simp add: r field_simps del: of_nat_unat)
    then have lt: "100 * ?s < 15 * ?N" by (metis (mono_tags) of_nat_less_iff of_nat_mult of_nat_numeral)
    have n: "status_buckets rat_fpu t = num_buckets t div 8"
      using True by (simp add: status_buckets_def resize_buckets_def r_def rat_fpu_def CLHT_PERC_FULL_HALVE_def
          CLHT_RATIO_HALVE_def Let_def)
    have un: "unat (num_buckets t div 8) = ?N div 8" by (simp add: unat_div)
    have "?N \<le> 8 * (?N div 8) + 7" and pos: "0 < ?N div 8" using N(1) by (presburger, simp add: div_greater_zero_iff)
    then have "?s < 3 * (?N div 8)" using lt by linarith
    moreover note pos
    moreover have "?N div 8 < 2 ^ 32" using N(2) div_le_dividend [of ?N 8] by simp
    ultimately show ?thesis using un avail by (auto simp: new_size_fits_def n word_less_nat_alt)
  next
    case False
    define f where "f = 5 * ?s div (6 * ?N)"
    define K where "K = (if pow2roundup (word_of_nat f) = 1 then 2 else unat (pow2roundup (word_of_nat f)))"
    have f: "f \<le> ?s"
    proof -
      have "5 * ?s \<le> 6 * ?N * ?s" using N(1) by simp
      then have "f \<le> (6 * ?N * ?s) div (6 * ?N)" unfolding f_def by (rule div_le_mono)
      then show ?thesis using N(1) by simp
    qed
    then have "f < 2 ^ 30" using s by simp
    note K = pow2roundup_bounds(1-3) [OF this, folded K_def]
    have fN: "6 * (f * ?N) \<le> 5 * ?s" "5 * ?s < 6 * (f * ?N) + 6 * ?N"
      using N(1) div_times_less_eq_dividend [of "5 * ?s" "6 * ?N"] dividend_less_div_times [of "6 * ?N" "5 * ?s"]
      by (simp_all add: f_def mult_ac)
    have "K * ?N \<le> 2 * max 1 f * ?N" using K(3) by (rule mult_right_mono) simp
    also have "\<dots> \<le> 2 * ?N + 2 * (f * ?N)" by (cases f) auto
    finally have KN: "K * ?N < 2 ^ 32" using fN(1) N(2) s by simp
    have n: "status_buckets rat_fpu t = scast (inc_by_pow2 rat_fpu t) * num_buckets t"
      using False by (auto simp: status_buckets_def resize_buckets_def r_def rat_fpu_def CLHT_PERC_FULL_HALVE_def Let_def)
    have "unat (scast (inc_by_pow2 rat_fpu t) :: u64) = K"
      using exact_factor [OF _ N(2) s] N(1) by (simp add: K_def f_def)
    then have un: "unat (status_buckets rat_fpu t) = K * ?N" using KN by (simp add: n unat_word_ariths)
    have "f * ?N \<le> K * ?N" "2 * ?N \<le> K * ?N" using K(1,2) by (auto intro: mult_right_mono)
    then have "?s < 3 * (K * ?N)" using fN(2) N(1) by linarith
    moreover have "0 < K * ?N" using K(1) N(1) by simp
    ultimately show ?thesis using un KN avail by (auto simp: new_size_fits_def word_less_nat_alt)
  qed
qed

lemma exact_put:
  assumes "clht_ok h" and "k \<noteq> 0" and "ht_map (ht h) k = None" and "length junk = ENTRIES_PER_BUCKET" and "\<And>n. avail n"
    and "8 \<le> unat (num_buckets (ht h))" and "unat (num_buckets (ht h)) \<le> 2 ^ 28" and "clht_size (ht h) < 2 ^ 28"
  obtains h' where "clht_put (Suc (Suc fuel)) rat_fpu avail junk (Some i) h k v = Inr (True, h')" and "clht_ok h'"
    and "ht_map (ht h') = (ht_map (ht h))(k \<mapsto> v)"
proof -
  have fit: "new_size_fits avail (Suc (clht_size (ht h))) (status_buckets rat_fpu t)"
    if "clht_size t = Suc (clht_size (ht h))" "num_buckets t = num_buckets (ht h)" for t
    using exact_fits [of t avail] that assms(5-8) by simp
  show thesis
    by (rule clht_put_correct [where F = rat_fpu and avail = avail and i = i and v = v and fuel = fuel,
          OF assms(1,2,4,3)]) (use fit that assms(7) in \<open>auto simp: word_less_nat_alt\<close>)
qed

end
