(* ===== verification/Logdb.thy ===== *)
theory Logdb
  imports Kvlog Clht_Growth Tree_Interface
begin

text \<open>
  The log database of \<^verbatim>\<open>src/include/logdb.h\<close> for 8-byte values: values are appended to the log, an
  index behind the interface \<^verbatim>\<open>Tree\<close> maps a key to the position of its newest record, and lookups
  go through the hash table as a read cache (\<^verbatim>\<open>USE_CACHE\<close>, \<^verbatim>\<open>USE_CLHT_CACHE\<close>, without
  \<^verbatim>\<open>SCAN_USE_THREAD_POOL\<close>). The hash function \<^verbatim>\<open>XXH3_64bits\<close>, the outcome of mapping a file, the
  executing thread and uninitialised memory are the environment. A call that does not return and
  the faults of the parts are errors.
\<close>

record ('d, 'l) env =
  xxh3 :: "u64 \<Rightarrow> u64"
  e_mapped :: "nat \<times> nat \<times> nat \<Rightarrow> bool"
  e_shards :: nat
  global_thread_id :: nat
  e_raw_pair :: Pair_t
  e_raw_info :: last_log_offest
  e_fpu :: "('d, 'l) fpu"
  e_avail :: "u64 \<Rightarrow> bool"
  e_junk :: "u64 list"
  e_ts :: "int option"
  e_depth :: nat

record 's logdb =
  db :: 's
  log_kv :: logkv
  clht_cache :: clht_t
  get_cnt :: u64

datatype db_fault = NoReturn | LogFault fault | CacheFault clht_fault | BadAddress | ExitWrongKey

definition CACHE_SAMPLE :: u64 where "CACHE_SAMPLE = 4"

section \<open>Operations\<close>

definition logdb_insert :: "('d, 'l) env \<Rightarrow> 's tree_ops \<Rightarrow> 's logdb \<Rightarrow> u64 \<Rightarrow> u64 \<Rightarrow> db_fault + (bool \<times> 's logdb)" where
  "logdb_insert E T S key payload =
     (let key_hash = xxh3 E key
      in case LogKV_insert (e_mapped E) (e_shards E) (log_kv S) (global_thread_id E) (e_raw_pair E) (e_raw_info E) key payload key_hash of
           Inl e \<Rightarrow> Inl (LogFault e)
         | Inr (l, off) \<Rightarrow>
             (case t_insert T (db S) key off of
                None \<Rightarrow> Inl NoReturn
              | Some (ret, d) \<Rightarrow> Inr (ret, S\<lparr>db := d, log_kv := l\<rparr>)))"

text \<open>The payload of the record at an address: \<^verbatim>\<open>memcpy(&payload, pmem_addr + 16, 8)\<close>.\<close>

definition read_payload :: "logkv \<Rightarrow> nat option \<times> nat \<Rightarrow> db_fault + u64" where
  "read_payload s a = (case fst a of None \<Rightarrow> Inl BadAddress | Some b \<Rightarrow> Inr (pmem s b (snd a + 16)))"

text \<open>\<^verbatim>\<open>search\<close>: the result, the payload and the state; \<^verbatim>\<open>hit_cnt\<close> is a statistic.\<close>

definition logdb_search :: "('d, 'l) env \<Rightarrow> 's tree_ops \<Rightarrow> 's logdb \<Rightarrow> u64 \<Rightarrow> db_fault + (bool \<times> u64 \<times> 's logdb)" where
  "logdb_search E T S key =
     (let key_hash = xxh3 E key;
          S = S\<lparr>get_cnt := get_cnt S + 1\<rparr>;
          payload = clht_get (ht (clht_cache S)) key
      in if payload \<noteq> 0 then Inr (True, payload, S)
         else case t_search T (db S) key 0 of
                None \<Rightarrow> Inl NoReturn
              | Some (ret, addr_info) \<Rightarrow>
                  if \<not> ret then Inr (False, payload, S)
                  else case read_payload (log_kv S) (get_addr (e_shards E) (log_kv S) (of_addr_info addr_info) key_hash) of
                         Inl e \<Rightarrow> Inl e
                       | Inr payload \<Rightarrow>
                           if get_cnt S mod CACHE_SAMPLE = 0
                           then case clht_put (e_depth E) (e_fpu E) (e_avail E) (e_junk E) (e_ts E) (clht_cache S) key payload of
                                  Inl e \<Rightarrow> Inl (CacheFault e)
                                | Inr (_, c) \<Rightarrow> Inr (ret, payload, S\<lparr>clht_cache := c\<rparr>)
                           else Inr (ret, payload, S))"

text \<open>\<^verbatim>\<open>erase\<close>: the old position comes from a lookup before the removal, 0 for an absent key.\<close>

definition logdb_erase :: "('d, 'l) env \<Rightarrow> 's tree_ops \<Rightarrow> 's logdb \<Rightarrow> u64 \<Rightarrow> u64 \<Rightarrow> db_fault + (bool \<times> 's logdb)" where
  "logdb_erase E T S o_log_offset key =
     (let key_hash = xxh3 E key
      in case t_search T (db S) key 0 of
           None \<Rightarrow> Inl NoReturn
         | Some (_, addr_info) \<Rightarrow>
             (case t_erase T (db S) key (Some o_log_offset) of
                None \<Rightarrow> Inl NoReturn
              | Some (ret, _, d) \<Rightarrow>
                  (case LogKV_erase (e_mapped E) (e_shards E) (log_kv S) (global_thread_id E) (e_raw_pair E) (e_raw_info E) key key_hash addr_info of
                     Inl e \<Rightarrow> Inl (LogFault e)
                   | Inr l \<Rightarrow> Inr (ret, S\<lparr>db := d, log_kv := l\<rparr>))))"

text \<open>\<^verbatim>\<open>update\<close>: the record is reserved, the index updated, and the record written last.\<close>

definition logdb_update :: "('d, 'l) env \<Rightarrow> 's tree_ops \<Rightarrow> 's logdb \<Rightarrow> u64 \<Rightarrow> u64 \<Rightarrow> u64 \<Rightarrow> db_fault + (bool \<times> 's logdb)" where
  "logdb_update E T S raw_offset key payload =
     (let key_hash = xxh3 E key;
          p = Pair_t_new (e_raw_pair E) key payload
      in case LogKV_update_step1 (e_mapped E) (e_shards E) (log_kv S) (global_thread_id E) (e_raw_info E) key_hash p of
           Inl e \<Rightarrow> Inl (LogFault e)
         | Inr (l, p, cur_log_addr, addr, off) \<Rightarrow>
             (case t_update T (db S) key cur_log_addr raw_offset of
                None \<Rightarrow> Inl NoReturn
              | Some (ret, old, d) \<Rightarrow>
                  if \<not> ret then Inr (False, S\<lparr>db := d, log_kv := l\<rparr>)
                  else case store_log l (set_last_log_offest p old) addr off of
                         Inl e \<Rightarrow> Inl (LogFault e)
                       | Inr l' \<Rightarrow> Inr (True, S\<lparr>db := d, log_kv := l'\<rparr>)))"

fun bulk_load_log :: "('d, 'l) env \<Rightarrow> logkv \<Rightarrow> (u64 \<times> u64) list \<Rightarrow> fault + (logkv \<times> (u64 \<times> u64) list)" where
  "bulk_load_log E l [] = Inr (l, [])"
| "bulk_load_log E l ((k, v) # kvs) =
     (case LogKV_insert (e_mapped E) (e_shards E) l (global_thread_id E) (e_raw_pair E) (e_raw_info E) k v (xxh3 E k) of
        Inl e \<Rightarrow> Inl e
      | Inr (l', off) \<Rightarrow> (case bulk_load_log E l' kvs of
          Inl e \<Rightarrow> Inl e
        | Inr (l'', rest) \<Rightarrow> Inr (l'', (k, off) # rest)))"

definition logdb_bulk_load :: "('d, 'l) env \<Rightarrow> 's tree_ops \<Rightarrow> 's logdb \<Rightarrow> (u64 \<times> u64) list \<Rightarrow> db_fault + 's logdb" where
  "logdb_bulk_load E T S kvs =
     (case bulk_load_log E (log_kv S) kvs of
        Inl e \<Rightarrow> Inl (LogFault e)
      | Inr (l, dram_kvs) \<Rightarrow> (case t_bulk_load T (db S) dram_kvs of
          None \<Rightarrow> Inl NoReturn
        | Some d \<Rightarrow> Inr (S\<lparr>db := d, log_kv := l\<rparr>)))"

definition get_value_log_addr :: "('d, 'l) env \<Rightarrow> 's tree_ops \<Rightarrow> 's logdb \<Rightarrow> u64 \<Rightarrow> db_fault + (nat option \<times> nat)" where
  "get_value_log_addr E T S key =
     (case t_search T (db S) key 0 of
        None \<Rightarrow> Inl NoReturn
      | Some (ret, addr_info) \<Rightarrow>
          if \<not> ret then Inl ExitWrongKey
          else Inr (get_addr (e_shards E) (log_kv S) (of_addr_info addr_info) (xxh3 E key)))"

text \<open>The constructor without recovery; \<open>n\<close> is \<^verbatim>\<open>CLHT_NUM_BUCKETS\<close>. A null cache is dereferenced later.\<close>

definition CLHT_NUM_BUCKETS :: u64 where "CLHT_NUM_BUCKETS = 1024 * 1024 * 4"

definition logdb_new :: "('d, 'l) env \<Rightarrow> 's \<Rightarrow> u64 \<Rightarrow> db_fault + 's logdb" where
  "logdb_new E d n =
     (case LogKV_new (e_mapped E) (e_shards E) False of
        Inl e \<Rightarrow> Inl (LogFault e)
      | Inr l \<Rightarrow> (case clht_create (e_avail E) n of
          None \<Rightarrow> Inl (CacheFault NullPointer)
        | Some c \<Rightarrow> Inr \<lparr>db = d, log_kv = l, clht_cache = c, get_cnt = 0\<rparr>))"

section \<open>What the database denotes\<close>

definition log_map :: "('d, 'l) env \<Rightarrow> logkv \<Rightarrow> (u64 \<rightharpoonup> u64) \<Rightarrow> (u64 \<rightharpoonup> u64)" where
  "log_map E l m k = map_option (\<lambda>w. pair_value (log_pair (e_shards E) l (xxh3 E k) w)) (m k)"

text \<open>The index holds positions of issued records with the right key.\<close>

definition indexed :: "('d, 'l) env \<Rightarrow> logkv \<Rightarrow> (u64 \<rightharpoonup> u64) \<Rightarrow> bool" where
  "indexed E l m \<longleftrightarrow> (\<forall>k w. m k = Some w \<longrightarrow>
     log_live (e_shards E) l (xxh3 E k) w \<and> pair_key (log_pair (e_shards E) l (xxh3 E k) w) = k)"

definition logdb_ok :: "('s \<Rightarrow> bool) \<Rightarrow> ('s \<Rightarrow> u64 \<rightharpoonup> u64) \<Rightarrow> ('d, 'l) env \<Rightarrow> 's logdb \<Rightarrow> bool" where
  "logdb_ok good tmap E S \<longleftrightarrow> good (db S) \<and> log_wf (e_shards E) (log_kv S) \<and> indexed E (log_kv S) (tmap (db S))"

definition logdb_map :: "('s \<Rightarrow> u64 \<rightharpoonup> u64) \<Rightarrow> ('d, 'l) env \<Rightarrow> 's logdb \<Rightarrow> u64 \<rightharpoonup> u64" where
  "logdb_map tmap E S = log_map E (log_kv S) (tmap (db S))"

text \<open>The cache holds only values that the database has.\<close>

definition coherent :: "('s \<Rightarrow> u64 \<rightharpoonup> u64) \<Rightarrow> ('d, 'l) env \<Rightarrow> 's logdb \<Rightarrow> bool" where
  "coherent tmap E S \<longleftrightarrow> clht_ok (clht_cache S) \<and> (\<forall>k v. ht_map (ht (clht_cache S)) k = Some v \<longrightarrow> logdb_map tmap E S k = Some v)"

text \<open>
  Room for a record of the calling thread; and an insertion into the cache links no bucket that makes
  the table resize (which a thread without \<^verbatim>\<open>clht_gc_thread_init\<close>, that is every thread of the program,
  does not survive).
\<close>

abbreviation log_room :: "('d, 'l) env \<Rightarrow> 's logdb \<Rightarrow> u64 \<Rightarrow> bool" where
  "log_room E S k \<equiv> has_room (e_mapped E) (e_shards E) (log_kv S) (global_thread_id E) (xxh3 E k)"

definition cache_room :: "('d, 'l) env \<Rightarrow> clht_t \<Rightarrow> bool" where
  "cache_room E c \<longleftrightarrow> length (e_junk E) = ENTRIES_PER_BUCKET \<and> num_expands (ht c) + 1 \<noteq> num_expands_threshold (ht c)"

lemma indexed_extends:
  assumes "indexed E l m" and "log_extends (e_shards E) l l'"
  shows "indexed E l' m" and "log_map E l' m = log_map E l m"
proof -
  have keep: "log_live (e_shards E) l' (xxh3 E k) w \<and> log_pair (e_shards E) l' (xxh3 E k) w = log_pair (e_shards E) l (xxh3 E k) w"
    if "m k = Some w" for k w
    using assms that unfolding indexed_def log_extends_def by blast
  show "indexed E l' m" using assms(1) keep by (simp add: indexed_def)
  show "log_map E l' m = log_map E l m" using keep by (auto simp: log_map_def fun_eq_iff map_option_case split: option.splits)
qed

lemma indexed_update:
  assumes "indexed E l m" and app: "appended (e_shards E) l l' (xxh3 E k) w p" and "pair_key p = k"
  shows "indexed E l' (m(k \<mapsto> w))" and "log_map E l' (m(k \<mapsto> w)) = (log_map E l m)(k \<mapsto> pair_value p)"
proof -
  have ext: "log_extends (e_shards E) l l'" and p: "log_pair (e_shards E) l' (xxh3 E k) w = p" "log_live (e_shards E) l' (xxh3 E k) w"
    using app by (simp_all add: appended_def)
  note old = indexed_extends [OF assms(1) ext]
  show "indexed E l' (m(k \<mapsto> w))" using old(1) p assms(3) by (simp add: indexed_def)
  show "log_map E l' (m(k \<mapsto> w)) = (log_map E l m)(k \<mapsto> pair_value p)"
    using p old(2) by (auto simp: log_map_def fun_eq_iff)
qed

lemma log_map_add: "log_map E l (m ++ n) = log_map E l m ++ log_map E l n"
  by (auto simp: log_map_def map_add_def fun_eq_iff split: option.splits)

lemma log_map_remove: "log_map E l (m(k := None)) = (log_map E l m)(k := None)"
  by (auto simp: log_map_def)

lemma read_live:
  assumes "log_live (e_shards E) l h w"
  shows "read_payload l (get_addr (e_shards E) l (of_addr_info w) h) = Inr (pair_value (log_pair (e_shards E) l h w))"
  using assms by (auto simp: log_live_def live_at_def read_payload_def get_addr_def log_pair_def pair_at_def load_pair_def Let_def)

lemma log_map_None: "log_map E l m k = None \<longleftrightarrow> m k = None"
  by (simp add: log_map_def)

text \<open>
  The records that an update and a removal append: the new value, the next version of the shard, and a
  back pointer to the record that the index had. A removal leaves the value of the object unset.
\<close>

definition update_record :: "nat \<Rightarrow> logkv \<Rightarrow> u64 \<Rightarrow> u64 \<Rightarrow> u64 \<Rightarrow> u64 \<Rightarrow> Pair_t" where
  "update_record shards s hash_key key payload old =
     \<lparr>pair_op = op_code UPDATE, pair_version = next_version shards s hash_key, pair_key = key, pair_value = payload, u_offset = old\<rparr>"

definition erase_record :: "Pair_t \<Rightarrow> nat \<Rightarrow> logkv \<Rightarrow> u64 \<Rightarrow> u64 \<Rightarrow> u64 \<Rightarrow> Pair_t" where
  "erase_record raw shards s hash_key key old =
     raw\<lparr>pair_op := op_code DELETE, pair_version := next_version shards s hash_key, pair_key := key, u_offset := old\<rparr>"

section \<open>Correctness\<close>

context tree_index
begin

abbreviation ok :: "('d, 'l) env \<Rightarrow> 's logdb \<Rightarrow> bool" where "ok E S \<equiv> logdb_ok good tmap E S"
abbreviation smap :: "('d, 'l) env \<Rightarrow> 's logdb \<Rightarrow> u64 \<rightharpoonup> u64" where "smap E S \<equiv> logdb_map tmap E S"

lemma logdb_insert_correct:
  assumes S: "ok E S" and room: "log_room E S k" and key: "k \<in> keys" and new: "smap E S k = None"
  obtains S' where "logdb_insert E T S k v = Inr (ins, S')" and "ok E S'" and "smap E S' = (smap E S)(k \<mapsto> v)"
    and "coherent tmap E S \<Longrightarrow> coherent tmap E S'"
proof -
  have d: "good (db S)" and wf: "log_wf (e_shards E) (log_kv S)" and ix: "indexed E (log_kv S) (tmap (db S))"
    using S by (simp_all add: logdb_ok_def)
  obtain l w where l: "LogKV_insert (e_mapped E) (e_shards E) (log_kv S) (global_thread_id E) (e_raw_pair E) (e_raw_info E) k v (xxh3 E k) = Inr (l, w)"
    and app: "appended (e_shards E) (log_kv S) l (xxh3 E k) w (insert_record (e_shards E) (log_kv S) (xxh3 E k) k v)"
    by (rule LogKV_insert_ok [OF wf room])
  have "tmap (db S) k = None" using new by (simp add: logdb_map_def log_map_None)
  then obtain d' where d': "t_insert T (db S) k w = Some (ins, d')" "good d'" "tmap d' = (tmap (db S))(k \<mapsto> w)"
    using insert_law [OF d key] by blast
  note up = indexed_update [OF ix app, of]
  let ?S = "S\<lparr>db := d', log_kv := l\<rparr>"
  have m: "smap E ?S = (smap E S)(k \<mapsto> v)" using up(2) d'(3) by (simp add: logdb_map_def insert_record_def)
  have "coherent tmap E ?S" if coh: "coherent tmap E S"
  proof -
    have "ht_map (ht (clht_cache S)) k = None" using coh new by (cases "ht_map (ht (clht_cache S)) k") (auto simp: coherent_def)
    then show ?thesis using coh by (auto simp: coherent_def m)
  qed
  moreover have "ok E ?S" using up(1) d' app by (simp add: logdb_ok_def insert_record_def appended_def)
  ultimately show thesis using that l d'(1) m by (simp add: logdb_insert_def)
qed

lemma logdb_search_correct:
  assumes S: "ok E S" and coh: "coherent tmap E S" and k: "k \<noteq> 0" and room: "cache_room E (clht_cache S)"
  obtains S' where "logdb_search E T S k = Inr (case smap E S k of None \<Rightarrow> (False, 0, S') | Some v \<Rightarrow> (True, v, S'))"
    and "ok E S'" and "coherent tmap E S'" and "smap E S' = smap E S"
proof -
  have d: "good (db S)" and ix: "indexed E (log_kv S) (tmap (db S))" using S by (simp_all add: logdb_ok_def)
  let ?c = "clht_cache S" and ?S = "S\<lparr>get_cnt := get_cnt S + 1\<rparr>"
  have cok: "clht_ok ?c" and coh': "\<And>k v. ht_map (ht ?c) k = Some v \<Longrightarrow> smap E S k = Some v"
    using coh by (simp_all add: coherent_def)
  have okS: "ok E ?S" "coherent tmap E ?S" "smap E ?S = smap E S"
    using S coh by (simp_all add: logdb_ok_def coherent_def logdb_map_def)
  have get: "clht_get (ht ?c) k = (case ht_map (ht ?c) k of None \<Rightarrow> 0 | Some v \<Rightarrow> v)"
    using cok k by (intro clht_get_correct) (simp_all add: clht_ok_def)
  show thesis
  proof (cases "clht_get (ht ?c) k = 0")
    case False
    then obtain v where v: "ht_map (ht ?c) k = Some v" "clht_get (ht ?c) k = v" using get by (cases "ht_map (ht ?c) k") auto
    then have "logdb_search E T S k = Inr (True, v, ?S)" using False by (simp add: logdb_search_def Let_def)
    then show thesis using that [of ?S] okS coh' [OF v(1)] by simp
  next
    case miss: True
    show thesis
    proof (cases "tmap (db S) k")
      case None
      then have "logdb_search E T S k = Inr (False, 0, ?S)"
        using miss search_law [OF d, of k 0] by (simp add: logdb_search_def Let_def)
      moreover have "smap E S k = None" using None by (simp add: logdb_map_def log_map_None)
      ultimately show thesis using that [of ?S] okS by simp
    next
      case (Some w)
      define v where "v = pair_value (log_pair (e_shards E) (log_kv S) (xxh3 E k) w)"
      have sv: "smap E S k = Some v" using Some by (simp add: logdb_map_def log_map_def v_def)
      have rd: "read_payload (log_kv S) (get_addr (e_shards E) (log_kv S) (of_addr_info w) (xxh3 E k)) = Inr v"
        using ix Some by (simp add: indexed_def v_def read_live)
      have srch: "t_search T (db S) k 0 = Some (True, w)" using search_law [OF d, of k 0] Some by simp
      show thesis
      proof (cases "(get_cnt S + 1) mod CACHE_SAMPLE = 0")
        case False
        then have "logdb_search E T S k = Inr (True, v, ?S)"
          using miss srch rd by (simp add: logdb_search_def Let_def)
        then show thesis using that [of ?S] okS sv by simp
      next
        case sample: True
        obtain c' b where c': "clht_put (e_depth E) (e_fpu E) (e_avail E) (e_junk E) (e_ts E) ?c k v = Inr (b, c')"
          "clht_ok c'" "ht_map (ht c') = ht_map (ht ?c) \<or> ht_map (ht c') = (ht_map (ht ?c))(k \<mapsto> v)"
        proof (cases "ht_map (ht ?c) k")
          case None
          show thesis
            by (rule clht_put_room [where fuel = "e_depth E" and ts = "e_ts E" and v = v and F = "e_fpu E" and avail = "e_avail E", OF cok k _ None])
              (use that room in \<open>auto simp: cache_room_def\<close>)
        next
          case (Some x)
          then have "clht_put (e_depth E) (e_fpu E) (e_avail E) (e_junk E) (e_ts E) ?c k v = Inr (False, ?c)"
            by (intro clht_put_present [OF cok k]) simp
          then show thesis by (rule that) (simp_all add: cok)
        qed
        let ?S' = "?S\<lparr>clht_cache := c'\<rparr>"
        have "logdb_search E T S k = Inr (True, v, ?S')"
          using miss srch rd sample c'(1) by (simp add: logdb_search_def Let_def)
        moreover have "ok E ?S'" "smap E ?S' = smap E S" using S by (simp_all add: logdb_ok_def logdb_map_def)
        moreover have "coherent tmap E ?S'"
          using c'(2,3) coh' sv unfolding coherent_def \<open>smap E ?S' = smap E S\<close> by (auto split: if_splits)
        ultimately show thesis using that [of ?S'] sv by simp
      qed
    qed
  qed
qed

lemma logdb_update_correct:
  assumes S: "ok E S" and room: "log_room E S k" and old: "smap E S k = Some v0"
  obtains S' w0 w where "logdb_update E T S raw k v = Inr (True, S')" and "ok E S'" and "smap E S' = (smap E S)(k \<mapsto> v)"
    and "clht_cache S' = clht_cache S" and "tmap (db S) k = Some w0" and "tmap (db S') k = Some w"
    and "appended (e_shards E) (log_kv S) (log_kv S') (xxh3 E k) w (update_record (e_shards E) (log_kv S) (xxh3 E k) k v w0)"
proof -
  have d: "good (db S)" and wf: "log_wf (e_shards E) (log_kv S)" and ix: "indexed E (log_kv S) (tmap (db S))"
    using S by (simp_all add: logdb_ok_def)
  let ?p = "(Pair_t_new (e_raw_pair E) k v)\<lparr>pair_op := op_code UPDATE, pair_version := next_version (e_shards E) (log_kv S) (xxh3 E k)\<rparr>"
  obtain l w b off where l: "LogKV_update_step1 (e_mapped E) (e_shards E) (log_kv S) (global_thread_id E) (e_raw_info E) (xxh3 E k)
      (Pair_t_new (e_raw_pair E) k v) = Inr (l, ?p, w, Some b, off)"
    and app: "\<And>q. appended (e_shards E) (log_kv S) (store_at l q b off) (xxh3 E k) w q"
    by (rule LogKV_update_step1_ok [OF wf room, where p = "Pair_t_new (e_raw_pair E) k v"]) blast
  obtain w0 where w0: "tmap (db S) k = Some w0" using old by (auto simp: logdb_map_def log_map_def)
  then obtain d' where d': "t_update T (db S) k w raw = Some (True, w0, d')" "good d'" "tmap d' = (tmap (db S))(k \<mapsto> w)"
    using update_found [OF d] by blast
  let ?q = "set_last_log_offest ?p w0"
  let ?S = "S\<lparr>db := d', log_kv := store_at l ?q b off\<rparr>"
  have q: "pair_key ?q = k" "pair_value ?q = v" "?q = update_record (e_shards E) (log_kv S) (xxh3 E k) k v w0"
    by (simp_all add: set_last_log_offest_def Pair_t_new_def update_record_def)
  note up = indexed_update [OF ix app q(1)]
  have "logdb_update E T S raw k v = Inr (True, ?S)" using l d'(1) by (simp add: logdb_update_def store_log_def)
  moreover have "ok E ?S" using up(1) d' app [of ?q] by (simp add: logdb_ok_def appended_def)
  moreover have "smap E ?S = (smap E S)(k \<mapsto> v)" using up(2) d'(3) q(2) by (simp add: logdb_map_def)
  moreover have "appended (e_shards E) (log_kv S) (log_kv ?S) (xxh3 E k) w (update_record (e_shards E) (log_kv S) (xxh3 E k) k v w0)"
    using app [of ?q] q(3) by simp
  ultimately show thesis using that [of ?S w0 w] w0 d'(3) by simp
qed

lemma logdb_update_absent:
  assumes S: "ok E S" and room: "log_room E S k" and old: "smap E S k = None"
  obtains S' where "logdb_update E T S raw k v = Inr (False, S')" and "ok E S'" and "smap E S' = smap E S"
    and "clht_cache S' = clht_cache S"
proof -
  have d: "good (db S)" and wf: "log_wf (e_shards E) (log_kv S)" and ix: "indexed E (log_kv S) (tmap (db S))"
    using S by (simp_all add: logdb_ok_def)
  obtain l p w b off where l: "LogKV_update_step1 (e_mapped E) (e_shards E) (log_kv S) (global_thread_id E) (e_raw_info E) (xxh3 E k)
      (Pair_t_new (e_raw_pair E) k v) = Inr (l, p, w, Some b, off)"
    and l': "log_wf (e_shards E) l" "log_extends (e_shards E) (log_kv S) l"
    by (rule LogKV_update_step1_ok [OF wf room, where p = "Pair_t_new (e_raw_pair E) k v"]) blast
  have none: "tmap (db S) k = None" using old by (simp add: logdb_map_def log_map_None)
  let ?S = "S\<lparr>db := db S, log_kv := l\<rparr>"
  have "logdb_update E T S raw k v = Inr (False, ?S)"
    using l update_missing [OF d none] by (simp add: logdb_update_def)
  moreover have "ok E ?S" "smap E ?S = smap E S"
    using indexed_extends [OF ix l'(2)] l'(1) d by (simp_all add: logdb_ok_def logdb_map_def)
  ultimately show thesis using that by simp
qed

lemma logdb_erase_correct:
  assumes S: "ok E S" and room: "log_room E S k"
  obtains S' w where "logdb_erase E T S raw k = Inr (smap E S k \<noteq> None, S')" and "ok E S'"
    and "smap E S' = (smap E S)(k := None)" and "clht_cache S' = clht_cache S"
    and "appended (e_shards E) (log_kv S) (log_kv S') (xxh3 E k) w (erase_record (e_raw_pair E) (e_shards E) (log_kv S) (xxh3 E k) k
      (case tmap (db S) k of None \<Rightarrow> 0 | Some w0 \<Rightarrow> w0))"
proof -
  have d: "good (db S)" and wf: "log_wf (e_shards E) (log_kv S)" and ix: "indexed E (log_kv S) (tmap (db S))"
    using S by (simp_all add: logdb_ok_def)
  have iff: "smap E S k \<noteq> None \<longleftrightarrow> tmap (db S) k \<noteq> None" by (simp add: logdb_map_def log_map_None)
  let ?a = "case tmap (db S) k of None \<Rightarrow> 0 | Some w0 \<Rightarrow> w0"
  obtain b where srch: "t_search T (db S) k 0 = Some (b, ?a)" using search_law [OF d, of k 0] by (cases "tmap (db S) k") auto
  obtain d' out where er: "t_erase T (db S) k (Some raw) = Some (tmap (db S) k \<noteq> None, out, d')" "good d'"
    "tmap d' = (tmap (db S))(k := None)"
  proof (cases "tmap (db S) k")
    case None
    then have "(tmap (db S))(k := None) = tmap (db S)" by auto
    with None show thesis using that [of "Some raw" "db S"] erase_missing [OF d None] d by simp
  next
    case (Some w)
    then show thesis using erase_found [OF d Some, of "Some raw"] that by auto
  qed
  obtain l w where l: "LogKV_erase (e_mapped E) (e_shards E) (log_kv S) (global_thread_id E) (e_raw_pair E) (e_raw_info E) k (xxh3 E k) ?a = Inr l"
    and app: "appended (e_shards E) (log_kv S) l (xxh3 E k) w (erase_record (e_raw_pair E) (e_shards E) (log_kv S) (xxh3 E k) k ?a)"
    unfolding erase_record_def by (rule LogKV_erase_ok [OF wf room])
  have l': "log_wf (e_shards E) l" "log_extends (e_shards E) (log_kv S) l" using app by (simp_all add: appended_def)
  note ext = indexed_extends [OF ix l'(2)]
  let ?S = "S\<lparr>db := d', log_kv := l\<rparr>"
  have "logdb_erase E T S raw k = Inr (smap E S k \<noteq> None, ?S)"
    using srch er(1) l iff by (simp add: logdb_erase_def)
  moreover have "ok E ?S" using ext(1) er l'(1) by (auto simp: logdb_ok_def indexed_def)
  moreover have "smap E ?S = (smap E S)(k := None)" using ext(2) er(3) by (simp add: logdb_map_def log_map_remove)
  ultimately show thesis using that [of ?S w] app by simp
qed

text \<open>Updates and removals keep the cache coherent when the key is not cached.\<close>

lemma coherent_uncached:
  assumes "coherent tmap E S" and "clht_cache S' = clht_cache S" and "ht_map (ht (clht_cache S)) k = None"
    and "smap E S' = (smap E S)(k := x)"
  shows "coherent tmap E S'"
  using assms by (auto simp: coherent_def)

text \<open>A cached value is returned without a look at the index.\<close>

lemma search_cached:
  assumes "clht_ok (clht_cache S)" and "k \<noteq> 0" and "ht_map (ht (clht_cache S)) k = Some v" and "v \<noteq> 0"
  shows "logdb_search E T S k = Inr (True, v, S\<lparr>get_cnt := get_cnt S + 1\<rparr>)"
  using clht_get_correct [of "ht (clht_cache S)" k] assms by (simp add: logdb_search_def clht_ok_def Let_def)

lemma stale_after_update:
  assumes S: "ok E S" and room: "log_room E S k" and coh: "coherent tmap E S" and k: "k \<noteq> 0"
    and c: "ht_map (ht (clht_cache S)) k = Some v0" "v0 \<noteq> 0"
  obtains S' S'' where "logdb_update E T S raw k v = Inr (True, S')" and "smap E S' k = Some v"
    and "logdb_search E T S' k = Inr (True, v0, S'')"
proof -
  have "smap E S k = Some v0" and cok: "clht_ok (clht_cache S)" using coh c by (simp_all add: coherent_def)
  then obtain S' where u: "logdb_update E T S raw k v = Inr (True, S')" "ok E S'" "smap E S' = (smap E S)(k \<mapsto> v)"
    "clht_cache S' = clht_cache S"
    using logdb_update_correct [OF S room, of v0 raw v] by blast
  have "logdb_search E T S' k = Inr (True, v0, S'\<lparr>get_cnt := get_cnt S' + 1\<rparr>)"
    using search_cached [of S' k v0 E] cok k c u(4) by simp
  then show thesis using that u by simp
qed

end

text \<open>Every record of a bulk load finds room.\<close>

fun bulk_room :: "('d, 'l) env \<Rightarrow> logkv \<Rightarrow> (u64 \<times> u64) list \<Rightarrow> bool" where
  "bulk_room E l [] = True"
| "bulk_room E l ((k, v) # kvs) =
     (has_room (e_mapped E) (e_shards E) l (global_thread_id E) (xxh3 E k) \<and>
      (case LogKV_insert (e_mapped E) (e_shards E) l (global_thread_id E) (e_raw_pair E) (e_raw_info E) k v (xxh3 E k) of
         Inl e \<Rightarrow> True
       | Inr (l', off) \<Rightarrow> bulk_room E l' kvs))"

lemma bulk_load_log_correct:
  assumes "log_wf (e_shards E) l" and "bulk_room E l kvs" and "distinct (map fst kvs)"
  shows "\<exists>l' ds. bulk_load_log E l kvs = Inr (l', ds) \<and> log_wf (e_shards E) l' \<and> log_extends (e_shards E) l l' \<and>
    map fst ds = map fst kvs \<and> indexed E l' (map_of ds) \<and> log_map E l' (map_of ds) = map_of kvs"
  using assms
proof (induction kvs arbitrary: l)
  case Nil
  then show ?case by (simp add: log_extends_refl indexed_def log_map_def fun_eq_iff)
next
  case (Cons kv kvs)
  obtain k v where kv: "kv = (k, v)" by fastforce
  have room: "has_room (e_mapped E) (e_shards E) l (global_thread_id E) (xxh3 E k)" using Cons.prems(2) kv by simp
  obtain l1 w where l1: "LogKV_insert (e_mapped E) (e_shards E) l (global_thread_id E) (e_raw_pair E) (e_raw_info E) k v (xxh3 E k) = Inr (l1, w)"
    and app: "appended (e_shards E) l l1 (xxh3 E k) w (insert_record (e_shards E) l (xxh3 E k) k v)"
    by (rule LogKV_insert_ok [OF Cons.prems(1) room])
  have wf1: "log_wf (e_shards E) l1" and ext1: "log_extends (e_shards E) l l1"
    and rd: "log_pair (e_shards E) l1 (xxh3 E k) w = insert_record (e_shards E) l (xxh3 E k) k v" "log_live (e_shards E) l1 (xxh3 E k) w"
    using app by (simp_all add: appended_def)
  obtain l' ds where ih: "bulk_load_log E l1 kvs = Inr (l', ds)" "log_wf (e_shards E) l'" "log_extends (e_shards E) l1 l'"
    "map fst ds = map fst kvs" "indexed E l' (map_of ds)" "log_map E l' (map_of ds) = map_of kvs"
    using Cons.IH [OF wf1] Cons.prems l1 kv by auto
  have keep: "log_live (e_shards E) l' (xxh3 E k) w" "log_pair (e_shards E) l' (xxh3 E k) w = insert_record (e_shards E) l (xxh3 E k) k v"
    using ih(3) rd unfolding log_extends_def by auto
  have "indexed E l' (map_of ((k, w) # ds))" using ih(5) keep by (simp add: indexed_def insert_record_def)
  moreover have "log_map E l' (map_of ((k, w) # ds)) = map_of (kv # kvs)"
    using ih(6) keep(2) by (auto simp: kv log_map_def insert_record_def fun_eq_iff)
  moreover have "bulk_load_log E l (kv # kvs) = Inr (l', (k, w) # ds)" using l1 ih(1) kv by simp
  moreover have "map fst ((k, w) # ds) = map fst (kv # kvs)" using ih(4) kv by simp
  ultimately show ?case using ih(2) log_extends_trans [OF ext1 ih(3)] by blast
qed

context bulk_index
begin

lemma logdb_bulk_load_correct:
  assumes S: "logdb_ok good tmap E S" and room: "bulk_room E (log_kv S) kvs" and d: "distinct (map fst kvs)"
    and keys: "fst ` set kvs \<subseteq> keys" and new: "\<forall>k\<in>fst ` set kvs. logdb_map tmap E S k = None"
  obtains S' where "logdb_bulk_load E T S kvs = Inr S'" and "logdb_ok good tmap E S'"
    and "logdb_map tmap E S' = logdb_map tmap E S ++ map_of kvs"
proof -
  have g: "good (db S)" and wf: "log_wf (e_shards E) (log_kv S)" and ix: "indexed E (log_kv S) (tmap (db S))"
    using S by (simp_all add: logdb_ok_def)
  obtain l ds where l: "bulk_load_log E (log_kv S) kvs = Inr (l, ds)" "log_wf (e_shards E) l"
    "log_extends (e_shards E) (log_kv S) l" "map fst ds = map fst kvs" "indexed E l (map_of ds)" "log_map E l (map_of ds) = map_of kvs"
    using bulk_load_log_correct [OF wf room d] by blast
  have fst: "fst ` set ds = fst ` set kvs" using l(4) by (metis list.set_map)
  then have "\<forall>k\<in>fst ` set ds. tmap (db S) k = None" using new by (simp add: logdb_map_def log_map_None)
  moreover have "distinct (map fst ds)" using d l(4) by simp
  ultimately obtain d' where d': "t_bulk_load T (db S) ds = Some d'" "good d'" "tmap d' = tmap (db S) ++ map_of ds"
    using bulk_load_law [OF g] keys fst by metis
  note ext = indexed_extends [OF ix l(3)]
  let ?S = "S\<lparr>db := d', log_kv := l\<rparr>"
  have "logdb_bulk_load E T S kvs = Inr ?S" using l(1) d'(1) by (simp add: logdb_bulk_load_def)
  moreover have "logdb_ok good tmap E ?S"
    using l(2,5) d' ext(1) by (auto simp: logdb_ok_def indexed_def map_add_def split: option.splits)
  moreover have "logdb_map tmap E ?S = logdb_map tmap E S ++ map_of kvs"
    using ext(2) l(6) d'(3) by (simp add: logdb_map_def log_map_add)
  ultimately show thesis using that by blast
qed

end

section \<open>A new database\<close>

lemma logdb_insert_room:
  assumes "log_wf (e_shards E) (log_kv S)"
    and "sz_allocated (ppages (log_kv S) (get_numa_id (global_thread_id E)) (unat (xxh3 E k) mod e_shards E)) + 2 * pair_size \<le> PPAGE_SIZE"
    and "logdb_insert E T S k v = Inr (b, S')"
  shows "log_room E S' k"
  using assms(3) LogKV_insert_room [OF assms(1,2)] by (auto simp: logdb_insert_def Let_def split: sum.splits option.splits)

lemma logdb_new_ok:
  assumes "0 < e_shards E" "e_shards E \<le> max_shards" and "\<And>n h. e_mapped E (n, h, 0)" and n: "n \<noteq> 0" "e_avail E n"
    and "good d" and "tmap d = Map.empty"
  obtains S where "logdb_new E d n = Inr S" and "logdb_ok good tmap E S" and "coherent tmap E S"
    and "logdb_map tmap E S = Map.empty" and "\<And>k. log_room E S k" and "num_expands (ht (clht_cache S)) = 0"
    and "num_buckets (ht (clht_cache S)) = n"
    and "\<And>thread hash_key. sz_allocated (ppages (log_kv S) (get_numa_id thread) (unat (hash_key :: u64) mod e_shards E)) = 0"
proof -
  obtain l where l: "LogKV_new (e_mapped E) (e_shards E) False = Inr l" "log_wf (e_shards E) l"
    and room: "\<And>mapped thread hash_key. has_room mapped (e_shards E) l thread hash_key"
    and sz: "\<And>thread hash_key. sz_allocated (ppages l (get_numa_id thread) (unat (hash_key :: u64) mod e_shards E)) = 0"
    by (rule LogKV_new_ok [of "e_shards E" "e_mapped E"]) (use assms in auto)
  obtain t where t: "clht_hashtable_create (e_avail E) n = Some t" using n by (simp add: clht_hashtable_create_def Let_def)
  then have ex: "num_expands t = 0" by (auto simp: clht_hashtable_create_def Let_def split: if_splits)
  note c = create_ok [OF t]
  let ?c = "\<lparr>ht = t, olds = [], resize_lock = LOCK_FREE, status_lock = LOCK_FREE\<rparr>"
  let ?S = "\<lparr>db = d, log_kv = l, clht_cache = ?c, get_cnt = 0\<rparr>"
  have "logdb_new E d n = Inr ?S" using l(1) t by (simp add: logdb_new_def clht_create_def)
  moreover have "clht_ok ?c" using c(1) by (simp add: clht_ok_def seq_ok_def LOCK_FREE_def)
  then have "coherent tmap E ?S" using c(2) by (simp add: coherent_def)
  moreover have "logdb_ok good tmap E ?S" "logdb_map tmap E ?S = Map.empty"
    using l(2) assms by (simp_all add: logdb_ok_def indexed_def logdb_map_def log_map_def fun_eq_iff)
  ultimately show thesis using that room ex c(3) sz by simp
qed

end
