(* ===== verification/Kvlog_Recovery.thy ===== *)
theory Kvlog_Recovery
  imports Kvlog Tree_Interface "HOL-Library.Multiset" "HOL-Library.Sublist"
begin

text \<open>
  Recovery of the value log (\<^verbatim>\<open>recovery_logkv\<close> of \<^verbatim>\<open>src/src/nali_kvlog.h\<close>): the log files of a
  directory are mapped under the numbers in their names, and the pages are scanned from the newest
  to the oldest; each record up to the first that is not an insertion enters its key into the index.
  The directory (\<^verbatim>\<open>readdir\<close>) and the contents of a mapped file (\<^verbatim>\<open>pmem_map_file\<close>) are parameters.
  The recovery threads share nothing but the index; \<open>order\<close> is the order in which they come to
  the shards.
\<close>

section \<open>File names\<close>

text \<open>\<^verbatim>\<open>std::to_string\<close> of a number that is not negative.\<close>

definition digit :: "nat \<Rightarrow> char" where
  "digit d = char_of (48 + d)"

fun to_string :: "nat \<Rightarrow> string" where
  "to_string n = (if n < 10 then [digit n] else to_string (n div 10) @ [digit (n mod 10)])"

declare to_string.simps [simp del]

definition dir_name :: "nat \<Rightarrow> string" where
  "dir_name i = ''/mnt/pmem'' @ to_string i @ ''/zzy''"

text \<open>The name of a log file inside of its directory, and the path that \<^verbatim>\<open>alloc_new_ppage\<close> builds.\<close>

definition base_name :: "nat \<Rightarrow> nat \<Rightarrow> nat \<Rightarrow> string" where
  "base_name numa hash page = ''nali_'' @ to_string numa @ ''_'' @ to_string hash @ ''_'' @ to_string page"

definition file_name :: "nat \<Rightarrow> nat \<Rightarrow> nat \<Rightarrow> string" where
  "file_name numa hash page = dir_name numa @ ''/'' @ base_name numa hash page"

text \<open>\<^verbatim>\<open>std::string::find\<close> and \<^verbatim>\<open>substr\<close> with 64-bit positions; \<^verbatim>\<open>substr\<close> throws behind the end.\<close>

definition npos :: u64 where "npos = - 1"

fun find_first :: "string \<Rightarrow> string \<Rightarrow> nat option" where
  "find_first pat [] = (if pat = [] then Some 0 else None)"
| "find_first pat (c # s) = (if prefix pat (c # s) then Some 0 else map_option Suc (find_first pat s))"

definition str_size :: "string \<Rightarrow> u64" where
  "str_size s = of_nat (length s)"

definition str_find :: "string \<Rightarrow> string \<Rightarrow> u64 \<Rightarrow> u64" where
  "str_find s pat pos =
     (if str_size s < pos then npos
      else case find_first pat (drop (unat pos) s) of None \<Rightarrow> npos | Some i \<Rightarrow> pos + of_nat i)"

definition substr :: "string \<Rightarrow> u64 \<Rightarrow> u64 \<Rightarrow> string option" where
  "substr s pos n =
     (if str_size s < pos then None
      else Some (if str_size s < n then drop (unat pos) s else take (unat n) (drop (unat pos) s)))"

text \<open>\<^verbatim>\<open>std::stoi\<close>: white space, a sign, digits; it throws without a digit and out of the range of \<^verbatim>\<open>int\<close>.\<close>

definition is_digit :: "char \<Rightarrow> bool" where
  "is_digit c \<longleftrightarrow> 48 \<le> (of_char c :: nat) \<and> (of_char c :: nat) \<le> 57"

definition is_space :: "char \<Rightarrow> bool" where
  "is_space c \<longleftrightarrow> (of_char c :: nat) = 32 \<or> 9 \<le> (of_char c :: nat) \<and> (of_char c :: nat) \<le> 13"

definition digits_value :: "string \<Rightarrow> nat" where
  "digits_value ds = foldl (\<lambda>n c. 10 * n + (of_char c - 48)) 0 ds"

definition stoi :: "string \<Rightarrow> int option" where
  "stoi s =
     (let s = dropWhile is_space s;
          neg = (s \<noteq> [] \<and> hd s = CHR ''-'');
          s = (if s \<noteq> [] \<and> (hd s = CHR ''-'' \<or> hd s = CHR ''+'') then tl s else s);
          ds = takeWhile is_digit s;
          v = (if neg then - int (digits_value ds) else int (digits_value ds))
      in if ds = [] \<or> v < - (2 ^ 31) \<or> 2 ^ 31 \<le> v then None else Some v)"

text \<open>The numbers of the shard and of the page in a path.\<close>

definition parse_name :: "string \<Rightarrow> (int \<times> int) option" where
  "parse_name file =
     (let pos0 = str_find file ''nali_'' 0 + 5;
          pos1 = str_find file ''_'' pos0 + 1;
          pos0 = str_find file ''_'' pos1
      in case substr file pos1 (pos0 - pos1) of
           None \<Rightarrow> None
         | Some t \<Rightarrow>
             (case stoi t of
                None \<Rightarrow> None
              | Some hash_id \<Rightarrow>
                  (let pos0 = pos0 + 1;
                       pos1 = str_find file ''_'' pos0
                   in case substr file pos0 (pos1 - pos0) of
                        None \<Rightarrow> None
                      | Some t' \<Rightarrow> (case stoi t' of None \<Rightarrow> None | Some page_id \<Rightarrow> Some (hash_id, page_id)))))"

section \<open>Mapping the files\<close>

datatype recovery_fault = Fault fault | UncaughtException | DivisionByZero | InsertNoReturn

definition loadfiles :: "(string \<Rightarrow> string list option) \<Rightarrow> string \<Rightarrow> string list" where
  "loadfiles readdir dir =
     (case readdir dir of
        None \<Rightarrow> []
      | Some names \<Rightarrow> map (\<lambda>n. dir @ ''/'' @ n) (filter (\<lambda>n. n \<noteq> ''.'' \<and> n \<noteq> ''..'') names))"

text \<open>
  One file: its page is mapped as a new block. The page table has \<^verbatim>\<open>256\<close> shards of
  \<^verbatim>\<open>MAX_LOF_FILE_ID\<close> pages, of which the first \<open>shards\<close> have a page object.
\<close>

definition recover_file ::
  "(string \<Rightarrow> block option) \<Rightarrow> nat \<Rightarrow> nat \<Rightarrow> string \<Rightarrow> logkv \<Rightarrow> recovery_fault + logkv" where
  "recover_file map_file shards i file s =
     (case parse_name file of
        None \<Rightarrow> Inl UncaughtException
      | Some (hash_id, page_id) \<Rightarrow>
          (case map_file file of
             None \<Rightarrow> Inl (Fault Exit1)
           | Some blk \<Rightarrow>
               if hash_id < 0 \<or> int max_shards \<le> hash_id \<or> page_id < 0 \<or> int MAX_LOF_FILE_ID \<le> page_id
               then Inl (Fault OutOfBounds)
               else if int shards \<le> hash_id then Inl (Fault NullAccess)
               else (let b = next_map s
                     in Inr (set_page_start_addr (s\<lparr>pmem := (pmem s)(b := blk), next_map := Suc b\<rparr>)
                              i (nat hash_id) (nat page_id) b))))"

fun recover_files ::
  "(string \<Rightarrow> block option) \<Rightarrow> nat \<Rightarrow> (nat \<times> string) list \<Rightarrow> logkv \<Rightarrow> recovery_fault + logkv" where
  "recover_files map_file shards [] s = Inr s"
| "recover_files map_file shards ((i, file) # rest) s =
     (case recover_file map_file shards i file s of
        Inl e \<Rightarrow> Inl e
      | Inr s' \<Rightarrow> recover_files map_file shards rest s')"

definition all_files :: "(string \<Rightarrow> string list option) \<Rightarrow> (nat \<times> string) list" where
  "all_files readdir = concat (map (\<lambda>i. map (Pair i) (loadfiles readdir (dir_name i))) [0..<numa_node_num])"

section \<open>Scanning the pages\<close>

definition log_size :: "nat \<Rightarrow> nat" where
  "log_size val_size = (if val_size = 8 then 32 else 26 + val_size)"

lemma log_size_pos [simp]: "0 < log_size v"
  by (simp add: log_size_def)

text \<open>The records of a page from an offset on: the index and the offset of the first other record.\<close>

function recover_page :: "'s tree_ops \<Rightarrow> nat \<Rightarrow> block \<Rightarrow> nat \<Rightarrow> 's \<Rightarrow> ('s \<times> nat) option" where
  "recover_page T val_size m off d =
     (if off < PPAGE_SIZE
      then (let p = load_pair m off
            in if pair_op p = op_code INSERT
               then (case t_insert T d (pair_key p) 1 of
                       None \<Rightarrow> None
                     | Some (_, d') \<Rightarrow> recover_page T val_size m (off + log_size val_size) d')
               else Some (d, off))
      else Some (d, off))"
  by pat_completeness auto
termination
  by (relation "measure (\<lambda>(T, val_size, m, off, d). PPAGE_SIZE - off)") (auto intro: diff_less_mono2)

declare recover_page.simps [simp del]

text \<open>The pages of a shard, downwards from the number of its newest page (\<^verbatim>\<open>-1\<close> for none).\<close>

definition pages_down :: "u64 \<Rightarrow> nat list" where
  "pages_down w = map nat (rev [0..sint (ucast w :: 32 word)])"

fun recover_pages ::
  "'s tree_ops \<Rightarrow> nat \<Rightarrow> nat \<Rightarrow> nat \<Rightarrow> nat list \<Rightarrow> logkv \<times> 's \<Rightarrow> (logkv \<times> 's) option" where
  "recover_pages T val_size numa hash [] sd = Some sd"
| "recover_pages T val_size numa hash (page # pages) (s, d) =
     (case (case start_addr_arr s numa hash page of
              None \<Rightarrow> Some (d, 0)
            | Some b \<Rightarrow> recover_page T val_size (pmem s b) 0 d) of
        None \<Rightarrow> None
      | Some (d', off) \<Rightarrow>
          recover_pages T val_size numa hash pages
            (if of_nat page = pp_ppage_id (ppages s numa hash)
             then set_ppage s numa hash ((ppages s numa hash)\<lparr>sz_allocated := off\<rparr>) else s, d'))"

definition recover_shard :: "'s tree_ops \<Rightarrow> nat \<Rightarrow> nat \<Rightarrow> nat \<Rightarrow> logkv \<times> 's \<Rightarrow> (logkv \<times> 's) option" where
  "recover_shard T val_size numa hash sd =
     recover_pages T val_size numa hash (pages_down (pp_ppage_id (ppages (fst sd) numa hash))) sd"

text \<open>The shards of recovery thread \<open>t\<close> of \<open>n\<close>, in the order in which the thread visits them.\<close>

definition thread_shards :: "nat \<Rightarrow> nat \<Rightarrow> nat \<Rightarrow> (nat \<times> nat) list" where
  "thread_shards shards n t =
     (let perthread_hash_nums = shards div n;
          begin_hashid = t * perthread_hash_nums;
          end_hashid = (if t = n - 1 then shards else begin_hashid + perthread_hash_nums)
      in List.product [0..<numa_node_num] [begin_hashid..<end_hashid])"

fun recover_shards :: "'s tree_ops \<Rightarrow> nat \<Rightarrow> (nat \<times> nat) list \<Rightarrow> logkv \<times> 's \<Rightarrow> (logkv \<times> 's) option" where
  "recover_shards T val_size [] sd = Some sd"
| "recover_shards T val_size ((numa, hash) # rest) sd =
     (case recover_shard T val_size numa hash sd of
        None \<Rightarrow> None
      | Some sd' \<Rightarrow> recover_shards T val_size rest sd')"

text \<open>
  The threads' lists are merged in the order \<open>order\<close>, in which each shard of each thread
  occurs once.
\<close>

definition valid_order :: "nat \<Rightarrow> nat \<Rightarrow> (nat \<times> nat) list \<Rightarrow> bool" where
  "valid_order shards n order \<longleftrightarrow> mset order = mset (concat (map (thread_shards shards n) [0..<n]))"

definition recovery_logkv ::
  "'s tree_ops \<Rightarrow> (string \<Rightarrow> block option) \<Rightarrow> (string \<Rightarrow> string list option) \<Rightarrow> nat \<Rightarrow> nat \<Rightarrow> nat \<Rightarrow>
   (nat \<times> nat) list \<Rightarrow> logkv \<Rightarrow> 's \<Rightarrow> recovery_fault + (logkv \<times> 's)" where
  "recovery_logkv T map_file readdir shards recovery_thread_num val_size order s d =
     (case recover_files map_file shards (all_files readdir) s of
        Inl e \<Rightarrow> Inl e
      | Inr s' \<Rightarrow>
          if recovery_thread_num = 0 then Inl DivisionByZero
          else (case recover_shards T val_size order (s', d) of
                  None \<Rightarrow> Inl InsertNoReturn
                | Some sd \<Rightarrow> Inr sd))"

text \<open>The log object of a process that starts on existing files: \<^verbatim>\<open>LogKV(true)\<close> creates no page.\<close>

definition LogKV_reopen :: "nat \<Rightarrow> (nat \<times> nat \<times> nat) list \<Rightarrow> fault + logkv" where
  "LogKV_reopen shards fs =
     LogKV_pages (\<lambda>_. False) True (List.product [0..<numa_node_num] [0..<shards]) (empty_log\<lparr>files := fs\<rparr>)"

section \<open>File names can be read back\<close>

lemma of_char_digit: "d < 10 \<Longrightarrow> (of_char (digit d) :: nat) = 48 + d"
  by (simp add: digit_def)

lemma digit_is_digit: "d < 10 \<Longrightarrow> is_digit (digit d)"
  by (simp add: is_digit_def of_char_digit)

lemma to_string_digits: "c \<in> set (to_string n) \<Longrightarrow> is_digit c"
  by (induction n rule: to_string.induct) (subst (asm) to_string.simps, auto simp: digit_is_digit split: if_splits)

lemma to_string_nonempty: "to_string n \<noteq> []"
  by (subst to_string.simps) simp

lemma to_string_value: "digits_value (to_string n) = n"
proof (induction n rule: to_string.induct)
  case (1 n)
  show ?case
  proof (cases "n < 10")
    case True
    then show ?thesis by (subst to_string.simps) (simp add: digits_value_def of_char_digit)
  next
    case False
    then have "digits_value (to_string n) = 10 * digits_value (to_string (n div 10)) + (of_char (digit (n mod 10)) - 48)"
      by (subst to_string.simps) (simp add: digits_value_def)
    then show ?thesis using 1 False by (simp add: of_char_digit)
  qed
qed

lemma to_string_length: "n < 10 ^ Suc k \<Longrightarrow> length (to_string n) \<le> Suc k"
proof (induction k arbitrary: n)
  case (Suc k)
  then have "n div 10 < 10 ^ Suc k" by (simp add: less_mult_imp_div_less)
  from Suc.IH [OF this] show ?case by (subst to_string.simps) simp
qed (subst to_string.simps, simp)

lemma digit_not_special: "is_digit c \<Longrightarrow> c \<noteq> CHR ''_'' \<and> c \<noteq> CHR ''n'' \<and> c \<noteq> CHR ''-'' \<and> c \<noteq> CHR ''+'' \<and> \<not> is_space c"
  by (auto simp: is_digit_def is_space_def)

lemma stoi_to_string:
  assumes "n < 2 ^ 31"
  shows "stoi (to_string n) = Some (int n)"
proof -
  obtain c cs where cs: "to_string n = c # cs" using to_string_nonempty by (cases "to_string n") auto
  have c: "is_digit c" and tw: "takeWhile is_digit (to_string n) = to_string n"
    using to_string_digits [of _ n] by (simp_all add: cs takeWhile_eq_all_conv)
  have "dropWhile is_space (to_string n) = to_string n" using digit_not_special [OF c] by (simp add: cs)
  then show ?thesis
    using digit_not_special [OF c] tw to_string_value [of n] assms by (auto simp: stoi_def Let_def cs)
qed

lemma find_first_skip: "c \<notin> set xs \<Longrightarrow> find_first (c # pat) (xs @ ys) = map_option ((+) (length xs)) (find_first (c # pat) ys)"
  by (induction xs) (auto simp: option.map_comp o_def map_option_case split: option.splits)

lemma find_first_none: "c \<notin> set xs \<Longrightarrow> find_first (c # pat) xs = None"
  by (induction xs) auto

text \<open>Positions inside of a string.\<close>

lemma unat_of_nat_u64: "n < 2 ^ 64 \<Longrightarrow> unat (of_nat n :: u64) = n"
  by (simp add: unsigned_of_nat take_bit_nat_eq_self)

lemma str_find_at:
  assumes "length s < 2 ^ 64" and "k \<le> length s" and "find_first pat (drop k s) = Some i"
  shows "str_find s pat (of_nat k) = of_nat (k + i)"
proof -
  have "unat (of_nat k :: u64) = k" using assms by (simp add: unat_of_nat_u64)
  moreover have "\<not> str_size s < of_nat k"
    using assms by (simp add: str_size_def word_less_nat_alt unat_of_nat_u64)
  ultimately show ?thesis using assms(3) by (simp add: str_find_def)
qed

lemma str_find_npos:
  assumes "length s < 2 ^ 64" and "k \<le> length s" and "find_first pat (drop k s) = None"
  shows "str_find s pat (of_nat k) = npos"
proof -
  have "unat (of_nat k :: u64) = k" using assms by (simp add: unat_of_nat_u64)
  then show ?thesis using assms(3) by (simp add: str_find_def)
qed

lemma substr_at:
  assumes "length s < 2 ^ 64" and "k \<le> j" and "j \<le> length s"
  shows "substr s (of_nat k) (of_nat j - of_nat k) = Some (take (j - k) (drop k s))"
proof -
  have k: "unat (of_nat k :: u64) = k" using assms by (simp add: unat_of_nat_u64)
  have jk: "(of_nat j :: u64) - of_nat k = of_nat (j - k)" using assms by (simp add: of_nat_diff)
  have u: "unat (of_nat (j - k) :: u64) = j - k" using assms by (intro unat_of_nat_u64) simp
  have "\<not> str_size s < of_nat k" "\<not> str_size s < of_nat (j - k)"
    unfolding str_size_def word_less_nat_alt u k using assms by (simp_all add: unat_of_nat_u64)
  then show ?thesis unfolding jk substr_def k u by simp
qed

lemma substr_npos:
  assumes "length s < 2 ^ 63" and "k \<le> length s"
  shows "substr s (of_nat k) (npos - of_nat k) = Some (drop k s)"
proof -
  have k: "unat (of_nat k :: u64) = k" using assms by (simp add: unat_of_nat_u64)
  have "unat (npos - of_nat k :: u64) = 2 ^ 64 - 1 - k"
    using assms by (simp add: npos_def unat_sub_if' k unsigned_minus_1_eq_mask mask_eq_exp_minus_1)
  then have "str_size s < npos - of_nat k"
    using assms by (simp add: str_size_def word_less_nat_alt unat_of_nat_u64)
  moreover have "\<not> str_size s < of_nat k"
    using assms by (simp add: str_size_def word_less_nat_alt unat_of_nat_u64)
  ultimately show ?thesis by (simp add: substr_def k)
qed

text \<open>The path of a log file has its numbers between underscores.\<close>

lemma file_name_prefix: "find_first ''nali_'' (file_name n h p) = Some (length (dir_name n) + 1)"
proof -
  have ds: "CHR ''n'' \<notin> set (to_string n)" using to_string_digits digit_not_special by blast
  let ?xs = "''t/pmem'' @ to_string n @ ''/zzy/''"
  have "file_name n h p = ''/mn'' @ ?xs @ base_name n h p" by (simp add: file_name_def dir_name_def)
  moreover have "find_first ''nali_'' (?xs @ base_name n h p) = Some (length ?xs)"
    using ds by (subst find_first_skip) (simp_all add: base_name_def)
  ultimately show ?thesis by (simp add: dir_name_def)
qed

lemma file_name_parses:
  assumes n: "n < numa_node_num" and h: "h < max_shards" and p: "p < MAX_LOF_FILE_ID"
  shows "parse_name (file_name n h p) = Some (int h, int p)"
proof -
  let ?f = "file_name n h p" and ?N = "to_string n" and ?H = "to_string h" and ?P = "to_string p"
  define a where "a = length (dir_name n) + 6"
  define b where "b = a + length ?N + 1"
  define c where "c = b + length ?H"
  have f: "?f = (dir_name n @ ''/nali_'') @ ?N @ ''_'' @ ?H @ ''_'' @ ?P"
    by (simp add: file_name_def base_name_def)
  have lens: "length ?N \<le> 1" "length ?H \<le> 3" "length ?P \<le> 2"
    using to_string_length [of n 0] to_string_length [of h 2] to_string_length [of p 1] assms
    by (simp_all add: numa_node_num_def max_shards_def MAX_LOF_FILE_ID_def)
  have ln: "length ?f = c + 1 + length ?P" by (simp add: f a_def b_def c_def)
  have small: "length ?f < 2 ^ 63" using lens by (simp add: ln a_def b_def c_def dir_name_def)
  then have small': "length ?f < 2 ^ 64" by simp
  have us: "CHR ''_'' \<notin> set ?N" "CHR ''_'' \<notin> set ?H" "CHR ''_'' \<notin> set ?P"
    using to_string_digits digit_not_special by blast+
  have da: "drop a ?f = ?N @ ''_'' @ ?H @ ''_'' @ ?P" by (simp add: f a_def)
  have "drop b ?f = drop (length ?N + 1) (drop a ?f)" by (simp add: b_def add_ac)
  then have db: "drop b ?f = ?H @ ''_'' @ ?P" by (simp add: da)
  have "drop (c + 1) ?f = drop (length ?H + 1) (drop b ?f)" by (simp add: c_def add_ac)
  then have dc: "drop (c + 1) ?f = ?P" by (simp add: db)
  have 0: "str_find ?f ''nali_'' 0 + 5 = of_nat a"
    using str_find_at [OF small', of 0 "''nali_''"] file_name_prefix [of n h p] by (simp add: a_def)
  have 1: "str_find ?f ''_'' (of_nat a) + 1 = of_nat b"
    using str_find_at [OF small', of a "''_''"] us(1) ln by (simp add: da find_first_skip b_def c_def)
  have 2: "str_find ?f ''_'' (of_nat b) = of_nat c"
    using str_find_at [OF small', of b "''_''"] us(2) ln by (simp add: db find_first_skip c_def)
  have 3: "str_find ?f ''_'' (of_nat (c + 1)) = npos"
    by (rule str_find_npos [OF small']) (use ln in simp, use us(3) in \<open>simp only: dc find_first_none not_False_eq_True\<close>)
  have s1: "substr ?f (of_nat b) (of_nat c - of_nat b) = Some ?H"
    using substr_at [OF small', of b c] ln by (simp add: db c_def)
  have s2: "substr ?f (of_nat (c + 1)) (npos - of_nat (c + 1)) = Some ?P"
    using substr_npos [OF small, of "c + 1"] ln by (simp only: dc)
  have i: "stoi ?H = Some (int h)" "stoi ?P = Some (int p)"
    using assms by (auto simp: max_shards_def MAX_LOF_FILE_ID_def intro: stoi_to_string)
  have succ: "(of_nat c :: u64) + 1 = of_nat (c + 1)" by simp
  show ?thesis unfolding parse_name_def Let_def 0 1 2 s1 option.case i succ 3 s2 by simp
qed

section \<open>Logs of insertions\<close>

text \<open>
  The bytes of a page that hold records, the contents of a page, and the keys of its records. All
  pages but the newest are full.
\<close>

definition used :: "logkv \<Rightarrow> nat \<Rightarrow> nat \<Rightarrow> nat \<Rightarrow> nat" where
  "used s n h p = (if p = cur_page s n h then sz_allocated (ppages s n h) else PPAGE_SIZE)"

definition page_of :: "logkv \<Rightarrow> nat \<Rightarrow> nat \<Rightarrow> nat \<Rightarrow> block" where
  "page_of s n h p = pmem s (the (start_addr_arr s n h p))"

definition page_keys :: "block \<Rightarrow> nat \<Rightarrow> u64 list" where
  "page_keys m sz = map (\<lambda>i. pair_key (load_pair m (pair_size * i))) [0..<sz div pair_size]"

definition shard_keys :: "logkv \<Rightarrow> nat \<Rightarrow> nat \<Rightarrow> u64 list" where
  "shard_keys s n h = concat (map (\<lambda>p. page_keys (page_of s n h p) (used s n h p)) [0..<Suc (cur_page s n h)])"

definition log_keys :: "nat \<Rightarrow> logkv \<Rightarrow> u64 multiset" where
  "log_keys shards s = (\<Sum>(n, h) \<in> {..<numa_node_num} \<times> {..<shards}. mset (shard_keys s n h))"

definition shard_inserts :: "logkv \<Rightarrow> nat \<Rightarrow> nat \<Rightarrow> bool" where
  "shard_inserts s n h \<longleftrightarrow> pair_size dvd sz_allocated (ppages s n h) \<and>
     (\<forall>p \<le> cur_page s n h. start_addr_arr s n h p \<noteq> None \<and> (n, h, p) \<in> set (files s) \<and>
        (\<forall>i. pair_size * i < used s n h p \<longrightarrow>
           pair_op (load_pair (page_of s n h p) (pair_size * i)) = op_code INSERT)) \<and>
     (\<forall>a \<ge> sz_allocated (ppages s n h). page_of s n h (cur_page s n h) a = - 1)"

definition insert_log :: "nat \<Rightarrow> logkv \<Rightarrow> bool" where
  "insert_log shards s \<longleftrightarrow> log_wf shards s \<and>
     (\<forall>(n, h, p) \<in> set (files s). n < numa_node_num \<and> h < shards) \<and>
     (\<forall>n h. n < numa_node_num \<longrightarrow> h < shards \<longrightarrow> shard_inserts s n h)"

text \<open>What a new process finds: the directories and the contents of the files.\<close>

definition dir_listing :: "logkv \<Rightarrow> (string \<Rightarrow> string list option) \<Rightarrow> bool" where
  "dir_listing s readdir \<longleftrightarrow> (\<forall>i < numa_node_num. \<exists>names. readdir (dir_name i) = Some names \<and>
     {x \<in> set names. x \<noteq> ''.'' \<and> x \<noteq> ''..''} = {base_name i h p | h p. (i, h, p) \<in> set (files s)})"

definition contents :: "logkv \<Rightarrow> (string \<Rightarrow> block option) \<Rightarrow> bool" where
  "contents s map_file \<longleftrightarrow> (\<forall>(n, h, p) \<in> set (files s). map_file (file_name n h p) = Some (page_of s n h p))"

section \<open>The shards of the threads\<close>

lemma threads_before:
  assumes "k < n"
  shows "distinct (concat (map (thread_shards shards n) [0..<k])) \<and>
    set (concat (map (thread_shards shards n) [0..<k])) = {..<numa_node_num} \<times> {..<k * (shards div n)}"
  using assms
proof (induction k)
  case (Suc k)
  let ?per = "shards div n"
  have t: "thread_shards shards n k = List.product [0..<numa_node_num] [k * ?per..<k * ?per + ?per]"
    using Suc.prems by (auto simp: thread_shards_def Let_def)
  have *: "map (thread_shards shards n) [0..<Suc k] = map (thread_shards shards n) [0..<k] @ [thread_shards shards n k]"
    by simp
  have ih: "distinct (concat (map (thread_shards shards n) [0..<k]))"
    "set (concat (map (thread_shards shards n) [0..<k])) = {..<numa_node_num} \<times> {..<k * ?per}"
    using Suc by simp_all
  show ?case unfolding * concat_append distinct_append set_append ih(2) using ih(1) by (auto simp: t distinct_product)
qed auto

lemma valid_order_shards:
  assumes "valid_order shards n order" and "0 < n"
  shows "distinct order" and "set order = {..<numa_node_num} \<times> {..<shards}"
proof -
  obtain k where n: "n = Suc k" using assms(2) by (cases n) auto
  have le: "k * (shards div n) \<le> shards" using n div_times_less_eq_dividend [of shards n] by (simp add: algebra_simps)
  have t: "thread_shards shards n k = List.product [0..<numa_node_num] [k * (shards div n)..<shards]"
    by (simp add: thread_shards_def n Let_def)
  have *: "map (thread_shards shards n) [0..<n] = map (thread_shards shards n) [0..<k] @ [thread_shards shards n k]"
    by (simp add: n)
  have tb: "distinct (concat (map (thread_shards shards n) [0..<k]))"
    "set (concat (map (thread_shards shards n) [0..<k])) = {..<numa_node_num} \<times> {..<k * (shards div n)}"
    using threads_before [of k n shards] n by simp_all
  have dist: "distinct (concat (map (thread_shards shards n) [0..<n]))"
    unfolding * concat_append distinct_append tb(2) using tb(1) by (auto simp: t distinct_product)
  have set: "set (concat (map (thread_shards shards n) [0..<n])) = {..<numa_node_num} \<times> {..<shards}"
    unfolding * concat_append set_append tb(2) using le by (auto simp: t)
  have mset: "mset order = mset (concat (map (thread_shards shards n) [0..<n]))"
    using assms(1) by (simp add: valid_order_def)
  show "distinct order" using dist mset_eq_imp_distinct_iff [OF mset] by blast
  show "set order = {..<numa_node_num} \<times> {..<shards}" using set mset_eq_setD [OF mset] by simp
qed

section \<open>Scanning\<close>

text \<open>Every key of \<open>K\<close> is given the payload 1.\<close>

definition mark :: "u64 set \<Rightarrow> (u64 \<rightharpoonup> u64) \<Rightarrow> (u64 \<rightharpoonup> u64)" where
  "mark K m = (\<lambda>k. if k \<in> K then Some 1 else m k)"

lemma mark_simps: "mark {} m = m" "mark A (mark B m) = mark (A \<union> B) m" "m(k \<mapsto> 1) = mark {k} m"
  by (auto simp: mark_def)

lemma mark_free: "(\<forall>k \<in> A. P k \<and> mark B m k = None) \<longleftrightarrow> A \<inter> B = {} \<and> (\<forall>k \<in> A. P k \<and> m k = None)"
  by (auto simp: mark_def)

lemma log_size_8: "log_size 8 = pair_size"
  by (simp add: log_size_def pair_size_def)

lemma pair_size_pos [simp]: "0 < pair_size"
  by (simp add: pair_size_def)

text \<open>The page object \<open>r\<close> of a new process stands for the same pages as in \<open>s\<close>.\<close>

definition restores :: "logkv \<Rightarrow> logkv \<Rightarrow> nat \<Rightarrow> nat \<Rightarrow> bool" where
  "restores s r n h \<longleftrightarrow> pp_ppage_id (ppages r n h) = pp_ppage_id (ppages s n h) \<and>
     (\<forall>p \<le> cur_page s n h. \<exists>b. start_addr_arr r n h p = Some b \<and> pmem r b = page_of s n h p)"

lemma upto_upt: "map nat [0..int c] = [0..<Suc c]"
proof (induction c)
  case (Suc c)
  have "[0..int (Suc c)] = [0..int c] @ [int (Suc c)]" by (subst upto_rec2) simp_all
  then show ?case using Suc by simp
qed simp

lemma pages_down_upt:
  assumes "unat w < MAX_LOF_FILE_ID"
  shows "pages_down w = rev [0..<Suc (unat w)]"
proof -
  have w: "uint w = int (unat w)" by simp
  have "int (unat w) < 32" using assms by (simp only: MAX_LOF_FILE_ID_def)
  then have "0 \<le> uint w" "uint w < 32" by (simp_all only: w [symmetric] uint_ge_0)
  then have "signed_take_bit 31 (uint w) = uint w" by (intro signed_take_bit_int_eq_self) (auto intro: order_trans [of _ 0])
  then have "sint (ucast w :: 32 word) = int (unat w)" by (simp add: signed_ucast_eq)
  then show ?thesis by (simp only: pages_down_def rev_map upto_upt [symmetric])
qed

lemma cur_page_eq: "page < MAX_LOF_FILE_ID \<Longrightarrow> (of_nat page = (w :: u64)) \<longleftrightarrow> page = unat w"
  by (auto simp: unat_of_nat_u64 MAX_LOF_FILE_ID_def)

lemma ucast_minus_1: "(ucast (- 1 :: u64) :: 2 word) = - 1"
  by (rule bit_word_eqI) (simp add: bit_simps)

lemma page_records:
  assumes ins: "shard_inserts s n h" and wf: "shard_wf s n h" and p: "p \<le> cur_page s n h"
  obtains k where "used s n h p = pair_size * k" and "used s n h p \<le> PPAGE_SIZE"
    and "\<And>j. j < k \<Longrightarrow> pair_op (load_pair (page_of s n h p) (pair_size * j)) = op_code INSERT"
    and "pair_size * k = PPAGE_SIZE \<or> pair_op (load_pair (page_of s n h p) (pair_size * k)) \<noteq> op_code INSERT"
    and "page_keys (page_of s n h p) (used s n h p) = map (\<lambda>j. pair_key (load_pair (page_of s n h p) (pair_size * j))) [0..<k]"
proof -
  have "pair_size dvd used s n h p"
    using ins by (auto simp: used_def shard_inserts_def pair_size_def PPAGE_SIZE_def)
  then obtain k where k: "used s n h p = pair_size * k" by (auto simp: dvd_def)
  have le: "used s n h p \<le> PPAGE_SIZE" using wf by (auto simp: used_def shard_wf_def Let_def)
  have "pair_op (load_pair (page_of s n h p) (pair_size * k)) \<noteq> op_code INSERT" if "pair_size * k \<noteq> PPAGE_SIZE"
  proof -
    have "p = cur_page s n h" and "sz_allocated (ppages s n h) = pair_size * k"
      using that k by (auto simp: used_def split: if_splits)
    then have "page_of s n h p (pair_size * k) = - 1" using ins by (simp add: shard_inserts_def)
    then show ?thesis by (simp add: load_pair_def ucast_minus_1)
  qed
  moreover have "pair_op (load_pair (page_of s n h p) (pair_size * j)) = op_code INSERT" if "j < k" for j
    using ins p that k unfolding shard_inserts_def by (metis mult_less_mono2 pair_size_pos)
  ultimately show thesis using that k le by (simp add: page_keys_def) blast
qed

lemma mset_concat_rev: "mset (concat (map f (rev xs))) = mset (concat (map f xs))"
  by (induction xs) simp_all

context tree_index
begin

lemma recover_page_from:
  assumes "good d" and "i \<le> k" and "pair_size * k \<le> PPAGE_SIZE"
    and "\<And>j. j < k \<Longrightarrow> pair_op (load_pair m (pair_size * j)) = op_code INSERT"
    and "pair_size * k = PPAGE_SIZE \<or> pair_op (load_pair m (pair_size * k)) \<noteq> op_code INSERT"
    and "distinct (map (\<lambda>j. pair_key (load_pair m (pair_size * j))) [i..<k])"
    and "\<forall>x \<in> set (map (\<lambda>j. pair_key (load_pair m (pair_size * j))) [i..<k]). x \<in> keys \<and> tmap d x = None"
  shows "\<exists>d'. recover_page T 8 m (pair_size * i) d = Some (d', pair_size * k) \<and> good d' \<and>
    tmap d' = mark (set (map (\<lambda>j. pair_key (load_pair m (pair_size * j))) [i..<k])) (tmap d)"
  using assms
proof (induction "k - i" arbitrary: i d)
  case 0
  then have "i = k" by simp
  then show ?case using 0 by (subst recover_page.simps) (auto simp: mark_simps)
next
  case (Suc x)
  let ?key = "\<lambda>j. pair_key (load_pair m (pair_size * j))"
  have less: "i < k" using Suc.hyps(2) by simp
  then have up: "[i..<k] = i # [Suc i..<k]" by (simp add: upt_rec)
  have off: "pair_size * i < PPAGE_SIZE" using Suc.prems(3) less
    by (meson mult_less_cancel1 order_less_le_trans pair_size_pos)
  obtain d1 where d1: "t_insert T d (?key i) 1 = Some (ins, d1)" "good d1" "tmap d1 = (tmap d)(?key i \<mapsto> 1)"
    using insert_law [OF Suc.prems(1), where k = "?key i" and v = 1] Suc.prems(7) by (auto simp: up)
  have m1: "tmap d1 = mark {?key i} (tmap d)" using d1(3) by (simp only: mark_simps)
  have free: "\<forall>x \<in> set (map ?key [Suc i..<k]). x \<in> keys \<and> tmap d1 x = None"
    unfolding m1 mark_free using Suc.prems(6,7) by (auto simp: up)
  have dist: "distinct (map ?key [Suc i..<k])" using Suc.prems(6) by (simp add: up)
  have x: "x = k - Suc i" using Suc.hyps(2) by simp
  obtain d' where d': "recover_page T 8 m (pair_size * Suc i) d1 = Some (d', pair_size * k)" "good d'"
    "tmap d' = mark (set (map ?key [Suc i..<k])) (tmap d1)"
    using Suc.hyps(1) [OF x d1(2) Suc_leI [OF less] Suc.prems(3,4,5) dist free] by blast
  have "recover_page T 8 m (pair_size * i) d = recover_page T 8 m (pair_size * Suc i) d1"
    using off Suc.prems(4) [OF less] d1(1) by (subst recover_page.simps) (simp add: Let_def log_size_8 add.commute)
  moreover have "tmap d' = mark (set (map ?key [i..<k])) (tmap d)"
    using d'(3) unfolding m1 mark_simps by (simp add: up Un_commute)
  ultimately show ?case using d' by auto
qed

lemma recover_page_all:
  assumes ins: "shard_inserts s n h" and wf: "shard_wf s n h" and p: "p \<le> cur_page s n h"
    and pk: "ks = page_keys (page_of s n h p) (used s n h p)"
    and d: "good d" and dist: "distinct ks" and free: "\<forall>x \<in> set ks. x \<in> keys \<and> tmap d x = None"
  shows "\<exists>d'. recover_page T 8 (page_of s n h p) 0 d = Some (d', used s n h p) \<and> good d' \<and> tmap d' = mark (set ks) (tmap d)"
proof -
  obtain k where k: "used s n h p = pair_size * k" "used s n h p \<le> PPAGE_SIZE"
    and recs: "\<And>j. j < k \<Longrightarrow> pair_op (load_pair (page_of s n h p) (pair_size * j)) = op_code INSERT"
    and stop: "pair_size * k = PPAGE_SIZE \<or> pair_op (load_pair (page_of s n h p) (pair_size * k)) \<noteq> op_code INSERT"
    and ks: "ks = map (\<lambda>j. pair_key (load_pair (page_of s n h p) (pair_size * j))) [0..<k]"
    using page_records [OF ins wf p] pk by metis
  have le: "pair_size * k \<le> PPAGE_SIZE" using k by simp
  from recover_page_from [OF d le0 [of k] le recs stop dist [unfolded ks] free [unfolded ks]]
  show ?thesis by (simp only: ks k(1) mult_0_right)
qed

lemma recover_pages_all:
  assumes ins: "shard_inserts s n h" and wf: "shard_wf s n h" and r: "restores s r n h"
    and "set ps \<subseteq> {..cur_page s n h}" and "distinct ps" and "good d"
    and "distinct (concat (map (\<lambda>p. page_keys (page_of s n h p) (used s n h p)) ps))"
    and "\<forall>x \<in> set (concat (map (\<lambda>p. page_keys (page_of s n h p) (used s n h p)) ps)). x \<in> keys \<and> tmap d x = None"
  shows "\<exists>d'. recover_pages T 8 n h ps (r, d) =
      Some (if cur_page s n h \<in> set ps
            then set_ppage r n h ((ppages r n h)\<lparr>sz_allocated := sz_allocated (ppages s n h)\<rparr>) else r, d') \<and>
    good d' \<and> tmap d' = mark (set (concat (map (\<lambda>p. page_keys (page_of s n h p) (used s n h p)) ps))) (tmap d)"
  using assms(3-)
proof (induction ps arbitrary: r d)
  case Nil
  then show ?case by (simp add: mark_simps)
next
  case (Cons p ps)
  let ?ks = "\<lambda>p. page_keys (page_of s n h p) (used s n h p)"
  have p: "p \<le> cur_page s n h" and cur: "cur_page s n h < MAX_LOF_FILE_ID"
    using Cons.prems(2) wf by (auto simp: shard_wf_def Let_def)
  obtain b where b: "start_addr_arr r n h p = Some b" "pmem r b = page_of s n h p"
    using Cons.prems(1) p by (auto simp: restores_def)
  obtain d1 where d1: "recover_page T 8 (page_of s n h p) 0 d = Some (d1, used s n h p)" "good d1"
    "tmap d1 = mark (set (?ks p)) (tmap d)"
    using recover_page_all [OF ins wf p refl Cons.prems(4)] Cons.prems(5,6) by auto
  define r1 where "r1 = (if of_nat p = pp_ppage_id (ppages r n h)
    then set_ppage r n h ((ppages r n h)\<lparr>sz_allocated := used s n h p\<rparr>) else r)"
  have r1: "r1 = (if p = cur_page s n h then set_ppage r n h ((ppages r n h)\<lparr>sz_allocated := sz_allocated (ppages s n h)\<rparr>) else r)"
    using Cons.prems(1) p cur by (simp add: r1_def restores_def cur_page_eq used_def)
  have res1: "restores s r1 n h" using Cons.prems(1) by (auto simp: r1 restores_def)
  have "\<forall>x \<in> set (concat (map ?ks ps)). x \<in> keys \<and> tmap d1 x = None"
    unfolding d1(3) mark_free using Cons.prems(5,6) by auto
  then obtain d' where d': "recover_pages T 8 n h ps (r1, d1) =
      Some (if cur_page s n h \<in> set ps
            then set_ppage r1 n h ((ppages r1 n h)\<lparr>sz_allocated := sz_allocated (ppages s n h)\<rparr>) else r1, d')"
    "good d'" "tmap d' = mark (set (concat (map ?ks ps))) (tmap d1)"
    using Cons.IH [OF res1 _ _ d1(2)] Cons.prems(2,3,5) by auto
  have "recover_pages T 8 n h (p # ps) (r, d) = recover_pages T 8 n h ps (r1, d1)"
    using b d1(1) by (simp add: r1_def)
  moreover have "tmap d' = mark (set (concat (map ?ks (p # ps)))) (tmap d)"
    using d'(3) unfolding d1(3) mark_simps by (simp add: Un_commute)
  ultimately show ?case using d' Cons.prems(3) by (auto simp: r1)
qed

lemma recover_shard_all:
  assumes ins: "shard_inserts s n h" and wf: "shard_wf s n h" and r: "restores s r n h" and d: "good d"
    and dist: "distinct (shard_keys s n h)" and free: "\<forall>x \<in> set (shard_keys s n h). x \<in> keys \<and> tmap d x = None"
  shows "\<exists>d'. recover_shard T 8 n h (r, d) =
      Some (set_ppage r n h ((ppages r n h)\<lparr>sz_allocated := sz_allocated (ppages s n h)\<rparr>), d') \<and>
    good d' \<and> tmap d' = mark (set (shard_keys s n h)) (tmap d)"
proof -
  let ?ks = "\<lambda>p. page_keys (page_of s n h p) (used s n h p)" and ?ps = "rev [0..<Suc (cur_page s n h)]"
  have down: "pages_down (pp_ppage_id (ppages r n h)) = ?ps"
    using r wf by (simp add: restores_def shard_wf_def Let_def pages_down_upt)
  have mset: "mset (concat (map ?ks ?ps)) = mset (shard_keys s n h)"
    by (simp only: mset_concat_rev shard_keys_def)
  have dist': "distinct (concat (map ?ks ?ps))" using dist mset_eq_imp_distinct_iff [OF mset] by blast
  have set: "set (concat (map ?ks ?ps)) = set (shard_keys s n h)" by (rule mset_eq_setD [OF mset])
  have "set ?ps \<subseteq> {..cur_page s n h}" "distinct ?ps" "cur_page s n h \<in> set ?ps" by auto
  with recover_pages_all [OF ins wf r _ _ d dist'] show ?thesis
    unfolding recover_shard_def fst_conv down set using free by auto
qed

lemma recover_shards_all:
  assumes "\<forall>(n, h) \<in> set order. shard_inserts s n h \<and> shard_wf s n h \<and> restores s r n h"
    and "distinct order" and "good d"
    and "distinct (concat (map (\<lambda>(n, h). shard_keys s n h) order))"
    and "\<forall>x \<in> set (concat (map (\<lambda>(n, h). shard_keys s n h) order)). x \<in> keys \<and> tmap d x = None"
  shows "\<exists>d'. recover_shards T 8 order (r, d) =
      Some (r\<lparr>ppages := (\<lambda>n h. if (n, h) \<in> set order
                then (ppages r n h)\<lparr>sz_allocated := sz_allocated (ppages s n h)\<rparr> else ppages r n h)\<rparr>, d') \<and>
    good d' \<and> tmap d' = mark (set (concat (map (\<lambda>(n, h). shard_keys s n h) order))) (tmap d)"
  using assms
proof (induction order arbitrary: r d)
  case Nil
  then show ?case by (simp add: mark_simps)
next
  case (Cons x order)
  let ?ks = "\<lambda>(n, h). shard_keys s n h"
  obtain n h where x: "x = (n, h)" by fastforce
  obtain d1 where d1: "recover_shard T 8 n h (r, d) =
      Some (set_ppage r n h ((ppages r n h)\<lparr>sz_allocated := sz_allocated (ppages s n h)\<rparr>), d1)" "good d1"
    "tmap d1 = mark (set (shard_keys s n h)) (tmap d)"
    using recover_shard_all [of s n h r d] Cons.prems by (auto simp: x)
  define r1 where "r1 = set_ppage r n h ((ppages r n h)\<lparr>sz_allocated := sz_allocated (ppages s n h)\<rparr>)"
  have "restores s r1 n' h'" if "(n', h') \<in> set order" for n' h'
    using Cons.prems(1,2) that by (auto simp: x r1_def restores_def)
  then have all: "\<forall>(n, h) \<in> set order. shard_inserts s n h \<and> shard_wf s n h \<and> restores s r1 n h"
    using Cons.prems(1) by auto
  have free: "\<forall>x \<in> set (concat (map ?ks order)). x \<in> keys \<and> tmap d1 x = None"
    unfolding d1(3) mark_free using Cons.prems(4,5)
    unfolding x list.map prod.case concat.simps distinct_append set_append by blast
  obtain d' where d': "recover_shards T 8 order (r1, d1) =
      Some (r1\<lparr>ppages := (\<lambda>n h. if (n, h) \<in> set order
                then (ppages r1 n h)\<lparr>sz_allocated := sz_allocated (ppages s n h)\<rparr> else ppages r1 n h)\<rparr>, d')"
    "good d'" "tmap d' = mark (set (concat (map ?ks order))) (tmap d1)"
    using Cons.IH [OF all _ d1(2) _ free] Cons.prems(2,4) by auto
  have "r1\<lparr>ppages := (\<lambda>n h. if (n, h) \<in> set order
                then (ppages r1 n h)\<lparr>sz_allocated := sz_allocated (ppages s n h)\<rparr> else ppages r1 n h)\<rparr> =
      r\<lparr>ppages := (\<lambda>n h. if (n, h) \<in> set (x # order)
                then (ppages r n h)\<lparr>sz_allocated := sz_allocated (ppages s n h)\<rparr> else ppages r n h)\<rparr>"
    by (rule logkv.equality) (auto simp: r1_def x fun_eq_iff)
  moreover have "tmap d' = mark (set (concat (map ?ks (x # order)))) (tmap d)"
    using d'(3) unfolding d1(3) mark_simps by (simp add: x Un_commute)
  ultimately show ?case using d' d1(1) by (simp add: x r1_def)
qed

end

section \<open>Mapping\<close>

lemma pages_reopened:
  "LogKV_pages m True xs r = Inr (r\<lparr>
     ppages := (\<lambda>n h. if (n, h) \<in> set xs
       then \<lparr>pp_numa_id = n, pp_hash_id = h, pp_ppage_id = - 1, sz_allocated = 0, sz_freed = 0, start_addr = None\<rparr>
       else ppages r n h),
     start_addr_arr := (\<lambda>n h p. if (n, h) \<in> set xs \<and> p = 0 then None else start_addr_arr r n h p)\<rparr>)"
proof (induction xs arbitrary: r)
  case (Cons x xs)
  obtain n h where x: "x = (n, h)" by fastforce
  show ?case
    by (simp add: x PPage_new_def Cons.IH) (rule logkv.equality; auto simp: fun_eq_iff)
qed simp

definition fresh_ppage :: "nat \<Rightarrow> nat \<Rightarrow> ppage" where
  "fresh_ppage n h = \<lparr>pp_numa_id = n, pp_hash_id = h, pp_ppage_id = - 1, sz_allocated = 0, sz_freed = 0, start_addr = None\<rparr>"

lemma LogKV_reopen_ok:
  obtains r where "LogKV_reopen shards fs = Inr r" and "\<And>n h p. start_addr_arr r n h p = None"
    and "\<And>n h. n < numa_node_num \<Longrightarrow> h < shards \<Longrightarrow> ppages r n h = fresh_ppage n h"
    and "files r = fs"
proof -
  obtain r where r: "LogKV_reopen shards fs = Inr r" "r = (empty_log\<lparr>files := fs\<rparr>)\<lparr>
     ppages := (\<lambda>n h. if (n, h) \<in> set (List.product [0..<numa_node_num] [0..<shards]) then fresh_ppage n h
       else ppages (empty_log\<lparr>files := fs\<rparr>) n h),
     start_addr_arr := (\<lambda>n h p. if (n, h) \<in> set (List.product [0..<numa_node_num] [0..<shards]) \<and> p = 0 then None
       else start_addr_arr (empty_log\<lparr>files := fs\<rparr>) n h p)\<rparr>"
    by (simp only: LogKV_reopen_def pages_reopened fresh_ppage_def)
  show thesis by (rule that [OF r(1)]) (simp_all add: r(2) empty_log_def)
qed

text \<open>The files of \<open>F\<close> are mapped, and the number of the newest page is known for each shard.\<close>

definition recovering :: "nat \<Rightarrow> logkv \<Rightarrow> (nat \<times> nat \<times> nat) set \<Rightarrow> logkv \<Rightarrow> bool" where
  "recovering shards s F r \<longleftrightarrow>
     (\<forall>n h p b. start_addr_arr r n h p = Some b \<longrightarrow> b < next_map r) \<and>
     (\<forall>(n, h, p) \<in> F. \<exists>b. start_addr_arr r n h p = Some b \<and> pmem r b = page_of s n h p) \<and>
     (\<forall>n h. n < numa_node_num \<longrightarrow> h < shards \<longrightarrow>
        (\<exists>i. ppages r n h = (fresh_ppage n h)\<lparr>pp_ppage_id := word_of_int i\<rparr> \<and> - 1 \<le> i \<and> i < int MAX_LOF_FILE_ID \<and>
           (\<forall>p. (n, h, p) \<in> F \<longrightarrow> int p \<le> i) \<and> (i = - 1 \<or> (n, h, nat i) \<in> F)))"

lemma recovering_mapped:
  assumes "recovering shards s F r" and "(n, h, p) \<in> F"
  shows "\<exists>b. start_addr_arr r n h p = Some b \<and> pmem r b = page_of s n h p"
proof -
  have "\<forall>(n, h, p) \<in> F. \<exists>b. start_addr_arr r n h p = Some b \<and> pmem r b = page_of s n h p"
    using assms(1) unfolding recovering_def by (elim conjE)
  with assms(2) show ?thesis by blast
qed

lemma sint_page:
  assumes "- 1 \<le> i" and "i < int MAX_LOF_FILE_ID"
  shows "sint (ucast (word_of_int i :: u64) :: 32 word) = i"
proof -
  have "(ucast (word_of_int i :: u64) :: 32 word) = word_of_int i"
    by (rule bit_word_eqI) (simp add: bit_simps)
  moreover have "signed_take_bit 31 i = i"
    using assms by (intro signed_take_bit_int_eq_self) (simp_all add: MAX_LOF_FILE_ID_def)
  ultimately show ?thesis by (simp add: signed_of_int)
qed

lemma recover_file_ok:
  assumes ins: "insert_log shards s" and c: "contents s map_file" and f: "(n, h, p) \<in> set (files s)"
    and r: "recovering shards s F r"
  shows "\<exists>r'. recover_file map_file shards n (file_name n h p) r = Inr r' \<and> recovering shards s (insert (n, h, p) F) r'"
proof -
  have n: "n < numa_node_num" and h: "h < shards" and sh: "shards \<le> max_shards" and wf: "shard_wf s n h"
    using ins f by (auto simp: insert_log_def log_wf_def)
  have p: "p < MAX_LOF_FILE_ID" using wf f unfolding shard_wf_def Let_def by (meson le_less_trans)
  obtain i where i: "ppages r n h = (fresh_ppage n h)\<lparr>pp_ppage_id := word_of_int i\<rparr>" "- 1 \<le> i" "i < int MAX_LOF_FILE_ID"
    "\<forall>p. (n, h, p) \<in> F \<longrightarrow> int p \<le> i" "i = - 1 \<or> (n, h, nat i) \<in> F"
    using r n h unfolding recovering_def by blast
  define b where "b = next_map r"
  define r' where "r' = set_page_start_addr (r\<lparr>pmem := (pmem r)(b := page_of s n h p), next_map := Suc b\<rparr>) n h p b"
  have eq: "recover_file map_file shards n (file_name n h p) r = Inr r'"
    using c f n h sh p file_name_parses [of n h p]
    by (auto simp: recover_file_def contents_def r'_def b_def Let_def)
  have pid: "sint (ucast (pp_ppage_id (ppages r n h)) :: 32 word) = i" using i(2,3) by (simp add: i(1) sint_page)
  have pp: "ppages r' = (ppages r)(n := (ppages r n)(h := (fresh_ppage n h)\<lparr>pp_ppage_id := word_of_int (max i (int p))\<rparr>))"
  proof (cases "i < int p")
    case True
    with pid show ?thesis by (simp add: r'_def set_page_start_addr_def Let_def i(1) max_def)
  next
    case False
    with pid have "ppages r' = ppages r" by (simp add: r'_def set_page_start_addr_def Let_def)
    with False show ?thesis by (simp add: max_def i(1) [symmetric])
  qed
  have arr: "start_addr_arr r' = (start_addr_arr r)(n := (start_addr_arr r n)(h := (start_addr_arr r n h)(p := Some b)))"
    and mem: "pmem r' = (pmem r)(b := page_of s n h p)" and nx: "next_map r' = Suc b"
    by (auto simp: r'_def set_page_start_addr_def Let_def)
  have old: "start_addr_arr r n' h' p' = Some b' \<Longrightarrow> b' < b" for n' h' p' b'
    using r unfolding recovering_def b_def by blast
  have "\<exists>b. start_addr_arr r' n' h' p' = Some b \<and> pmem r' b = page_of s n' h' p'" if "(n', h', p') \<in> insert (n, h, p) F" for n' h' p'
  proof (cases "(n', h', p') = (n, h, p)")
    case False
    then have "(n', h', p') \<in> F" using that by blast
    then obtain b' where b': "start_addr_arr r n' h' p' = Some b'" "pmem r b' = page_of s n' h' p'"
      using recovering_mapped [OF r] by blast
    with old [OF b'(1)] False show ?thesis by (auto simp: arr mem)
  qed (simp add: arr mem)
  moreover have "\<exists>j. ppages r' n' h' = (fresh_ppage n' h')\<lparr>pp_ppage_id := word_of_int j\<rparr> \<and> - 1 \<le> j \<and> j < int MAX_LOF_FILE_ID \<and>
           (\<forall>q. (n', h', q) \<in> insert (n, h, p) F \<longrightarrow> int q \<le> j) \<and> (j = - 1 \<or> (n', h', nat j) \<in> insert (n, h, p) F)"
    if "n' < numa_node_num" "h' < shards" for n' h'
  proof (cases "n' = n \<and> h' = h")
    case True
    then show ?thesis using i p by (intro exI [of _ "max i (int p)"]) (auto simp: pp max_def)
  next
    case False
    then have "ppages r' n' h' = ppages r n' h'" by (auto simp: pp)
    moreover have "(n', h', q) \<in> insert (n, h, p) F \<longleftrightarrow> (n', h', q) \<in> F" for q using False by auto
    ultimately show ?thesis using r that unfolding recovering_def by presburger
  qed
  moreover have "b' < next_map r'" if "start_addr_arr r' n' h' p' = Some b'" for n' h' p' b'
    using that old [of n' h' p' b'] by (auto simp: arr nx split: if_splits)
  ultimately have "recovering shards s (insert (n, h, p) F) r'" unfolding recovering_def by blast
  with eq show ?thesis by blast
qed

lemma recover_files_ok:
  assumes ins: "insert_log shards s" and c: "contents s map_file"
    and "\<forall>(n, f) \<in> set xs. \<exists>h p. f = file_name n h p \<and> (n, h, p) \<in> set (files s)" and "recovering shards s F r"
  shows "\<exists>r' F'. recover_files map_file shards xs r = Inr r' \<and> recovering shards s F' r' \<and>
    F \<subseteq> F' \<and> F' \<subseteq> F \<union> set (files s) \<and> (\<forall>(n, f) \<in> set xs. \<exists>h p. f = file_name n h p \<and> (n, h, p) \<in> F')"
  using assms(3,4)
proof (induction xs arbitrary: r F)
  case Nil
  then show ?case by auto
next
  case (Cons x xs)
  obtain n h p where x: "x = (n, file_name n h p)" and f: "(n, h, p) \<in> set (files s)"
    using Cons.prems(1) by (cases x) auto
  obtain r1 where r1: "recover_file map_file shards n (file_name n h p) r = Inr r1" "recovering shards s (insert (n, h, p) F) r1"
    using recover_file_ok [OF ins c f Cons.prems(2)] by blast
  obtain r' F' where r': "recover_files map_file shards xs r1 = Inr r'" "recovering shards s F' r'"
    "insert (n, h, p) F \<subseteq> F'" "F' \<subseteq> insert (n, h, p) F \<union> set (files s)"
    "\<forall>(n, f) \<in> set xs. \<exists>h p. f = file_name n h p \<and> (n, h, p) \<in> F'"
    using Cons.IH [OF _ r1(2)] Cons.prems(1) by auto
  have "recover_files map_file shards (x # xs) r = Inr r'" using r1(1) r'(1) by (simp add: x)
  moreover have "F' \<subseteq> F \<union> set (files s)" using r'(4) f by blast
  moreover have "\<forall>(n, f) \<in> set (x # xs). \<exists>h p. f = file_name n h p \<and> (n, h, p) \<in> F'" using r'(3,5) x by auto
  ultimately show ?case using r'(2,3) by blast
qed

lemma all_files_iff:
  assumes "dir_listing s readdir"
  shows "(n, f) \<in> set (all_files readdir) \<longleftrightarrow> n < numa_node_num \<and> (\<exists>h p. f = file_name n h p \<and> (n, h, p) \<in> set (files s))"
proof (cases "n < numa_node_num")
  case True
  then obtain names where ns: "readdir (dir_name n) = Some names"
    "{x \<in> set names. x \<noteq> ''.'' \<and> x \<noteq> ''..''} = {base_name n h p | h p. (n, h, p) \<in> set (files s)}"
    using assms unfolding dir_listing_def by blast
  have "(n, f) \<in> set (all_files readdir) \<longleftrightarrow> f \<in> set (loadfiles readdir (dir_name n))"
    using True by (auto simp: all_files_def)
  also have "\<dots> \<longleftrightarrow> (\<exists>x \<in> {x \<in> set names. x \<noteq> ''.'' \<and> x \<noteq> ''..''}. f = dir_name n @ ''/'' @ x)"
    by (auto simp: loadfiles_def ns(1))
  also have "\<dots> \<longleftrightarrow> (\<exists>h p. f = file_name n h p \<and> (n, h, p) \<in> set (files s))"
    unfolding ns(2) by (auto simp: file_name_def)
  finally show ?thesis using True by simp
qed (auto simp: all_files_def)

lemma recover_files_restores:
  assumes ins: "insert_log shards s" and c: "contents s map_file" and l: "dir_listing s readdir"
    and r0: "\<And>n h p. start_addr_arr r n h p = None" "\<And>n h. n < numa_node_num \<Longrightarrow> h < shards \<Longrightarrow> ppages r n h = fresh_ppage n h"
  obtains r' where "recover_files map_file shards (all_files readdir) r = Inr r'"
    and "\<And>n h. n < numa_node_num \<Longrightarrow> h < shards \<Longrightarrow> restores s r' n h \<and> start_addr (ppages r' n h) = None"
proof -
  have "recovering shards s {} r"
    using r0 by (auto simp: recovering_def fresh_ppage_def MAX_LOF_FILE_ID_def intro: exI [of _ "- 1"])
  moreover have "\<forall>(n, f) \<in> set (all_files readdir). \<exists>h p. f = file_name n h p \<and> (n, h, p) \<in> set (files s)"
    using all_files_iff [OF l] by blast
  ultimately obtain r' F where r': "recover_files map_file shards (all_files readdir) r = Inr r'"
    and rec: "recovering shards s F r'" and sub: "F \<subseteq> set (files s)"
    and all: "\<forall>(n, f) \<in> set (all_files readdir). \<exists>h p. f = file_name n h p \<and> (n, h, p) \<in> F"
    using recover_files_ok [OF ins c, of "all_files readdir" "{}" r] by auto
  have F: "(n, h, p) \<in> F" if "(n, h, p) \<in> set (files s)" for n h p
  proof -
    have n: "n < numa_node_num" "h < max_shards" "p < MAX_LOF_FILE_ID" if "(n, h, p) \<in> set (files s)" for h p
    proof -
      have "n < numa_node_num" "h < shards" using ins that by (auto simp: insert_log_def)
      moreover from this have "shard_wf s n h" "shards \<le> max_shards" using ins by (auto simp: insert_log_def log_wf_def)
      ultimately show "n < numa_node_num" "h < max_shards" "p < MAX_LOF_FILE_ID"
        using that unfolding shard_wf_def Let_def by (auto intro: le_less_trans)
    qed
    have "(n, file_name n h p) \<in> set (all_files readdir)" using that n(1) [OF that] by (auto simp: all_files_iff [OF l])
    then obtain h' p' where hp: "file_name n h p = file_name n h' p'" "(n, h', p') \<in> F" using all by blast
    have "(n, h', p') \<in> set (files s)" using hp(2) sub by blast
    then have "parse_name (file_name n h' p') = Some (int h', int p')" by (intro file_name_parses n)
    moreover have "parse_name (file_name n h p) = Some (int h, int p)" using that by (intro file_name_parses n)
    ultimately show ?thesis using hp by simp
  qed
  have "restores s r' n h \<and> start_addr (ppages r' n h) = None" if nh: "n < numa_node_num" "h < shards" for n h
  proof -
    have wf: "shard_wf s n h" and sh: "shard_inserts s n h" using ins nh by (auto simp: insert_log_def log_wf_def)
    have pg: "(n, h, p) \<in> F \<longleftrightarrow> p \<le> cur_page s n h" for p
    proof
      assume "(n, h, p) \<in> F"
      then show "p \<le> cur_page s n h" using sub wf unfolding shard_wf_def Let_def by blast
    qed (use sh F in \<open>simp add: shard_inserts_def\<close>)
    obtain i where i: "ppages r' n h = (fresh_ppage n h)\<lparr>pp_ppage_id := word_of_int i\<rparr>"
      "\<forall>p. (n, h, p) \<in> F \<longrightarrow> int p \<le> i" "i = - 1 \<or> (n, h, nat i) \<in> F"
      using rec nh unfolding recovering_def by blast
    define c where "c = cur_page s n h"
    have le: "int c \<le> i" using i(2) pg unfolding c_def by blast
    then have "(n, h, nat i) \<in> F" using i(3) by (elim disjE) simp_all
    then have "nat i \<le> c" by (simp only: pg c_def)
    with le have "i = int c" by simp
    then have "ppages r' n h = (fresh_ppage n h)\<lparr>pp_ppage_id := pp_ppage_id (ppages s n h)\<rparr>" using i(1) by (simp add: c_def)
    moreover have "\<exists>b. start_addr_arr r' n h p = Some b \<and> pmem r' b = page_of s n h p" if "p \<le> cur_page s n h" for p
      using recovering_mapped [OF rec] pg that by blast
    ultimately show ?thesis by (simp add: restores_def fresh_ppage_def)
  qed
  with r' show thesis using that by blast
qed

section \<open>Recovery\<close>

lemma distinct_count: "(\<And>k. count (mset xs) k \<le> 1) \<Longrightarrow> distinct xs"
proof (induction xs)
  case (Cons x xs)
  have "count (mset xs) k \<le> count (mset (x # xs)) k" for k by simp
  then have "count (mset xs) k \<le> 1" for k using Cons.prems [of k] order_trans by blast
  moreover have "x \<notin># mset xs" using Cons.prems [of x] by (simp add: not_in_iff)
  ultimately show ?case using Cons.IH by simp
qed simp

lemma log_keys_order:
  assumes "distinct order" and "set order = {..<numa_node_num} \<times> {..<shards}"
  shows "mset (concat (map (\<lambda>(n, h). shard_keys s n h) order)) = log_keys shards s"
proof -
  have "mset (concat (map (\<lambda>(n, h). shard_keys s n h) order)) = sum_list (map (\<lambda>(n, h). mset (shard_keys s n h)) order)"
    by (induction order) auto
  also have "\<dots> = (\<Sum>(n, h) \<in> set order. mset (shard_keys s n h))" using assms(1) by (simp add: sum_list_distinct_conv_sum_set)
  finally show ?thesis by (simp add: log_keys_def assms(2))
qed

context tree_index
begin

theorem recovery_correct:
  assumes ins: "insert_log shards s" and c: "contents s map_file" and l: "dir_listing s readdir"
    and n: "0 < recovery_thread_num" and order: "valid_order shards recovery_thread_num order"
    and uniq: "\<And>k. count (log_keys shards s) k \<le> 1"
    and d: "good d" and free: "\<And>k. k \<in># log_keys shards s \<Longrightarrow> k \<in> keys \<and> tmap d k = None"
  obtains r0 r d' where "LogKV_reopen shards (files s) = Inr r0"
    and "recovery_logkv T map_file readdir shards recovery_thread_num 8 order r0 d = Inr (r, d')"
    and "good d'" and "tmap d' = mark (set_mset (log_keys shards s)) (tmap d)"
    and "\<And>n h. n < numa_node_num \<Longrightarrow> h < shards \<Longrightarrow>
      cur_page r n h = cur_page s n h \<and> sz_allocated (ppages r n h) = sz_allocated (ppages s n h) \<and>
      start_addr (ppages r n h) = None"
proof -
  obtain r0 where r0: "LogKV_reopen shards (files s) = Inr r0" "\<And>n h p. start_addr_arr r0 n h p = None"
    "\<And>n h. n < numa_node_num \<Longrightarrow> h < shards \<Longrightarrow> ppages r0 n h = fresh_ppage n h"
    using LogKV_reopen_ok [of shards "files s"] by metis
  obtain r1 where r1: "recover_files map_file shards (all_files readdir) r0 = Inr r1"
    and res: "\<And>n h. n < numa_node_num \<Longrightarrow> h < shards \<Longrightarrow> restores s r1 n h \<and> start_addr (ppages r1 n h) = None"
    using recover_files_restores [OF ins c l r0(2,3)] by metis
  note ord = valid_order_shards [OF order n]
  let ?ks = "concat (map (\<lambda>(n, h). shard_keys s n h) order)"
  have mset: "mset ?ks = log_keys shards s" using ord by (rule log_keys_order)
  have dist: "distinct ?ks" using uniq by (intro distinct_count) (simp only: mset)
  have set: "set ?ks = set_mset (log_keys shards s)" by (simp only: mset [symmetric] set_mset_mset)
  have "\<forall>(n, h) \<in> set order. shard_inserts s n h \<and> shard_wf s n h \<and> restores s r1 n h"
    using ins res by (auto simp: ord(2) insert_log_def log_wf_def)
  from recover_shards_all [OF this ord(1) d dist] obtain d' where
    d': "recover_shards T 8 order (r1, d) = Some (r1\<lparr>ppages := (\<lambda>n h. if (n, h) \<in> set order
        then (ppages r1 n h)\<lparr>sz_allocated := sz_allocated (ppages s n h)\<rparr> else ppages r1 n h)\<rparr>, d')"
      "good d'" "tmap d' = mark (set_mset (log_keys shards s)) (tmap d)"
    unfolding set using free by blast
  show thesis
  proof (rule that [OF r0(1) _ d'(2,3)])
    show "recovery_logkv T map_file readdir shards recovery_thread_num 8 order r0 d = Inr (r1\<lparr>ppages := (\<lambda>n h. if (n, h) \<in> set order
        then (ppages r1 n h)\<lparr>sz_allocated := sz_allocated (ppages s n h)\<rparr> else ppages r1 n h)\<rparr>, d')"
      using n r1 d'(1) by (simp add: recovery_logkv_def)
  qed (use res ord(2) in \<open>auto simp: restores_def\<close>)
qed

end

end
