(* ===== verification/Recovery_Inserts.thy ===== *)
theory Recovery_Inserts
  imports Kvlog_Recovery
begin

text \<open>
  A log that was only inserted into is a log of insertions (\<open>insert_log\<close>), so that recovery finds
  exactly the inserted keys: the invariant holds of a new log, and every insertion keeps it and
  adds its key.
\<close>

section \<open>Where an insertion writes\<close>

lemma LogKV_insert_eq:
  fixes hash_key :: u64 and shards thread :: nat and s :: logkv
  defines "h \<equiv> unat hash_key mod shards" and "n \<equiv> get_numa_id thread"
  defines "s1 \<equiv> fst (get_version shards s hash_key)"
  defines "t \<equiv> ready s1 n h"
  assumes wf: "log_wf shards s" and room: "has_room mapped shards s thread hash_key"
  obtains b w where "start_addr (ppages t n h) = Some b"
    and "LogKV_insert mapped shards s thread raw raw_info key payload hash_key =
      Inr (store_at (reserve t n h) (insert_record shards s hash_key key payload) b (sz_allocated (ppages t n h)), w)"
proof -
  obtain v where s1: "s1 = s\<lparr>versions := v\<rparr>" by (simp add: s1_def get_version_def Let_def)
  have wf1: "log_wf shards s1" using wf by (simp add: s1 versions_only)
  have n: "n < numa_node_num" by (simp add: n_def get_numa_id_less)
  have h: "h < shards" using wf by (simp add: h_def log_wf_def)
  have room1: "sz_allocated (ppages s1 n h) + pair_size \<le> PPAGE_SIZE \<or>
      Suc (cur_page s1 n h) < MAX_LOF_FILE_ID \<and> mapped (n, h, Suc (cur_page s1 n h))"
    using room by (simp add: s1 has_room_def n_def h_def Let_def)
  have "log_wf shards t" unfolding t_def using ready_correct(1) [OF wf1 n h] room1 by blast
  then have "shard_wf t n h" using n h by (simp add: log_wf_def)
  then obtain b where b: "start_addr (ppages t n h) = Some b" by (auto simp: shard_wf_def Let_def)
  let ?p = "set_op (set_version (Pair_t_new raw key payload) (versions s (unat hash_key mod shards))) INSERT"
  have p: "?p = insert_record shards s hash_key key payload"
    by (simp add: insert_record_def set_op_def set_version_def Pair_t_new_def next_version_def)
  obtain info where al: "alloc_log mapped shards s1 thread hash_key ((no_log_info raw_info)\<lparr>vlen := 8\<rparr>) pair_size =
      Inr (reserve t n h, info, Some b, sz_allocated (ppages t n h))"
    using PPage_alloc_ready [where mapped = mapped, OF wf1 n h room1] b
    by (simp add: alloc_log_def t_def n_def [symmetric] h_def [symmetric] Let_def)
  have "LogKV_insert mapped shards s thread raw raw_info key payload hash_key =
      Inr (store_at (reserve t n h) ?p b (sz_allocated (ppages t n h)), to_uint64_t_offset info)"
    using al by (subst LogKV_insert_def, subst get_version_eq) (simp add: s1_def store_log_def Let_def)
  with b p show thesis using that by simp
qed

section \<open>The invariant\<close>

lemma shard_versions:
  "used (s\<lparr>versions := v\<rparr>) = used s" "page_of (s\<lparr>versions := v\<rparr>) = page_of s"
  by (simp_all add: used_def page_of_def fun_eq_iff)

lemma insert_log_versions:
  "insert_log shards (s\<lparr>versions := v\<rparr>) = insert_log shards s" "log_keys shards (s\<lparr>versions := v\<rparr>) = log_keys shards s"
  by (simp_all add: insert_log_def versions_only shard_inserts_def log_keys_def shard_keys_def shard_versions)

lemma sum_one_changed:
  fixes f g :: "'a \<Rightarrow> 'b multiset"
  assumes "finite A" and "x \<in> A" and "g x = f x + c" and "\<And>y. y \<in> A \<Longrightarrow> y \<noteq> x \<Longrightarrow> g y = f y"
  shows "(\<Sum>y \<in> A. g y) = (\<Sum>y \<in> A. f y) + c"
proof -
  have "(\<Sum>y \<in> A - {x}. g y) = (\<Sum>y \<in> A - {x}. f y)" by (rule sum.cong) (use assms(4) in auto)
  then show ?thesis using assms(1-3) by (simp add: sum.remove [of A x])
qed

lemma log_keys_changed:
  assumes "n < numa_node_num" and "h < shards" and "mset (shard_keys s' n h) = mset (shard_keys s n h) + c"
    and "\<And>n' h'. n' < numa_node_num \<Longrightarrow> h' < shards \<Longrightarrow> (n', h') \<noteq> (n, h) \<Longrightarrow> shard_keys s' n' h' = shard_keys s n' h'"
  shows "log_keys shards s' = log_keys shards s + c"
proof -
  have "(case y of (n, h) \<Rightarrow> mset (shard_keys s' n h)) = (case y of (n, h) \<Rightarrow> mset (shard_keys s n h))"
    if "y \<in> {..<numa_node_num} \<times> {..<shards}" "y \<noteq> (n, h)" for y
    using that assms(4) by (cases y) auto
  then show ?thesis
    unfolding log_keys_def using assms(1-3) by (intro sum_one_changed [where x = "(n, h)"]) auto
qed

text \<open>The step to a new page.\<close>

lemma full_page:
  assumes "shard_inserts s n h" and "shard_wf s n h" and "\<not> sz_allocated (ppages s n h) + pair_size \<le> PPAGE_SIZE"
  shows "sz_allocated (ppages s n h) = PPAGE_SIZE"
proof -
  obtain k where k: "sz_allocated (ppages s n h) = 32 * k"
    using assms(1) by (auto simp: shard_inserts_def pair_size_def dvd_def)
  moreover have "sz_allocated (ppages s n h) \<le> PPAGE_SIZE" using assms(2) by (simp add: shard_wf_def Let_def)
  ultimately show ?thesis using assms(3) unfolding k pair_size_def PPAGE_SIZE_def by presburger
qed

lemma next_page_insert_log:
  assumes ins: "insert_log shards s" and n: "n < numa_node_num" and h: "h < shards"
    and room: "Suc (cur_page s n h) < MAX_LOF_FILE_ID" and full: "sz_allocated (ppages s n h) = PPAGE_SIZE"
  shows "insert_log shards (next_page s n h)" and "log_keys shards (next_page s n h) = log_keys shards s"
proof -
  let ?t = "next_page s n h" and ?c = "Suc (cur_page s n h)"
  have wf: "log_wf shards s" and bl: "blocks_wf s" and sh: "shard_inserts s n h"
    using ins n h by (auto simp: insert_log_def log_wf_def)
  have id: "unat (pp_ppage_id (ppages s n h) + 1) = ?c" using room by (intro unat_ppage_Suc) simp
  have cur: "cur_page ?t n' h' = (if n' = n \<and> h' = h then ?c else cur_page s n' h')"
    and sz: "sz_allocated (ppages ?t n' h') = (if n' = n \<and> h' = h then 0 else sz_allocated (ppages s n' h'))" for n' h'
    using id by (simp_all add: next_page_def Let_def)
  have arr: "start_addr_arr ?t n' h' p = (if n' = n \<and> h' = h \<and> p = ?c then Some (next_map s) else start_addr_arr s n' h' p)" for n' h' p
    by (simp add: next_page_def Let_def)
  have fls: "set (files ?t) = insert (n, h, ?c) (set (files s))" by (simp add: next_page_def Let_def)
  have new: "page_of ?t n h ?c = (\<lambda>_. - 1)" by (simp add: page_of_def next_page_def Let_def)
  have old: "page_of ?t n' h' p = page_of s n' h' p"
    if a: "start_addr_arr s n' h' p \<noteq> None" and ne: "\<not> (n' = n \<and> h' = h \<and> p = ?c)" for n' h' p
  proof -
    obtain b where b: "start_addr_arr s n' h' p = Some b" using a by auto
    then have "b \<noteq> next_map s" using bl unfolding blocks_wf_def by blast
    with b ne show ?thesis unfolding page_of_def arr by (auto simp: next_page_def Let_def)
  qed
  have used': "used ?t n' h' p = used s n' h' p" if "p \<le> cur_page s n' h'" for n' h' p
    using that full by (auto simp: used_def cur sz)
  have pages: "start_addr_arr s n' h' p \<noteq> None" if "n' < numa_node_num" "h' < shards" "p \<le> cur_page s n' h'" for n' h' p
    using ins that by (auto simp: insert_log_def shard_inserts_def)
  have olds: "page_of ?t n' h' p = page_of s n' h' p" if "n' < numa_node_num" "h' < shards" "p \<le> cur_page s n' h'" for n' h' p
    using that pages [OF that] by (intro old) auto
  have "shard_inserts ?t n' h'" if nh: "n' < numa_node_num" "h' < shards" for n' h'
  proof (cases "n' = n \<and> h' = h")
    case True
    have recs: "pair_op (load_pair (page_of s n h p) (pair_size * i)) = op_code INSERT"
      if "p \<le> cur_page s n h" "pair_size * i < used s n h p" for p i
      using sh that unfolding shard_inserts_def by blast
    have "start_addr_arr ?t n h p \<noteq> None \<and> (n, h, p) \<in> set (files ?t) \<and>
        (\<forall>i. pair_size * i < used ?t n h p \<longrightarrow> pair_op (load_pair (page_of ?t n h p) (pair_size * i)) = op_code INSERT)"
      if p: "p \<le> ?c" for p
    proof (cases "p = ?c")
      case True
      then show ?thesis by (auto simp: arr fls used_def cur sz)
    next
      case False
      then have p: "p \<le> cur_page s n h" using p by simp
      then show ?thesis using sh recs olds [OF n h p] used' [OF p] by (auto simp: arr fls shard_inserts_def)
    qed
    then show ?thesis unfolding shard_inserts_def using True new by (simp add: cur sz)
  next
    case False
    then have "shard_inserts s n' h'" using ins nh by (simp add: insert_log_def)
    then show ?thesis using False olds [OF nh] used' [of _ n' h'] unfolding shard_inserts_def by (auto simp: cur sz arr fls)
  qed
  then show "insert_log shards ?t"
    using ins next_page_wf [OF wf n h room] n h unfolding insert_log_def fls by auto
  have keys: "map (\<lambda>p. page_keys (page_of ?t n' h' p) (used ?t n' h' p)) [0..<Suc (cur_page s n' h')] =
      map (\<lambda>p. page_keys (page_of s n' h' p) (used s n' h' p)) [0..<Suc (cur_page s n' h')]" if "n' < numa_node_num" "h' < shards" for n' h'
    using olds [OF that] used' [of _ n' h'] by (intro map_cong) auto
  have "log_keys shards ?t = log_keys shards s + {#}"
  proof (rule log_keys_changed [OF n h])
    have "used ?t n h ?c = 0" by (simp add: used_def cur sz)
    then have "page_keys (page_of ?t n h ?c) (used ?t n h ?c) = []" by (simp add: page_keys_def)
    moreover have "shard_keys ?t n h = concat (map (\<lambda>p. page_keys (page_of ?t n h p) (used ?t n h p)) [0..<?c]) @
        page_keys (page_of ?t n h ?c) (used ?t n h ?c)"
      by (simp add: shard_keys_def cur)
    ultimately have "shard_keys ?t n h = shard_keys s n h" by (simp only: keys [OF n h] append_Nil2 shard_keys_def)
    then show "mset (shard_keys ?t n h) = mset (shard_keys s n h) + {#}" by simp
  next
    fix n' h' assume "n' < numa_node_num" "h' < shards" "(n', h') \<noteq> (n, h)"
    moreover from this have "cur_page ?t n' h' = cur_page s n' h'" by (auto simp: cur)
    ultimately show "shard_keys ?t n' h' = shard_keys s n' h'" by (simp only: shard_keys_def keys)
  qed
  then show "log_keys shards ?t = log_keys shards s" by simp
qed

text \<open>The record itself.\<close>

lemma page_keys_store:
  assumes "sz = pair_size * k"
  shows "page_keys (store_persist p m sz) (sz + pair_size) = page_keys m sz @ [pair_key p]"
proof -
  have "load_pair (store_persist p m sz) (pair_size * i) = load_pair m (pair_size * i)" if "i < k" for i
    using that by (simp add: assms pair_size_def load_pair_def store_persist_def)
  then have "map (\<lambda>i. pair_key (load_pair (store_persist p m sz) (pair_size * i))) [0..<k] =
      map (\<lambda>i. pair_key (load_pair m (pair_size * i))) [0..<k]" by simp
  then show ?thesis by (simp add: page_keys_def assms load_store_persist)
qed

lemma store_insert_log:
  assumes ins: "insert_log shards s" and n: "n < numa_node_num" and h: "h < shards"
    and fit: "sz_allocated (ppages s n h) + pair_size \<le> PPAGE_SIZE" and b: "start_addr (ppages s n h) = Some b"
    and p: "pair_op p = op_code INSERT"
  defines "s' \<equiv> store_at (reserve s n h) p b (sz_allocated (ppages s n h))"
  shows "insert_log shards s'" and "log_keys shards s' = log_keys shards s + {#pair_key p#}"
proof -
  let ?sz = "sz_allocated (ppages s n h)" and ?c = "cur_page s n h"
  have wf: "log_wf shards s" and bl: "blocks_wf s" and sh: "shard_inserts s n h" and sw: "shard_wf s n h"
    using ins n h by (auto simp: insert_log_def log_wf_def)
  have bc: "start_addr_arr s n h ?c = Some b" using sw b by (simp add: shard_wf_def Let_def)
  have cur: "cur_page s' n' h' = cur_page s n' h'"
    and sz: "sz_allocated (ppages s' n' h') = (if n' = n \<and> h' = h then ?sz + pair_size else sz_allocated (ppages s n' h'))"
    and arr: "start_addr_arr s' = start_addr_arr s" and fls: "files s' = files s" for n' h'
    by (simp_all add: s'_def store_at_def reserve_def)
  have pg: "page_of s' n' h' q = (if n' = n \<and> h' = h \<and> q = ?c then store_persist p (page_of s n h ?c) ?sz else page_of s n' h' q)"
    if a: "start_addr_arr s n' h' q \<noteq> None" for n' h' q
  proof -
    obtain b' where b': "start_addr_arr s n' h' q = Some b'" using a by auto
    have "b' = b \<longleftrightarrow> n' = n \<and> h' = h \<and> q = ?c" using bl b' bc unfolding blocks_wf_def by (metis option.inject)
    then show ?thesis using b' bc by (auto simp: page_of_def arr) (simp_all add: s'_def store_at_def reserve_def)
  qed
  have used': "used s' n' h' q = (if n' = n \<and> h' = h \<and> q = ?c then ?sz + pair_size else used s n' h' q)" for n' h' q
    by (auto simp: used_def cur sz)
  obtain k where k: "?sz = pair_size * k" using sh by (auto simp: shard_inserts_def dvd_def)
  have pages: "start_addr_arr s n' h' q \<noteq> None" if "n' < numa_node_num" "h' < shards" "q \<le> cur_page s n' h'" for n' h' q
    using ins that by (auto simp: insert_log_def shard_inserts_def)
  have "shard_inserts s' n' h'" if nh: "n' < numa_node_num" "h' < shards" for n' h'
  proof -
    have old: "shard_inserts s n' h'" using ins nh by (simp add: insert_log_def)
    have "pair_op (load_pair (page_of s' n' h' q) (pair_size * i)) = op_code INSERT"
      if q: "q \<le> cur_page s n' h'" and i: "pair_size * i < used s' n' h' q" for q i
    proof (cases "n' = n \<and> h' = h \<and> q = ?c")
      case False
      then have "page_of s' n' h' q = page_of s n' h' q" "used s' n' h' q = used s n' h' q"
        using pg [OF pages [OF nh q]] used' by auto
      then show ?thesis using old q i unfolding shard_inserts_def by auto
    next
      case True
      have le: "i \<le> k" using i True by (simp add: used' k) (metis less_Suc_eq_le mult_Suc_right add.commute mult_less_cancel1)
      have pge: "page_of s' n' h' q = store_persist p (page_of s n h ?c) ?sz" using True pg [OF pages [OF nh q]] by simp
      show ?thesis
      proof (cases "i = k")
        case True
        then show ?thesis by (simp only: pge k [symmetric] load_store_persist p)
      next
        case False
        then have "load_pair (store_persist p (page_of s n h ?c) ?sz) (pair_size * i) = load_pair (page_of s n h ?c) (pair_size * i)"
          using le by (simp add: k pair_size_def load_pair_def store_persist_def)
        moreover have "pair_size * i < used s n h ?c" using le False by (simp add: used_def k)
        ultimately show ?thesis using sh True pge unfolding shard_inserts_def by auto
      qed
    qed
    moreover have "page_of s' n' h' (cur_page s n' h') a = - 1" if a: "sz_allocated (ppages s' n' h') \<le> a" for a
    proof (cases "n' = n \<and> h' = h")
      case True
      then have "?sz + pair_size \<le> a" using a by (simp add: sz)
      then have "?sz + 32 \<le> a" by (simp add: pair_size_def)
      moreover from this have "page_of s n h ?c a = - 1" using sh by (simp add: shard_inserts_def)
      ultimately show ?thesis using True pg [OF pages [OF n h order_refl]] by (simp add: store_persist_def)
    next
      case False
      then show ?thesis using old a pg [OF pages [OF nh order_refl]] by (auto simp: sz shard_inserts_def)
    qed
    moreover have "pair_size dvd sz_allocated (ppages s' n' h')" using old k by (auto simp: sz shard_inserts_def)
    ultimately show ?thesis using old unfolding shard_inserts_def cur arr fls by blast
  qed
  moreover have "log_wf shards s'" unfolding s'_def store_at_wf by (rule reserve_correct(1) [OF wf n h fit])
  ultimately show "insert_log shards s'" using ins by (simp add: insert_log_def fls)
  let ?f = "\<lambda>n' h' q. page_keys (page_of s n' h' q) (used s n' h' q)" and ?f' = "\<lambda>n' h' q. page_keys (page_of s' n' h' q) (used s' n' h' q)"
  have same: "?f' n' h' q = ?f n' h' q" if "n' < numa_node_num" "h' < shards" "q \<le> cur_page s n' h'" "(n', h', q) \<noteq> (n, h, ?c)" for n' h' q
    using pg [OF pages [OF that(1,2,3)]] used' [of n' h' q] that(4) by auto
  have last: "?f' n h ?c = ?f n h ?c @ [pair_key p]"
    using page_keys_store [OF k, of p] pg [OF pages [OF n h order_refl]] by (simp add: used_def cur sz)
  show "log_keys shards s' = log_keys shards s + {#pair_key p#}"
  proof (rule log_keys_changed [OF n h])
    have maps: "map (?f' n h) [0..<?c] = map (?f n h) [0..<?c]" using same [OF n h] by auto
    have "map (?f' n h) [0..<Suc ?c] = map (?f n h) [0..<?c] @ [?f n h ?c @ [pair_key p]]"
      unfolding upt_Suc_append [OF le0] map_append maps by (simp add: last)
    then show "mset (shard_keys s' n h) = mset (shard_keys s n h) + {#pair_key p#}"
      by (simp only: shard_keys_def cur) simp
  next
    fix n' h' assume nh: "n' < numa_node_num" "h' < shards" "(n', h') \<noteq> (n, h)"
    then have "map (?f' n' h') [0..<Suc (cur_page s n' h')] = map (?f n' h') [0..<Suc (cur_page s n' h')]"
      using same [OF nh(1,2)] by auto
    then show "shard_keys s' n' h' = shard_keys s n' h'" by (simp only: shard_keys_def cur)
  qed
qed

lemma LogKV_insert_keys:
  assumes ins: "insert_log shards s" and room: "has_room mapped shards s thread hash_key"
  obtains s' w where "LogKV_insert mapped shards s thread raw raw_info key payload hash_key = Inr (s', w)"
    and "insert_log shards s'" and "log_keys shards s' = add_mset key (log_keys shards s)"
proof -
  let ?h = "unat hash_key mod shards" and ?n = "get_numa_id thread"
  define s1 where "s1 = fst (get_version shards s hash_key)"
  define t where "t = ready s1 ?n ?h"
  have wf: "log_wf shards s" using ins by (simp add: insert_log_def)
  obtain v where s1: "s1 = s\<lparr>versions := v\<rparr>" by (simp add: s1_def get_version_def Let_def)
  have ins1: "insert_log shards s1" "log_keys shards s1 = log_keys shards s" using ins by (simp_all add: s1 insert_log_versions)
  have n: "?n < numa_node_num" by (simp add: get_numa_id_less)
  have h: "?h < shards" using wf by (simp add: log_wf_def)
  have room1: "sz_allocated (ppages s1 ?n ?h) + pair_size \<le> PPAGE_SIZE \<or> Suc (cur_page s1 ?n ?h) < MAX_LOF_FILE_ID"
    using room by (auto simp: s1 has_room_def Let_def)
  have wf1: "log_wf shards s1" "shard_inserts s1 ?n ?h" "shard_wf s1 ?n ?h"
    using ins1 n h by (auto simp: insert_log_def log_wf_def)
  have t: "insert_log shards t" "log_keys shards t = log_keys shards s"
    using ins1 next_page_insert_log [OF ins1(1) n h _ full_page [OF wf1(2,3)]] room1 by (auto simp: t_def ready_def)
  have fit: "sz_allocated (ppages t ?n ?h) + pair_size \<le> PPAGE_SIZE"
    unfolding t_def by (rule ready_correct(3) [OF wf1(1) n h room1])
  obtain b w where b: "start_addr (ppages t ?n ?h) = Some b"
    and eq: "LogKV_insert mapped shards s thread raw raw_info key payload hash_key =
      Inr (store_at (reserve t ?n ?h) (insert_record shards s hash_key key payload) b (sz_allocated (ppages t ?n ?h)), w)"
    unfolding t_def s1_def by (rule LogKV_insert_eq [OF wf room])
  have "pair_op (insert_record shards s hash_key key payload) = op_code INSERT"
    "pair_key (insert_record shards s hash_key key payload) = key"
    by (simp_all add: insert_record_def)
  with store_insert_log [OF t(1) n h fit b] t(2) show thesis using that [OF eq] by simp
qed

section \<open>A new log\<close>

lemma new_pages_inserts:
  assumes "pages_wf done s" and "\<forall>(n, h) \<in> done. (n, h, 0) \<in> set (files s) \<and> page_of s n h 0 = (\<lambda>_. - 1)"
    and "distinct xs" and "set xs \<inter> done = {}"
    and "\<forall>(n, h) \<in> set xs. mapped (n, h, 0) \<and> n < numa_node_num \<and> h < max_shards"
    and "LogKV_pages mapped False xs s = Inr s'"
  shows "\<forall>(n, h) \<in> set xs \<union> done. (n, h, 0) \<in> set (files s') \<and> page_of s' n h 0 = (\<lambda>_. - 1)"
  using assms
proof (induction xs arbitrary: s "done")
  case (Cons x xs)
  obtain n h where x: "x = (n, h)" by fastforce
  have new: "(n, h) \<notin> done" and m: "mapped (n, h, 0)" and nn: "n < numa_node_num" and hh: "h < max_shards"
    using Cons.prems x by auto
  obtain s1 pp where s1: "PPage_new mapped s n h False = Inr (s1, pp)"
    and wf1: "pages_wf (insert (n, h) done) ((set_ppage s1 n h pp)\<lparr>start_addr_arr := (start_addr_arr s1)(n := (start_addr_arr s1 n)
               (h := (start_addr_arr s1 n h)(0 := start_addr pp)))\<rparr>)"
    using page_created [where mapped = mapped, OF Cons.prems(1) new m nn hh] by blast
  let ?s2 = "(set_ppage s1 n h pp)\<lparr>start_addr_arr := (start_addr_arr s1)(n := (start_addr_arr s1 n)
               (h := (start_addr_arr s1 n h)(0 := start_addr pp)))\<rparr>"
  have none: "start_addr_arr s n h p = None" "(n, h, p) \<notin> set (files s)" for p
    using Cons.prems(1) new by (auto simp: pages_wf_def)
  have s1': "s1 = s\<lparr>pmem := (pmem s)(next_map s := (\<lambda>_. - 1)), next_map := Suc (next_map s), files := (n, h, 0) # files s,
      start_addr_arr := (start_addr_arr s)(n := (start_addr_arr s n)(h := (start_addr_arr s n h)(0 := Some (next_map s))))\<rparr>"
    and pp: "start_addr pp = Some (next_map s)"
    using s1 none m nn hh by (auto simp: PPage_new_def alloc_new_ppage_def Let_def MAX_LOF_FILE_ID_def)
  have "(n', h', 0) \<in> set (files ?s2) \<and> page_of ?s2 n' h' 0 = (\<lambda>_. - 1)" if "(n', h') \<in> insert (n, h) done" for n' h'
  proof (cases "(n', h') = (n, h)")
    case False
    then have old: "(n', h') \<in> done" using that by auto
    then have f: "(n', h', 0) \<in> set (files s)" "page_of s n' h' 0 = (\<lambda>_. - 1)" using Cons.prems(2) by auto
    have "shard_wf s n' h'" "cur_page s n' h' = 0" using Cons.prems(1) old by (auto simp: pages_wf_def)
    then obtain b where b: "start_addr_arr s n' h' 0 = Some b" by (auto simp: shard_wf_def Let_def)
    have "blocks_wf s" using Cons.prems(1) by (simp add: pages_wf_def)
    then have "b \<noteq> next_map s" using b unfolding blocks_wf_def by blast
    then show ?thesis using f b False by (auto simp: page_of_def s1')
  qed (simp add: page_of_def s1' pp)
  then have inv: "\<forall>(n', h') \<in> insert (n, h) done. (n', h', 0) \<in> set (files ?s2) \<and> page_of ?s2 n' h' 0 = (\<lambda>_. - 1)"
    by blast
  have rest: "LogKV_pages mapped False xs ?s2 = Inr s'" using Cons.prems(6) s1 by (simp add: x)
  have "set xs \<inter> insert (n, h) done = {}" "distinct xs" using Cons.prems x by auto
  with Cons.IH [OF wf1 inv _ _ _ rest] Cons.prems(5) show ?case by (simp add: x)
qed simp

lemma LogKV_new_inserts:
  assumes shards: "0 < shards" "shards \<le> max_shards" and m: "\<And>n h. mapped (n, h, 0)"
  obtains s where "LogKV_new mapped shards False = Inr s" and "insert_log shards s" and "log_keys shards s = {#}"
proof -
  let ?xs = "List.product [0..<numa_node_num] [0..<shards]"
  have e: "pages_wf {} empty_log" by (simp add: pages_wf_def blocks_wf_def empty_log_def)
  have xs: "distinct ?xs" "\<forall>(n, h) \<in> set ?xs. mapped (n, h, 0) \<and> n < numa_node_num \<and> h < max_shards"
    using m shards by (auto simp: distinct_product)
  obtain s where s: "LogKV_pages mapped False ?xs empty_log = Inr s" and wf: "pages_wf (set ?xs) s"
    using LogKV_pages_wf [OF e xs(1) _ xs(2)] by auto
  have pg: "(n, h, 0) \<in> set (files s) \<and> page_of s n h 0 = (\<lambda>_. - 1)" if "n < numa_node_num" "h < shards" for n h
    using new_pages_inserts [OF e _ xs(1) _ xs(2) s] that by auto
  have sh: "shard_wf s n h" "cur_page s n h = 0" "sz_allocated (ppages s n h) = 0" if "n < numa_node_num" "h < shards" for n h
    using wf that by (auto simp: pages_wf_def)
  have "shard_inserts s n h" if nh: "n < numa_node_num" "h < shards" for n h
    using sh [OF nh] pg [OF nh] by (auto simp: shard_inserts_def used_def shard_wf_def Let_def)
  moreover have "log_wf shards s" using wf shards by (auto simp: log_wf_def pages_wf_def)
  moreover have "\<forall>(n, h, p) \<in> set (files s). n < numa_node_num \<and> h < shards"
    using wf unfolding pages_wf_def by fastforce
  ultimately have "insert_log shards s" by (simp add: insert_log_def)
  moreover have "shard_keys s n h = []" if "n < numa_node_num" "h < shards" for n h
    using sh [OF that] by (simp add: shard_keys_def used_def page_keys_def)
  then have "log_keys shards s = {#}" by (auto simp: log_keys_def intro: sum.neutral)
  ultimately show thesis using that s by (simp add: LogKV_new_def)
qed

section \<open>Runs of insertions\<close>

text \<open>Insertions by several threads, in the order in which they happen.\<close>

fun insert_all ::
  "(nat \<times> nat \<times> nat \<Rightarrow> bool) \<Rightarrow> nat \<Rightarrow> (u64 \<Rightarrow> u64) \<Rightarrow> Pair_t \<Rightarrow> last_log_offest \<Rightarrow> logkv \<Rightarrow> (nat \<times> u64 \<times> u64) list \<Rightarrow> fault + logkv" where
  "insert_all mapped shards hash raw raw_info s [] = Inr s"
| "insert_all mapped shards hash raw raw_info s ((thread, key, payload) # ops) =
     (case LogKV_insert mapped shards s thread raw raw_info key payload (hash key) of
        Inl e \<Rightarrow> Inl e
      | Inr (s', _) \<Rightarrow> insert_all mapped shards hash raw raw_info s' ops)"

lemma PPage_alloc_fault:
  assumes wf: "log_wf shards s" and n: "n < numa_node_num" and h: "h < shards"
    and full: "\<not> sz_allocated (ppages s n h) + pair_size \<le> PPAGE_SIZE"
    and none: "\<not> (Suc (cur_page s n h) < MAX_LOF_FILE_ID \<and> mapped (n, h, Suc (cur_page s n h)))"
  shows "\<exists>e. PPage_alloc mapped s n h info pair_size = Inl e"
proof -
  have sh: "shard_wf s n h" using wf n h by (simp add: log_wf_def)
  then have ids: "pp_numa_id (ppages s n h) = n" "pp_hash_id (ppages s n h) = h"
    and sz: "sz_allocated (ppages s n h) \<le> PPAGE_SIZE" and cur: "cur_page s n h < MAX_LOF_FILE_ID"
    by (auto simp: shard_wf_def Let_def)
  have id: "unat (pp_ppage_id (ppages s n h) + 1) = Suc (cur_page s n h)" using cur by (rule unat_ppage_Suc)
  have less: "PPAGE_SIZE - sz_allocated (ppages s n h) < pair_size" using sz full by linarith
  have "\<exists>e. alloc_new_ppage mapped s n h (Suc (cur_page s n h)) = Inl e"
    using none by (auto simp: alloc_new_ppage_def)
  then show ?thesis using less ids id by (auto simp: PPage_alloc_def)
qed

text \<open>An insertion that returns had room.\<close>

lemma LogKV_insert_had_room:
  assumes wf: "log_wf shards s" and ok: "LogKV_insert mapped shards s thread raw raw_info key payload hash_key = Inr r"
  shows "has_room mapped shards s thread hash_key"
proof (rule ccontr)
  assume no: "\<not> has_room mapped shards s thread hash_key"
  define s1 where "s1 = fst (get_version shards s hash_key)"
  obtain v where s1: "s1 = s\<lparr>versions := v\<rparr>" by (simp add: s1_def get_version_def Let_def)
  have wf1: "log_wf shards s1" using wf by (simp add: s1 versions_only)
  have h: "unat hash_key mod shards < shards" using wf by (simp add: log_wf_def)
  obtain e where "PPage_alloc mapped s1 (get_numa_id thread) (unat hash_key mod shards) ((no_log_info raw_info)\<lparr>vlen := 8\<rparr>) pair_size = Inl e"
    using PPage_alloc_fault [OF wf1 get_numa_id_less h, where mapped = mapped] no by (auto simp: s1 has_room_def Let_def)
  then have "LogKV_insert mapped shards s thread raw raw_info key payload hash_key = Inl e"
    by (subst LogKV_insert_def, subst get_version_eq) (simp add: s1_def alloc_log_def Let_def)
  with ok show False by simp
qed

lemma insert_all_keys:
  assumes "insert_log shards s" and "insert_all mapped shards hash raw raw_info s ops = Inr s'"
  shows "insert_log shards s'" and "log_keys shards s' = log_keys shards s + mset (map (fst \<circ> snd) ops)"
proof -
  have "insert_log shards s' \<and> log_keys shards s' = log_keys shards s + mset (map (fst \<circ> snd) ops)"
    using assms
  proof (induction ops arbitrary: s)
    case (Cons op ops)
    obtain thread key payload where op: "op = (thread, key, payload)" by (cases op) auto
    obtain s1 w where ok: "LogKV_insert mapped shards s thread raw raw_info key payload (hash key) = Inr (s1, w)"
      using Cons.prems(2) by (auto simp: op split: sum.splits)
    have wf: "log_wf shards s" using Cons.prems(1) by (simp add: insert_log_def)
    have s1: "insert_log shards s1" "log_keys shards s1 = add_mset key (log_keys shards s)"
      using LogKV_insert_keys [OF Cons.prems(1) LogKV_insert_had_room [OF wf ok]] ok by (metis Pair_inject sum.inject(2))+
    show ?case using Cons.IH [OF s1(1)] Cons.prems(2) ok s1(2) by (simp add: op)
  qed simp
  then show "insert_log shards s'" and "log_keys shards s' = log_keys shards s + mset (map (fst \<circ> snd) ops)" by simp_all
qed

section \<open>The files that a log leaves\<close>

definition dir_of :: "logkv \<Rightarrow> string \<Rightarrow> string list option" where
  "dir_of s d = Some (map (\<lambda>(n, h, p). base_name n h p) (filter (\<lambda>(n, h, p). dir_name n = d) (files s)))"

definition file_of :: "logkv \<Rightarrow> string \<Rightarrow> block option" where
  "file_of s f = map_option (\<lambda>(n, h, p). page_of s n h p) (find (\<lambda>(n, h, p). file_name n h p = f) (files s))"

lemma dir_name_inj:
  assumes "n < numa_node_num" and "m < numa_node_num"
  shows "dir_name n = dir_name m \<longleftrightarrow> n = m"
proof -
  have "to_string 0 \<noteq> to_string 1" using to_string_value [of 0] to_string_value [of 1] by auto
  then show ?thesis using assms by (auto simp: numa_node_num_def dir_name_def less_2_cases_iff)
qed

lemma file_name_inj:
  assumes "n < numa_node_num" "h < max_shards" "p < MAX_LOF_FILE_ID" and "n' < numa_node_num" "h' < max_shards" "p' < MAX_LOF_FILE_ID"
    and eq: "file_name n h p = file_name n' h' p'"
  shows "(n, h, p) = (n', h', p')"
proof -
  note file_name_parses [OF assms(1-3)] file_name_parses [OF assms(4-6)]
  then have hp: "h = h'" "p = p'" using eq by simp_all
  have "length (to_string n) = length (to_string n')"
    using to_string_length [of n 0] to_string_length [of n' 0] to_string_nonempty [of n] to_string_nonempty [of n'] assms(1,4)
    by (simp add: numa_node_num_def le_Suc_eq)
  then have "dir_name n = dir_name n'" using eq hp by (simp add: file_name_def base_name_def dir_name_def)
  then show ?thesis using dir_name_inj assms(1,4) hp by simp
qed

lemma insert_log_file:
  assumes "insert_log shards s" and "(n, h, p) \<in> set (files s)"
  shows "n < numa_node_num" and "h < max_shards" and "p < MAX_LOF_FILE_ID"
proof -
  have nh: "n < numa_node_num" "h < shards" using assms by (auto simp: insert_log_def)
  then have "shard_wf s n h" "shards \<le> max_shards" using assms(1) by (auto simp: insert_log_def log_wf_def)
  with nh assms(2) show "n < numa_node_num" "h < max_shards" "p < MAX_LOF_FILE_ID"
    unfolding shard_wf_def Let_def by (auto intro: le_less_trans)
qed

lemma dir_listing_of:
  assumes "insert_log shards s"
  shows "dir_listing s (dir_of s)"
  unfolding dir_listing_def
proof (intro allI impI)
  fix i assume i: "i < numa_node_num"
  let ?ns = "map (\<lambda>(n, h, p). base_name n h p) (filter (\<lambda>(n, h, p). dir_name n = dir_name i) (files s))"
  have "set ?ns = {base_name i h p | h p. (i, h, p) \<in> set (files s)}"
    using dir_name_inj [OF _ i] insert_log_file(1) [OF assms] by force
  moreover have "base_name n h p \<noteq> ''.'' \<and> base_name n h p \<noteq> ''..''" for n h p by (simp add: base_name_def)
  ultimately have "{x \<in> set ?ns. x \<noteq> ''.'' \<and> x \<noteq> ''..''} = {base_name i h p | h p. (i, h, p) \<in> set (files s)}"
    by (simp only: mem_Collect_eq set_eq_iff) metis
  then show "\<exists>names. dir_of s (dir_name i) = Some names \<and>
      {x \<in> set names. x \<noteq> ''.'' \<and> x \<noteq> ''..''} = {base_name i h p | h p. (i, h, p) \<in> set (files s)}"
    by (simp only: dir_of_def option.inject) blast
qed

lemma contents_file_of:
  assumes "insert_log shards s"
  shows "contents s (file_of s)"
proof -
  have "file_of s (file_name n h p) = Some (page_of s n h p)" if f: "(n, h, p) \<in> set (files s)" for n h p
  proof -
    let ?P = "\<lambda>(n', h', p'). file_name n' h' p' = file_name n h p"
    obtain t where t: "find ?P (files s) = Some t" using f by (cases "find ?P (files s)") (auto simp: find_None_iff)
    obtain n' h' p' where t': "t = (n', h', p')" by (cases t)
    have "t \<in> set (files s)" "?P t" using t by (auto simp: find_Some_iff in_set_conv_nth intro: nth_mem)
    then have "(n', h', p') = (n, h, p)"
      using insert_log_file [OF assms] f by (intro file_name_inj) (auto simp: t')
    then show ?thesis using t by (simp add: file_of_def t')
  qed
  then show ?thesis by (auto simp: contents_def)
qed

section \<open>After a recovery\<close>

text \<open>Recovery sets the number of a page object's newest page but never its address.\<close>

definition unaddressed :: "nat \<Rightarrow> logkv \<Rightarrow> bool" where
  "unaddressed shards r \<longleftrightarrow> (\<forall>n h. n < numa_node_num \<longrightarrow> h < shards \<longrightarrow> start_addr (ppages r n h) = None)"

lemma recover_files_unaddressed:
  "recover_files map_file shards xs r = Inr r' \<Longrightarrow> unaddressed shards r \<Longrightarrow> unaddressed shards r'"
proof (induction xs arbitrary: r)
  case (Cons x xs)
  obtain i f where x: "x = (i, f)" by fastforce
  obtain r1 where r1: "recover_file map_file shards i f r = Inr r1" "recover_files map_file shards xs r1 = Inr r'"
    using Cons.prems(1) by (auto simp: x split: sum.splits)
  have "unaddressed shards r1"
    using r1(1) Cons.prems(2)
    by (auto simp: recover_file_def unaddressed_def set_page_start_addr_def Let_def split: option.splits if_splits)
  then show ?case using Cons.IH r1(2) by blast
qed simp

lemma recover_pages_unaddressed:
  "recover_pages T v numa hash ps (r, d) = Some (r', d') \<Longrightarrow> unaddressed shards r \<Longrightarrow> unaddressed shards r'"
proof (induction ps arbitrary: r d)
  case (Cons p ps)
  obtain d1 off where step: "recover_pages T v numa hash ps
      (if of_nat p = pp_ppage_id (ppages r numa hash)
       then set_ppage r numa hash ((ppages r numa hash)\<lparr>sz_allocated := off\<rparr>) else r, d1) = Some (r', d')"
    using Cons.prems(1) by (auto split: option.splits prod.splits)
  show ?case by (rule Cons.IH [OF step]) (use Cons.prems(2) in \<open>auto simp: unaddressed_def\<close>)
qed simp

lemma recover_shards_unaddressed:
  "recover_shards T v order (r, d) = Some (r', d') \<Longrightarrow> unaddressed shards r \<Longrightarrow> unaddressed shards r'"
proof (induction order arbitrary: r d)
  case (Cons x order)
  obtain n h where x: "x = (n, h)" by fastforce
  obtain r1 d1 where r1: "recover_shard T v n h (r, d) = Some (r1, d1)" "recover_shards T v order (r1, d1) = Some (r', d')"
    using Cons.prems(1) by (auto simp: x split: option.splits)
  have "unaddressed shards r1"
    using recover_pages_unaddressed [OF r1(1) [unfolded recover_shard_def]] Cons.prems(2) by blast
  then show ?case by (rule Cons.IH [OF r1(2)])
qed simp

lemma recovered_unaddressed:
  assumes "LogKV_reopen shards fs = Inr r0"
    and "recovery_logkv T map_file readdir shards n v order r0 d = Inr (r, d')"
  shows "unaddressed shards r"
proof -
  have "unaddressed shards r0"
  proof (rule LogKV_reopen_ok [of shards fs])
    fix r
    assume r: "LogKV_reopen shards fs = Inr r" "\<And>n h. n < numa_node_num \<Longrightarrow> h < shards \<Longrightarrow> ppages r n h = fresh_ppage n h"
    have "r0 = r" using r(1) assms(1) by simp
    then show "unaddressed shards r0" using r(2) by (simp add: unaddressed_def fresh_ppage_def)
  qed
  moreover obtain r1 where r1: "recover_files map_file shards (all_files readdir) r0 = Inr r1"
    "recover_shards T v order (r1, d) = Some (r, d')"
  proof (cases "recover_files map_file shards (all_files readdir) r0")
    case (Inl e)
    then show thesis using assms(2) by (simp add: recovery_logkv_def)
  next
    case (Inr r1)
    then have "recover_shards T v order (r1, d) = Some (r, d')"
      using assms(2) by (cases "recover_shards T v order (r1, d)") (simp_all add: recovery_logkv_def split: if_splits)
    with Inr show thesis by (rule that)
  qed
  ultimately show ?thesis by (intro recover_shards_unaddressed [OF r1(2)] recover_files_unaddressed [OF r1(1)])
qed

lemma unaddressed_insert_faults:
  assumes "unaddressed shards r" and "0 < shards"
    and fit: "sz_allocated (ppages r (get_numa_id thread) (unat hash_key mod shards)) + pair_size \<le> PPAGE_SIZE"
  shows "LogKV_insert mapped shards r thread raw raw_info key payload hash_key = Inl NullAccess"
proof -
  let ?n = "get_numa_id thread" and ?h = "unat hash_key mod shards"
  define r1 where "r1 = fst (get_version shards r hash_key)"
  have r1: "ppages r1 = ppages r" by (simp add: r1_def get_version_def Let_def)
  have "start_addr (ppages r ?n ?h) = None"
    using assms(1,2) get_numa_id_less by (simp add: unaddressed_def)
  moreover have "\<not> PPAGE_SIZE - sz_allocated (ppages r ?n ?h) < pair_size" using fit by simp
  ultimately obtain s2 info off where "alloc_log mapped shards r1 thread hash_key ((no_log_info raw_info)\<lparr>vlen := 8\<rparr>) pair_size =
      Inr (s2, info, None, off)"
    by (simp add: alloc_log_def PPage_alloc_def r1 Let_def)
  then show ?thesis
    by (subst LogKV_insert_def, subst get_version_eq) (simp add: r1_def store_log_def Let_def)
qed

end
