(* ===== verification/Logdb_Recovery.thy ===== *)
theory Logdb_Recovery
  imports Logdb Recovery_Inserts
begin

text \<open>
  The constructor of \<^verbatim>\<open>logdb\<close> (\<^verbatim>\<open>src/include/logdb.h\<close>) with \<^verbatim>\<open>recovery\<close>: the log object opens existing files, the
  cache is new and the index is filled from the log. The arguments of the recovery are those of
  \<open>recovery_logkv\<close>; \<open>fs\<close> are the existing files and \<open>n\<close> is the number of buckets of the cache.
\<close>

datatype start_fault = StoreFault db_fault | RecoveryFault recovery_fault

definition logdb_recover ::
  "('d, 'l) env \<Rightarrow> 's tree_ops \<Rightarrow> (string \<Rightarrow> block option) \<Rightarrow> (string \<Rightarrow> string list option) \<Rightarrow> nat \<Rightarrow> nat \<Rightarrow>
   (nat \<times> nat) list \<Rightarrow> (nat \<times> nat \<times> nat) list \<Rightarrow> 's \<Rightarrow> u64 \<Rightarrow> start_fault + 's logdb" where
  "logdb_recover E T map_file readdir recovery_thread_num val_size order fs d n =
     (case LogKV_reopen (e_shards E) fs of
        Inl e \<Rightarrow> Inl (StoreFault (LogFault e))
      | Inr l \<Rightarrow> (case clht_create (e_avail E) n of
          None \<Rightarrow> Inl (StoreFault (CacheFault NullPointer))
        | Some c \<Rightarrow> (case recovery_logkv T map_file readdir (e_shards E) recovery_thread_num val_size order l d of
            Inl e \<Rightarrow> Inl (RecoveryFault e)
          | Inr (l', d') \<Rightarrow> Inr \<lparr>db = d', log_kv = l', clht_cache = c, get_cnt = 0\<rparr>)))"

text \<open>The parts of a recovered store.\<close>

lemma logdb_recoverE:
  assumes "logdb_recover E T map_file readdir threads val_size order fs d n = Inr S"
  obtains r0 where "LogKV_reopen (e_shards E) fs = Inr r0" and "clht_create (e_avail E) n = Some (clht_cache S)"
    and "recovery_logkv T map_file readdir (e_shards E) threads val_size order r0 d = Inr (log_kv S, db S)"
  using assms by (auto simp: logdb_recover_def split: sum.splits option.splits)

lemma recovered_cache_empty:
  assumes "logdb_recover E T map_file readdir threads val_size order fs d n = Inr S"
  shows "clht_ok (clht_cache S)" and "ht_map (ht (clht_cache S)) = Map.empty"
proof -
  have "clht_create (e_avail E) n = Some (clht_cache S)" by (rule logdb_recoverE [OF assms])
  then obtain t where t: "clht_hashtable_create (e_avail E) n = Some t"
    and c: "clht_cache S = \<lparr>ht = t, olds = [], resize_lock = LOCK_FREE, status_lock = LOCK_FREE\<rparr>"
    by (auto simp: clht_create_def)
  show "clht_ok (clht_cache S)" using create_ok(1) [OF t] by (simp add: c clht_ok_def seq_ok_def LOCK_FREE_def)
  show "ht_map (ht (clht_cache S)) = Map.empty" using create_ok(2) [OF t] by (simp add: c)
qed

lemma recovered_store_insert_faults:
  assumes rec: "logdb_recover E T map_file readdir threads val_size order fs d n = Inr S" and "0 < e_shards E"
    and "sz_allocated (ppages (log_kv S) (get_numa_id (global_thread_id E)) (unat (xxh3 E key) mod e_shards E)) + pair_size \<le> PPAGE_SIZE"
  shows "logdb_insert E T S key payload = Inl (LogFault NullAccess)"
proof -
  obtain r0 where r: "LogKV_reopen (e_shards E) fs = Inr r0"
    "recovery_logkv T map_file readdir (e_shards E) threads val_size order r0 d = Inr (log_kv S, db S)"
    using logdb_recoverE [OF rec] by metis
  show ?thesis
    using unaddressed_insert_faults [OF recovered_unaddressed [OF r] assms(2,3)] by (simp add: logdb_insert_def Let_def)
qed

end
