(* ===== verification/Logdb_Gc.thy ===== *)
theory Logdb_Gc
  imports Logdb
begin

text \<open>
  Garbage collection of the log (\<^verbatim>\<open>do_gc\<close> of \<^verbatim>\<open>src/src/nali_kvlog.h\<close>), which runs on the log
  database itself. A first pass visits the records of all pages but the newest of each shard and
  marks the records behind an update or a removal as \<^verbatim>\<open>TRASH\<close>, following the positions of older
  records. A second pass writes the remaining records of pages with enough freed space again. \<open>None\<close> is
  a walk along the older records that does not end.
\<close>

section \<open>Loops\<close>

fun for_each :: "('a \<Rightarrow> 's \<Rightarrow> ('e + 's) option) \<Rightarrow> 'a list \<Rightarrow> 's \<Rightarrow> ('e + 's) option" where
  "for_each f [] s = Some (Inr s)"
| "for_each f (x # xs) s = Option.bind (f x s) (\<lambda>r. case r of Inl e \<Rightarrow> Some (Inl e) | Inr s' \<Rightarrow> for_each f xs s')"

lemma for_each_all:
  assumes "P s" and "\<And>x s. x \<in> set xs \<Longrightarrow> P s \<Longrightarrow> \<exists>s'. f x s = Some (Inr s') \<and> P s' \<and> R s s' \<and> Q x s'"
    and refl: "\<And>s. R s s" and trans: "\<And>s t u. R s t \<Longrightarrow> R t u \<Longrightarrow> R s u" and mono: "\<And>x s t. Q x s \<Longrightarrow> R s t \<Longrightarrow> Q x t"
  shows "\<exists>s'. for_each f xs s = Some (Inr s') \<and> P s' \<and> R s s' \<and> (\<forall>x\<in>set xs. Q x s')"
  using assms(1,2)
proof (induction xs arbitrary: s)
  case Nil
  then show ?case using refl by simp
next
  case (Cons x xs)
  obtain s1 where s1: "f x s = Some (Inr s1)" "P s1" "R s s1" "Q x s1"
    using Cons.prems(2) [OF list.set_intros(1) Cons.prems(1)] by blast
  obtain s2 where s2: "for_each f xs s1 = Some (Inr s2)" "P s2" "R s1 s2" "\<forall>x\<in>set xs. Q x s2"
    using Cons.IH [OF s1(2) Cons.prems(2) [OF list.set_intros(2)]] by blast
  have "R s s2" "Q x s2" using trans [OF s1(3) s2(3)] mono [OF s1(4) s2(3)] by simp_all
  then show ?case using s1(1) s2 by simp
qed

section \<open>The first pass\<close>

text \<open>\<^verbatim>\<open>log_->op = TRASH\<close> sets the two low bits of the first word of a record.\<close>

definition set_trash :: "logkv \<Rightarrow> nat \<Rightarrow> nat \<Rightarrow> logkv" where
  "set_trash s b off = s\<lparr>pmem := (pmem s)(b := (pmem s b)(off := pmem s b off OR 3))\<rparr>"

text \<open>
  The records older than a record, with their positions and addresses, up to the first that is
  \<^verbatim>\<open>TRASH\<close>.
\<close>

partial_function (option) collect_old ::
  "nat \<Rightarrow> logkv \<Rightarrow> u64 \<Rightarrow> u64 \<Rightarrow> (fault + (u64 \<times> nat \<times> nat) list) option" where
  "collect_old shards s key_hash next_old_log =
     (if next_old_log = - 1 then Some (Inr [])
      else let log_info = of_addr_info next_old_log;
               off = unat (log_offset log_info)
           in if numa_node_num \<le> unat (numa_id log_info) \<or> MAX_LOF_FILE_ID \<le> unat (ppage_id log_info) then Some (Inl OutOfBounds)
              else case fst (get_addr shards s log_info key_hash) of
                     None \<Rightarrow> Some (Inl NullAccess)
                   | Some b \<Rightarrow>
                       if pair_op (load_pair (pmem s b) off) = op_code TRASH then Some (Inr [])
                       else Option.bind (collect_old shards s key_hash (u_offset (load_pair (pmem s b) off)))
                              (\<lambda>r. case r of Inl e \<Rightarrow> Some (Inl e) | Inr old \<Rightarrow> Some (Inr ((next_old_log, b, off) # old))))"

text \<open>The collected records are marked from the oldest to the newest; each frees 32 bytes of its page.\<close>

fun mark_old :: "nat \<Rightarrow> u64 \<Rightarrow> (u64 \<times> nat \<times> nat) list \<Rightarrow> logkv \<Rightarrow> logkv" where
  "mark_old shards key_hash [] s = s"
| "mark_old shards key_hash ((w, b, off) # old) s =
     (let s' = set_trash (mark_old shards key_hash old s) b off;
          li = of_addr_info w; n = unat (numa_id li); h = unat key_hash mod shards; p = unat (ppage_id li)
      in s'\<lparr>freed_arr := (freed_arr s')(n := (freed_arr s' n)(h := (freed_arr s' n h)(p := freed_arr s' n h p + 32)))\<rparr>)"

definition gc_record ::
  "(u64 \<Rightarrow> u64) \<Rightarrow> nat \<Rightarrow> nat \<Rightarrow> nat \<Rightarrow> nat \<Rightarrow> nat \<Rightarrow> logkv \<Rightarrow> (fault + logkv) option" where
  "gc_record hashf shards numa file b off s =
     (let log = load_pair (pmem s b) off
      in if pair_op log = op_code UPDATE \<or> pair_op log = op_code DELETE
         then let key_hash = hashf (pair_key log);
                  pos = to_uint64_t_offset \<lparr>vlen = 8, numa_id = of_nat numa, ppage_id = of_nat file, log_offset = of_nat off\<rparr>;
                  self = (if pair_op log = op_code DELETE then [(pos, b, off)] else [])
              in Option.bind (collect_old shards s key_hash (u_offset log))
                   (\<lambda>r. case r of Inl e \<Rightarrow> Some (Inl e)
                        | Inr old \<Rightarrow> Some (Inr (mark_old shards key_hash (self @ old) s)))
         else Some (Inr s))"

definition page_offsets :: "nat list" where
  "page_offsets = map ((*) pair_size) [0..<PPAGE_SIZE div pair_size]"

text \<open>One page of one shard: a page that is not older than the newest one is left alone.\<close>

definition old_page :: "logkv \<Rightarrow> nat \<Rightarrow> nat \<Rightarrow> nat \<Rightarrow> fault + nat option" where
  "old_page s file numa hash_id =
     (if sint (ucast (pp_ppage_id (ppages s numa hash_id)) :: 32 word) \<le> int file then Inr None
      else if MAX_LOF_FILE_ID \<le> file then Inl OutOfBounds
      else Inr (start_addr_arr s numa hash_id file))"

fun gc_page :: "(u64 \<Rightarrow> u64) \<Rightarrow> nat \<Rightarrow> nat \<times> nat \<times> nat \<Rightarrow> logkv \<Rightarrow> (fault + logkv) option" where
  "gc_page hashf shards (file, numa, hash_id) s =
     (case old_page s file numa hash_id of
        Inl e \<Rightarrow> Some (Inl e)
      | Inr None \<Rightarrow> Some (Inr s)
      | Inr (Some b) \<Rightarrow> for_each (gc_record hashf shards numa file b) page_offsets s)"

text \<open>The pages in the order of the loops: page numbers downwards, then nodes, then shards.\<close>

definition gc_pages :: "nat \<Rightarrow> nat \<Rightarrow> (nat \<times> nat \<times> nat) list" where
  "gc_pages begin_pos end_pos =
     List.product (rev [0..<Suc MAX_LOF_FILE_ID]) (List.product [0..<numa_node_num] [begin_pos..<end_pos])"

definition gc_mark :: "(u64 \<Rightarrow> u64) \<Rightarrow> nat \<Rightarrow> nat \<Rightarrow> nat \<Rightarrow> logkv \<Rightarrow> (fault + logkv) option" where
  "gc_mark hashf shards begin_pos end_pos s = for_each (gc_page hashf shards) (gc_pages begin_pos end_pos) s"

section \<open>The second pass\<close>

text \<open>A remaining record of an insertion or an update is written again through \<^verbatim>\<open>db_->update\<close>.\<close>

definition rewrite_record ::
  "('d, 'l) env \<Rightarrow> 's tree_ops \<Rightarrow> u64 \<Rightarrow> nat \<Rightarrow> nat \<Rightarrow> 's logdb \<Rightarrow> (db_fault + 's logdb) option" where
  "rewrite_record E T raw b off S =
     (let log = load_pair (pmem (log_kv S) b) off
      in if pair_op log = op_code INSERT \<or> pair_op log = op_code UPDATE
         then Some (case logdb_update E T S raw (pair_key log) (pair_value log) of
                      Inl e \<Rightarrow> Inl e
                    | Inr (_, S') \<Rightarrow> Inr S')
         else Some (Inr S))"

definition reset_freed :: "nat \<Rightarrow> nat \<Rightarrow> nat \<Rightarrow> logkv \<Rightarrow> logkv" where
  "reset_freed n h p s = s\<lparr>freed_arr := (freed_arr s)(n := (freed_arr s n)(h := (freed_arr s n h)(p := 0)))\<rparr>"

text \<open>
  \<^verbatim>\<open>GC_THRESHOLD\<close> is a double, and the quotient by the page size, a power of two, is exact.
\<close>

definition over_threshold :: "rat \<Rightarrow> nat \<Rightarrow> bool" where
  "over_threshold gc_threshold freed \<longleftrightarrow> gc_threshold \<le> of_nat freed / of_nat PPAGE_SIZE"

fun rewrite_page ::
  "('d, 'l) env \<Rightarrow> 's tree_ops \<Rightarrow> rat \<Rightarrow> u64 \<Rightarrow> nat \<times> nat \<times> nat \<Rightarrow> 's logdb \<Rightarrow> (db_fault + 's logdb) option" where
  "rewrite_page E T gc_threshold raw (file, numa, hash_id) S =
     (case old_page (log_kv S) file numa hash_id of
        Inl e \<Rightarrow> Some (Inl (LogFault e))
      | Inr None \<Rightarrow> Some (Inr S)
      | Inr (Some b) \<Rightarrow>
          if over_threshold gc_threshold (freed_arr (log_kv S) numa hash_id file)
          then Option.bind (for_each (rewrite_record E T raw b) page_offsets S)
                 (\<lambda>r. case r of Inl e \<Rightarrow> Some (Inl e)
                      | Inr S' \<Rightarrow> Some (Inr (S'\<lparr>log_kv := reset_freed numa hash_id file (log_kv S')\<rparr>)))
          else Some (Inr S))"

text \<open>The number of a collector thread, and both passes.\<close>

definition gc_thread :: "nat \<Rightarrow> nat" where
  "gc_thread t = (if t < 16 then t else t + 16)"

definition do_gc ::
  "('d, 'l) env \<Rightarrow> 's tree_ops \<Rightarrow> rat \<Rightarrow> u64 \<Rightarrow> nat \<Rightarrow> nat \<Rightarrow> 's logdb \<Rightarrow> (db_fault + 's logdb) option" where
  "do_gc E T gc_threshold raw begin_pos end_pos S =
     (let E = E\<lparr>global_thread_id := gc_thread (global_thread_id E)\<rparr>
      in Option.bind (gc_mark (xxh3 E) (e_shards E) begin_pos end_pos (log_kv S))
           (\<lambda>r. case r of Inl e \<Rightarrow> Some (Inl (LogFault e))
                | Inr l \<Rightarrow> for_each (rewrite_page E T gc_threshold raw) (gc_pages begin_pos end_pos) (S\<lparr>log_kv := l\<rparr>)))"

text \<open>\<^verbatim>\<open>background_gc\<close>: the shards of collector thread \<open>t\<close> of \<open>n\<close>.\<close>

definition gc_range :: "nat \<Rightarrow> nat \<Rightarrow> nat \<Rightarrow> nat \<times> nat" where
  "gc_range shards n t =
     (let perthread_hash_nums = shards div n; begin_hashid = t * perthread_hash_nums
      in (begin_hashid, if t = n - 1 then shards else begin_hashid + perthread_hash_nums))"

section \<open>Records and their older records\<close>

text \<open>A position as node, page and offset; the records of a shard are the issued multiples of 32.\<close>

definition pos_of :: "u64 \<Rightarrow> nat \<times> nat \<times> nat" where
  "pos_of w = (let i = of_addr_info w in (unat (numa_id i), unat (ppage_id i), unat (log_offset i)))"

definition rec_at :: "logkv \<Rightarrow> nat \<Rightarrow> nat \<times> nat \<times> nat \<Rightarrow> bool" where
  "rec_at s h = (\<lambda>(n, p, off). n < numa_node_num \<and> p < MAX_LOF_FILE_ID \<and> pair_size dvd off \<and> off < PPAGE_SIZE \<and> live_at s n h p off)"

definition rec_of :: "logkv \<Rightarrow> nat \<Rightarrow> nat \<times> nat \<times> nat \<Rightarrow> Pair_t" where
  "rec_of s h = (\<lambda>(n, p, off). pair_at s n h p off)"

definition addr_of :: "logkv \<Rightarrow> nat \<Rightarrow> nat \<times> nat \<times> nat \<Rightarrow> nat \<times> nat" where
  "addr_of s h = (\<lambda>(n, p, off). (the (start_addr_arr s n h p), off))"

primrec old_chain :: "nat \<Rightarrow> logkv \<Rightarrow> u64 \<Rightarrow> u64 list \<Rightarrow> bool" where
  "old_chain h s w [] \<longleftrightarrow> w = - 1"
| "old_chain h s w (x # xs) \<longleftrightarrow> x = w \<and> w \<noteq> - 1 \<and> rec_at s h (pos_of w) \<and> old_chain h s (u_offset (rec_of s h (pos_of w))) xs"

text \<open>
  Marking: words stay or get their two low bits set, the links and the contents of all records stay, and
  records outside of \<open>X\<close> may have become \<^verbatim>\<open>TRASH\<close>.
\<close>

definition trashed :: "(nat \<times> nat \<times> nat \<times> nat) set \<Rightarrow> logkv \<Rightarrow> logkv \<Rightarrow> bool" where
  "trashed X s s' \<longleftrightarrow> s' = s\<lparr>pmem := pmem s', freed_arr := freed_arr s'\<rparr> \<and>
     (\<forall>b a. pmem s' b a = pmem s b a \<or> pmem s' b a = pmem s b a OR 3) \<and>
     (\<forall>h q. rec_at s h q \<longrightarrow> rec_of s' h q = rec_of s h q \<or>
        (h, q) \<notin> X \<and> rec_of s' h q = (rec_of s h q)\<lparr>pair_op := op_code TRASH\<rparr>)"

lemma trashed_same:
  assumes "trashed X s s'"
  shows "start_addr_arr s' = start_addr_arr s" and "ppages s' = ppages s" and "rec_at s' = rec_at s" and "log_wf shards s' = log_wf shards s"
    and "versions s' = versions s" and "live_at s' = live_at s" and "files s' = files s" and "next_map s' = next_map s"
proof -
  obtain m f where s': "s' = s\<lparr>pmem := m, freed_arr := f\<rparr>" using assms by (auto simp: trashed_def)
  have live: "live_at s' = live_at s" by (simp add: s' live_at_def fun_eq_iff)
  then show "live_at s' = live_at s" and "rec_at s' = rec_at s" by (simp_all add: rec_at_def fun_eq_iff)
  show "start_addr_arr s' = start_addr_arr s" "ppages s' = ppages s" "versions s' = versions s" "log_wf shards s' = log_wf shards s"
    "files s' = files s" "next_map s' = next_map s"
    by (simp_all add: s' log_wf_def blocks_wf_def shard_wf_def)
qed

lemma trashed_refl: "trashed X s s"
  by (simp add: trashed_def)

lemma trashed_trans:
  assumes "trashed X s t" and "trashed X t u"
  shows "trashed X s u"
proof -
  have "rec_of u h q = rec_of s h q \<or> (h, q) \<notin> X \<and> rec_of u h q = (rec_of s h q)\<lparr>pair_op := op_code TRASH\<rparr>" if q: "rec_at s h q" for h q
  proof -
    have "rec_of t h q = rec_of s h q \<or> (h, q) \<notin> X \<and> rec_of t h q = (rec_of s h q)\<lparr>pair_op := op_code TRASH\<rparr>"
      using assms(1) q unfolding trashed_def by blast
    moreover have "rec_at t h q" using trashed_same(3) [OF assms(1)] q by simp
    then have "rec_of u h q = rec_of t h q \<or> (h, q) \<notin> X \<and> rec_of u h q = (rec_of t h q)\<lparr>pair_op := op_code TRASH\<rparr>"
      using assms(2) unfolding trashed_def by blast
    ultimately show ?thesis by auto
  qed
  moreover have "u = s\<lparr>pmem := pmem u, freed_arr := freed_arr u\<rparr>"
  proof -
    obtain m f where "t = s\<lparr>pmem := m, freed_arr := f\<rparr>" using assms(1) by (auto simp: trashed_def)
    moreover obtain m' f' where "u = t\<lparr>pmem := m', freed_arr := f'\<rparr>" using assms(2) by (auto simp: trashed_def)
    ultimately show ?thesis by simp
  qed
  moreover have "pmem u b a = pmem s b a \<or> pmem u b a = pmem s b a OR 3" for b a
  proof -
    have "pmem t b a = pmem s b a \<or> pmem t b a = pmem s b a OR 3" "pmem u b a = pmem t b a \<or> pmem u b a = pmem t b a OR 3"
      using assms unfolding trashed_def by blast+
    then show ?thesis by (auto simp: or.assoc)
  qed
  ultimately show ?thesis unfolding trashed_def by blast
qed

lemma trashed_keeps:
  assumes "trashed X s s'" and "rec_at s h q"
  shows "pair_key (rec_of s' h q) = pair_key (rec_of s h q)" and "pair_value (rec_of s' h q) = pair_value (rec_of s h q)"
    and "u_offset (rec_of s' h q) = u_offset (rec_of s h q)"
    and "pair_op (rec_of s' h q) = pair_op (rec_of s h q) \<or> pair_op (rec_of s' h q) = op_code TRASH"
proof -
  have "rec_of s' h q = rec_of s h q \<or> rec_of s' h q = (rec_of s h q)\<lparr>pair_op := op_code TRASH\<rparr>"
    using assms unfolding trashed_def by blast
  then show "pair_key (rec_of s' h q) = pair_key (rec_of s h q)" "pair_value (rec_of s' h q) = pair_value (rec_of s h q)"
    "u_offset (rec_of s' h q) = u_offset (rec_of s h q)"
    "pair_op (rec_of s' h q) = pair_op (rec_of s h q) \<or> pair_op (rec_of s' h q) = op_code TRASH"
    by auto
qed

lemma trashed_chain:
  assumes "trashed X s s'"
  shows "old_chain h s' w ws = old_chain h s w ws"
proof (induction ws arbitrary: w)
  case (Cons x ws)
  have "u_offset (rec_of s' h (pos_of w)) = u_offset (rec_of s h (pos_of w))" if "rec_at s h (pos_of w)"
    by (rule trashed_keeps(3) [OF assms that])
  then show ?case using trashed_same(3) [OF assms] Cons.IH by (cases "rec_at s h (pos_of w)") simp_all
qed simp

subsection \<open>Marking one record\<close>

lemma or_3: "ucast (x OR 3 :: u64) = (3 :: 2 word)" "ucast (drop_bit 2 (x OR 3) :: u64) = (ucast (drop_bit 2 x) :: 62 word)"
proof -
  have 3: "(3 :: 'a :: len word) = mask 2" by (simp add: mask_eq_exp_minus_1)
  show "ucast (x OR 3 :: u64) = (3 :: 2 word)" unfolding 3 by (rule bit_word_eqI) (simp add: bit_simps)
  show "ucast (drop_bit 2 (x OR 3) :: u64) = (ucast (drop_bit 2 x) :: 62 word)" unfolding 3 by (rule bit_word_eqI) (simp add: bit_simps)
qed

lemma load_trash: "load_pair (m(a := m a OR 3)) a = (load_pair m a)\<lparr>pair_op := op_code TRASH\<rparr>"
  by (simp add: load_pair_def or_3)

lemma load_other:
  assumes "pair_size dvd a" and "pair_size dvd a'" and "a \<noteq> a'"
  shows "load_pair (m(a := x)) a' = load_pair m a'"
proof -
  obtain i j where ij: "a = 32 * i" "a' = 32 * j" using assms(1,2) by (auto simp: pair_size_def dvd_def)
  have "32 * j + 8 \<noteq> 32 * i" "32 * j + 16 \<noteq> 32 * i" "32 * j + 24 \<noteq> 32 * i" by presburger+
  then show ?thesis using assms(3) by (simp add: load_pair_def ij)
qed

lemma set_trash_record:
  assumes bl: "blocks_wf s" and q: "rec_at s h q" and q': "rec_at s h' q'" and a: "addr_of s h q = (b, off)"
  shows "rec_of (set_trash s b off) h' q' =
    (if (h', q') = (h, q) then (rec_of s h q)\<lparr>pair_op := op_code TRASH\<rparr> else rec_of s h' q')"
proof -
  obtain n p where nq: "q = (n, p, off)" and b: "start_addr_arr s n h p = Some b" and d: "pair_size dvd off"
    using q a by (cases q) (auto simp: rec_at_def addr_of_def live_at_def)
  obtain n' p' off' b' where nq': "q' = (n', p', off')" and b': "start_addr_arr s n' h' p' = Some b'" and d': "pair_size dvd off'"
    using q' by (cases q') (auto simp: rec_at_def live_at_def)
  have inj: "b' = b \<Longrightarrow> n' = n \<and> h' = h \<and> p' = p" using bl b b' unfolding blocks_wf_def by blast
  have pm: "pmem (set_trash s b off) b' = (if b' = b then (pmem s b)(off := pmem s b off OR 3) else pmem s b')"
    and arr: "start_addr_arr (set_trash s b off) = start_addr_arr s"
    by (simp_all add: set_trash_def)
  show ?thesis
  proof (cases "b' = b")
    case True
    then have same: "n' = n" "h' = h" "p' = p" using inj by auto
    show ?thesis
      using True b b' load_trash [of "pmem s b" off] load_other [OF d d', of "pmem s b"]
      by (cases "off' = off") (simp_all add: rec_of_def pair_at_def nq nq' same arr pm [unfolded True])
  next
    case False
    moreover from this have "(h', q') \<noteq> (h, q)" using b b' by (auto simp: nq nq')
    ultimately show ?thesis using b' by (auto simp: rec_of_def pair_at_def nq' arr pm)
  qed
qed

subsection \<open>Marking the older records\<close>

lemma pos_of_packed:
  assumes "rec_at s h (n, p, off)"
  shows "pos_of (to_uint64_t_offset \<lparr>vlen = l, numa_id = of_nat n, ppage_id = of_nat p, log_offset = of_nat off\<rparr>) = (n, p, off)"
  using assms
  by (simp add: pos_of_def of_addr_info_packed rec_at_def unat_of_nat numa_node_num_def MAX_LOF_FILE_ID_def PPAGE_SIZE_def)

lemma collect_old_chain:
  assumes "old_chain h s w ws" and h: "unat key_hash mod shards = h"
  shows "collect_old shards s key_hash w =
    Some (Inr (map (\<lambda>w. (w, addr_of s h (pos_of w))) (takeWhile (\<lambda>w. pair_op (rec_of s h (pos_of w)) \<noteq> op_code TRASH) ws)))"
  using assms(1)
proof (induction ws arbitrary: w)
  case Nil
  then show ?case by (subst collect_old.simps) simp
next
  case (Cons x ws)
  obtain n p off where q: "pos_of w = (n, p, off)" by (cases "pos_of w")
  then have w: "unat (numa_id (of_addr_info w)) = n" "unat (ppage_id (of_addr_info w)) = p" "unat (log_offset (of_addr_info w)) = off"
    by (simp_all add: pos_of_def Let_def)
  obtain b where b: "start_addr_arr s n h p = Some b" and bounds: "n < numa_node_num" "p < MAX_LOF_FILE_ID"
    using Cons.prems by (auto simp: q rec_at_def live_at_def)
  have rec: "rec_of s h (pos_of w) = load_pair (pmem s b) off" by (simp add: rec_of_def q pair_at_def b)
  have addr: "addr_of s h (pos_of w) = (b, off)" by (simp add: addr_of_def q b)
  have ne: "w \<noteq> - 1" and x: "x = w" and chain: "old_chain h s (u_offset (load_pair (pmem s b) off)) ws" using Cons.prems rec by simp_all
  show ?case
    using bounds by (subst collect_old.simps) (simp add: ne x w get_addr_def h b addr rec Cons.IH [OF chain])
qed

lemma set_trash_trashed:
  assumes bl: "blocks_wf s" and q: "rec_at s h q" and a: "addr_of s h q = (b, off)" and "(h, q) \<notin> X"
  shows "trashed X s (set_trash s b off)"
  using set_trash_record [OF bl q _ a] assms(4) unfolding trashed_def by (auto simp: set_trash_def)

lemma freed_trashed:
  assumes "trashed X s t"
  shows "trashed X s (t\<lparr>freed_arr := f\<rparr>)" and "rec_of (t\<lparr>freed_arr := f\<rparr>) = rec_of t"
proof -
  show rec: "rec_of (t\<lparr>freed_arr := f\<rparr>) = rec_of t" by (simp add: rec_of_def pair_at_def fun_eq_iff)
  obtain m g where t: "t = s\<lparr>pmem := m, freed_arr := g\<rparr>" using assms by (auto simp: trashed_def)
  then show "trashed X s (t\<lparr>freed_arr := f\<rparr>)" using assms rec unfolding trashed_def by auto
qed

text \<open>A record that is \<^verbatim>\<open>TRASH\<close>.\<close>

definition trash_at :: "logkv \<Rightarrow> nat \<Rightarrow> nat \<times> nat \<times> nat \<Rightarrow> bool" where
  "trash_at s h q \<longleftrightarrow> rec_at s h q \<and> pair_op (rec_of s h q) = op_code TRASH"

lemma trash_at_mono: "trash_at s h q \<Longrightarrow> trashed X s s' \<Longrightarrow> trash_at s' h q"
  using trashed_keeps(4) [of X s s' h q] trashed_same(3) [of X s s'] unfolding trash_at_def by auto

lemma mark_old_trashed:
  assumes "blocks_wf s" and "\<And>w b off. (w, b, off) \<in> set old \<Longrightarrow> rec_at s h (pos_of w) \<and> addr_of s h (pos_of w) = (b, off) \<and> (h, pos_of w) \<notin> X"
  shows "trashed X s (mark_old shards key_hash old s) \<and> (\<forall>w\<in>fst ` set old. trash_at (mark_old shards key_hash old s) h (pos_of w))"
  using assms(2)
proof (induction old)
  case Nil
  then show ?case by (simp add: trashed_refl)
next
  case (Cons e old)
  obtain w b off where e: "e = (w, b, off)" by (cases e)
  define t where "t = mark_old shards key_hash old s"
  have t: "trashed X s t" "\<forall>w\<in>fst ` set old. trash_at t h (pos_of w)" using Cons by (auto simp: t_def)
  have q: "rec_at t h (pos_of w)" "addr_of t h (pos_of w) = (b, off)" "(h, pos_of w) \<notin> X" "blocks_wf t"
    using Cons.prems [of w b off] assms(1) trashed_same(1,3,8) [OF t(1)]
    by (auto simp: e addr_of_def blocks_wf_def split: prod.splits)
  have st: "trashed X t (set_trash t b off)" using q by (intro set_trash_trashed)
  have new: "trash_at (set_trash t b off) h (pos_of w)"
    using set_trash_record [OF q(4,1,1,2)] q(1) trashed_same(3) [OF st] by (simp add: trash_at_def)
  obtain f where m: "mark_old shards key_hash (e # old) s = (set_trash t b off)\<lparr>freed_arr := f\<rparr>"
    by (simp add: e Let_def t_def)
  have tr: "trashed X t (mark_old shards key_hash (e # old) s)" unfolding m by (rule freed_trashed(1) [OF st])
  have "trash_at (mark_old shards key_hash (e # old) s) h (pos_of w)"
    using new trashed_same(3) [OF tr] trashed_same(3) [OF st] unfolding trash_at_def m freed_trashed(2) [OF st] by simp
  moreover have "\<forall>w\<in>fst ` set old. trash_at (mark_old shards key_hash (e # old) s) h (pos_of w)"
    using t(2) trash_at_mono [OF _ tr] by blast
  ultimately show ?case using trashed_trans [OF t(1) tr] by (simp only: e list.set image_insert fst_conv ball_simps simp_thms)
qed

subsection \<open>What the marking relies on\<close>

text \<open>
  Every record that is not \<^verbatim>\<open>TRASH\<close> lies in the shard of its key, has older records behind it that
  are not in \<open>X\<close>, and behind a record that is \<^verbatim>\<open>TRASH\<close> all are. A removal is not in \<open>X\<close>.
\<close>

definition older_ok :: "(nat \<times> nat \<times> nat \<times> nat) set \<Rightarrow> logkv \<Rightarrow> nat \<Rightarrow> nat \<times> nat \<times> nat \<Rightarrow> bool" where
  "older_ok X s h q \<longleftrightarrow> (\<exists>ws. old_chain h s (u_offset (rec_of s h q)) ws \<and>
     (\<forall>w\<in>set ws. (h, pos_of w) \<notin> X) \<and> (trash_at s h q \<longrightarrow> (\<forall>w\<in>set ws. trash_at s h (pos_of w))))"

definition gc_ok :: "(u64 \<Rightarrow> u64) \<Rightarrow> nat \<Rightarrow> (nat \<times> nat \<times> nat \<times> nat) set \<Rightarrow> logkv \<Rightarrow> bool" where
  "gc_ok hashf shards X s \<longleftrightarrow> log_wf shards s \<and>
     (\<forall>h q. rec_at s h q \<longrightarrow> older_ok X s h q \<and>
        (\<not> trash_at s h q \<longrightarrow> unat (hashf (pair_key (rec_of s h q))) mod shards = h) \<and>
        (pair_op (rec_of s h q) = op_code DELETE \<longrightarrow> (h, q) \<notin> X))"

text \<open>All records behind a record are \<^verbatim>\<open>TRASH\<close>, and a removal itself.\<close>

definition swept :: "logkv \<Rightarrow> logkv \<Rightarrow> nat \<Rightarrow> nat \<times> nat \<times> nat \<Rightarrow> bool" where
  "swept s0 s h q \<longleftrightarrow>
     (pair_op (rec_of s0 h q) = op_code UPDATE \<or> pair_op (rec_of s0 h q) = op_code DELETE \<longrightarrow>
        (\<forall>ws. old_chain h s0 (u_offset (rec_of s0 h q)) ws \<longrightarrow> (\<forall>w\<in>set ws. trash_at s h (pos_of w)))) \<and>
     (pair_op (rec_of s0 h q) = op_code DELETE \<longrightarrow> trash_at s h q)"

lemma swept_mono: "swept s0 s h q \<Longrightarrow> trashed X s s' \<Longrightarrow> swept s0 s' h q"
  using trash_at_mono unfolding swept_def by meson

lemma old_chain_unique: "old_chain h s w ws \<Longrightarrow> old_chain h s w ws' \<Longrightarrow> ws' = ws"
  by (induction ws arbitrary: w ws') (case_tac ws'; force)+

lemma takeWhile_trash:
  assumes "old_chain h s w ws" and "w' \<in> set ws" and "\<And>q. trash_at s h q \<Longrightarrow> older_ok X s h q"
  shows "w' \<in> set (takeWhile (\<lambda>w. pair_op (rec_of s h (pos_of w)) \<noteq> op_code TRASH) ws) \<or> trash_at s h (pos_of w')"
  using assms(1,2)
proof (induction ws arbitrary: w)
  case (Cons x ws)
  show ?case
  proof (cases "pair_op (rec_of s h (pos_of x)) = op_code TRASH")
    case True
    then have tr: "trash_at s h (pos_of x)" using Cons.prems by (simp add: trash_at_def)
    then obtain ws' where "old_chain h s (u_offset (rec_of s h (pos_of x))) ws'" "\<forall>w\<in>set ws'. trash_at s h (pos_of w)"
      using assms(3) unfolding older_ok_def by blast
    then have "\<forall>w\<in>set ws. trash_at s h (pos_of w)" using Cons.prems(1) old_chain_unique by fastforce
    then show ?thesis using tr Cons.prems(2) by auto
  next
    case False
    then show ?thesis using Cons.prems Cons.IH [of "u_offset (rec_of s h (pos_of x))"] by auto
  qed
qed simp

lemma old_chain_behind:
  assumes "old_chain h s v ws" and "w \<in> set ws" and "old_chain h s (u_offset (rec_of s h (pos_of w))) ws'"
  shows "set ws' \<subseteq> set ws"
  using assms(1,2)
proof (induction ws arbitrary: v)
  case (Cons x ws)
  show ?case
  proof (cases "w = x")
    case True
    then have "ws' = ws" using Cons.prems(1) assms(3) old_chain_unique by fastforce
    then show ?thesis by auto
  next
    case False
    then show ?thesis using Cons.prems Cons.IH [of "u_offset (rec_of s h (pos_of x))"] by auto
  qed
qed simp

lemma old_chain_recs: "old_chain h s v ws \<Longrightarrow> w \<in> set ws \<Longrightarrow> rec_at s h (pos_of w)"
  by (induction ws arbitrary: v) auto

lemma trashed_mono: "trashed Y s s' \<Longrightarrow> X \<subseteq> Y \<Longrightarrow> trashed X s s'"
  unfolding trashed_def by blast

text \<open>Marking a set of records with everything behind them keeps the invariant.\<close>

lemma gc_ok_marked:
  assumes ok: "gc_ok hashf shards X s" and tr: "trashed (- M) s s'" and "X \<inter> M = {}"
    and behind: "\<And>h q ws w. (h, q) \<in> M \<Longrightarrow> old_chain h s (u_offset (rec_of s h q)) ws \<Longrightarrow> w \<in> set ws \<Longrightarrow> trash_at s' h (pos_of w)"
  shows "gc_ok hashf shards X s'"
proof -
  have trX: "trashed X s s'" using trashed_mono [OF tr] assms(3) by blast
  have "older_ok X s' h q \<and> (\<not> trash_at s' h q \<longrightarrow> unat (hashf (pair_key (rec_of s' h q))) mod shards = h) \<and>
      (pair_op (rec_of s' h q) = op_code DELETE \<longrightarrow> (h, q) \<notin> X)" if q': "rec_at s' h q" for h q
  proof -
    have q: "rec_at s h q" using q' trashed_same(3) [OF trX] by simp
    note keeps = trashed_keeps [OF trX q]
    have old: "older_ok X s h q" "\<not> trash_at s h q \<Longrightarrow> unat (hashf (pair_key (rec_of s h q))) mod shards = h"
      "pair_op (rec_of s h q) = op_code DELETE \<Longrightarrow> (h, q) \<notin> X"
      using ok q unfolding gc_ok_def by blast+
    obtain ws where ws: "old_chain h s (u_offset (rec_of s h q)) ws" "\<forall>w\<in>set ws. (h, pos_of w) \<notin> X"
      "trash_at s h q \<longrightarrow> (\<forall>w\<in>set ws. trash_at s h (pos_of w))"
      using old(1) unfolding older_ok_def by blast
    have "trash_at s' h (pos_of w)" if t: "trash_at s' h q" and w: "w \<in> set ws" for w
    proof (cases "(h, q) \<in> M")
      case True
      then show ?thesis by (rule behind [OF _ ws(1) w])
    next
      case False
      then have "rec_of s' h q = rec_of s h q" using tr q unfolding trashed_def by blast
      then have "trash_at s h q" using t q by (simp add: trash_at_def)
      then show ?thesis using ws(3) w trash_at_mono [OF _ trX] by blast
    qed
    then have "older_ok X s' h q" using ws(1,2) unfolding older_ok_def trashed_chain [OF trX] keeps(3) by blast
    moreover have "\<not> trash_at s' h q \<Longrightarrow> \<not> trash_at s h q" using trash_at_mono [OF _ trX] by blast
    moreover have "pair_op (rec_of s' h q) = op_code DELETE \<Longrightarrow> pair_op (rec_of s h q) = op_code DELETE" using keeps(4) by auto
    ultimately show ?thesis using old(2,3) keeps(1) by simp
  qed
  moreover have "log_wf shards s'" using ok trashed_same(4) [OF trX] by (simp add: gc_ok_def)
  ultimately show ?thesis unfolding gc_ok_def by blast
qed

lemma gc_okD:
  assumes "gc_ok hashf shards X s" and "rec_at s h q"
  shows "older_ok X s h q" and "\<not> trash_at s h q \<Longrightarrow> unat (hashf (pair_key (rec_of s h q))) mod shards = h"
    and "pair_op (rec_of s h q) = op_code DELETE \<Longrightarrow> (h, q) \<notin> X" and "blocks_wf s"
  using assms unfolding gc_ok_def log_wf_def by blast+

lemma gc_record_correct:
  assumes ok: "gc_ok hashf shards X s" and q: "rec_at s h (n, p, off)" and b: "start_addr_arr s n h p = Some b"
  shows "\<exists>s'. gc_record hashf shards n p b off s = Some (Inr s') \<and> gc_ok hashf shards X s' \<and> trashed X s s' \<and> swept s s' h (n, p, off)"
proof -
  define log where "log = rec_of s h (n, p, off)"
  have load: "load_pair (pmem s b) off = log" by (simp add: log_def rec_of_def pair_at_def b)
  show ?thesis
  proof (cases "pair_op log = op_code UPDATE \<or> pair_op log = op_code DELETE")
    case False
    then have "gc_record hashf shards n p b off s = Some (Inr s)" by (simp add: gc_record_def load)
    then show ?thesis using False ok trashed_refl by (auto simp: swept_def log_def)
  next
    case True
    note D = gc_okD [OF ok q]
    have nt: "\<not> trash_at s h (n, p, off)" using True by (auto simp: trash_at_def log_def)
    define kh where "kh = hashf (pair_key log)"
    have h: "unat kh mod shards = h" using D(2) [OF nt] by (simp add: kh_def log_def)
    obtain ws where ws: "old_chain h s (u_offset log) ws" "\<forall>w\<in>set ws. (h, pos_of w) \<notin> X"
      using D(1) unfolding older_ok_def log_def by blast
    define self where "self = (if pair_op log = op_code DELETE
      then [(to_uint64_t_offset \<lparr>vlen = 8, numa_id = of_nat n, ppage_id = of_nat p, log_offset = of_nat off\<rparr>, b, off)] else [])"
    define old where "old = self @ map (\<lambda>w. (w, addr_of s h (pos_of w))) (takeWhile (\<lambda>w. pair_op (rec_of s h (pos_of w)) \<noteq> op_code TRASH) ws)"
    define s' where "s' = mark_old shards kh old s"
    define M where "M = (\<lambda>w. (h, pos_of w)) ` fst ` set old"
    have run: "gc_record hashf shards n p b off s = Some (Inr s')"
      using True collect_old_chain [OF ws(1) h] by (simp add: gc_record_def load Let_def kh_def s'_def old_def self_def)
    have el: "rec_at s h (pos_of w) \<and> addr_of s h (pos_of w) = (b', o') \<and> (h, pos_of w) \<notin> X \<and>
        (pos_of w = (n, p, off) \<or> w \<in> set ws)" if "(w, b', o') \<in> set old" for w b' o'
      using that q old_chain_recs [OF ws(1)] ws(2) D(3) pos_of_packed [OF q]
      by (auto simp: old_def self_def addr_of_def b log_def dest!: set_takeWhileD split: if_splits)
    have mark: "trashed (- M) s s'" "\<forall>w\<in>fst ` set old. trash_at s' h (pos_of w)"
      using mark_old_trashed [OF D(4), of old h "- M" shards kh] el unfolding s'_def M_def by (force, force)
    have X: "X \<inter> M = {}" using el by (force simp: M_def)
    have trX: "trashed X s s'" using trashed_mono [OF mark(1)] X by blast
    have all: "trash_at s' h (pos_of w)" if "w \<in> set ws" for w
    proof -
      have "w \<in> fst ` set old \<or> trash_at s h (pos_of w)"
        using takeWhile_trash [OF ws(1) that] gc_okD(1) [OF ok] by (force simp: old_def trash_at_def image_iff)
      then show ?thesis using mark(2) trash_at_mono [OF _ trX] by blast
    qed
    have "trash_at s' h' (pos_of w)" if hq: "(h', q') \<in> M" and c: "old_chain h' s (u_offset (rec_of s h' q')) ws'" and w: "w \<in> set ws'" for h' q' ws' w
    proof -
      obtain v where v: "v \<in> fst ` set old" "h' = h" "q' = pos_of v" using hq by (auto simp: M_def)
      then have "q' = (n, p, off) \<or> v \<in> set ws" using el by force
      then have "set ws' \<subseteq> set ws"
        using c v(2,3) old_chain_behind [OF ws(1)] old_chain_unique [OF ws(1)] unfolding log_def by blast
      then show ?thesis using all w v(2) by blast
    qed
    then have "gc_ok hashf shards X s'" by (intro gc_ok_marked [OF ok mark(1) X])
    moreover have "swept s s' h (n, p, off)"
      unfolding swept_def using all old_chain_unique [OF ws(1)] mark(2) pos_of_packed [OF q]
      by (auto simp: log_def [symmetric] old_def self_def)
    ultimately show ?thesis using run trX by blast
  qed
qed

subsection \<open>The pass over the pages\<close>

lemma set_page_offsets: "set page_offsets = {off. pair_size dvd off \<and> off < PPAGE_SIZE}"
  by (auto simp: page_offsets_def pair_size_def PPAGE_SIZE_def dvd_def image_iff)

lemma old_page_eq:
  assumes "log_wf shards s" and "n < numa_node_num" and "h < shards"
  shows "old_page s p n h = Inr (if cur_page s n h \<le> p then None else start_addr_arr s n h p)"
proof -
  have wf: "unat (pp_ppage_id (ppages s n h)) < MAX_LOF_FILE_ID"
    using assms unfolding log_wf_def shard_wf_def Let_def by blast
  have "unat (ucast (pp_ppage_id (ppages s n h)) :: 32 word) = unat (pp_ppage_id (ppages s n h))"
    using wf by (simp add: unsigned_ucast_eq take_bit_nat_eq_self MAX_LOF_FILE_ID_def)
  then have "uint (ucast (pp_ppage_id (ppages s n h)) :: 32 word) = int (cur_page s n h)" by (simp only: uint_nat)
  then have "sint (ucast (pp_ppage_id (ppages s n h)) :: 32 word) = int (cur_page s n h)"
    using wf unfolding sint_uint by (simp add: signed_take_bit_int_eq_self MAX_LOF_FILE_ID_def del: of_nat_unat)
  then show ?thesis using wf by (auto simp: old_page_def simp del: of_nat_unat)
qed

lemma swept_from:
  assumes ok: "gc_ok hashf shards X s" and tr: "trashed X s0 s" and q: "rec_at s h q" and sw: "swept s s' h q" and tr': "trashed X s s'"
  shows "swept s0 s' h q"
proof -
  have q0: "rec_at s0 h q" using q trashed_same(3) [OF tr] by simp
  note keeps = trashed_keeps [OF tr q0] and ch = trashed_chain [OF tr]
  show ?thesis
  proof (cases "trash_at s h q")
    case True
    then obtain ws where "old_chain h s (u_offset (rec_of s h q)) ws" "\<forall>w\<in>set ws. trash_at s h (pos_of w)"
      using gc_okD(1) [OF ok q] unfolding older_ok_def by blast
    then have "\<forall>ws. old_chain h s0 (u_offset (rec_of s0 h q)) ws \<longrightarrow> (\<forall>w\<in>set ws. trash_at s' h (pos_of w))"
      using ch keeps(3) old_chain_unique trash_at_mono [OF _ tr'] by metis
    then show ?thesis using trash_at_mono [OF True tr'] by (simp add: swept_def)
  next
    case False
    moreover have "rec_of s h q = rec_of s0 h q \<or> rec_of s h q = (rec_of s0 h q)\<lparr>pair_op := op_code TRASH\<rparr>"
      using tr q0 unfolding trashed_def by blast
    ultimately have "rec_of s h q = rec_of s0 h q" using q by (auto simp: trash_at_def)
    then show ?thesis using sw by (simp add: swept_def ch)
  qed
qed

text \<open>All records of an old page are swept.\<close>

definition page_swept :: "logkv \<Rightarrow> nat \<times> nat \<times> nat \<Rightarrow> logkv \<Rightarrow> bool" where
  "page_swept s0 = (\<lambda>(p, n, h) s. \<forall>off. rec_at s0 h (n, p, off) \<and> p < cur_page s0 n h \<longrightarrow> swept s0 s h (n, p, off))"

lemma gc_page_correct:
  assumes ok: "gc_ok hashf shards X s" and tr: "trashed X s0 s" and bounds: "n < numa_node_num" "h < shards" "p \<le> MAX_LOF_FILE_ID"
  shows "\<exists>s'. gc_page hashf shards (p, n, h) s = Some (Inr s') \<and> (gc_ok hashf shards X s' \<and> trashed X s0 s') \<and> trashed X s s' \<and> page_swept s0 (p, n, h) s'"
proof -
  have wf: "log_wf shards s" using ok by (simp add: gc_ok_def)
  note pg = old_page_eq [OF wf bounds(1,2)] and same = trashed_same [OF tr]
  show ?thesis
  proof (cases "cur_page s n h \<le> p \<or> start_addr_arr s n h p = None")
    case True
    then have "gc_page hashf shards (p, n, h) s = Some (Inr s)" by (auto simp: pg)
    moreover have "page_swept s0 (p, n, h) s" using True same(1,2) by (auto simp: page_swept_def rec_at_def live_at_def)
    ultimately show ?thesis using ok tr trashed_refl by blast
  next
    case False
    then obtain b where b: "start_addr_arr s n h p = Some b" and lt: "p < cur_page s n h" by auto
    have "cur_page s n h < MAX_LOF_FILE_ID" using wf bounds unfolding log_wf_def shard_wf_def Let_def by blast
    then have rec: "rec_at s h (n, p, off)" if "off \<in> set page_offsets" for off
      using that lt bounds b by (auto simp: set_page_offsets rec_at_def live_at_def)
    have "\<exists>s'. for_each (gc_record hashf shards n p b) page_offsets s = Some (Inr s') \<and> (gc_ok hashf shards X s' \<and> trashed X s s' \<and> trashed X s0 s') \<and>
        trashed X s s' \<and> (\<forall>off\<in>set page_offsets. swept s0 s' h (n, p, off))"
    proof (rule for_each_all [where P = "\<lambda>t. gc_ok hashf shards X t \<and> trashed X s t \<and> trashed X s0 t" and R = "trashed X"
          and Q = "\<lambda>off t. swept s0 t h (n, p, off)"])
      fix off t
      assume off: "off \<in> set page_offsets" and t: "gc_ok hashf shards X t \<and> trashed X s t \<and> trashed X s0 t"
      have q: "rec_at t h (n, p, off)" and b': "start_addr_arr t n h p = Some b"
        using rec [OF off] b t trashed_same(1,3) [of X s t] by simp_all
      obtain t' where t': "gc_record hashf shards n p b off t = Some (Inr t')" "gc_ok hashf shards X t'" "trashed X t t'" "swept t t' h (n, p, off)"
        using gc_record_correct [OF _ q b'] t by blast
      then show "\<exists>t'. gc_record hashf shards n p b off t = Some (Inr t') \<and> (gc_ok hashf shards X t' \<and> trashed X s t' \<and> trashed X s0 t') \<and>
          trashed X t t' \<and> swept s0 t' h (n, p, off)"
        using t swept_from [of hashf shards X t s0 h "(n, p, off)" t', OF _ _ q] trashed_trans [of X _ t t'] by blast
    qed (use ok tr trashed_refl trashed_trans swept_mono in blast)+
    moreover have "gc_page hashf shards (p, n, h) s = for_each (gc_record hashf shards n p b) page_offsets s"
      using lt by (simp add: pg b)
    ultimately show ?thesis
      unfolding page_swept_def by (auto simp: set_page_offsets rec_at_def)
  qed
qed

theorem gc_mark_correct:
  assumes ok: "gc_ok hashf shards X s" and "end_pos \<le> shards"
  shows "\<exists>s'. gc_mark hashf shards begin_pos end_pos s = Some (Inr s') \<and> gc_ok hashf shards X s' \<and> trashed X s s' \<and>
    (\<forall>n h p off. n < numa_node_num \<and> begin_pos \<le> h \<and> h < end_pos \<and> rec_at s h (n, p, off) \<and> p < cur_page s n h \<longrightarrow> swept s s' h (n, p, off))"
proof -
  have "\<exists>s'. for_each (gc_page hashf shards) (gc_pages begin_pos end_pos) s = Some (Inr s') \<and> (gc_ok hashf shards X s' \<and> trashed X s s') \<and>
      trashed X s s' \<and> (\<forall>x\<in>set (gc_pages begin_pos end_pos). page_swept s x s')"
  proof (rule for_each_all [where P = "\<lambda>t. gc_ok hashf shards X t \<and> trashed X s t" and R = "trashed X" and Q = "page_swept s"])
    fix x t
    assume x: "x \<in> set (gc_pages begin_pos end_pos)" and t: "gc_ok hashf shards X t \<and> trashed X s t"
    obtain p n h where "x = (p, n, h)" by (cases x)
    with x t assms(2) show "\<exists>t'. gc_page hashf shards x t = Some (Inr t') \<and> (gc_ok hashf shards X t' \<and> trashed X s t') \<and> trashed X t t' \<and> page_swept s x t'"
      using gc_page_correct [of hashf shards X t s n h p] by (auto simp del: gc_page.simps simp: gc_pages_def)
  qed (use ok trashed_refl trashed_trans swept_mono in \<open>auto simp: page_swept_def\<close>)
  moreover have "(p, n, h) \<in> set (gc_pages begin_pos end_pos)"
    if "n < numa_node_num" "begin_pos \<le> h" "h < end_pos" "rec_at s h (n, p, off)" for n h p off
    using that by (simp add: gc_pages_def rec_at_def)
  ultimately show ?thesis unfolding gc_mark_def page_swept_def by fastforce
qed

end
