(* ===== verification/Gc_Invariant.thy ===== *)
theory Gc_Invariant
  imports Logdb_Gc Recovery_Inserts
begin

text \<open>
  What the garbage collection relies on is an invariant of the log database: insertions of new keys,
  updates and removals of present keys keep it. Hence the marking pass never marks a record that the
  index points to.
\<close>

section \<open>Appending a record\<close>

text \<open>Pages are filled in steps of 32 bytes, and the rest of the current page is all ones.\<close>

definition aligned :: "nat \<Rightarrow> logkv \<Rightarrow> bool" where
  "aligned shards s \<longleftrightarrow> (\<forall>n h. n < numa_node_num \<longrightarrow> h < shards \<longrightarrow>
     pair_size dvd sz_allocated (ppages s n h) \<and>
     (\<forall>a\<ge>sz_allocated (ppages s n h). pmem s (the (start_addr (ppages s n h))) a = - 1))"

lemma alignedD:
  assumes "aligned shards s" and "n < numa_node_num" and "h < shards" and "start_addr (ppages s n h) = Some b"
  shows "pair_size dvd sz_allocated (ppages s n h)" and "sz_allocated (ppages s n h) \<le> a \<Longrightarrow> pmem s b a = - 1"
proof -
  have "pair_size dvd sz_allocated (ppages s n h) \<and>
      (\<forall>a\<ge>sz_allocated (ppages s n h). pmem s (the (start_addr (ppages s n h))) a = - 1)"
    using assms(1,2,3) unfolding aligned_def by blast
  then show "pair_size dvd sz_allocated (ppages s n h)" "sz_allocated (ppages s n h) \<le> a \<Longrightarrow> pmem s b a = - 1"
    using assms(4) by auto
qed

text \<open>The records after a step: the old ones, and one with contents \<open>p\<close> at \<open>q\<close> in shard \<open>h\<close>.\<close>

definition one_more :: "logkv \<Rightarrow> logkv \<Rightarrow> nat \<Rightarrow> nat \<times> nat \<times> nat \<Rightarrow> Pair_t \<Rightarrow> bool" where
  "one_more s s' h q p \<longleftrightarrow> (\<forall>h' q'. rec_at s' h' q' \<longleftrightarrow> rec_at s h' q' \<or> h' = h \<and> q' = q) \<and> \<not> rec_at s h q \<and>
     (\<forall>h' q'. rec_at s h' q' \<longrightarrow> rec_of s' h' q' = rec_of s h' q') \<and> rec_of s' h q = p"

text \<open>A record that was reserved but not written.\<close>

definition blank :: Pair_t where
  "blank = load_pair (\<lambda>_. - 1) 0"

lemma blank_simps: "pair_op blank = op_code TRASH" "u_offset blank = - 1"
proof -
  have "(ucast (- 1 :: u64) :: 2 word) = - 1" by (rule bit_word_eqI) (simp add: bit_simps)
  also have "(- 1 :: 2 word) = 3" by simp
  finally show "pair_op blank = op_code TRASH" by (simp add: blank_def load_pair_def)
qed (simp add: blank_def load_pair_def)

lemma log_wf_page:
  assumes "log_wf shards s" and "n < numa_node_num" and "h < shards"
  obtains b where "start_addr (ppages s n h) = Some b" "start_addr_arr s n h (cur_page s n h) = Some b" "cur_page s n h < MAX_LOF_FILE_ID"
proof -
  have "shard_wf s n h" using assms by (simp add: log_wf_def)
  then show thesis using that by (auto simp: shard_wf_def Let_def)
qed

lemma next_page_recs:
  assumes wf: "log_wf shards s" and al: "aligned shards s" and n: "n < numa_node_num" and h: "h < shards"
    and room: "Suc (cur_page s n h) < MAX_LOF_FILE_ID" and full: "PPAGE_SIZE < sz_allocated (ppages s n h) + pair_size"
  shows "aligned shards (next_page s n h)" and "rec_at (next_page s n h) = rec_at s"
    and "rec_at s h' q \<Longrightarrow> rec_of (next_page s n h) h' q = rec_of s h' q"
proof -
  have sh: "shard_wf s n h" and bl: "blocks_wf s" using wf n h by (auto simp: log_wf_def)
  have id: "unat (pp_ppage_id (ppages s n h) + 1) = Suc (cur_page s n h)" using room by (intro unat_ppage_Suc) simp
  have fresh: "start_addr_arr s n' h' p \<noteq> Some (next_map s)" for n' h' p using bl unfolding blocks_wf_def by blast
  have "sz_allocated (ppages s n h) \<le> PPAGE_SIZE" "pair_size dvd sz_allocated (ppages s n h)"
    using sh al n h by (auto simp: shard_wf_def aligned_def Let_def)
  then have sz: "sz_allocated (ppages s n h) = PPAGE_SIZE" using full by (auto simp: PPAGE_SIZE_def pair_size_def)
  show "aligned shards (next_page s n h)"
    unfolding aligned_def
  proof (intro allI impI)
    fix n' h' assume b: "n' < numa_node_num" "h' < shards"
    have "shard_wf s n' h'" using wf b by (simp add: log_wf_def)
    then have "start_addr (ppages s n' h') \<noteq> Some (next_map s)" "start_addr (ppages s n' h') \<noteq> None"
      using fresh by (auto simp: shard_wf_def Let_def)
    then show "pair_size dvd sz_allocated (ppages (next_page s n h) n' h') \<and>
        (\<forall>a\<ge>sz_allocated (ppages (next_page s n h) n' h'). pmem (next_page s n h) (the (start_addr (ppages (next_page s n h) n' h'))) a = - 1)"
      using al b unfolding aligned_def by (auto simp: next_page_def Let_def)
  qed
  have "live_at (next_page s n h) n' h' p off \<longleftrightarrow> live_at s n' h' p off" if "off < PPAGE_SIZE" "pair_size dvd off" for n' h' p off
  proof (cases "n' = n \<and> h' = h")
    case True
    have "off + pair_size \<le> PPAGE_SIZE" using that by (auto simp: PPAGE_SIZE_def pair_size_def)
    moreover have "start_addr_arr s n h p \<noteq> None \<Longrightarrow> p \<le> cur_page s n h"
      using sh unfolding shard_wf_def Let_def by blast
    ultimately show ?thesis using True id sz by (auto simp: live_at_def next_page_def Let_def pair_size_def)
  qed (auto simp: live_at_def next_page_def Let_def)
  then show "rec_at (next_page s n h) = rec_at s" by (auto simp: rec_at_def fun_eq_iff)
  show "rec_of (next_page s n h) h' q = rec_of s h' q" if q: "rec_at s h' q"
  proof -
    obtain n' p off b where qq: "q = (n', p, off)" and b: "start_addr_arr s n' h' p = Some b"
      using q by (cases q) (auto simp: rec_at_def live_at_def)
    then have ne: "b \<noteq> next_map s" using fresh by auto
    have "\<not> (n' = n \<and> h' = h \<and> p = Suc (cur_page s n h))" using q by (auto simp: qq rec_at_def live_at_def)
    then have "start_addr_arr (next_page s n h) n' h' p = Some b" using b by (auto simp: next_page_def Let_def)
    moreover have "pmem (next_page s n h) b = pmem s b" using ne by (simp add: next_page_def Let_def)
    ultimately show ?thesis by (simp add: rec_of_def pair_at_def qq b)
  qed
qed

lemma filled_recs:
  assumes wf: "log_wf shards s" and al: "aligned shards s" and n: "n < numa_node_num" and h: "h < shards"
    and fit: "sz_allocated (ppages s n h) + pair_size \<le> PPAGE_SIZE" and b: "start_addr (ppages s n h) = Some b"
    and low: "\<And>a. a < sz_allocated (ppages s n h) \<Longrightarrow> m a = pmem s b a"
    and high: "\<And>a. sz_allocated (ppages s n h) + pair_size \<le> a \<Longrightarrow> m a = pmem s b a"
    and p: "load_pair m (sz_allocated (ppages s n h)) = p"
  defines "s' \<equiv> (reserve s n h)\<lparr>pmem := (pmem s)(b := m)\<rparr>"
  shows "aligned shards s'" and "one_more s s' h (n, cur_page s n h, sz_allocated (ppages s n h)) p"
proof -
  let ?off = "sz_allocated (ppages s n h)"
  have sh: "shard_wf s n h" and bl: "blocks_wf s" using wf n h by (auto simp: log_wf_def)
  have tab: "start_addr_arr s n h (cur_page s n h) = Some b" and cur: "cur_page s n h < MAX_LOF_FILE_ID"
    and late: "\<And>p. start_addr_arr s n h p \<noteq> None \<Longrightarrow> p \<le> cur_page s n h" using sh b by (auto simp: shard_wf_def Let_def)
  have inj: "start_addr_arr s n' h' p = Some b \<Longrightarrow> n' = n \<and> h' = h \<and> p = cur_page s n h" for n' h' p
    using bl tab unfolding blocks_wf_def by blast
  note d = alignedD(1) [OF al n h b] and ones = alignedD(2) [OF al n h b]
  show "aligned shards s'"
    unfolding aligned_def
  proof (intro allI impI)
    fix n' h' assume b': "n' < numa_node_num" "h' < shards"
    show "pair_size dvd sz_allocated (ppages s' n' h') \<and>
        (\<forall>a\<ge>sz_allocated (ppages s' n' h'). pmem s' (the (start_addr (ppages s' n' h'))) a = - 1)"
    proof (cases "n' = n \<and> h' = h")
      case True
      then show ?thesis using d high ones b by (auto simp: s'_def reserve_def)
    next
      case False
      obtain c where c: "start_addr (ppages s n' h') = Some c" "start_addr_arr s n' h' (cur_page s n' h') = Some c"
        using log_wf_page [OF wf b'] by metis
      then have "c \<noteq> b" using inj False by blast
      moreover have "ppages s' n' h' = ppages s n' h'" using False by (auto simp: s'_def reserve_def)
      ultimately show ?thesis using alignedD [OF al b' c(1)] by (simp add: c(1)) (simp add: s'_def)
    qed
  qed
  have arr: "start_addr_arr s' = start_addr_arr s" by (simp add: s'_def reserve_def)
  have live: "live_at s' n' h' q o' \<longleftrightarrow> live_at s n' h' q o' \<or> n' = n \<and> h' = h \<and> q = cur_page s n h \<and> o' = ?off"
    if "pair_size dvd o'" for n' h' q o'
  proof (cases "n' = n \<and> h' = h")
    case True
    have "o' + pair_size \<le> ?off + pair_size \<longleftrightarrow> o' + pair_size \<le> ?off \<or> o' = ?off"
      using that d unfolding pair_size_def by presburger
    then show ?thesis using True n tab by (auto simp: live_at_def s'_def reserve_def)
  qed (auto simp: live_at_def s'_def reserve_def)
  have "rec_at s' h' q' \<longleftrightarrow> rec_at s h' q' \<or> h' = h \<and> q' = (n, cur_page s n h, ?off)" for h' q'
    using live n cur d fit by (cases q') (auto simp: rec_at_def pair_size_def)
  moreover have "\<not> rec_at s h (n, cur_page s n h, ?off)" by (simp add: rec_at_def live_at_def pair_size_def)
  moreover have "rec_of s' h' q' = rec_of s h' q'" if q': "rec_at s h' q'" for h' q'
  proof -
    obtain n' p' o' c where qq: "q' = (n', p', o')" and c: "start_addr_arr s n' h' p' = Some c"
      using q' by (cases q') (auto simp: rec_at_def live_at_def)
    show ?thesis
    proof (cases "c = b")
      case True
      then have "o' + pair_size \<le> ?off" using inj c q' by (auto simp: qq rec_at_def live_at_def)
      then have "load_pair m o' = load_pair (pmem s b) o'" using low by (simp add: load_pair_def pair_size_def)
      then show ?thesis using True c by (simp add: rec_of_def pair_at_def qq arr) (simp add: s'_def)
    qed (use c in \<open>simp add: rec_of_def pair_at_def qq arr; simp add: s'_def\<close>)
  qed
  moreover have "rec_of s' h (n, cur_page s n h, ?off) = p" using p tab by (simp add: rec_of_def pair_at_def arr) (simp add: s'_def)
  ultimately show "one_more s s' h (n, cur_page s n h, ?off) p" unfolding one_more_def by blast
qed

lemma aligned_versions: "aligned shards (s\<lparr>versions := v\<rparr>) = aligned shards s" "one_more (s\<lparr>versions := v\<rparr>) = one_more s"
proof -
  have rec: "rec_at (s\<lparr>versions := v\<rparr>) = rec_at s" "rec_of (s\<lparr>versions := v\<rparr>) = rec_of s"
    by (simp_all add: rec_at_def rec_of_def live_at_def pair_at_def fun_eq_iff)
  show "aligned shards (s\<lparr>versions := v\<rparr>) = aligned shards s" by (simp add: aligned_def)
  show "one_more (s\<lparr>versions := v\<rparr>) = one_more s" by (simp add: one_more_def rec fun_eq_iff)
qed

text \<open>What \<^verbatim>\<open>alloc_log\<close> does to the records, with the record left blank or written.\<close>

lemma append_recs:
  fixes hash_key :: u64 and shards thread :: nat and s :: logkv
  defines "h \<equiv> unat hash_key mod shards"
  assumes wf: "log_wf shards s" and al: "aligned shards s" and room: "has_room mapped shards s thread hash_key"
  obtains u info b off q where
    "alloc_log mapped shards (fst (get_version shards s hash_key)) thread hash_key log_info pair_size = Inr (u, info, Some b, off)"
    and "pos_of (to_uint64_t_offset info) = q" and "to_uint64_t_offset info \<noteq> - 1"
    and "aligned shards u" and "one_more s u h q blank"
    and "\<And>p. aligned shards (store_at u p b off)" and "\<And>p. one_more s (store_at u p b off) h q p"
    and "log_wf shards u"
proof -
  define n where "n = get_numa_id thread"
  define s1 where "s1 = fst (get_version shards s hash_key)"
  obtain v where s1: "s1 = s\<lparr>versions := v\<rparr>" by (simp add: s1_def get_version_def Let_def)
  have wf1: "log_wf shards s1" and al1: "aligned shards s1" using wf al by (simp_all add: s1 versions_only aligned_versions)
  have n: "n < numa_node_num" by (simp add: n_def get_numa_id_less)
  have h: "h < shards" using wf by (simp add: h_def log_wf_def)
  have room1: "sz_allocated (ppages s1 n h) + pair_size \<le> PPAGE_SIZE \<or>
      Suc (cur_page s1 n h) < MAX_LOF_FILE_ID \<and> mapped (n, h, Suc (cur_page s1 n h))"
    using room by (simp add: s1 has_room_def n_def h_def Let_def)
  define t where "t = ready s1 n h"
  let ?off = "sz_allocated (ppages t n h)"
  have t: "log_wf shards t" "?off + pair_size \<le> PPAGE_SIZE" using ready_correct(1,3) [OF wf1 n h] room1 unfolding t_def by blast+
  have t': "aligned shards t" "rec_at t = rec_at s1" "\<And>h q. rec_at s1 h q \<Longrightarrow> rec_of t h q = rec_of s1 h q"
    using next_page_recs [OF wf1 al1 n h] room1 al1 by (auto simp: t_def ready_def)
  obtain b where b: "start_addr (ppages t n h) = Some b" and cur: "cur_page t n h < MAX_LOF_FILE_ID"
    using log_wf_page [OF t(1) n h] by metis
  define info where "info = log_info\<lparr>numa_id := word_of_nat n, ppage_id := ucast (pp_ppage_id (ppages t n h)), log_offset := word_of_nat ?off\<rparr>"
  have alloc: "alloc_log mapped shards s1 thread hash_key log_info pair_size = Inr (reserve t n h, info, Some b, ?off)"
    using PPage_alloc_ready [where mapped = mapped, OF wf1 n h room1] b
    by (simp add: alloc_log_def t_def info_def n_def [symmetric] h_def [symmetric] Let_def)
  have un: "unat (numa_id info) = n" "unat (ppage_id info) = cur_page t n h" "unat (log_offset info) = ?off"
    using n cur t(2)
    by (simp_all add: info_def numa_node_num_def MAX_LOF_FILE_ID_def PPAGE_SIZE_def pair_size_def
        unsigned_of_nat unsigned_ucast_eq take_bit_nat_eq_self)
  then have pos: "pos_of (to_uint64_t_offset info) = (n, cur_page t n h, ?off)" by (simp add: pos_of_def of_addr_info_packed)
  have "unat (numa_id (of_addr_info (- 1))) = 255" by (simp add: of_addr_info_def numa_id_mask_def)
  then have ne: "to_uint64_t_offset info \<noteq> - 1" using un(1) n by (auto simp: of_addr_info_packed numa_node_num_def dest!: arg_cong [of _ _ of_addr_info])
  note ones = alignedD(2) [OF t'(1) n h b]
  have r: "reserve t n h = (reserve t n h)\<lparr>pmem := (pmem t)(b := pmem t b)\<rparr>" by (simp add: reserve_def)
  have blank: "load_pair (pmem t b) ?off = blank" using ones by (simp add: blank_def load_pair_def)
  have low: "store_persist p (pmem t b) ?off a = pmem t b a" if "a < ?off \<or> ?off + pair_size \<le> a" for p a
    using that by (auto simp: store_persist_def pair_size_def)
  have st: "store_at (reserve t n h) p b ?off = (reserve t n h)\<lparr>pmem := (pmem t)(b := store_persist p (pmem t b) ?off)\<rparr>" for p
    by (simp add: store_at_def reserve_def)
  note F = filled_recs [OF t(1) t'(1) n h t(2) b]
  have "aligned shards (reserve t n h)" "one_more t (reserve t n h) h (n, cur_page t n h, ?off) blank"
    using F [of "pmem t b" blank] blank r by simp_all
  moreover have "aligned shards (store_at (reserve t n h) p b ?off)" "one_more t (store_at (reserve t n h) p b ?off) h (n, cur_page t n h, ?off) p" for p
    using F [of "store_persist p (pmem t b) ?off" p] low load_store_persist [of p "pmem t b" ?off] unfolding st by simp_all
  moreover have "one_more t = one_more s1" using t'(2,3) by (auto simp: one_more_def fun_eq_iff)
  moreover have "one_more s1 = one_more s" by (simp add: s1 aligned_versions)
  moreover have "log_wf shards (reserve t n h)" by (rule reserve_correct(1) [OF t(1) n h t(2)])
  ultimately show thesis using that alloc pos ne unfolding s1_def by simp
qed

section \<open>The step of the invariant\<close>

lemma old_chain_more:
  assumes "one_more s s' h q p" and "old_chain h' s w ws"
  shows "old_chain h' s' w ws"
  using assms(2)
proof (induction ws arbitrary: w)
  case (Cons x ws)
  then have "rec_at s h' (pos_of w)" by simp
  then have "rec_at s' h' (pos_of w)" "rec_of s' h' (pos_of w) = rec_of s h' (pos_of w)" using assms(1) unfolding one_more_def by blast+
  then show ?case using Cons by simp
qed simp

text \<open>
  A new record \<open>p\<close> with older records \<open>ws\<close>; the protected positions may lose some and may gain the
  new one.
\<close>

lemma gc_ok_append:
  assumes ok: "gc_ok hashf shards X s" and wf: "log_wf shards s'" and more: "one_more s s' h q p"
    and X: "X' \<subseteq> insert (h, q) X" and del: "pair_op p = op_code DELETE \<Longrightarrow> (h, q) \<notin> X'"
    and hash: "pair_op p \<noteq> op_code TRASH \<Longrightarrow> unat (hashf (pair_key p)) mod shards = h"
    and chain: "old_chain h s (u_offset p) ws" "\<And>w. w \<in> set ws \<Longrightarrow> (h, pos_of w) \<notin> X'"
    and trash: "pair_op p = op_code TRASH \<Longrightarrow> ws = []"
  shows "gc_ok hashf shards X' s'"
proof -
  have new: "\<not> rec_at s h q" "rec_of s' h q = p" and all: "\<And>h' q'. rec_at s' h' q' \<longleftrightarrow> rec_at s h' q' \<or> h' = h \<and> q' = q"
    and keep: "\<And>h' q'. rec_at s h' q' \<Longrightarrow> rec_of s' h' q' = rec_of s h' q'"
    using more unfolding one_more_def by blast+
  have trash_old: "trash_at s' h' q' = trash_at s h' q'" if "rec_at s h' q'" for h' q'
    using that all keep by (auto simp: trash_at_def)
  have "older_ok X' s' h' q' \<and> (\<not> trash_at s' h' q' \<longrightarrow> unat (hashf (pair_key (rec_of s' h' q'))) mod shards = h') \<and>
      (pair_op (rec_of s' h' q') = op_code DELETE \<longrightarrow> (h', q') \<notin> X')" if q': "rec_at s' h' q'" for h' q'
  proof (cases "rec_at s h' q'")
    case True
    note D = gc_okD [OF ok True]
    have notnew: "(h', q') \<noteq> (h, q)" using True new(1) by auto
    obtain vs where vs: "old_chain h' s (u_offset (rec_of s h' q')) vs" "\<forall>w\<in>set vs. (h', pos_of w) \<notin> X"
      "trash_at s h' q' \<longrightarrow> (\<forall>w\<in>set vs. trash_at s h' (pos_of w))"
      using D(1) unfolding older_ok_def by blast
    have rec: "rec_at s h' (pos_of w)" if "w \<in> set vs" for w using old_chain_recs [OF vs(1) that] .
    then have "\<forall>w\<in>set vs. (h', pos_of w) \<notin> X'" using vs(2) X new(1) by blast
    moreover have "trash_at s' h' q' \<longrightarrow> (\<forall>w\<in>set vs. trash_at s' h' (pos_of w))" using vs(3) trash_old rec True by blast
    ultimately have "older_ok X' s' h' q'"
      using old_chain_more [OF more vs(1)] unfolding older_ok_def keep [OF True] by blast
    moreover have "(h', q') \<notin> X \<Longrightarrow> (h', q') \<notin> X'" using X notnew by blast
    ultimately show ?thesis using D(2,3) trash_old [OF True] keep [OF True] by simp
  next
    case False
    then have eq: "h' = h" "q' = q" using all q' by blast+
    have "older_ok X' s' h q" using old_chain_more [OF more chain(1)] chain(2) trash new(2)
      unfolding older_ok_def trash_at_def by fastforce
    then show ?thesis using hash del new(2) q' by (auto simp: eq trash_at_def)
  qed
  then show ?thesis using wf unfolding gc_ok_def by blast
qed

section \<open>The log database\<close>

text \<open>The positions that the index holds, as shards and positions.\<close>

definition index_positions :: "('d, 'l) env \<Rightarrow> (u64 \<rightharpoonup> u64) \<Rightarrow> (nat \<times> nat \<times> nat \<times> nat) set" where
  "index_positions E m = {(unat (xxh3 E k) mod e_shards E, pos_of w) |k w. m k = Some w}"

lemma index_positionsI: "m k = Some w \<Longrightarrow> (unat (xxh3 E k) mod e_shards E, pos_of w) \<in> index_positions E m"
  unfolding index_positions_def by blast

text \<open>Every indexed position is the position of a record, and not of one that is \<^verbatim>\<open>TRASH\<close>.\<close>

definition gc_inv :: "('s \<Rightarrow> u64 \<rightharpoonup> u64) \<Rightarrow> ('d, 'l) env \<Rightarrow> 's logdb \<Rightarrow> bool" where
  "gc_inv tmap E S \<longleftrightarrow> aligned (e_shards E) (log_kv S) \<and>
     gc_ok (xxh3 E) (e_shards E) (index_positions E (tmap (db S))) (log_kv S) \<and>
     (\<forall>k w. tmap (db S) k = Some w \<longrightarrow> w \<noteq> - 1 \<and> rec_at (log_kv S) (unat (xxh3 E k) mod e_shards E) (pos_of w) \<and>
        \<not> trash_at (log_kv S) (unat (xxh3 E k) mod e_shards E) (pos_of w))"

lemma rec_of_log_pair: "rec_of s (unat hash_key mod shards) (pos_of w) = log_pair shards s hash_key w"
  by (simp add: rec_of_def pos_of_def log_pair_def Let_def)

text \<open>Different keys have different positions.\<close>

lemma indexed_inj:
  assumes "indexed E l m" and "m k = Some w" and "m k' = Some w'"
    and "unat (xxh3 E k) mod e_shards E = unat (xxh3 E k') mod e_shards E" and "pos_of w = pos_of w'"
  shows "k = k'"
proof -
  have "pair_key (log_pair (e_shards E) l (xxh3 E k) w) = k" "pair_key (log_pair (e_shards E) l (xxh3 E k') w') = k'"
    using assms(1-3) unfolding indexed_def by blast+
  then show ?thesis using assms(4,5) by (simp flip: rec_of_log_pair)
qed

lemma old_record_chain:
  assumes ok: "logdb_ok good tmap E S" and inv: "gc_inv tmap E S" and k: "tmap (db S) k = Some w0" and m: "m = (tmap (db S))(k := x)"
    and x: "\<And>w. x = Some w \<Longrightarrow> \<not> rec_at (log_kv S) (unat (xxh3 E k) mod e_shards E) (pos_of w)"
  obtains ws where "old_chain (unat (xxh3 E k) mod e_shards E) (log_kv S) w0 ws"
    and "\<And>w. w \<in> set ws \<Longrightarrow> (unat (xxh3 E k) mod e_shards E, pos_of w) \<notin> index_positions E m"
proof -
  let ?h = "unat (xxh3 E k) mod e_shards E" and ?s = "log_kv S"
  have ix: "indexed E ?s (tmap (db S))" using ok by (simp add: logdb_ok_def)
  have w0: "w0 \<noteq> - 1" "rec_at ?s ?h (pos_of w0)" and gc: "gc_ok (xxh3 E) (e_shards E) (index_positions E (tmap (db S))) ?s"
    using inv k unfolding gc_inv_def by blast+
  obtain vs where vs: "old_chain ?h ?s (u_offset (rec_of ?s ?h (pos_of w0))) vs" "\<forall>w\<in>set vs. (?h, pos_of w) \<notin> index_positions E (tmap (db S))"
    using gc_okD(1) [OF gc w0(2)] unfolding older_ok_def by blast
  have chain: "old_chain ?h ?s w0 (w0 # vs)" using w0 vs(1) by simp
  have "(?h, pos_of w) \<notin> index_positions E m" if w: "w \<in> set (w0 # vs)" for w
  proof
    assume "(?h, pos_of w) \<in> index_positions E m"
    then obtain k' w' where k': "m k' = Some w'" "unat (xxh3 E k') mod e_shards E = ?h" "pos_of w' = pos_of w" by (auto simp: index_positions_def)
    show False
    proof (cases "k' = k")
      case True
      then show False using x k' m old_chain_recs [OF chain w] by simp
    next
      case False
      then have old: "tmap (db S) k' = Some w'" using k'(1) m by simp
      then have "(?h, pos_of w) \<in> index_positions E (tmap (db S))" using old index_positionsI [of "tmap (db S)" k' w' E] k'(2,3) by simp
      then have "w = w0" using vs(2) w by auto
      then show False using indexed_inj [OF ix old k] k'(2,3) False by simp
    qed
  qed
  with chain show thesis by (rule that)
qed

lemma gc_inv_step:
  fixes k :: u64 and E :: "('d, 'l) env"
  defines "h \<equiv> unat (xxh3 E k) mod e_shards E"
  assumes inv: "gc_inv tmap E S" and wf: "log_wf (e_shards E) l" and al: "aligned (e_shards E) l"
    and more: "one_more (log_kv S) l h q p" and m: "tmap d = (tmap (db S))(k := x)"
    and x: "\<And>w. x = Some w \<Longrightarrow> w \<noteq> - 1 \<and> pos_of w = q \<and> pair_op p \<noteq> op_code TRASH \<and> pair_op p \<noteq> op_code DELETE"
    and key: "pair_op p \<noteq> op_code TRASH \<Longrightarrow> pair_key p = k"
    and chain: "old_chain h (log_kv S) (u_offset p) ws" "\<And>w. w \<in> set ws \<Longrightarrow> (h, pos_of w) \<notin> index_positions E (tmap d)"
    and trash: "pair_op p = op_code TRASH \<Longrightarrow> ws = []"
  shows "gc_inv tmap E (S\<lparr>db := d, log_kv := l\<rparr>)"
proof -
  let ?X = "index_positions E (tmap (db S))" and ?X' = "index_positions E (tmap d)"
  have gc: "gc_ok (xxh3 E) (e_shards E) ?X (log_kv S)"
    and old: "\<And>k w. tmap (db S) k = Some w \<Longrightarrow> w \<noteq> - 1 \<and> rec_at (log_kv S) (unat (xxh3 E k) mod e_shards E) (pos_of w) \<and>
        \<not> trash_at (log_kv S) (unat (xxh3 E k) mod e_shards E) (pos_of w)"
    using inv unfolding gc_inv_def by blast+
  have new: "\<not> rec_at (log_kv S) h q" "rec_of l h q = p" "rec_at l h q"
    and keep: "\<And>h' q'. rec_at (log_kv S) h' q' \<Longrightarrow> rec_at l h' q' \<and> rec_of l h' q' = rec_of (log_kv S) h' q'"
    using more unfolding one_more_def by blast+
  have "?X' \<subseteq> insert (h, q) ?X"
  proof
    fix y assume "y \<in> ?X'"
    then obtain k' w' where "y = (unat (xxh3 E k') mod e_shards E, pos_of w')" "tmap d k' = Some w'" by (auto simp: index_positions_def)
    then show "y \<in> insert (h, q) ?X" using x m index_positionsI [of "tmap (db S)" k' w' E] by (cases "k' = k") (auto simp: h_def)
  qed
  moreover have "(h, q) \<notin> ?X'" if "pair_op p = op_code DELETE"
  proof
    assume "(h, q) \<in> ?X'"
    then obtain k' w' where k': "h = unat (xxh3 E k') mod e_shards E" "q = pos_of w'" "tmap d k' = Some w'" by (auto simp: index_positions_def)
    show False using k' that x m old [of k' w'] new(1) by (cases "k' = k") auto
  qed
  ultimately have "gc_ok (xxh3 E) (e_shards E) ?X' l"
    using key by (intro gc_ok_append [OF gc wf more _ _ _ chain trash]) (auto simp: h_def)
  moreover have "w \<noteq> - 1 \<and> rec_at l (unat (xxh3 E k') mod e_shards E) (pos_of w) \<and> \<not> trash_at l (unat (xxh3 E k') mod e_shards E) (pos_of w)"
    if kw: "tmap d k' = Some w" for k' w
  proof (cases "k' = k")
    case True
    then have "x = Some w" using kw m by simp
    then show ?thesis using x [of w] new True by (simp add: h_def trash_at_def)
  next
    case False
    then show ?thesis using old [of k' w] keep kw m by (auto simp: trash_at_def)
  qed
  ultimately show ?thesis using al unfolding gc_inv_def by simp
qed

context tree_index
begin

lemma logdb_insert_gc:
  assumes S: "ok E S" and inv: "gc_inv tmap E S" and room: "log_room E S k" and key: "k \<in> keys" and new: "smap E S k = None"
    and run: "logdb_insert E T S k v = Inr (b, S')"
  shows "gc_inv tmap E S'"
proof -
  have d: "good (db S)" and wf: "log_wf (e_shards E) (log_kv S)" using S by (simp_all add: logdb_ok_def)
  have al: "aligned (e_shards E) (log_kv S)" using inv by (simp add: gc_inv_def)
  have none: "tmap (db S) k = None" using new by (simp add: logdb_map_def log_map_None)
  obtain u info c off q where a: "alloc_log (e_mapped E) (e_shards E) (fst (get_version (e_shards E) (log_kv S) (xxh3 E k))) (global_thread_id E)
      (xxh3 E k) ((no_log_info (e_raw_info E))\<lparr>vlen := 8\<rparr>) pair_size = Inr (u, info, Some c, off)"
    and q: "pos_of (to_uint64_t_offset info) = q" "to_uint64_t_offset info \<noteq> - 1"
    and u: "\<And>p. aligned (e_shards E) (store_at u p c off)" "\<And>p. one_more (log_kv S) (store_at u p c off) (unat (xxh3 E k) mod e_shards E) q p"
      "log_wf (e_shards E) u"
    using append_recs [OF wf al room, where log_info = "(no_log_info (e_raw_info E))\<lparr>vlen := 8\<rparr>"] by metis
  obtain d' where d': "t_insert T (db S) k (to_uint64_t_offset info) = Some (ins, d')" "tmap d' = (tmap (db S))(k \<mapsto> to_uint64_t_offset info)"
    using insert_law [OF d key none] by blast
  define p where "p = set_op (set_version (Pair_t_new (e_raw_pair E) k v) (versions (log_kv S) (unat (xxh3 E k) mod e_shards E))) INSERT"
  have "LogKV_insert (e_mapped E) (e_shards E) (log_kv S) (global_thread_id E) (e_raw_pair E) (e_raw_info E) k v (xxh3 E k) =
      Inr (store_at u p c off, to_uint64_t_offset info)"
    using a by (subst LogKV_insert_def, subst get_version_eq) (simp add: p_def store_log_def Let_def)
  then have S': "S' = S\<lparr>db := d', log_kv := store_at u p c off\<rparr>" using run d'(1) by (simp add: logdb_insert_def)
  have p: "pair_op p = op_code INSERT" "pair_key p = k" "u_offset p = - 1" by (simp_all add: p_def set_op_def set_version_def Pair_t_new_def)
  show ?thesis unfolding S'
    by (rule gc_inv_step [where tmap = tmap and k = k and x = "Some (to_uint64_t_offset info)" and ws = "[]" and q = q and p = p, OF inv _ u(1) u(2) d'(2)])
      (use u(3) q p in \<open>simp_all add: store_at_wf\<close>)
qed

lemma logdb_update_gc:
  assumes S: "ok E S" and inv: "gc_inv tmap E S" and room: "log_room E S k"
    and run: "logdb_update E T S raw k v = Inr (b, S')"
  shows "gc_inv tmap E S'"
proof -
  let ?h = "unat (xxh3 E k) mod e_shards E"
  have d: "good (db S)" and wf: "log_wf (e_shards E) (log_kv S)" using S by (simp_all add: logdb_ok_def)
  have al: "aligned (e_shards E) (log_kv S)" using inv by (simp add: gc_inv_def)
  obtain u info c off q where a: "alloc_log (e_mapped E) (e_shards E) (fst (get_version (e_shards E) (log_kv S) (xxh3 E k))) (global_thread_id E)
      (xxh3 E k) ((no_log_info (e_raw_info E))\<lparr>vlen := 8\<rparr>) pair_size = Inr (u, info, Some c, off)"
    and q: "pos_of (to_uint64_t_offset info) = q" "to_uint64_t_offset info \<noteq> - 1"
    and u: "\<And>p. aligned (e_shards E) (store_at u p c off)" "\<And>p. one_more (log_kv S) (store_at u p c off) ?h q p"
      "log_wf (e_shards E) u" "aligned (e_shards E) u" "one_more (log_kv S) u ?h q blank"
    using append_recs [OF wf al room, where log_info = "(no_log_info (e_raw_info E))\<lparr>vlen := 8\<rparr>"] by metis
  define p where "p = set_op (set_version (Pair_t_new (e_raw_pair E) k v) (versions (log_kv S) ?h)) UPDATE"
  have step1: "LogKV_update_step1 (e_mapped E) (e_shards E) (log_kv S) (global_thread_id E) (e_raw_info E) (xxh3 E k) (Pair_t_new (e_raw_pair E) k v) =
      Inr (u, p, to_uint64_t_offset info, Some c, off)"
    using a by (subst LogKV_update_step1_def, subst get_version_eq) (simp add: p_def Let_def)
  show ?thesis
  proof (cases "tmap (db S) k")
    case None
    have S': "S' = S\<lparr>db := db S, log_kv := u\<rparr>" using run step1 update_missing [OF d None] by (simp add: logdb_update_def)
    show ?thesis unfolding S'
      by (rule gc_inv_step [where tmap = tmap and k = k and x = None and ws = "[]" and q = q and p = blank, OF inv u(3,4,5)])
        (use None in \<open>auto simp: blank_simps\<close>)
  next
    case (Some w0)
    obtain d' where d': "t_update T (db S) k (to_uint64_t_offset info) raw = Some (True, w0, d')"
        "tmap d' = (tmap (db S))(k \<mapsto> to_uint64_t_offset info)"
      using update_found [OF d Some] by blast
    let ?p = "set_last_log_offest p w0"
    have S': "S' = S\<lparr>db := d', log_kv := store_at u ?p c off\<rparr>" using run step1 d'(1) by (simp add: logdb_update_def store_log_def)
    have p: "pair_op ?p = op_code UPDATE" "pair_key ?p = k" "u_offset ?p = w0"
      by (simp_all add: p_def set_op_def set_version_def set_last_log_offest_def Pair_t_new_def)
    have nq: "\<not> rec_at (log_kv S) ?h q" using u(5) by (simp add: one_more_def)
    obtain ws where ws: "old_chain ?h (log_kv S) w0 ws" "\<And>w. w \<in> set ws \<Longrightarrow> (?h, pos_of w) \<notin> index_positions E (tmap d')"
      using old_record_chain [OF S inv Some d'(2)] nq q(1) by auto
    show ?thesis unfolding S'
      by (rule gc_inv_step [where tmap = tmap and k = k and x = "Some (to_uint64_t_offset info)" and ws = ws and q = q and p = ?p, OF inv _ u(1) u(2) d'(2)])
        (use u(3) q p ws in \<open>simp_all add: store_at_wf\<close>)
  qed
qed

lemma logdb_erase_gc:
  assumes S: "ok E S" and inv: "gc_inv tmap E S" and room: "log_room E S k" and old: "smap E S k \<noteq> None"
    and run: "logdb_erase E T S raw k = Inr (b, S')"
  shows "gc_inv tmap E S'"
proof -
  let ?h = "unat (xxh3 E k) mod e_shards E"
  have d: "good (db S)" and wf: "log_wf (e_shards E) (log_kv S)" using S by (simp_all add: logdb_ok_def)
  have al: "aligned (e_shards E) (log_kv S)" using inv by (simp add: gc_inv_def)
  obtain w0 where w0: "tmap (db S) k = Some w0" using old by (auto simp: logdb_map_def log_map_None)
  obtain u info c off q where a: "alloc_log (e_mapped E) (e_shards E) (fst (get_version (e_shards E) (log_kv S) (xxh3 E k))) (global_thread_id E)
      (xxh3 E k) (no_log_info (e_raw_info E)) pair_size = Inr (u, info, Some c, off)"
    and u: "\<And>p. aligned (e_shards E) (store_at u p c off)" "\<And>p. one_more (log_kv S) (store_at u p c off) ?h q p" "log_wf (e_shards E) u"
    using append_recs [OF wf al room, where log_info = "no_log_info (e_raw_info E)"] by metis
  define p where "p = set_last_log_offest (set_op (set_version (Pair_t_key (e_raw_pair E) k) (versions (log_kv S) ?h)) DELETE) w0"
  have er: "LogKV_erase (e_mapped E) (e_shards E) (log_kv S) (global_thread_id E) (e_raw_pair E) (e_raw_info E) k (xxh3 E k) w0 = Inr (store_at u p c off)"
    using a by (subst LogKV_erase_def, subst get_version_eq) (simp add: p_def store_log_def Let_def)
  obtain d' out where d': "t_erase T (db S) k (Some raw) = Some (True, out, d')" "tmap d' = (tmap (db S))(k := None)"
    using erase_found [OF d w0, of "Some raw"] by auto
  have "t_search T (db S) k 0 = Some (True, w0)" using search_law [OF d, of k 0] w0 by simp
  then have S': "S' = S\<lparr>db := d', log_kv := store_at u p c off\<rparr>" using run er d'(1) by (simp add: logdb_erase_def)
  have p: "pair_op p = op_code DELETE" "pair_key p = k" "u_offset p = w0"
    by (simp_all add: p_def set_op_def set_version_def set_last_log_offest_def Pair_t_key_def)
  obtain ws where ws: "old_chain ?h (log_kv S) w0 ws" "\<And>w. w \<in> set ws \<Longrightarrow> (?h, pos_of w) \<notin> index_positions E (tmap d')"
    using old_record_chain [OF S inv w0 d'(2)] by auto
  show ?thesis unfolding S'
    by (rule gc_inv_step [where tmap = tmap and k = k and x = None and ws = ws and q = q and p = p, OF inv _ u(1) u(2) d'(2)])
      (use u(3) p ws in \<open>simp_all add: store_at_wf\<close>)
qed

end

section \<open>Marking\<close>

lemma trashed_aligned:
  assumes "trashed X s s'" and "aligned shards s"
  shows "aligned shards s'"
proof -
  have "pmem s' b a = - 1" if "pmem s b a = - 1" for b a
  proof -
    have "pmem s' b a = pmem s b a \<or> pmem s' b a = pmem s b a OR 3" using assms(1) unfolding trashed_def by blast
    then show ?thesis using that by (auto simp del: or_minus_numerals)
  qed
  then show ?thesis using assms(2) trashed_same(2) [OF assms(1)] unfolding aligned_def by simp
qed

lemma trashed_database:
  assumes S: "logdb_ok good tmap E S" and inv: "gc_inv tmap E S" and gc: "gc_ok (xxh3 E) (e_shards E) X l" and tr: "trashed X (log_kv S) l"
    and X: "X = index_positions E (tmap (db S))"
  shows "logdb_ok good tmap E (S\<lparr>log_kv := l\<rparr>)" and "gc_inv tmap E (S\<lparr>log_kv := l\<rparr>)"
    and "logdb_map tmap E (S\<lparr>log_kv := l\<rparr>) = logdb_map tmap E S"
    and "tmap (db S) k = Some w \<Longrightarrow> log_pair (e_shards E) l (xxh3 E k) w = log_pair (e_shards E) (log_kv S) (xxh3 E k) w \<and>
      pair_op (log_pair (e_shards E) l (xxh3 E k) w) \<noteq> op_code TRASH"
proof -
  have ix: "indexed E (log_kv S) (tmap (db S))" and wf: "log_wf (e_shards E) (log_kv S)" and d: "good (db S)"
    using S by (simp_all add: logdb_ok_def)
  have rec: "rec_at (log_kv S) (unat (xxh3 E k) mod e_shards E) (pos_of w)" "w \<noteq> - 1"
      "\<not> trash_at (log_kv S) (unat (xxh3 E k) mod e_shards E) (pos_of w)" if "tmap (db S) k = Some w" for k w
    using inv that unfolding gc_inv_def by blast+
  have same: "rec_of l (unat (xxh3 E k) mod e_shards E) (pos_of w) = rec_of (log_kv S) (unat (xxh3 E k) mod e_shards E) (pos_of w)"
    if "tmap (db S) k = Some w" for k w
    using tr rec(1) [OF that] index_positionsI [of "tmap (db S)" k w E, OF that] unfolding trashed_def X by blast
  note ts = trashed_same [OF tr]
  have pair: "log_pair (e_shards E) l (xxh3 E k) w = log_pair (e_shards E) (log_kv S) (xxh3 E k) w" if "tmap (db S) k = Some w" for k w
    using same [OF that] by (simp add: rec_of_log_pair)
  then show "log_pair (e_shards E) l (xxh3 E k) w = log_pair (e_shards E) (log_kv S) (xxh3 E k) w \<and>
      pair_op (log_pair (e_shards E) l (xxh3 E k) w) \<noteq> op_code TRASH" if "tmap (db S) k = Some w"
    using rec(1,3) [OF that] that same by (simp add: trash_at_def flip: rec_of_log_pair)
  have live: "log_live (e_shards E) l = log_live (e_shards E) (log_kv S)" using ts(6) by (simp add: log_live_def fun_eq_iff)
  have "indexed E l (tmap (db S))" using ix pair live by (simp add: indexed_def)
  then show "logdb_ok good tmap E (S\<lparr>log_kv := l\<rparr>)" using d wf ts(4) by (simp add: logdb_ok_def)
  show "logdb_map tmap E (S\<lparr>log_kv := l\<rparr>) = logdb_map tmap E S"
    using pair by (auto simp: logdb_map_def log_map_def fun_eq_iff map_option_case split: option.splits)
  have "rec_at l h q = rec_at (log_kv S) h q" for h q using ts(3) by simp
  then show "gc_inv tmap E (S\<lparr>log_kv := l\<rparr>)"
    using gc rec same trashed_aligned [OF tr] inv by (simp add: gc_inv_def X trash_at_def)
qed

section \<open>Runs of the database\<close>

text \<open>
  The steps of a client and of the collector's first pass. Insertions are of keys of \<open>K\<close> that a lookup in
  the index does not find, removals of keys that it finds.
\<close>

inductive logdb_step :: "('d, 'l) env \<Rightarrow> 's tree_ops \<Rightarrow> u64 set \<Rightarrow> 's logdb \<Rightarrow> 's logdb \<Rightarrow> bool" for E T K where
  insert_step: "k \<in> K \<Longrightarrow> t_search T (db S) k 0 = Some (False, 0) \<Longrightarrow> log_room E S k \<Longrightarrow> logdb_insert E T S k v = Inr (b, S') \<Longrightarrow> logdb_step E T K S S'"
| update_step: "log_room E S k \<Longrightarrow> logdb_update E T S raw k v = Inr (b, S') \<Longrightarrow> logdb_step E T K S S'"
| erase_step: "t_search T (db S) k 0 = Some (True, w) \<Longrightarrow> log_room E S k \<Longrightarrow> logdb_erase E T S raw k = Inr (b, S') \<Longrightarrow> logdb_step E T K S S'"
| search_step: "logdb_search E T S k = Inr (b, v, S') \<Longrightarrow> logdb_step E T K S S'"
| mark_step: "end_pos \<le> e_shards E \<Longrightarrow> gc_mark (xxh3 E) (e_shards E) begin_pos end_pos (log_kv S) = Some (Inr l) \<Longrightarrow>
    logdb_step E T K S (S\<lparr>log_kv := l\<rparr>)"

lemma search_same_log: "logdb_search E T S k = Inr (b, v, S') \<Longrightarrow> db S' = db S \<and> log_kv S' = log_kv S"
  by (auto simp: logdb_search_def Let_def split: if_splits option.splits sum.splits prod.splits)

context tree_index
begin

lemma logdb_step_inv:
  assumes "logdb_step E T keys S S'" and "ok E S" and "gc_inv tmap E S"
  shows "ok E S' \<and> gc_inv tmap E S'"
  using assms
proof (induction rule: logdb_step.cases)
  case (insert_step k S v b S')
  have d: "good (db S)" using insert_step by (simp add: logdb_ok_def)
  have new: "smap E S k = None"
    using insert_step search_law [OF d, of k 0] by (auto simp: logdb_map_def log_map_None split: option.splits)
  obtain S'' where "logdb_insert E T S k v = Inr (ins, S'')" "ok E S''"
    using logdb_insert_correct [OF _ _ _ new, where v = v] insert_step by metis
  then show ?case using insert_step logdb_insert_gc [OF _ _ _ _ new] by auto
next
  case (update_step S k raw v b S')
  have "ok E S'"
  proof (cases "smap E S k")
    case None
    then show ?thesis using logdb_update_absent [OF _ _ None, where v = v and raw = raw] update_step by (metis Inr_inject prod.inject)
  next
    case (Some v0)
    then show ?thesis using logdb_update_correct [OF _ _ Some, where v = v and raw = raw] update_step by (metis Inr_inject prod.inject)
  qed
  then show ?case using update_step logdb_update_gc by blast
next
  case (erase_step S k w raw b S')
  have d: "good (db S)" using erase_step by (simp add: logdb_ok_def)
  have old: "smap E S k \<noteq> None"
    using erase_step search_law [OF d, of k 0] by (auto simp: logdb_map_def log_map_None split: option.splits)
  have "ok E S'" using logdb_erase_correct [where raw = raw] erase_step by (metis Inr_inject prod.inject)
  then show ?case using erase_step logdb_erase_gc [OF _ _ _ old] by blast
next
  case (search_step S k b v S')
  then show ?case using search_same_log [OF search_step(3)] by (simp add: logdb_ok_def gc_inv_def)
next
  case (mark_step end_pos begin_pos S l)
  have gc: "gc_ok (xxh3 E) (e_shards E) (index_positions E (tmap (db S))) (log_kv S)" using mark_step by (simp add: gc_inv_def)
  show ?case using gc_mark_correct [OF gc mark_step(3), of begin_pos] mark_step trashed_database by fastforce
qed

lemma logdb_steps_inv:
  assumes "(logdb_step E T keys)\<^sup>*\<^sup>* S S'" and "ok E S" and "gc_inv tmap E S"
  shows "ok E S' \<and> gc_inv tmap E S'"
  using assms by (induction rule: rtranclp_induct) (auto dest: logdb_step_inv)

end

section \<open>A new database\<close>

lemma LogKV_new_gc:
  assumes shards: "0 < shards" "shards \<le> max_shards" and m: "\<And>n h. mapped (n, h, 0)" and new: "LogKV_new mapped shards False = Inr s"
  shows "aligned shards s" and "\<not> rec_at s h q" and "log_wf shards s"
proof -
  let ?xs = "List.product [0..<numa_node_num] [0..<shards]"
  have "pages_wf {} empty_log" by (simp add: pages_wf_def blocks_wf_def empty_log_def)
  from LogKV_pages_wf [OF this, where xs = ?xs and mapped = mapped] new
  have wf: "pages_wf (set ?xs) s" using m shards by (auto simp: distinct_product LogKV_new_def)
  show "log_wf shards s" using wf shards by (auto simp: log_wf_def pages_wf_def)
  have none: "start_addr_arr s n h p = None" if "(n, h) \<notin> set ?xs" for n h p using wf that unfolding pages_wf_def by blast
  have zero: "cur_page s n h = 0" "sz_allocated (ppages s n h) = 0" if "(n, h) \<in> set ?xs" for n h using wf that unfolding pages_wf_def by blast+
  show "\<not> rec_at s h q"
  proof
    assume "rec_at s h q"
    then obtain n p off where q: "live_at s n h p off" by (cases q) (auto simp: rec_at_def)
    then have "start_addr_arr s n h p \<noteq> None" by (simp add: live_at_def)
    then have "(n, h) \<in> set ?xs" using none [of n h p] by metis
    then show False using zero [of n h] q by (auto simp: live_at_def pair_size_def)
  qed
  obtain s' where "LogKV_new mapped shards False = Inr s'" "insert_log shards s'" using LogKV_new_inserts [where mapped = mapped, OF shards m] by metis
  then have ins: "insert_log shards s" using new by simp
  show "aligned shards s" unfolding aligned_def
  proof (intro allI impI)
    fix n h assume nh: "n < numa_node_num" "h < shards"
    have sh: "shard_inserts s n h" using ins nh by (simp add: insert_log_def)
    obtain b where "start_addr (ppages s n h) = Some b" "start_addr_arr s n h (cur_page s n h) = Some b"
      using log_wf_page [OF \<open>log_wf shards s\<close> nh] by metis
    then show "pair_size dvd sz_allocated (ppages s n h) \<and>
        (\<forall>a\<ge>sz_allocated (ppages s n h). pmem s (the (start_addr (ppages s n h))) a = - 1)"
      using sh by (simp add: shard_inserts_def page_of_def)
  qed
qed

lemma logdb_new_gc_inv:
  assumes "0 < e_shards E" "e_shards E \<le> max_shards" and "\<And>n h. e_mapped E (n, h, 0)" and new: "logdb_new E d n = Inr S"
    and "tmap d = Map.empty"
  shows "gc_inv tmap E S"
proof -
  obtain l where l: "LogKV_new (e_mapped E) (e_shards E) False = Inr l" and S: "db S = d" "log_kv S = l"
    using new by (auto simp: logdb_new_def split: sum.splits option.splits)
  show ?thesis using LogKV_new_gc [where mapped = "e_mapped E", OF assms(1-3) l] assms(5) by (simp add: gc_inv_def gc_ok_def S)
qed

context tree_index
begin

lemma gc_reachable:
  assumes E: "0 < e_shards E" "e_shards E \<le> max_shards" "\<And>n h. e_mapped E (n, h, 0)" "n \<noteq> 0" "e_avail E n"
    and d: "good d" "tmap d = Map.empty" and S0: "logdb_new E d n = Inr S0" and steps: "(logdb_step E T keys)\<^sup>*\<^sup>* S0 S" and "end_pos \<le> e_shards E"
  shows "\<exists>l. gc_mark (xxh3 E) (e_shards E) begin_pos end_pos (log_kv S) = Some (Inr l) \<and> ok E (S\<lparr>log_kv := l\<rparr>) \<and>
    smap E (S\<lparr>log_kv := l\<rparr>) = smap E S \<and>
    (\<forall>k w. tmap (db S) k = Some w \<longrightarrow> log_pair (e_shards E) l (xxh3 E k) w = log_pair (e_shards E) (log_kv S) (xxh3 E k) w \<and>
       pair_op (log_pair (e_shards E) l (xxh3 E k) w) \<noteq> op_code TRASH) \<and>
    (\<forall>n h p off. n < numa_node_num \<and> begin_pos \<le> h \<and> h < end_pos \<and> rec_at (log_kv S) h (n, p, off) \<and> p < cur_page (log_kv S) n h \<longrightarrow>
       swept (log_kv S) l h (n, p, off))"
proof -
  have "ok E S0" using logdb_new_ok [where good = good and tmap = tmap, OF E d] S0 by (metis Inr_inject)
  moreover have "gc_inv tmap E S0" by (rule logdb_new_gc_inv [where tmap = tmap, OF E(1-3) S0 d(2)])
  ultimately have S: "ok E S" "gc_inv tmap E S" using logdb_steps_inv [OF steps] by blast+
  have gc: "gc_ok (xxh3 E) (e_shards E) (index_positions E (tmap (db S))) (log_kv S)" using S(2) by (simp add: gc_inv_def)
  obtain l where l: "gc_mark (xxh3 E) (e_shards E) begin_pos end_pos (log_kv S) = Some (Inr l)"
      "gc_ok (xxh3 E) (e_shards E) (index_positions E (tmap (db S))) l" "trashed (index_positions E (tmap (db S))) (log_kv S) l"
      "\<forall>n h p off. n < numa_node_num \<and> begin_pos \<le> h \<and> h < end_pos \<and> rec_at (log_kv S) h (n, p, off) \<and> p < cur_page (log_kv S) n h \<longrightarrow>
       swept (log_kv S) l h (n, p, off)"
    using gc_mark_correct [OF gc assms(10), of begin_pos] by blast
  note db = trashed_database [OF S l(2,3) refl]
  from db(4) have "\<forall>k w. tmap (db S) k = Some w \<longrightarrow> log_pair (e_shards E) l (xxh3 E k) w = log_pair (e_shards E) (log_kv S) (xxh3 E k) w \<and>
       pair_op (log_pair (e_shards E) l (xxh3 E k) w) \<noteq> op_code TRASH" by (intro allI impI)
  then show ?thesis using l(1,4) db(1,3) by (intro exI [of _ l] conjI)
qed

section \<open>Two defects\<close>

text \<open>The second pass writes whatever an \<^verbatim>\<open>INSERT\<close> or \<^verbatim>\<open>UPDATE\<close> record holds, also when a newer record exists.\<close>

lemma rewrite_reverts:
  assumes S: "ok E S" and room: "log_room E S k" and k: "smap E S k = Some v"
    and p: "load_pair (pmem (log_kv S) b) off = p" "pair_op p = op_code INSERT \<or> pair_op p = op_code UPDATE" "pair_key p = k"
  shows "\<exists>S'. rewrite_record E T raw b off S = Some (Inr S') \<and> smap E S' = (smap E S)(k \<mapsto> pair_value p)"
proof -
  obtain S' where "logdb_update E T S raw k (pair_value p) = Inr (True, S')" "smap E S' = (smap E S)(k \<mapsto> pair_value p)"
    using logdb_update_correct [OF S room k, where raw = raw and v = "pair_value p"] by metis
  then show ?thesis using p by (auto simp: rewrite_record_def)
qed

text \<open>
  The removal of an absent key logs 0 as the position of the older record, which is the position of
  the first record of the shard on node 0. The collector marks that record.
\<close>

lemma pos_of_0: "pos_of 0 = (0, 0, 0)"
  by (simp add: pos_of_def of_addr_info_def)

lemma erase_absent_marks:
  assumes S: "ok E S" and al: "aligned (e_shards E) (log_kv S)" and room: "log_room E S k" and k: "smap E S k = None"
    and first: "rec_at (log_kv S) (unat (xxh3 E k) mod e_shards E) (0, 0, 0)"
      "pair_op (rec_of (log_kv S) (unat (xxh3 E k) mod e_shards E) (0, 0, 0)) = op_code INSERT"
      "u_offset (rec_of (log_kv S) (unat (xxh3 E k) mod e_shards E) (0, 0, 0)) = - 1"
  shows "\<exists>S' n p off l. logdb_erase E T S raw k = Inr (False, S') \<and>
    gc_record (xxh3 E) (e_shards E) n p (fst (addr_of (log_kv S') (unat (xxh3 E k) mod e_shards E) (n, p, off))) off (log_kv S') = Some (Inr l) \<and>
    trash_at l (unat (xxh3 E k) mod e_shards E) (0, 0, 0)"
proof -
  let ?h = "unat (xxh3 E k) mod e_shards E"
  have d: "good (db S)" and wf: "log_wf (e_shards E) (log_kv S)" using S by (simp_all add: logdb_ok_def)
  have none: "tmap (db S) k = None" using k by (simp add: logdb_map_def log_map_None)
  obtain u info c off q where a: "alloc_log (e_mapped E) (e_shards E) (fst (get_version (e_shards E) (log_kv S) (xxh3 E k))) (global_thread_id E)
      (xxh3 E k) (no_log_info (e_raw_info E)) pair_size = Inr (u, info, Some c, off)"
    and u: "\<And>p. one_more (log_kv S) (store_at u p c off) ?h q p" "log_wf (e_shards E) u"
    using append_recs [OF wf al room, where log_info = "no_log_info (e_raw_info E)"] by metis
  define p where "p = set_last_log_offest (set_op (set_version (Pair_t_key (e_raw_pair E) k) (versions (log_kv S) ?h)) DELETE) 0"
  define s where "s = store_at u p c off"
  have er: "LogKV_erase (e_mapped E) (e_shards E) (log_kv S) (global_thread_id E) (e_raw_pair E) (e_raw_info E) k (xxh3 E k) 0 = Inr s"
    using a by (subst LogKV_erase_def, subst get_version_eq) (simp add: p_def s_def store_log_def Let_def)
  have "t_search T (db S) k 0 = Some (False, 0)" using search_law [OF d, of k 0] none by simp
  then have run: "logdb_erase E T S raw k = Inr (False, S\<lparr>db := db S, log_kv := s\<rparr>)"
    using er erase_missing [OF d none] by (simp add: logdb_erase_def)
  have p: "pair_op p = op_code DELETE" "pair_key p = k" "u_offset p = 0"
    by (simp_all add: p_def set_op_def set_version_def set_last_log_offest_def Pair_t_key_def)
  obtain n pg o' where q: "q = (n, pg, o')" by (cases q)
  have more: "one_more (log_kv S) s ?h q p" using u(1) by (simp add: s_def)
  then have rq: "rec_at s ?h (n, pg, o')" "rec_of s ?h (n, pg, o') = p" unfolding one_more_def q by blast+
  have chain: "old_chain ?h s (u_offset p) [0]"
    using old_chain_more [OF more, of ?h 0 "[0]"] first by (simp add: p(3) pos_of_0)
  obtain b where b: "start_addr_arr s n ?h pg = Some b" using rq(1) by (auto simp: rec_at_def live_at_def)
  have first': "rec_at s ?h (0, 0, 0)" "rec_of s ?h (0, 0, 0) = rec_of (log_kv S) ?h (0, 0, 0)"
    using more first(1) unfolding one_more_def by blast+
  let ?w = "to_uint64_t_offset \<lparr>vlen = 8, numa_id = of_nat n, ppage_id = of_nat pg, log_offset = of_nat o'\<rparr>"
  let ?old = "[(?w, b, o'), (0, addr_of s ?h (pos_of 0))]"
  have load: "load_pair (pmem s b) o' = p" using rq(2) b by (simp add: rec_of_def pair_at_def)
  have "pair_op (rec_of s ?h (0, 0, 0)) \<noteq> op_code TRASH" using first'(2) first(2) by simp
  then have gc: "gc_record (xxh3 E) (e_shards E) n pg b o' s = Some (Inr (mark_old (e_shards E) (xxh3 E k) ?old s))"
    using collect_old_chain [OF chain refl] p pos_of_0 by (simp add: gc_record_def load Let_def)
  have "blocks_wf s" using u(2) by (simp add: s_def store_at_wf log_wf_def blocks_wf_def store_at_def)
  moreover have "rec_at s ?h (pos_of w) \<and> addr_of s ?h (pos_of w) = (b', o'') \<and> (?h, pos_of w) \<notin> {}" if "(w, b', o'') \<in> set ?old" for w b' o''
    using that rq(1) first'(1) pos_of_packed [OF rq(1), of 8] b by (auto simp: pos_of_0 addr_of_def)
  ultimately have "\<forall>w\<in>fst ` set ?old. trash_at (mark_old (e_shards E) (xxh3 E k) ?old s) ?h (pos_of w)"
    using mark_old_trashed [where h = ?h and X = "{}" and old = ?old] by blast
  then have "trash_at (mark_old (e_shards E) (xxh3 E k) ?old s) ?h (0, 0, 0)" by (simp del: mark_old.simps add: pos_of_0)
  moreover have "fst (addr_of s ?h (n, pg, o')) = b" by (simp add: addr_of_def b)
  ultimately show ?thesis using run gc by (intro exI) (auto simp del: mark_old.simps)
qed

end

section \<open>Room in the page\<close>

lemma alloc_room:
  assumes wf: "log_wf shards s" and fit: "sz_allocated (ppages s (get_numa_id thread) (unat hash_key mod shards)) + pair_size \<le> PPAGE_SIZE"
    and al: "alloc_log mapped shards (fst (get_version shards s hash_key)) thread hash_key info pair_size = Inr (u, info', a, off)"
  shows "sz_allocated (ppages u (get_numa_id thread) (unat hash_key mod shards)) =
    sz_allocated (ppages s (get_numa_id thread) (unat hash_key mod shards)) + pair_size"
proof -
  let ?n = "get_numa_id thread" and ?h = "unat hash_key mod shards"
  define s1 where "s1 = fst (get_version shards s hash_key)"
  obtain v where s1: "s1 = s\<lparr>versions := v\<rparr>" by (simp add: s1_def get_version_def Let_def)
  have wf1: "log_wf shards s1" using wf by (simp add: s1 versions_only)
  have h: "?h < shards" using wf by (simp add: log_wf_def)
  have fit1: "sz_allocated (ppages s1 ?n ?h) + pair_size \<le> PPAGE_SIZE" using fit by (simp add: s1)
  then have "u = reserve s1 ?n ?h"
    using al PPage_alloc_ready [where mapped = mapped, OF wf1 get_numa_id_less h disjI1 [OF fit1]]
    by (simp add: s1_def [symmetric] alloc_log_def ready_def Let_def)
  then show ?thesis by (simp add: reserve_def s1)
qed

abbreviation page_fill :: "('d, 'l) env \<Rightarrow> 's logdb \<Rightarrow> u64 \<Rightarrow> nat" where
  "page_fill E S k \<equiv> sz_allocated (ppages (log_kv S) (get_numa_id (global_thread_id E)) (unat (xxh3 E k) mod e_shards E))"

lemma store_log_ppages: "store_log s p a off = Inr s' \<Longrightarrow> ppages s' = ppages s"
  by (auto simp: store_log_def store_at_def split: option.splits)

lemma logdb_insert_fill:
  assumes "log_wf (e_shards E) (log_kv S)" and "page_fill E S k + pair_size \<le> PPAGE_SIZE" and "logdb_insert E T S k v = Inr (b, S')"
  shows "page_fill E S' k = page_fill E S k + pair_size"
proof -
  obtain l w where l: "LogKV_insert (e_mapped E) (e_shards E) (log_kv S) (global_thread_id E) (e_raw_pair E) (e_raw_info E) k v (xxh3 E k) = Inr (l, w)"
    "log_kv S' = l" using assms(3) by (auto simp: logdb_insert_def Let_def split: sum.splits option.splits)
  obtain p u info a off where a: "alloc_log (e_mapped E) (e_shards E) (fst (get_version (e_shards E) (log_kv S) (xxh3 E k))) (global_thread_id E)
      (xxh3 E k) ((no_log_info (e_raw_info E))\<lparr>vlen := 8\<rparr>) pair_size = Inr (u, info, a, off)" "store_log u p a off = Inr l"
    using l(1) by (subst (asm) LogKV_insert_def, subst (asm) get_version_eq) (auto simp: Let_def split: sum.splits)
  show ?thesis using alloc_room [OF assms(1,2) a(1)] store_log_ppages [OF a(2)] l(2) by simp
qed

lemma logdb_update_fill:
  assumes "log_wf (e_shards E) (log_kv S)" and "page_fill E S k + pair_size \<le> PPAGE_SIZE" and "logdb_update E T S raw k v = Inr (b, S')"
  shows "page_fill E S' k = page_fill E S k + pair_size"
proof -
  obtain l p w a off where l: "LogKV_update_step1 (e_mapped E) (e_shards E) (log_kv S) (global_thread_id E) (e_raw_info E) (xxh3 E k)
      (Pair_t_new (e_raw_pair E) k v) = Inr (l, p, w, a, off)" and pp: "ppages (log_kv S') = ppages l"
    using assms(3) by (auto simp: logdb_update_def Let_def store_log_def store_at_def split: sum.splits option.splits if_splits)
  obtain info where a: "alloc_log (e_mapped E) (e_shards E) (fst (get_version (e_shards E) (log_kv S) (xxh3 E k))) (global_thread_id E)
      (xxh3 E k) ((no_log_info (e_raw_info E))\<lparr>vlen := 8\<rparr>) pair_size = Inr (l, info, a, off)"
    using l by (subst (asm) LogKV_update_step1_def, subst (asm) get_version_eq) (auto simp: Let_def split: sum.splits)
  show ?thesis using alloc_room [OF assms(1,2) a] pp by simp
qed

lemma logdb_update_extends:
  assumes wf: "log_wf (e_shards E) (log_kv S)" and room: "log_room E S k" and run: "logdb_update E T S raw k v = Inr (b, S')"
  shows "log_extends (e_shards E) (log_kv S) (log_kv S')"
proof -
  obtain l p w c off where l: "LogKV_update_step1 (e_mapped E) (e_shards E) (log_kv S) (global_thread_id E) (e_raw_info E) (xxh3 E k)
      (Pair_t_new (e_raw_pair E) k v) = Inr (l, p, w, Some c, off)"
    and ext: "log_extends (e_shards E) (log_kv S) l" "\<And>q. appended (e_shards E) (log_kv S) (store_at l q c off) (xxh3 E k) w q"
    by (rule LogKV_update_step1_ok [OF wf room, where p = "Pair_t_new (e_raw_pair E) k v"]) blast
  have "log_extends (e_shards E) (log_kv S) (store_at l q c off)" for q using ext(2) by (simp add: appended_def)
  then show ?thesis using run ext(1) l by (auto simp: logdb_update_def store_log_def split: option.splits if_splits)
qed

text \<open>An indexed record is an insertion or an update.\<close>

lemma two_bits: "w = 0 \<or> w = 1 \<or> w = 2 \<or> (w :: 2 word) = 3"
proof -
  have "unat w < 2 ^ LENGTH(2)" by (rule unsigned_less)
  then have "unat w < 4" by simp
  then have "unat w = unat (0 :: 2 word) \<or> unat w = unat (1 :: 2 word) \<or> unat w = unat (2 :: 2 word) \<or> unat w = unat (3 :: 2 word)" by simp linarith
  then show ?thesis by (metis unsigned_word_eqI)
qed

lemma indexed_op:
  assumes "gc_inv tmap E S" and "tmap (db S) k = Some w"
  shows "pair_op (log_pair (e_shards E) (log_kv S) (xxh3 E k) w) = op_code INSERT \<or> pair_op (log_pair (e_shards E) (log_kv S) (xxh3 E k) w) = op_code UPDATE"
proof -
  let ?h = "unat (xxh3 E k) mod e_shards E"
  have rec: "rec_at (log_kv S) ?h (pos_of w)" "\<not> trash_at (log_kv S) ?h (pos_of w)"
    and gc: "gc_ok (xxh3 E) (e_shards E) (index_positions E (tmap (db S))) (log_kv S)"
    using assms unfolding gc_inv_def by blast+
  have "(?h, pos_of w) \<in> index_positions E (tmap (db S))" using assms(2) by (rule index_positionsI [of "tmap (db S)"])
  then have "pair_op (rec_of (log_kv S) ?h (pos_of w)) \<noteq> op_code DELETE" using gc_okD(3) [OF gc rec(1)] by blast
  then show ?thesis using rec two_bits [of "pair_op (rec_of (log_kv S) ?h (pos_of w))"] by (auto simp: trash_at_def rec_of_log_pair)
qed

end
