(* ===== verification/Nali_Scan.thy ===== *)
theory Nali_Scan
  imports Nali_Tree
begin

text \<open>
  Iterators and scans: \<^verbatim>\<open>BuncketIter\<close>, \<^verbatim>\<open>PointerBEntryIter\<close> (\<^verbatim>\<open>src/src/nali_entry.h\<close>), \<^verbatim>\<open>group::Iter\<close>,
  \<^verbatim>\<open>Nali::Iter\<close> (\<^verbatim>\<open>src/src/nali.h\<close>), each built on the one before, and the functions \<^verbatim>\<open>Scan\<close> of the four levels.
  The locale \<open>nested_iter\<close> states what an iterator over iterators does with the inner one; it is
  interpreted at every level. The iterators read the heap and do not change it; a pointer to a
  leaf is the leaf it points to.
\<close>

section \<open>Iterators\<close>

record BuncketIter =
  bi_cur :: buncket
  bi_prefix_key :: u64
  bi_idx :: nat
  bi_sorted :: "nat list"

definition BuncketIter_new :: "buncket \<Rightarrow> u64 \<Rightarrow> BuncketIter" where
  "BuncketIter_new b prefix_key =
     \<lparr>bi_cur = b, bi_prefix_key = prefix_key, bi_idx = 0, bi_sorted = UnSortBuncket_getSortedIndex b\<rparr>"

text \<open>The loop of the constructor: the first position whose key is at least \<open>start_key\<close>, or \<^verbatim>\<open>entries\<close>.\<close>

function BuncketIter_seek :: "buncket \<Rightarrow> nat list \<Rightarrow> u64 \<Rightarrow> nat \<Rightarrow> nat" where
  "BuncketIter_seek b si start_key i =
     (if i < entries b then if start_key \<le> UnSortBuncket_key b (si ! i) then i else BuncketIter_seek b si start_key (Suc i)
      else entries b)"
  by pat_completeness auto
termination
  by (relation "measure (\<lambda>(b, si, start_key, i). entries b - i)") auto

definition BuncketIter_from :: "buncket \<Rightarrow> u64 \<Rightarrow> u64 \<Rightarrow> BuncketIter" where
  "BuncketIter_from b prefix_key start_key =
     (let si = UnSortBuncket_getSortedIndex b
      in \<lparr>bi_cur = b, bi_prefix_key = prefix_key,
          bi_idx = (if start_key \<le> prefix_key then 0 else BuncketIter_seek b si start_key 0), bi_sorted = si\<rparr>)"

definition BuncketIter_key :: "BuncketIter \<Rightarrow> u64" where
  "BuncketIter_key it =
     (if bi_idx it < entries (bi_cur it) then UnSortBuncket_key (bi_cur it) (bi_sorted it ! bi_idx it) else 0)"

definition BuncketIter_value :: "BuncketIter \<Rightarrow> u64" where
  "BuncketIter_value it =
     (if bi_idx it < entries (bi_cur it) then UnSortBuncket_value (bi_cur it) (bi_sorted it ! bi_idx it) else 0)"

definition BuncketIter_next :: "BuncketIter \<Rightarrow> BuncketIter \<times> bool" where
  "BuncketIter_next it =
     (if entries (bi_cur it) \<le> Suc (bi_idx it) then (it, False) else (it\<lparr>bi_idx := Suc (bi_idx it)\<rparr>, True))"

definition BuncketIter_end :: "BuncketIter \<Rightarrow> bool" where
  "BuncketIter_end it \<longleftrightarrow> entries (bi_cur it) \<le> bi_idx it"

text \<open>
  The iterator of an entry. \<open>raw\<close> is the content of a \<^verbatim>\<open>biter_\<close> that no constructor has run on. The key that the
  constructor of \<^verbatim>\<open>BuncketIter\<close> takes as \<^verbatim>\<open>prefix_key\<close> is given the length \<^verbatim>\<open>prefix_bytes\<close>.
\<close>

record PointerBEntryIter =
  pb_entry :: PointerBEntry
  pb_cur_idx :: nat
  pb_biter :: BuncketIter

definition leaf_iter :: "bheap \<Rightarrow> PointerBEntry \<Rightarrow> nat \<Rightarrow> BuncketIter" where
  "leaf_iter h e i = BuncketIter_new (store h (PointerBEntry_Pointer e i)) (word_of_nat (prefix_bytes (entrys e i)))"

definition PointerBEntryIter_new :: "bheap \<Rightarrow> PointerBEntry \<Rightarrow> BuncketIter \<Rightarrow> PointerBEntryIter" where
  "PointerBEntryIter_new h e raw =
     \<lparr>pb_entry = e, pb_cur_idx = 0, pb_biter = (if eentry_IsValid (entrys e 0) then leaf_iter h e 0 else raw)\<rparr>"

definition PointerBEntryIter_next :: "bheap \<Rightarrow> PointerBEntryIter \<Rightarrow> PointerBEntryIter \<times> bool" where
  "PointerBEntryIter_next h it =
     (let e = pb_entry it; cur_idx = pb_cur_idx it;
          (biter, more) = (if cur_idx < PointerBEntry_entries e then BuncketIter_next (pb_biter it) else (pb_biter it, False));
          it = it\<lparr>pb_biter := biter\<rparr>
      in if more then (it, True)
         else if Suc cur_idx < PointerBEntry_entries e then
           let biter = leaf_iter h e (Suc cur_idx)
           in (it\<lparr>pb_cur_idx := Suc cur_idx, pb_biter := biter\<rparr>, \<not> BuncketIter_end biter)
         else (it\<lparr>pb_cur_idx := PointerBEntry_entries e\<rparr>, False))"

definition PointerBEntryIter_from :: "bheap \<Rightarrow> PointerBEntry \<Rightarrow> u64 \<Rightarrow> BuncketIter \<Rightarrow> PointerBEntryIter" where
  "PointerBEntryIter_from h e start_key raw =
     (let pos = PointerBEntry_Find_pos e start_key
      in if \<not> eentry_IsValid (entrys e pos) then \<lparr>pb_entry = e, pb_cur_idx = pb_entry_count, pb_biter = raw\<rparr>
         else let biter = BuncketIter_from (store h (PointerBEntry_Pointer e pos)) (word_of_nat (prefix_bytes (entrys e pos))) start_key;
                  it = \<lparr>pb_entry = e, pb_cur_idx = pos, pb_biter = biter\<rparr>
              in if BuncketIter_end biter then fst (PointerBEntryIter_next h it) else it)"

definition PointerBEntryIter_end :: "PointerBEntryIter \<Rightarrow> bool" where
  "PointerBEntryIter_end it \<longleftrightarrow> PointerBEntry_entries (pb_entry it) \<le> pb_cur_idx it"

definition PointerBEntryIter_key :: "PointerBEntryIter \<Rightarrow> u64" where
  "PointerBEntryIter_key it = BuncketIter_key (pb_biter it)"

definition PointerBEntryIter_value :: "PointerBEntryIter \<Rightarrow> u64" where
  "PointerBEntryIter_value it = BuncketIter_value (pb_biter it)"

text \<open>The iterator of a group.\<close>

record 'd group_Iter =
  gi_root :: "'d group"
  gi_idx :: nat
  gi_biter :: PointerBEntryIter

definition group_Iter_new :: "bheap \<Rightarrow> 'd group \<Rightarrow> PointerBEntryIter \<Rightarrow> 'd group_Iter" where
  "group_Iter_new h g raw =
     \<lparr>gi_root = g, gi_idx = 0,
      gi_biter = (if nr_entries g = 0 then raw else PointerBEntryIter_new h (entry_space g ! 0) (pb_biter raw))\<rparr>"

definition group_Iter_next :: "bheap \<Rightarrow> 'd group_Iter \<Rightarrow> 'd group_Iter \<times> bool" where
  "group_Iter_next h it =
     (let g = gi_root it;
          (biter, more) = (if gi_idx it < nr_entries g then PointerBEntryIter_next h (gi_biter it) else (gi_biter it, False));
          it = it\<lparr>gi_biter := biter\<rparr>
      in if more then (it, True)
         else let it = it\<lparr>gi_idx := Suc (gi_idx it)\<rparr>
              in if gi_idx it < nr_entries g
                 then (it\<lparr>gi_biter := PointerBEntryIter_new h (entry_space g ! gi_idx it) (pb_biter biter)\<rparr>, True)
                 else (it, False))"

definition group_Iter_end :: "'d group_Iter \<Rightarrow> bool" where
  "group_Iter_end it \<longleftrightarrow> nr_entries (gi_root it) \<le> gi_idx it"

text \<open>\<open>raw_idx\<close> is the uninitialised \<^verbatim>\<open>idx_\<close> of an iterator over an empty group.\<close>

definition group_Iter_from :: "('d, 'l) fpu \<Rightarrow> bheap \<Rightarrow> 'd group \<Rightarrow> u64 \<Rightarrow> nat \<Rightarrow> PointerBEntryIter \<Rightarrow> 'd group_Iter" where
  "group_Iter_from F h g start_key raw_idx raw =
     (if nr_entries g = 0 then \<lparr>gi_root = g, gi_idx = raw_idx, gi_biter = raw\<rparr>
      else let idx = group_find_entry F g start_key;
               it = \<lparr>gi_root = g, gi_idx = idx, gi_biter = PointerBEntryIter_from h (entry_space g ! idx) start_key (pb_biter raw)\<rparr>
           in if PointerBEntryIter_end (gi_biter it) then fst (group_Iter_next h it) else it)"

definition group_Iter_key :: "'d group_Iter \<Rightarrow> u64" where
  "group_Iter_key it = PointerBEntryIter_key (gi_biter it)"

definition group_Iter_value :: "'d group_Iter \<Rightarrow> u64" where
  "group_Iter_value it = PointerBEntryIter_value (gi_biter it)"

text \<open>The iterator of the tree, with the loop that skips empty groups.\<close>

record 'd nali_Iter =
  ni_group_id :: nat
  ni_giter :: "'d group_Iter"

function nali_Iter_skip :: "bheap \<Rightarrow> 'd nali \<Rightarrow> 'd nali_Iter \<Rightarrow> 'd nali_Iter" where
  "nali_Iter_skip h t it =
     (if group_Iter_end (ni_giter it) then
        if nr_groups t \<le> Suc (ni_group_id it) then it\<lparr>ni_group_id := Suc (ni_group_id it)\<rparr>
        else nali_Iter_skip h t
          \<lparr>ni_group_id = Suc (ni_group_id it),
           ni_giter = group_Iter_new h (group_space t ! Suc (ni_group_id it)) (gi_biter (ni_giter it))\<rparr>
      else it)"
  by pat_completeness auto
termination
  by (relation "measure (\<lambda>(h, t, it). nr_groups t - ni_group_id it)") auto

definition nali_Iter_new :: "bheap \<Rightarrow> 'd nali \<Rightarrow> PointerBEntryIter \<Rightarrow> 'd nali_Iter" where
  "nali_Iter_new h t raw =
     nali_Iter_skip h t \<lparr>ni_group_id = 0, ni_giter = group_Iter_new h (group_space t ! 0) raw\<rparr>"

definition nali_Iter_from :: "('d, 'l) fpu \<Rightarrow> bheap \<Rightarrow> 'd nali \<Rightarrow> u64 \<Rightarrow> nat \<Rightarrow> PointerBEntryIter \<Rightarrow> 'd nali_Iter" where
  "nali_Iter_from F h t start_key raw_idx raw =
     (let group_id = find_group F t start_key
      in \<lparr>ni_group_id = group_id, ni_giter = group_Iter_from F h (group_space t ! group_id) start_key raw_idx raw\<rparr>)"

definition nali_Iter_next :: "bheap \<Rightarrow> 'd nali \<Rightarrow> 'd nali_Iter \<Rightarrow> 'd nali_Iter \<times> bool" where
  "nali_Iter_next h t it =
     (let (giter, more) = (if ni_group_id it < nr_groups t then group_Iter_next h (ni_giter it) else (ni_giter it, False));
          it = it\<lparr>ni_giter := giter\<rparr>
      in if more then (it, True)
         else let it = nali_Iter_skip h t it in (it, ni_group_id it < nr_groups t))"

definition nali_Iter_end :: "'d nali \<Rightarrow> 'd nali_Iter \<Rightarrow> bool" where
  "nali_Iter_end t it \<longleftrightarrow> nr_groups t \<le> ni_group_id it"

definition nali_Iter_key :: "'d nali_Iter \<Rightarrow> u64" where
  "nali_Iter_key it = group_Iter_key (ni_giter it)"

definition nali_Iter_value :: "'d nali_Iter \<Rightarrow> u64" where
  "nali_Iter_value it = group_Iter_value (ni_giter it)"

section \<open>What an iterator yields\<close>

inductive yields :: "('i \<Rightarrow> 'i \<times> bool) \<Rightarrow> ('i \<Rightarrow> 'a) \<Rightarrow> 'i \<Rightarrow> 'a list \<Rightarrow> bool" for nxt item where
  last: "nxt i = (i', False) \<Longrightarrow> yields nxt item i [item i]"
| more: "nxt i = (i', True) \<Longrightarrow> yields nxt item i' xs \<Longrightarrow> yields nxt item i (item i # xs)"

text \<open>
  An iterator over iterators: \<open>wrap u s\<close> is the outer iterator at unit \<open>u\<close> with the inner one in state \<open>s\<close>.
\<close>

locale nested_iter =
  fixes nxt :: "'s \<Rightarrow> 's \<times> bool" and item :: "'s \<Rightarrow> 'a" and onxt :: "'o \<Rightarrow> 'o \<times> bool" and oitem :: "'o \<Rightarrow> 'a"
    and wrap :: "'u \<Rightarrow> 's \<Rightarrow> 'o" and unit_ok :: "'u \<Rightarrow> bool"
  assumes item_wrap: "oitem (wrap u s) = item s"
    and next_wrap: "unit_ok u \<Longrightarrow> nxt s = (s', True) \<Longrightarrow> onxt (wrap u s) = (wrap u s', True)"
begin

text \<open>The outer iterator yields what the inner one has left, and then what follows it.\<close>

lemma then_more:
  assumes "yields nxt item s xs" and "unit_ok u"
    and "\<And>s s'. nxt s = (s', False) \<Longrightarrow> \<exists>o'. onxt (wrap u s) = (o', True) \<and> yields onxt oitem o' ys"
  shows "yields onxt oitem (wrap u s) (xs @ ys)"
  using assms(1)
proof induction
  case (last s s')
  then show ?case using assms(3) yields.more [of onxt "wrap u s" _ oitem ys] by (auto simp: item_wrap)
next
  case (more s s' xs)
  then show ?case using yields.more [of onxt "wrap u s" "wrap u s'" oitem] next_wrap [OF assms(2)] by (simp add: item_wrap)
qed

lemma then_end:
  assumes "yields nxt item s xs" and "unit_ok u" and "\<And>s s'. nxt s = (s', False) \<Longrightarrow> \<exists>o'. onxt (wrap u s) = (o', False)"
  shows "yields onxt oitem (wrap u s) xs"
  using assms(1)
proof induction
  case (last s s')
  then show ?case using assms(3) yields.last [of onxt "wrap u s" _ oitem] by (auto simp: item_wrap)
next
  case (more s s' xs)
  then show ?case using yields.more [of onxt "wrap u s" "wrap u s'" oitem] next_wrap [OF assms(2)] by (simp add: item_wrap)
qed

end

section \<open>Leaves and entries\<close>

definition bitem :: "BuncketIter \<Rightarrow> u64 \<times> u64" where
  "bitem it = (BuncketIter_key it, BuncketIter_value it)"

definition sorted_kvs :: "buncket \<Rightarrow> (u64 \<times> u64) list" where
  "sorted_kvs b = map (\<lambda>i. (UnSortBuncket_key b i, UnSortBuncket_value b i)) (UnSortBuncket_getSortedIndex b)"

lemma length_sorted_kvs: "length (sorted_kvs b) = entries b" "length (UnSortBuncket_getSortedIndex b) = entries b"
  by (simp_all add: sorted_kvs_def UnSortBuncket_getSortedIndex_def)

lemma bucket_yields:
  assumes "i < entries b"
  shows "yields BuncketIter_next bitem \<lparr>bi_cur = b, bi_prefix_key = p, bi_idx = i, bi_sorted = UnSortBuncket_getSortedIndex b\<rparr>
    (drop i (sorted_kvs b))"
  using assms
proof (induction "entries b - i" arbitrary: i)
  case (Suc n)
  let ?it = "\<lambda>i. \<lparr>bi_cur = b, bi_prefix_key = p, bi_idx = i, bi_sorted = UnSortBuncket_getSortedIndex b\<rparr>"
  have item: "bitem (?it i) = sorted_kvs b ! i"
    using Suc.prems by (simp add: bitem_def BuncketIter_key_def BuncketIter_value_def sorted_kvs_def length_sorted_kvs)
  have drop: "drop i (sorted_kvs b) = sorted_kvs b ! i # drop (Suc i) (sorted_kvs b)"
    using Suc.prems by (simp add: Cons_nth_drop_Suc length_sorted_kvs)
  show ?case
  proof (cases "Suc i < entries b")
    case True
    then have "yields BuncketIter_next bitem (?it (Suc i)) (drop (Suc i) (sorted_kvs b))" using Suc by simp
    moreover have "BuncketIter_next (?it i) = (?it (Suc i), True)" using True by (simp add: BuncketIter_next_def)
    ultimately show ?thesis unfolding drop item [symmetric] by (intro yields.more)
  next
    case False
    then have "BuncketIter_next (?it i) = (?it i, False)" by (simp add: BuncketIter_next_def)
    moreover have "drop (Suc i) (sorted_kvs b) = []" using False by (simp add: length_sorted_kvs)
    ultimately show ?thesis unfolding drop item [symmetric] by (simp only:) (rule yields.last)
  qed
qed simp

definition pitem :: "PointerBEntryIter \<Rightarrow> u64 \<times> u64" where
  "pitem it = (PointerBEntryIter_key it, PointerBEntryIter_value it)"

definition pb_wrap :: "PointerBEntry \<times> nat \<Rightarrow> BuncketIter \<Rightarrow> PointerBEntryIter" where
  "pb_wrap u b = \<lparr>pb_entry = fst u, pb_cur_idx = snd u, pb_biter = b\<rparr>"

interpretation pb_iter: nested_iter BuncketIter_next bitem "PointerBEntryIter_next h" pitem pb_wrap
  "\<lambda>(e, i). i < PointerBEntry_entries e" for h
  by unfold_locales
    (auto simp: pitem_def bitem_def pb_wrap_def PointerBEntryIter_key_def PointerBEntryIter_value_def PointerBEntryIter_next_def)

definition leaf_at :: "bheap \<Rightarrow> PointerBEntry \<Rightarrow> nat \<Rightarrow> buncket" where
  "leaf_at h e j = store h (PointerBEntry_Pointer e j)"

definition entry_seq :: "bheap \<Rightarrow> PointerBEntry \<Rightarrow> (u64 \<times> u64) list" where
  "entry_seq h e = concat (map (\<lambda>j. sorted_kvs (leaf_at h e j)) [0..<PointerBEntry_entries e])"

definition leaves_filled :: "bheap \<Rightarrow> PointerBEntry \<Rightarrow> bool" where
  "leaves_filled h e \<longleftrightarrow> (\<forall>j<PointerBEntry_entries e. 0 < entries (leaf_at h e j))"

lemma leaf_iter_yields: "0 < entries (leaf_at h e j) \<Longrightarrow> yields BuncketIter_next bitem (leaf_iter h e j) (sorted_kvs (leaf_at h e j))"
  using bucket_yields [of 0 "leaf_at h e j"] by (simp add: leaf_iter_def BuncketIter_new_def leaf_at_def)

lemma entry_yields:
  assumes "i < PointerBEntry_entries e" and "leaves_filled h e" and "yields BuncketIter_next bitem b xs"
  shows "yields (PointerBEntryIter_next h) pitem (pb_wrap (e, i) b) (xs @ concat (map (\<lambda>j. sorted_kvs (leaf_at h e j)) [Suc i..<PointerBEntry_entries e]))"
  using assms
proof (induction "PointerBEntry_entries e - i" arbitrary: i b xs)
  case (Suc n)
  show ?case
  proof (cases "Suc i < PointerBEntry_entries e")
    case True
    have filled: "0 < entries (leaf_at h e (Suc i))" using Suc.prems(2) True by (simp add: leaves_filled_def)
    have "yields (PointerBEntryIter_next h) pitem (pb_wrap (e, Suc i) (leaf_iter h e (Suc i)))
        (sorted_kvs (leaf_at h e (Suc i)) @ concat (map (\<lambda>j. sorted_kvs (leaf_at h e j)) [Suc (Suc i)..<PointerBEntry_entries e]))"
      by (rule Suc.hyps(1)) (use Suc True leaf_iter_yields [OF filled] in auto)
    moreover have "PointerBEntryIter_next h (pb_wrap (e, i) s) = (pb_wrap (e, Suc i) (leaf_iter h e (Suc i)), True)"
      if "BuncketIter_next s = (s', False)" for s s'
      using that True filled by (simp add: PointerBEntryIter_next_def pb_wrap_def leaf_iter_def BuncketIter_new_def BuncketIter_end_def leaf_at_def)
    ultimately have "yields (PointerBEntryIter_next h) pitem (pb_wrap (e, i) b) (xs @
        (sorted_kvs (leaf_at h e (Suc i)) @ concat (map (\<lambda>j. sorted_kvs (leaf_at h e j)) [Suc (Suc i)..<PointerBEntry_entries e])))"
      by (intro pb_iter.then_more [OF Suc.prems(3)]) (use Suc.prems(1) in auto)
    then show ?thesis using True by (simp add: upt_conv_Cons)
  next
    case False
    have "\<exists>o'. PointerBEntryIter_next h (pb_wrap (e, i) s) = (o', False)" if "BuncketIter_next s = (s', False)" for s s'
      using that False by (auto simp: PointerBEntryIter_next_def pb_wrap_def Let_def split: prod.splits)
    then have "yields (PointerBEntryIter_next h) pitem (pb_wrap (e, i) b) xs"
      by (intro pb_iter.then_end [OF Suc.prems(3)]) (use Suc.prems(1) in auto)
    then show ?thesis using False by simp
  qed
qed simp

lemma PointerBEntryIter_yields:
  assumes "bentry_wf h e" and "leaves_filled h e"
  shows "yields (PointerBEntryIter_next h) pitem (PointerBEntryIter_new h e raw) (entry_seq h e)"
proof -
  have pos: "0 < PointerBEntry_entries e" using assms(1) by (simp add: bentry_wf_def)
  have "entrys e 0 \<in> set (PointerBEntry_EntryIter e)" using pos by (simp add: EntryIter_eq)
  then have valid: "eentry_IsValid (entrys e 0)" using assms(1) by (simp add: bentry_wf_def)
  have "0 < entries (leaf_at h e 0)" using assms(2) pos by (simp add: leaves_filled_def)
  from entry_yields [OF pos assms(2) leaf_iter_yields [OF this]] show ?thesis
    using pos valid by (simp add: PointerBEntryIter_new_def pb_wrap_def entry_seq_def upt_conv_Cons)
qed

section \<open>Groups\<close>

definition gitem :: "'d group_Iter \<Rightarrow> u64 \<times> u64" where
  "gitem it = (group_Iter_key it, group_Iter_value it)"

definition gi_wrap :: "'d group \<times> nat \<Rightarrow> PointerBEntryIter \<Rightarrow> 'd group_Iter" where
  "gi_wrap u b = \<lparr>gi_root = fst u, gi_idx = snd u, gi_biter = b\<rparr>"

interpretation gi_iter: nested_iter "PointerBEntryIter_next h" pitem "group_Iter_next h" gitem gi_wrap "\<lambda>(g, i). i < nr_entries g" for h
  by unfold_locales
    (auto simp: gitem_def pitem_def gi_wrap_def group_Iter_key_def group_Iter_value_def group_Iter_next_def)

definition group_seq :: "bheap \<Rightarrow> 'd group \<Rightarrow> (u64 \<times> u64) list" where
  "group_seq h g = concat (map (entry_seq h) (gents g))"

definition group_filled :: "bheap \<Rightarrow> 'd group \<Rightarrow> bool" where
  "group_filled h g \<longleftrightarrow> (\<forall>e\<in>set (gents g). leaves_filled h e)"

lemma group_yields:
  assumes "i < nr_entries g" and "group_wf h g" and "group_filled h g" and "yields (PointerBEntryIter_next h) pitem b xs"
  shows "yields (group_Iter_next h) gitem (gi_wrap (g, i) b) (xs @ concat (map (entry_seq h) (drop (Suc i) (gents g))))"
  using assms
proof (induction "nr_entries g - i" arbitrary: i b xs)
  case (Suc n)
  have len: "length (gents g) = nr_entries g" using Suc.prems(2) by (simp add: group_wf_def gents_def)
  show ?case
  proof (cases "Suc i < nr_entries g")
    case True
    have e: "gents g ! Suc i \<in> set (gents g)" using True len by simp
    then have wf: "bentry_wf h (gents g ! Suc i)" and filled: "leaves_filled h (gents g ! Suc i)"
      using Suc.prems(2,3) by (auto simp: group_wf_def all_wf_def group_filled_def)
    have more: "\<exists>o'. group_Iter_next h (gi_wrap (g, i) s) = (o', True) \<and> yields (group_Iter_next h) gitem o'
        (entry_seq h (gents g ! Suc i) @ concat (map (entry_seq h) (drop (Suc (Suc i)) (gents g))))"
      if s: "PointerBEntryIter_next h s = (s', False)" for s s'
    proof -
      have "group_Iter_next h (gi_wrap (g, i) s) = (gi_wrap (g, Suc i) (PointerBEntryIter_new h (gents g ! Suc i) (pb_biter s')), True)"
        using s True Suc.prems(1) by (simp add: group_Iter_next_def gi_wrap_def gents_nth)
      moreover have "yields (group_Iter_next h) gitem (gi_wrap (g, Suc i) (PointerBEntryIter_new h (gents g ! Suc i) (pb_biter s')))
          (entry_seq h (gents g ! Suc i) @ concat (map (entry_seq h) (drop (Suc (Suc i)) (gents g))))"
        by (rule Suc.hyps(1)) (use Suc True PointerBEntryIter_yields [OF wf filled] in auto)
      ultimately show ?thesis by blast
    qed
    have "yields (group_Iter_next h) gitem (gi_wrap (g, i) b) (xs @
        (entry_seq h (gents g ! Suc i) @ concat (map (entry_seq h) (drop (Suc (Suc i)) (gents g)))))"
      by (rule gi_iter.then_more [OF Suc.prems(4) _ more]) (use Suc.prems(1) in auto)
    moreover have "drop (Suc i) (gents g) = gents g ! Suc i # drop (Suc (Suc i)) (gents g)"
      using True len by (simp add: Cons_nth_drop_Suc)
    ultimately show ?thesis by (simp only: list.map concat.simps)
  next
    case False
    have "\<exists>o'. group_Iter_next h (gi_wrap (g, i) s) = (o', False)" if "PointerBEntryIter_next h s = (s', False)" for s s'
      using that False Suc.prems(1) by (simp add: group_Iter_next_def gi_wrap_def)
    then have "yields (group_Iter_next h) gitem (gi_wrap (g, i) b) xs"
      by (intro gi_iter.then_end [OF Suc.prems(4)]) (use Suc.prems(1) in auto)
    then show ?thesis using False len by simp
  qed
qed simp

lemma group_Iter_yields:
  assumes wf: "group_wf h g" and "group_filled h g"
  shows "yields (group_Iter_next h) gitem (group_Iter_new h g raw) (group_seq h g)"
proof -
  have pos: "0 < nr_entries g" using wf by (simp add: group_wf_def)
  obtain e es where es: "gents g = e # es" using gents_ne [OF wf] by (cases "gents g") auto
  have e: "bentry_wf h e" "leaves_filled h e" using wf assms(2) es by (auto simp: group_wf_def all_wf_def group_filled_def)
  have "entry_space g ! 0 = e" using es gents_nth [OF pos] by simp
  then have "group_Iter_new h g raw = gi_wrap (g, 0) (PointerBEntryIter_new h e (pb_biter raw))"
    using pos by (simp add: group_Iter_new_def gi_wrap_def)
  then show ?thesis
    using group_yields [OF pos wf assms(2) PointerBEntryIter_yields [OF e]] by (simp add: group_seq_def es)
qed

section \<open>The tree\<close>

definition titem :: "'d nali_Iter \<Rightarrow> u64 \<times> u64" where
  "titem it = (nali_Iter_key it, nali_Iter_value it)"

definition ni_wrap :: "nat \<Rightarrow> 'd group_Iter \<Rightarrow> 'd nali_Iter" where
  "ni_wrap u s = \<lparr>ni_group_id = u, ni_giter = s\<rparr>"

interpretation ni_iter: nested_iter "group_Iter_next h" gitem "nali_Iter_next h t" titem ni_wrap "\<lambda>u. u < nr_groups t" for h t
  by unfold_locales
    (auto simp: titem_def gitem_def ni_wrap_def nali_Iter_key_def nali_Iter_value_def nali_Iter_next_def)

definition groups_filled :: "bheap \<Rightarrow> 'd group list \<Rightarrow> bool" where
  "groups_filled h gs \<longleftrightarrow> (\<forall>g\<in>set gs. nonempty g \<longrightarrow> group_wf h g \<and> group_filled h g)"

definition groups_seq :: "bheap \<Rightarrow> 'd group list \<Rightarrow> (u64 \<times> u64) list" where
  "groups_seq h gs = concat (map (group_seq h) (filter nonempty gs))"

declare nali_Iter_skip.simps [simp del]

text \<open>
  Skipping from an exhausted group: either no group is left, or the iterator stands at the start of
  the next one that has entries.
\<close>

lemma skip_next:
  assumes "group_Iter_end s" and "u < nr_groups t"
  shows "if filter nonempty (drop (Suc u) (group_space t)) = [] then ni_group_id (nali_Iter_skip h t (ni_wrap u s)) = nr_groups t
    else \<exists>v raw. nali_Iter_skip h t (ni_wrap u s) = ni_wrap v (group_Iter_new h (group_space t ! v) raw) \<and> u < v \<and> v < nr_groups t \<and>
           nonempty (group_space t ! v) \<and>
           filter nonempty (drop (Suc u) (group_space t)) = group_space t ! v # filter nonempty (drop (Suc v) (group_space t))"
  using assms
proof (induction "nr_groups t - u" arbitrary: u s)
  case (Suc n)
  show ?case
  proof (cases "Suc u < nr_groups t")
    case False
    then show ?thesis using Suc.prems by (simp add: nali_Iter_skip.simps ni_wrap_def)
  next
    case True
    let ?s = "group_Iter_new h (group_space t ! Suc u) (gi_biter s)"
    have step: "nali_Iter_skip h t (ni_wrap u s) = nali_Iter_skip h t (ni_wrap (Suc u) ?s)"
      using Suc.prems True by (subst nali_Iter_skip.simps) (simp add: ni_wrap_def)
    have drop: "drop (Suc u) (group_space t) = group_space t ! Suc u # drop (Suc (Suc u)) (group_space t)"
      using True by (simp add: Cons_nth_drop_Suc)
    have ends: "group_Iter_end ?s \<longleftrightarrow> \<not> nonempty (group_space t ! Suc u)" by (simp add: group_Iter_end_def group_Iter_new_def)
    show ?thesis
    proof (cases "nonempty (group_space t ! Suc u)")
      case True
      have "nali_Iter_skip h t (ni_wrap (Suc u) ?s) = ni_wrap (Suc u) ?s"
        using True ends by (subst nali_Iter_skip.simps) (simp add: ni_wrap_def)
      then show ?thesis using step drop True \<open>Suc u < nr_groups t\<close> by auto
    next
      case False
      have "n = nr_groups t - Suc u" "group_Iter_end ?s" "Suc u < nr_groups t" using Suc.hyps(2) True False ends by simp_all
      from Suc.hyps(1) [OF this] show ?thesis unfolding step drop using False by (auto split: if_splits)
    qed
  qed
qed simp

lemma group_Iter_done: "group_Iter_next h s = (s', False) \<Longrightarrow> group_Iter_end s'"
  by (auto simp: group_Iter_next_def group_Iter_end_def Let_def split: prod.splits if_splits)

lemma nali_yields:
  assumes "u < nr_groups t" and "groups_filled h (group_space t)" and "yields (group_Iter_next h) gitem s xs"
  shows "yields (nali_Iter_next h t) titem (ni_wrap u s) (xs @ groups_seq h (drop (Suc u) (group_space t)))"
  using assms
proof (induction "nr_groups t - u" arbitrary: u s xs rule: less_induct)
  case less
  have nx: "nali_Iter_next h t (ni_wrap u s) =
      (nali_Iter_skip h t (ni_wrap u s'), ni_group_id (nali_Iter_skip h t (ni_wrap u s')) < nr_groups t)"
    if "group_Iter_next h s = (s', False)" for s s'
    using that less.prems(1) by (simp add: nali_Iter_next_def ni_wrap_def Let_def)
  show ?case
  proof (cases "filter nonempty (drop (Suc u) (group_space t)) = []")
    case True
    then have "\<exists>o'. nali_Iter_next h t (ni_wrap u s) = (o', False)" if "group_Iter_next h s = (s', False)" for s s'
      using nx [OF that] skip_next [OF group_Iter_done [OF that] less.prems(1), where h = h] by simp
    then have "yields (nali_Iter_next h t) titem (ni_wrap u s) xs"
      by (intro ni_iter.then_end [OF less.prems(3)]) (use less.prems(1) in auto)
    then show ?thesis using True by (simp add: groups_seq_def)
  next
    case False
    have "\<exists>o'. nali_Iter_next h t (ni_wrap u s) = (o', True) \<and>
        yields (nali_Iter_next h t) titem o' (groups_seq h (drop (Suc u) (group_space t)))"
      if s: "group_Iter_next h s = (s', False)" for s s'
    proof -
      obtain v raw where v: "nali_Iter_skip h t (ni_wrap u s') = ni_wrap v (group_Iter_new h (group_space t ! v) raw)" "u < v" "v < nr_groups t"
          "nonempty (group_space t ! v)"
          "filter nonempty (drop (Suc u) (group_space t)) = group_space t ! v # filter nonempty (drop (Suc v) (group_space t))"
        using skip_next [OF group_Iter_done [OF s] less.prems(1), where h = h] False by auto
      have "group_wf h (group_space t ! v)" "group_filled h (group_space t ! v)"
        using less.prems(2) v(3,4) by (auto simp: groups_filled_def)
      then have "yields (group_Iter_next h) gitem (group_Iter_new h (group_space t ! v) raw) (group_seq h (group_space t ! v))"
        by (rule group_Iter_yields)
      then have "yields (nali_Iter_next h t) titem (ni_wrap v (group_Iter_new h (group_space t ! v) raw))
          (group_seq h (group_space t ! v) @ groups_seq h (drop (Suc v) (group_space t)))"
        by (intro less.hyps) (use v less.prems in auto)
      moreover have "groups_seq h (drop (Suc u) (group_space t)) = group_seq h (group_space t ! v) @ groups_seq h (drop (Suc v) (group_space t))"
        using v(5) by (simp add: groups_seq_def)
      ultimately show ?thesis using nx [OF s] v(1,3) by (simp add: ni_wrap_def)
    qed
    then show ?thesis by (intro ni_iter.then_more [OF less.prems(3)]) (use less.prems(1) in auto)
  qed
qed

lemma nali_Iter_yields:
  assumes "groups_filled h (group_space t)" and "tgroups t \<noteq> []"
  shows "yields (nali_Iter_next h t) titem (nali_Iter_new h t raw) (groups_seq h (group_space t))"
proof -
  have ne: "group_space t \<noteq> []" using assms(2) by (auto simp: tgroups_def)
  then have space: "group_space t = group_space t ! 0 # drop (Suc 0) (group_space t)"
    by (cases "group_space t") auto
  let ?g = "group_space t ! 0" and ?s = "group_Iter_new h (group_space t ! 0) raw"
  have new: "nali_Iter_new h t raw = nali_Iter_skip h t (ni_wrap 0 ?s)" by (simp add: nali_Iter_new_def ni_wrap_def)
  show ?thesis
  proof (cases "nonempty ?g")
    case True
    then have "nali_Iter_new h t raw = ni_wrap 0 ?s"
      unfolding new by (subst nali_Iter_skip.simps) (simp add: group_Iter_end_def group_Iter_new_def ni_wrap_def)
    moreover have "?g \<in> set (group_space t)" using ne by simp
    then have "group_wf h ?g" "group_filled h ?g" using assms(1) True by (auto simp: groups_filled_def)
    then have "yields (nali_Iter_next h t) titem (ni_wrap 0 ?s) (group_seq h ?g @ groups_seq h (drop (Suc 0) (group_space t)))"
      by (intro nali_yields group_Iter_yields) (use ne assms(1) in auto)
    moreover have "groups_seq h (group_space t) = group_seq h ?g @ groups_seq h (drop (Suc 0) (group_space t))"
      using True by (subst space) (simp add: groups_seq_def)
    ultimately show ?thesis by simp
  next
    case False
    then have f: "filter nonempty (group_space t) = filter nonempty (drop (Suc 0) (group_space t))"
      by (subst space) simp
    have fin: "group_Iter_end ?s" using False by (simp add: group_Iter_end_def group_Iter_new_def)
    obtain v raw' where v: "nali_Iter_skip h t (ni_wrap 0 ?s) = ni_wrap v (group_Iter_new h (group_space t ! v) raw')" "v < nr_groups t"
        "nonempty (group_space t ! v)"
        "filter nonempty (drop (Suc 0) (group_space t)) = group_space t ! v # filter nonempty (drop (Suc v) (group_space t))"
      using skip_next [OF fin, where t = t and h = h and u = 0] ne assms(2) f by (auto simp: tgroups_def split: if_splits)
    have "group_wf h (group_space t ! v)" "group_filled h (group_space t ! v)" using assms(1) v(2,3) by (auto simp: groups_filled_def)
    then have "yields (nali_Iter_next h t) titem (ni_wrap v (group_Iter_new h (group_space t ! v) raw'))
        (group_seq h (group_space t ! v) @ groups_seq h (drop (Suc v) (group_space t)))"
      by (intro nali_yields group_Iter_yields) (use v(2) assms(1) in auto)
    moreover have "groups_seq h (group_space t) = group_seq h (group_space t ! v) @ groups_seq h (drop (Suc v) (group_space t))"
      using v(4) f by (simp add: groups_seq_def)
    ultimately show ?thesis unfolding new v(1) by simp
  qed
qed

section \<open>Order\<close>

text \<open>A leaf is listed in the order of its keys, and the leaves are in order.\<close>

lemma sorted_kvs_props:
  assumes "buncket_wf b"
  shows "sorted_wrt (<) (map fst (sorted_kvs b))" and "set (sorted_kvs b) = set (kvs b)"
proof -
  note si = sorted_index_props [OF assms]
  show "sorted_wrt (<) (map fst (sorted_kvs b))" using si(4) by (simp add: sorted_kvs_def sorted_wrt_map)
  have "set (sorted_kvs b) = (\<lambda>i. (UnSortBuncket_key b i, UnSortBuncket_value b i)) ` {..<entries b}"
    using si(2) by (simp add: sorted_kvs_def)
  also have "\<dots> = set (kvs b)"
    using live_slots [OF assms] by (auto simp: kvs_def kv_pair_def UnSortBuncket_key_def UnSortBuncket_value_def)
  finally show "set (sorted_kvs b) = set (kvs b)" .
qed

lemma ordered_listing:
  assumes "ordered ls" and "\<And>x. x \<in> set ls \<Longrightarrow> sorted_wrt (<) (map fst (f x)) \<and> set (f x) = set (lkvs x)"
  shows "sorted_wrt (<) (map fst (concat (map f ls)))" and "set (concat (map f ls)) = {(k, v). leaf_map ls k = Some v}"
proof -
  have "sorted_wrt (<) (map fst (concat (map f ls))) \<and> set (concat (map f ls)) = {(k, v). leaf_map ls k = Some v}"
    using assms
  proof (induction ls)
    case (Cons x ls)
    have ord: "ordered ls" "leaf_ok x" "\<forall>y\<in>set ls. leaf_before x y" using Cons.prems(1) by (auto simp: ordered_Cons ordered_def)
    have x: "sorted_wrt (<) (map fst (f x))" "set (f x) = set (lkvs x)" using Cons.prems(2) by auto
    have ih: "sorted_wrt (<) (map fst (concat (map f ls)))" "set (concat (map f ls)) = {(k, v). leaf_map ls k = Some v}"
      using Cons.IH [OF ord(1)] Cons.prems(2) by auto
    have below: "k < k'" if k: "k \<in> fst ` set (lkvs x)" and k': "k' \<in> fst ` set (concat (map f ls))" for k k'
    proof -
      obtain y where y: "y \<in> set ls" "k' \<in> fst ` set (lkvs y)" using k' Cons.prems(2) by auto
      then have "leaf_ok y" using ord(1) by (simp add: ordered_def)
      then have "sep y \<le> k'" using y(2) by (auto simp: leaf_ok_def)
      moreover have "k < sep y" using ord(2,3) y(1) k by (auto simp: leaf_before_def leaf_ok_def)
      ultimately show ?thesis by (rule order.strict_trans2 [rotated])
    qed
    have "leaf_map (x # ls) k = Some v \<longleftrightarrow> (k, v) \<in> set (f x) \<or> leaf_map ls k = Some v" for k v
    proof -
      have eq: "leaf_map (x # ls) k = (case map_of (lkvs x) k of None \<Rightarrow> leaf_map ls k | Some w \<Rightarrow> Some w)"
        unfolding leaf_map_def by (simp add: map_add_def)
      have in_x: "map_of (lkvs x) k = Some w \<longleftrightarrow> (k, w) \<in> set (f x)" for w
        using ord(2) by (simp add: leaf_ok_def x(2))
      have "leaf_map ls k = None" if w: "map_of (lkvs x) k = Some w" for w
      proof (rule ccontr)
        assume "leaf_map ls k \<noteq> None"
        then obtain v' where "leaf_map ls k = Some v'" by blast
        then have "k \<in> fst ` set (concat (map f ls))" using ih(2) by force
        moreover have "k \<in> fst ` set (lkvs x)" using map_of_SomeD [OF w] by force
        ultimately show False using below by blast
      qed
      then show ?thesis using eq in_x [of v] by (cases "map_of (lkvs x) k") auto
    qed
    then have "set (concat (map f (x # ls))) = {(k, v). leaf_map (x # ls) k = Some v}" using ih(2) by auto
    moreover have "sorted_wrt (<) (map fst (concat (map f (x # ls))))"
      using x ih(1) below by (auto simp: sorted_wrt_append)
    ultimately show ?case by blast
  qed simp
  then show "sorted_wrt (<) (map fst (concat (map f ls)))" "set (concat (map f ls)) = {(k, v). leaf_map ls k = Some v}" by simp_all
qed

lemma sort_key_map: "sort_key f (map g xs) = map g (sort_key (f \<circ> g) xs)"
proof -
  have "insort_key f (g x) (map g ys) = map g (insort_key (f \<circ> g) x ys)" for x ys by (induction ys) simp_all
  then show ?thesis by (induction xs) simp_all
qed

lemma sorted_kvs_eq:
  assumes "buncket_wf b"
  shows "sorted_kvs b = sort_key fst (kvs b)"
proof -
  let ?g = "\<lambda>i. (UnSortBuncket_key b i, UnSortBuncket_value b i)"
  have "kvs b = map ?g [0..<entries b]"
    using live_slots [OF assms] by (simp add: kvs_def kv_pair_def UnSortBuncket_key_def UnSortBuncket_value_def)
  moreover have "sort_key fst (map ?g [0..<entries b]) = sorted_kvs b"
    unfolding sort_key_map sorted_kvs_def UnSortBuncket_getSortedIndex_def by (simp add: comp_def)
  ultimately show ?thesis by simp
qed

abbreviation listing :: "leaf list \<Rightarrow> (u64 \<times> u64) list" where
  "listing ls \<equiv> concat (map (\<lambda>x. sort_key fst (lkvs x)) ls)"

lemma entry_seq_listing:
  assumes "bentry_wf h e"
  shows "entry_seq h e = listing (bflat h e)"
proof -
  have "sorted_kvs (leaf_at h e j) = sort_key fst (lkvs (leaf_of h (entrys e j)))" if "j < PointerBEntry_entries e" for j
    using bentry_wf_node [OF assms that] by (simp add: leaf_at_def PointerBEntry_Pointer_def leaf_of_def sorted_kvs_eq)
  then show ?thesis unfolding entry_seq_def bflat_eq map_map by (intro arg_cong [where f = concat] map_cong) simp_all
qed

lemma listing_concat: "listing (concat xss) = concat (map listing xss)"
  by (induction xss) simp_all

lemma group_seq_listing:
  assumes "group_wf h g"
  shows "group_seq h g = listing (gflat h g)"
proof -
  have "map (entry_seq h) (gents g) = map (\<lambda>e. listing (bflat h e)) (gents g)"
    by (rule map_cong) (use assms in \<open>auto simp: group_wf_def all_wf_def entry_seq_listing\<close>)
  then show ?thesis by (simp only: group_seq_def gflat_def flats_def listing_concat map_map comp_def)
qed

lemma groups_seq_listing:
  assumes "all_wf group_wf h (tgroups t)"
  shows "groups_seq h (group_space t) = listing (flats gflat h (tgroups t))"
proof -
  have "map (group_seq h) (tgroups t) = map (\<lambda>g. listing (gflat h g)) (tgroups t)"
    by (rule map_cong) (use assms in \<open>auto simp: all_wf_def group_seq_listing\<close>)
  then show ?thesis by (simp only: groups_seq_def tgroups_def [symmetric] flats_def listing_concat map_map comp_def)
qed

lemma sort_key_listed:
  assumes "distinct (map fst (xs :: (u64 \<times> u64) list))"
  shows "sorted_wrt (<) (map fst (sort_key fst xs)) \<and> set (sort_key fst xs) = set xs"
proof -
  have "distinct (map fst (sort_key fst xs))" using assms by (metis distinct_map mset_eq_imp_distinct_iff mset_map mset_sort)
  then show ?thesis using sorted_sort_key [of fst xs] by (simp add: strict_sorted_iff)
qed

lemma nali_Iter_correct:
  assumes ok: "tree_ok F K h t" and filled: "\<forall>g\<in>set (tgroups t). group_filled h g"
  shows "\<exists>xs. yields (nali_Iter_next h t) titem (nali_Iter_new h t raw) xs \<and> sorted_wrt (<) (map fst xs) \<and>
    set xs = {(k, v). tree_map h t k = Some v}"
proof -
  have wf: "all_wf group_wf h (tgroups t)" and ord: "ordered (flats gflat h (tgroups t))" and ne: "tgroups t \<noteq> []"
    using ok by (auto simp: tree_ok_def store_ok_def)
  have "groups_filled h (group_space t)" using wf filled by (auto simp: groups_filled_def all_wf_def tgroups_def)
  then have y: "yields (nali_Iter_next h t) titem (nali_Iter_new h t raw) (groups_seq h (group_space t))"
    by (rule nali_Iter_yields [OF _ ne])
  have "sorted_wrt (<) (map fst (sort_key fst (lkvs x))) \<and> set (sort_key fst (lkvs x)) = set (lkvs x)" if "x \<in> set (flats gflat h (tgroups t))" for x
    using ord that by (intro sort_key_listed) (auto simp: ordered_def leaf_ok_def)
  note listed = ordered_listing [OF ord this]
  show ?thesis using y listed unfolding groups_seq_listing [OF wf] tree_map_def by blast
qed

section \<open>Scans\<close>

text \<open>
  \<^verbatim>\<open>len\<close> counts down and \<^verbatim>\<open>results\<close> grows. \<open>None\<close> stands for an index outside an array and, in the functions
  with fuel, for a loop that has not ended; \<^verbatim>\<open>PointerBEntry::Scan\<close> reads the same leaf again and again
  in its loop, which need not end.
\<close>

type_synonym scan_state = "int \<times> (u64 \<times> u64) list"

definition push_record :: "buncket \<Rightarrow> nat \<Rightarrow> scan_state \<Rightarrow> scan_state" where
  "push_record b i s = (fst s - 1, snd s @ [(UnSortBuncket_key b i, UnSortBuncket_value b i)])"

function scan_first_loop :: "buncket \<Rightarrow> nat list \<Rightarrow> u64 \<Rightarrow> nat \<Rightarrow> scan_state \<Rightarrow> scan_state" where
  "scan_first_loop b si start_key i s =
     (if i < entries b \<and> 0 < fst s then
        scan_first_loop b si start_key (Suc i) (if start_key \<le> UnSortBuncket_key b (si ! i) then push_record b (si ! i) s else s)
      else s)"
  by pat_completeness auto
termination
  by (relation "measure (\<lambda>(b, si, start_key, i, s). entries b - i)") auto

fun scan_repeat_loop :: "buncket \<Rightarrow> nat \<Rightarrow> nat \<Rightarrow> scan_state \<Rightarrow> scan_state" where
  "scan_repeat_loop b pos 0 s = s"
| "scan_repeat_loop b pos (Suc n) s = (if 0 < fst s then scan_repeat_loop b pos n (push_record b pos s) else s)"

text \<open>The loop \<^verbatim>\<open>while (len > 0)\<close> makes \<open>len\<close> turns, so \<open>nat len\<close> is enough fuel for it.\<close>

definition UnSortBuncket_Scan :: "buncket \<Rightarrow> u64 \<Rightarrow> scan_state \<Rightarrow> bool \<Rightarrow> (status \<times> scan_state) option" where
  "UnSortBuncket_Scan b start_key s if_first =
     map_option (\<lambda>s'. (if 0 < fst s' then Failed else OK, s'))
       (if if_first then
          let si = UnSortBuncket_getSortedIndex b
          in if entries b = 0 then None else Some (scan_first_loop b si start_key (si ! 0) s)
        else if int (entries b) \<le> fst s then Some (fold (push_record b) [0..<entries b] s)
        else Some (scan_repeat_loop b 0 (nat (fst s)) s))"

fun PointerBEntry_Scan_loop :: "bheap \<Rightarrow> PointerBEntry \<Rightarrow> u64 \<Rightarrow> nat \<Rightarrow> nat \<Rightarrow> status \<times> scan_state \<Rightarrow> (status \<times> scan_state) option" where
  "PointerBEntry_Scan_loop h e start_key pos fuel (ret, s) =
     (if ret = Failed \<and> pos < buf_entries (entrys e 0) then
        case fuel of 0 \<Rightarrow> None
        | Suc fuel \<Rightarrow>
            Option.bind (UnSortBuncket_Scan (store h (pointer (entrys e pos))) start_key s False)
              (PointerBEntry_Scan_loop h e start_key pos fuel)
      else Some (ret, s))"

definition PointerBEntry_Scan :: "bheap \<Rightarrow> PointerBEntry \<Rightarrow> nat \<Rightarrow> u64 \<Rightarrow> scan_state \<Rightarrow> bool \<Rightarrow> (bool \<times> scan_state) option" where
  "PointerBEntry_Scan h e fuel start_key s if_first =
     (if if_first then
        Option.bind (UnSortBuncket_Scan (store h (pointer (entrys e 0))) 0 s if_first)
          (\<lambda>rs. map_option (\<lambda>(ret, s). (ret = OK, s)) (PointerBEntry_Scan_loop h e start_key 1 fuel rs))
      else
        let pos = PointerBEntry_Find_pos e start_key
        in if pb_entry_count \<le> pos \<or> \<not> eentry_IsValid (entrys e pos) then Some (False, s)
           else Option.bind (UnSortBuncket_Scan (store h (pointer (entrys e pos))) start_key s False)
             (\<lambda>rs. map_option (\<lambda>(ret, s). (ret = OK, s)) (PointerBEntry_Scan_loop h e start_key 1 fuel rs)))"

function group_Scan_loop :: "bheap \<Rightarrow> 'd group \<Rightarrow> nat \<Rightarrow> u64 \<Rightarrow> nat \<Rightarrow> bool \<times> scan_state \<Rightarrow> (bool \<times> scan_state) option" where
  "group_Scan_loop h g fuel start_key entry_id (ret, s) =
     (if \<not> ret \<and> Suc entry_id < nr_entries g then
        Option.bind (PointerBEntry_Scan h (entry_space g ! Suc entry_id) fuel start_key s False)
          (group_Scan_loop h g fuel start_key (Suc entry_id))
      else Some (ret, s))"
  by pat_completeness auto
termination
  by (relation "measure (\<lambda>(h, g, fuel, start_key, entry_id, rs). nr_entries g - entry_id)") auto

definition group_Scan :: "('d, 'l) fpu \<Rightarrow> bheap \<Rightarrow> 'd group \<Rightarrow> nat \<Rightarrow> u64 \<Rightarrow> scan_state \<Rightarrow> bool \<Rightarrow> (bool \<times> scan_state) option" where
  "group_Scan F h g fuel start_key s if_first =
     (let entry_id = (if if_first then 0 else group_find_entry F g start_key)
      in Option.bind (PointerBEntry_Scan h (entry_space g ! entry_id) fuel start_key s if_first)
           (group_Scan_loop h g fuel start_key entry_id))"

text \<open>The groups after the first; the inner loop over empty groups is that of \<open>find_group\<close>.\<close>

function scan_slow_loop :: "('d, 'l) fpu \<Rightarrow> bheap \<Rightarrow> 'd nali \<Rightarrow> nat \<Rightarrow> u64 \<Rightarrow> nat \<Rightarrow> bool \<times> scan_state \<Rightarrow> scan_state option" where
  "scan_slow_loop F h t fuel start_key i (ret, s) =
     (if \<not> ret \<and> Suc i < nr_groups t then
        let j = find_group_up (group_space t) (Suc i)
        in if j < nr_groups t \<and> i < j then
             Option.bind (group_Scan F h (group_space t ! j) fuel start_key s False) (scan_slow_loop F h t fuel start_key j)
           else None
      else Some s)"
  by pat_completeness auto
termination
  by (relation "measure (\<lambda>(F, h, t, fuel, start_key, i, rs). nr_groups t - i)") auto

definition scan_slow :: "('d, 'l) fpu \<Rightarrow> bheap \<Rightarrow> 'd nali \<Rightarrow> nat \<Rightarrow> u64 \<Rightarrow> scan_state \<Rightarrow> nat \<Rightarrow> (bool \<times> scan_state) option" where
  "scan_slow F h t fuel start_key s fast_group_id =
     (let i = (if fast_group_id \<noteq> 0 then fast_group_id else find_group F t start_key)
      in map_option (Pair False)
           (Option.bind (group_Scan F h (group_space t ! i) fuel start_key s True) (scan_slow_loop F h t fuel start_key i)))"

definition scan_fast :: "('d, 'l) fpu \<Rightarrow> bheap \<Rightarrow> 'd nali \<Rightarrow> nat \<Rightarrow> u64 \<Rightarrow> scan_state \<Rightarrow> (bool \<times> scan_state) option" where
  "scan_fast F h t fuel start_key s =
     (let i = group_id F (root_model t) (nr_groups t) start_key
      in if group_scan_fast_fail (group_space t ! i) start_key
         then map_option (\<lambda>(_, s'). (True, s')) (scan_slow F h t fuel start_key s i)
         else Some (False, s))"

definition nali_Scan :: "('d, 'l) fpu \<Rightarrow> bheap \<Rightarrow> 'd nali \<Rightarrow> nat \<Rightarrow> u64 \<Rightarrow> scan_state \<Rightarrow> (bool \<times> scan_state) option" where
  "nali_Scan F h t fuel start_key s =
     Option.bind (scan_fast F h t fuel start_key s)
       (\<lambda>(done, s'). if done then Some (True, s') else scan_slow F h t fuel start_key s' 0)"

text \<open>A short scan of a leaf returns its first record over and over.\<close>

lemma scan_repeat: "scan_repeat_loop b pos n (int n, res) = (0, res @ replicate n (UnSortBuncket_key b pos, UnSortBuncket_value b pos))"
  by (induction n arbitrary: res) (simp_all add: push_record_def)

lemma leaf_scan_repeats:
  assumes "n < entries b"
  shows "UnSortBuncket_Scan b k (int n, res) False = Some (OK, 0, res @ replicate n (UnSortBuncket_key b 0, UnSortBuncket_value b 0))"
  using assms by (simp add: UnSortBuncket_Scan_def scan_repeat)

lemma fold_push_record:
  "fold (push_record b) is (len, res) = (len - int (length is), res @ map (\<lambda>i. (UnSortBuncket_key b i, UnSortBuncket_value b i)) is)"
  by (induction "is" arbitrary: len res) (simp_all add: push_record_def)

lemma leaf_scan_all:
  assumes "int (entries b) < len"
  shows "\<exists>s. UnSortBuncket_Scan b k (len, res) False = Some (Failed, s) \<and> 0 < fst s"
  using assms by (simp add: UnSortBuncket_Scan_def fold_push_record)

text \<open>The loop of \<^verbatim>\<open>PointerBEntry::Scan\<close> does not advance: an empty second leaf keeps it forever.\<close>

lemma scan_loop_diverges:
  assumes "1 < PointerBEntry_entries e" and "entries (leaf_at h e 1) = 0" and "0 < fst s"
  shows "PointerBEntry_Scan_loop h e k 1 fuel (Failed, s) = None"
  using assms
  by (induction fuel) (simp_all add: UnSortBuncket_Scan_def PointerBEntry_entries_def leaf_at_def PointerBEntry_Pointer_def)

lemma entry_scan_diverges:
  assumes "bentry_wf h e" and "1 < PointerBEntry_entries e" and "entries (leaf_at h e 1) = 0"
    and "int (entries (leaf_at h e (PointerBEntry_Find_pos e k))) < len"
  shows "PointerBEntry_Scan h e fuel k (len, res) False = None"
proof -
  let ?pos = "PointerBEntry_Find_pos e k"
  have pos: "?pos < PointerBEntry_entries e" by (rule Find_pos_less [OF assms(1)])
  then have "entrys e ?pos \<in> set (PointerBEntry_EntryIter e)" by (simp add: EntryIter_eq)
  then have "eentry_IsValid (entrys e ?pos)" "?pos < pb_entry_count" using assms(1) pos by (auto simp: bentry_wf_def)
  moreover obtain s where s: "UnSortBuncket_Scan (leaf_at h e ?pos) k (len, res) False = Some (Failed, s)" "0 < fst s"
    using leaf_scan_all [OF assms(4)] by blast
  ultimately show ?thesis
    using scan_loop_diverges [OF assms(2,3) s(2)] by (simp add: PointerBEntry_Scan_def leaf_at_def PointerBEntry_Pointer_def Let_def)
qed

end
