(* ===== verification/Range_Scan.thy ===== *)
theory Range_Scan
  imports Nali_Scan Nali_DB Logdb
begin

text \<open>
  Range scans by size: what the scans of the tree return, the adapter \<^verbatim>\<open>nalidb::range_scan_by_size\<close>
  (\<^verbatim>\<open>src/include/db_interface.h\<close>) and \<^verbatim>\<open>logdb::range_scan_by_size\<close> (\<^verbatim>\<open>src/include/logdb.h\<close>, without
  \<^verbatim>\<open>SCAN_USE_THREAD_POOL\<close>), which reads the values of the scanned keys from the log. A scan of a tree
  whose leaves all have entries returns, and only with pairs of the tree.
\<close>

section \<open>Operations\<close>

text \<open>\<^verbatim>\<open>nalidb::range_scan_by_size\<close>: the pairs that are written to \<^verbatim>\<open>result\<close>, an array of \<^verbatim>\<open>to_scan\<close> elements.
  The assertion after the scan is not compiled (\<^verbatim>\<open>NDEBUG\<close>, \<^verbatim>\<open>src/CMakeLists.txt\<close>). It compares the number of
  pairs with \<^verbatim>\<open>scan_size\<close>, which the scan has counted down to the number of pairs that are missing.\<close>

definition nalidb_range_scan_by_size ::
  "('d, 'l) fpu \<Rightarrow> nat \<Rightarrow> 'd nalidb \<Rightarrow> u64 \<Rightarrow> u32 \<Rightarrow> (u64 \<times> u64) list option" where
  "nalidb_range_scan_by_size F fuel s key to_scan =
     (case nali_Scan F (fst s) (snd s) fuel key (sint to_scan, []) of
        None \<Rightarrow> None
      | Some (_, scan_size, res) \<Rightarrow> if length res \<le> unat to_scan then Some res else None)"

text \<open>
  \<^verbatim>\<open>logdb::range_scan_by_size\<close>: the positions become addresses, then the values are read. \<open>scan\<close> is the scan of
  the index, \<open>None\<close> when it does not return.
\<close>

definition scan_addr :: "('d, 'l) env \<Rightarrow> logkv \<Rightarrow> u64 \<times> u64 \<Rightarrow> u64 \<times> nat option \<times> nat" where
  "scan_addr E l kv = (fst kv, get_addr (e_shards E) l (of_addr_info (snd kv)) (xxh3 E (fst kv)))"

fun read_values :: "logkv \<Rightarrow> (u64 \<times> nat option \<times> nat) list \<Rightarrow> db_fault + (u64 \<times> u64) list" where
  "read_values l [] = Inr []"
| "read_values l ((k, a) # rest) =
     (case read_payload l a of
        Inl e \<Rightarrow> Inl e
      | Inr v \<Rightarrow> (case read_values l rest of Inl e \<Rightarrow> Inl e | Inr vs \<Rightarrow> Inr ((k, v) # vs)))"

definition logdb_range_scan_by_size ::
  "('d, 'l) env \<Rightarrow> ('s \<Rightarrow> u64 \<Rightarrow> u32 \<Rightarrow> (u64 \<times> u64) list option) \<Rightarrow> 's logdb \<Rightarrow> u64 \<Rightarrow> u32 \<Rightarrow> db_fault + (u64 \<times> u64) list" where
  "logdb_range_scan_by_size E scan S key to_scan =
     (case scan (db S) key to_scan of
        None \<Rightarrow> Inl NoReturn
      | Some t_values \<Rightarrow> read_values (log_kv S) (map (scan_addr E (log_kv S)) t_values))"

section \<open>Scans of the tree\<close>

text \<open>A scan goes on by pairs of \<open>P\<close>, and \<^verbatim>\<open>len\<close> counts them.\<close>

definition scans :: "(u64 \<times> u64) set \<Rightarrow> scan_state \<Rightarrow> scan_state \<Rightarrow> bool" where
  "scans P s s' \<longleftrightarrow> (\<exists>xs. set xs \<subseteq> P \<and> s' = (fst s - int (length xs), snd s @ xs)) \<and> 0 \<le> fst s'"

lemma scans_refl: "0 \<le> fst s \<Longrightarrow> scans P s s"
  unfolding scans_def by (intro conjI exI [of _ "[]"]) auto

lemma scans_trans:
  assumes "scans P s t" and "scans P t u"
  shows "scans P s u"
proof -
  obtain xs ys where "set xs \<subseteq> P" "t = (fst s - int (length xs), snd s @ xs)" "set ys \<subseteq> P" "u = (fst t - int (length ys), snd t @ ys)"
    "0 \<le> fst u" using assms unfolding scans_def by blast
  then show ?thesis unfolding scans_def by (intro conjI exI [of _ "xs @ ys"]) auto
qed

lemma scans_mono: "scans P s t \<Longrightarrow> P \<subseteq> Q \<Longrightarrow> scans Q s t"
  unfolding scans_def by blast

lemma push_scans:
  assumes "(UnSortBuncket_key b i, UnSortBuncket_value b i) \<in> P" and "0 < fst s"
  shows "scans P s (push_record b i s)"
  unfolding scans_def push_record_def
  using assms by (intro conjI exI [of _ "[(UnSortBuncket_key b i, UnSortBuncket_value b i)]"]) auto

lemma scans_pos: "scans P s t \<Longrightarrow> 0 \<le> fst t \<and> fst t \<le> fst s"
  unfolding scans_def by auto

lemma slot_pair:
  assumes "buncket_wf b" and "i < entries b"
  shows "(UnSortBuncket_key b i, UnSortBuncket_value b i) \<in> set (kvs b)"
proof -
  have "kvs b = map (\<lambda>i. (UnSortBuncket_key b i, UnSortBuncket_value b i)) [0..<entries b]"
    using live_slots [OF assms(1)] by (simp add: kvs_def kv_pair_def UnSortBuncket_key_def UnSortBuncket_value_def)
  then show ?thesis using assms(2) by auto
qed

declare scan_first_loop.simps [simp del]

lemma scan_first_scans:
  assumes wf: "buncket_wf b" and si: "\<And>j. j < entries b \<Longrightarrow> si ! j < entries b" and "0 \<le> fst s"
  shows "scans (set (kvs b)) s (scan_first_loop b si k i s)"
  using assms(3)
proof (induction "entries b - i" arbitrary: i s rule: less_induct)
  case less
  let ?s = "if k \<le> UnSortBuncket_key b (si ! i) then push_record b (si ! i) s else s"
  show ?case
  proof (cases "i < entries b \<and> 0 < fst s")
    case True
    have st: "scans (set (kvs b)) s ?s"
      using True slot_pair [OF wf si [of i]] by (auto intro: push_scans scans_refl)
    have "scans (set (kvs b)) ?s (scan_first_loop b si k (Suc i) ?s)"
      by (rule less.hyps) (use True scans_pos [OF st] in auto)
    then show ?thesis using scans_trans [OF st] True by (subst scan_first_loop.simps) simp
  next
    case False
    then have "scan_first_loop b si k i s = s" by (subst scan_first_loop.simps) auto
    then show ?thesis using less.prems by (simp add: scans_refl)
  qed
qed

lemma leaf_scan:
  assumes wf: "buncket_wf b" and ne: "0 < entries b" and len: "0 \<le> fst s"
  obtains s' where "UnSortBuncket_Scan b k s if_first = Some (if 0 < fst s' then Failed else OK, s')" and "scans (set (kvs b)) s s'"
    and "\<not> if_first \<Longrightarrow> 0 < fst s \<Longrightarrow> fst s' < fst s"
proof (cases if_first)
  case True
  let ?si = "UnSortBuncket_getSortedIndex b"
  note si = sorted_index_props [OF wf]
  have "?si ! j < entries b" if "j < entries b" for j using nth_mem [of j ?si] si(2,3) that by auto
  from scan_first_scans [OF wf this len, of k "?si ! 0"] show thesis
    using that [of "scan_first_loop b ?si k (?si ! 0) s"] True ne by (simp add: UnSortBuncket_Scan_def Let_def)
next
  case False
  show thesis
  proof (cases "int (entries b) \<le> fst s")
    case True
    have run: "fold (push_record b) [0..<entries b] s = (fst s - int (entries b), snd s @ map (\<lambda>i. (UnSortBuncket_key b i, UnSortBuncket_value b i)) [0..<entries b])"
      using fold_push_record [of b "[0..<entries b]" "fst s" "snd s"] by simp
    have "scans (set (kvs b)) s (fold (push_record b) [0..<entries b] s)"
      unfolding scans_def run
      using True slot_pair [OF wf] by (intro conjI exI [of _ "map (\<lambda>i. (UnSortBuncket_key b i, UnSortBuncket_value b i)) [0..<entries b]"]) auto
    then show thesis using that [of "fold (push_record b) [0..<entries b] s"] False True ne run by (simp add: UnSortBuncket_Scan_def)
  next
    case short: False
    have run: "scan_repeat_loop b 0 (nat (fst s)) s = (0, snd s @ replicate (nat (fst s)) (UnSortBuncket_key b 0, UnSortBuncket_value b 0))"
      using scan_repeat [of b 0 "nat (fst s)" "snd s"] len by simp
    have "scans (set (kvs b)) s (scan_repeat_loop b 0 (nat (fst s)) s)"
      unfolding scans_def run
      using len slot_pair [OF wf ne] by (intro conjI exI [of _ "replicate (nat (fst s)) (UnSortBuncket_key b 0, UnSortBuncket_value b 0)"]) auto
    then show thesis using that [of "scan_repeat_loop b 0 (nat (fst s)) s"] False short run by (simp add: UnSortBuncket_Scan_def)
  qed
qed

text \<open>The loop over the second leaf ends, since every turn reads a record.\<close>

lemma entry_scan_loop:
  assumes wf: "bentry_wf h e" and filled: "leaves_filled h e" and "0 \<le> fst s" and "nat (fst s) \<le> fuel"
  obtains s' where "PointerBEntry_Scan_loop h e k pos fuel (if 0 < fst s then Failed else OK, s) = Some (if 0 < fst s' then Failed else OK, s')"
    and "scans (\<Union> (set ` lkvs ` set (bflat h e))) s s'"
proof -
  let ?P = "\<Union> (set ` lkvs ` set (bflat h e))"
  have "\<exists>s'. PointerBEntry_Scan_loop h e k pos fuel (if 0 < fst s then Failed else OK, s) = Some (if 0 < fst s' then Failed else OK, s') \<and> scans ?P s s'"
    using assms(3,4)
  proof (induction fuel arbitrary: s)
    case 0
    then show ?case using scans_refl [of s ?P] by (intro exI [of _ s]) simp
  next
    case (Suc fuel)
    show ?case
    proof (cases "0 < fst s \<and> pos < buf_entries (entrys e 0)")
      case False
      then show ?thesis using Suc.prems scans_refl [of s ?P] by (intro exI [of _ s]) auto
    next
      case True
      then have pos: "pos < PointerBEntry_entries e" by (simp add: PointerBEntry_entries_def)
      let ?b = "store h (pointer (entrys e pos))"
      have b: "buncket_wf ?b" "0 < entries ?b"
        using bentry_wf_node [OF wf pos] filled pos by (auto simp: leaves_filled_def leaf_at_def PointerBEntry_Pointer_def)
      obtain s1 where s1: "UnSortBuncket_Scan ?b k s False = Some (if 0 < fst s1 then Failed else OK, s1)" "scans (set (kvs ?b)) s s1" "fst s1 < fst s"
        using leaf_scan [OF b Suc.prems(1), of k False] True by metis
      have "set (kvs ?b) \<subseteq> ?P" using pos by (force simp: bflat_eq leaf_of_def)
      then have sc: "scans ?P s s1" using scans_mono s1(2) by blast
      obtain s' where "PointerBEntry_Scan_loop h e k pos fuel (if 0 < fst s1 then Failed else OK, s1) = Some (if 0 < fst s' then Failed else OK, s')" "scans ?P s1 s'"
        using Suc.IH [of s1] scans_pos [OF sc] s1(3) Suc.prems(2) by (meson nat_le_eq_zle nat_less_eq_zless less_Suc_eq_le less_le_trans)
      then show ?thesis using True s1(1) scans_trans [OF sc] by (intro exI [of _ s']) simp
    qed
  qed
  then show thesis using that by blast
qed

text \<open>The pairs of an entry and of a group.\<close>

abbreviation entry_pairs :: "bheap \<Rightarrow> PointerBEntry \<Rightarrow> (u64 \<times> u64) set" where
  "entry_pairs h e \<equiv> \<Union> (set ` lkvs ` set (bflat h e))"

abbreviation group_pairs :: "bheap \<Rightarrow> 'd group \<Rightarrow> (u64 \<times> u64) set" where
  "group_pairs h g \<equiv> \<Union> (entry_pairs h ` set (gents g))"

lemma leaf_pairs: "pos < PointerBEntry_entries e \<Longrightarrow> set (kvs (store h (pointer (entrys e pos)))) \<subseteq> entry_pairs h e"
  by (force simp: bflat_eq leaf_of_def)

lemma entry_scan:
  assumes wf: "bentry_wf h e" and filled: "leaves_filled h e" and len: "0 \<le> fst s" and fuel: "nat (fst s) \<le> fuel"
  obtains s' where "PointerBEntry_Scan h e fuel k s if_first = Some (fst s' \<le> 0, s')" and "scans (entry_pairs h e) s s'"
proof -
  let ?pos = "if if_first then 0 else PointerBEntry_Find_pos e k" and ?key = "if if_first then 0 else k"
  let ?b = "store h (pointer (entrys e ?pos))"
  have pos: "?pos < PointerBEntry_entries e" using Find_pos_less [OF wf] wf by (simp add: bentry_wf_def)
  have b: "buncket_wf ?b" "0 < entries ?b" and valid: "eentry_IsValid (entrys e ?pos)"
    using bentry_wf_node [OF wf pos] filled pos by (auto simp: leaves_filled_def leaf_at_def PointerBEntry_Pointer_def)
  have lim: "?pos < pb_entry_count" using pos wf by (simp add: bentry_wf_def)
  obtain s1 where s1: "UnSortBuncket_Scan ?b ?key s if_first = Some (if 0 < fst s1 then Failed else OK, s1)" "scans (set (kvs ?b)) s s1"
    using leaf_scan [OF b len, of ?key if_first] by metis
  have sc: "scans (entry_pairs h e) s s1" using scans_mono [OF s1(2) leaf_pairs [OF pos]] .
  have l1: "0 \<le> fst s1" "nat (fst s1) \<le> fuel" using scans_pos [OF sc] fuel by auto
  obtain s' where s': "PointerBEntry_Scan_loop h e k 1 fuel (if 0 < fst s1 then Failed else OK, s1) = Some (if 0 < fst s' then Failed else OK, s')"
    "scans (entry_pairs h e) s1 s'" using entry_scan_loop [OF wf filled l1, of k 1] by metis
  have "PointerBEntry_Scan h e fuel k s if_first = Some (fst s' \<le> 0, s')"
    using s1(1) s'(1) valid lim by (auto simp: PointerBEntry_Scan_def Let_def simp del: PointerBEntry_Scan_loop.simps)
  with scans_trans [OF sc s'(2)] show thesis using that by blast
qed

lemma group_scan_loop:
  assumes wf: "group_wf h g" and filled: "group_filled h g" and "0 \<le> fst s" and "nat (fst s) \<le> fuel"
  shows "\<exists>s'. group_Scan_loop h g fuel k i (fst s \<le> 0, s) = Some (fst s' \<le> 0, s') \<and> scans (group_pairs h g) s s'"
  using assms(3,4)
proof (induction "nr_entries g - i" arbitrary: i s rule: less_induct)
  case less
  show ?case
  proof (cases "0 < fst s \<and> Suc i < nr_entries g")
    case False
    then show ?thesis using less.prems scans_refl [of s "group_pairs h g"] by (intro exI [of _ s]) (subst group_Scan_loop.simps, auto)
  next
    case True
    let ?e = "entry_space g ! Suc i"
    have e: "?e \<in> set (gents g)" using True wf gents_nth [of "Suc i" g] nth_mem [of "Suc i" "gents g"] by (auto simp: group_wf_def gents_def)
    then have we: "bentry_wf h ?e" "leaves_filled h ?e" using wf filled by (auto simp: group_wf_def all_wf_def group_filled_def)
    obtain s1 where s1: "PointerBEntry_Scan h ?e fuel k s False = Some (fst s1 \<le> 0, s1)" "scans (entry_pairs h ?e) s s1"
      using entry_scan [OF we less.prems, of k False] by metis
    have sc: "scans (group_pairs h g) s s1" by (rule scans_mono [OF s1(2)]) (use e in blast)
    have l1: "0 \<le> fst s1" "nat (fst s1) \<le> fuel" using scans_pos [OF sc] less.prems(2) by auto
    obtain s' where "group_Scan_loop h g fuel k (Suc i) (fst s1 \<le> 0, s1) = Some (fst s' \<le> 0, s')" "scans (group_pairs h g) s1 s'"
      using less.hyps [OF _ l1, of "Suc i"] True by (metis Suc_lessD diff_less_mono2 lessI)
    then show ?thesis using True s1(1) scans_trans [OF sc] by (intro exI [of _ s']) (subst group_Scan_loop.simps, simp)
  qed
qed

lemma group_scan:
  assumes ok: "group_ok h g" and filled: "group_filled h g" and len: "0 \<le> fst s" and fuel: "nat (fst s) \<le> fuel"
  obtains s' where "group_Scan F h g fuel k s if_first = Some (fst s' \<le> 0, s')" and "scans (group_pairs h g) s s'"
proof -
  have wf: "group_wf h g" using ok by (simp add: store_ok_def)
  let ?i = "if if_first then 0 else group_find_entry F g k"
  have i: "?i < nr_entries g" using group_find(2) [OF ok, of F k] wf by (simp add: group_wf_def)
  let ?e = "entry_space g ! ?i"
  have e: "?e \<in> set (gents g)" using i wf gents_nth [OF i] nth_mem [of ?i "gents g"] by (auto simp: group_wf_def gents_def)
  then have we: "bentry_wf h ?e" "leaves_filled h ?e" using wf filled by (auto simp: group_wf_def all_wf_def group_filled_def)
  obtain s1 where s1: "PointerBEntry_Scan h ?e fuel k s if_first = Some (fst s1 \<le> 0, s1)" "scans (entry_pairs h ?e) s s1"
    using entry_scan [OF we len fuel, of k if_first] by metis
  have sc: "scans (group_pairs h g) s s1" by (rule scans_mono [OF s1(2)]) (use e in blast)
  have l1: "0 \<le> fst s1" "nat (fst s1) \<le> fuel" using scans_pos [OF sc] fuel by auto
  obtain s' where "group_Scan_loop h g fuel k ?i (fst s1 \<le> 0, s1) = Some (fst s' \<le> 0, s')" "scans (group_pairs h g) s1 s'"
    using group_scan_loop [OF wf filled l1, of k ?i] by blast
  then show thesis using that [of s'] s1(1) scans_trans [OF sc] by (simp add: group_Scan_def Let_def)
qed

text \<open>The pairs of a group are pairs of the tree.\<close>

lemma tree_pairs:
  assumes ok: "tree_ok F K h t" and i: "i < nr_groups t" "nonempty (group_space t ! i)"
  shows "group_ok h (group_space t ! i)" and "group_pairs h (group_space t ! i) \<subseteq> {(k, v). tree_map h t k = Some v}"
proof -
  let ?g = "group_space t ! i" and ?ls = "flats gflat h (tgroups t)"
  have gok: "groups_ok h (tgroups t)" and ord: "ordered ?ls" using ok by (auto simp: tree_ok_def store_ok_def)
  have g: "?g \<in> set (tgroups t)" using i by (simp add: tgroups_def)
  then obtain A B where AB: "tgroups t = A @ ?g # B" by (meson split_list)
  have wf: "group_wf h ?g" and dist: "distinct (all_ptrs gptrs (A @ ?g # B))" using gok g AB by (auto simp: store_ok_def all_wf_def)
  have flat: "?ls = flats gflat h A @ gflat h ?g @ flats gflat h B" unfolding AB by (simp add: flats_def)
  have "ordered (gflat h ?g)" using ord unfolding flat by (simp add: ordered_append)
  moreover have "distinct (gptrs ?g)" using dist by (simp add: all_ptrs_def)
  ultimately show "group_ok h ?g" using wf gok by (simp add: store_ok_def)
  have "map_of (concat (map lkvs ?ls)) k = Some v" if kv: "(k, v) \<in> group_pairs h ?g" for k v
  proof -
    obtain x where x: "x \<in> set (gflat h ?g)" "(k, v) \<in> set (lkvs x)" using kv by (auto simp: gflat_def flats_def)
    have "sorted_wrt (<) (map fst (sort_key fst (lkvs x))) \<and> set (sort_key fst (lkvs x)) = set (lkvs x)" if "x \<in> set ?ls" for x
      using ord that by (intro sort_key_listed) (auto simp: ordered_def leaf_ok_def)
    from ordered_listing(2) [OF ord this] have "set (listing ?ls) = {(k, v). leaf_map ?ls k = Some v}" by blast
    moreover have "(k, v) \<in> set (listing ?ls)" using x unfolding flat by auto
    ultimately show ?thesis by (simp add: leaf_map_def)
  qed
  then show "group_pairs h ?g \<subseteq> {(k, v). tree_map h t k = Some v}" by (auto simp: tree_map_def leaf_map_def)
qed

definition tree_filled :: "bheap \<Rightarrow> 'd nali \<Rightarrow> bool" where
  "tree_filled h t \<longleftrightarrow> (\<forall>g\<in>set (tgroups t). group_filled h g) \<and> nonempty (last (group_space t))"

lemma scan_slow_loop_scans:
  fixes h t F
  defines "P \<equiv> {(k, v). tree_map h t k = Some v}"
  assumes ok: "tree_ok F K h t" and filled: "tree_filled h t" and "0 \<le> fst s" and "nat (fst s) \<le> fuel"
  shows "\<exists>s'. scan_slow_loop F h t fuel k i (fst s \<le> 0, s) = Some s' \<and> scans P s s'"
  using assms(4,5)
proof (induction "nr_groups t - i" arbitrary: i s rule: less_induct)
  case less
  show ?case
  proof (cases "0 < fst s \<and> Suc i < nr_groups t")
    case False
    then show ?thesis using less.prems scans_refl [of s P] by (intro exI [of _ s]) (subst scan_slow_loop.simps, auto)
  next
    case True
    let ?j = "find_group_up (group_space t) (Suc i)"
    have "group_space t \<noteq> []" using True by auto
    then have "nonempty (group_space t ! (nr_groups t - 1))" using filled by (simp add: tree_filled_def last_conv_nth)
    then have j: "Suc i \<le> ?j" "?j < nr_groups t" "nonempty (group_space t ! ?j)"
      using find_group_up_spec [of "nr_groups t - 1" "group_space t" "Suc i"] True by auto
    note g = tree_pairs [OF ok j(2,3)]
    have "group_filled h (group_space t ! ?j)" using filled j(2,3) by (auto simp: tree_filled_def tgroups_def)
    then obtain s1 where s1: "group_Scan F h (group_space t ! ?j) fuel k s False = Some (fst s1 \<le> 0, s1)" "scans (group_pairs h (group_space t ! ?j)) s s1"
      using group_scan [OF g(1) _ less.prems, of F k False] by metis
    have sc: "scans P s s1" using scans_mono [OF s1(2) g(2)] by (simp add: P_def)
    have l1: "0 \<le> fst s1" "nat (fst s1) \<le> fuel" using scans_pos [OF sc] less.prems(2) by auto
    have "nr_groups t - ?j < nr_groups t - i" using j by linarith
    then obtain s' where "scan_slow_loop F h t fuel k ?j (fst s1 \<le> 0, s1) = Some s'" "scans P s1 s'"
      using less.hyps [OF _ l1, of ?j] by blast
    then show ?thesis using True j s1(1) scans_trans [OF sc] by (intro exI [of _ s']) (subst scan_slow_loop.simps, simp add: Let_def)
  qed
qed

lemma scan_slow_scans:
  assumes ok: "tree_ok F K h t" and filled: "tree_filled h t" and len: "0 \<le> fst s" and fuel: "nat (fst s) \<le> fuel"
    and i: "i = 0 \<or> i < nr_groups t \<and> nonempty (group_space t ! i)"
  obtains s' where "scan_slow F h t fuel k s i = Some (False, s')" and "scans {(k, v). tree_map h t k = Some v} s s'"
proof -
  let ?i = "if i \<noteq> 0 then i else find_group F t k"
  have j: "?i < nr_groups t" "nonempty (group_space t ! ?i)" using i tree_find_group [OF ok, of k] by auto
  note g = tree_pairs [OF ok j]
  have "group_filled h (group_space t ! ?i)" using filled j by (auto simp: tree_filled_def tgroups_def)
  then obtain s1 where s1: "group_Scan F h (group_space t ! ?i) fuel k s True = Some (fst s1 \<le> 0, s1)" "scans (group_pairs h (group_space t ! ?i)) s s1"
    using group_scan [OF g(1) _ len fuel, of F k True] by metis
  have sc: "scans {(k, v). tree_map h t k = Some v} s s1" using scans_mono [OF s1(2) g(2)] .
  have l1: "0 \<le> fst s1" "nat (fst s1) \<le> fuel" using scans_pos [OF sc] fuel by auto
  obtain s' where s': "scan_slow_loop F h t fuel k ?i (fst s1 \<le> 0, s1) = Some s'" "scans {(k, v). tree_map h t k = Some v} s1 s'"
    using scan_slow_loop_scans [OF ok filled l1, of k ?i] by blast
  have "scan_slow F h t fuel k s i = Some (False, s')"
    using s1(1) s'(1) by (simp add: scan_slow_def Let_def del: scan_slow_loop.simps)
  then show thesis by (rule that [OF _ scans_trans [OF sc s'(2)]])
qed

lemma nali_Scan_scans:
  assumes ok: "tree_ok F K h t" and filled: "tree_filled h t" and len: "0 \<le> len" and fuel: "nat len \<le> fuel"
  obtains b len' res where "nali_Scan F h t fuel k (len, []) = Some (b, len', res)" and "set res \<subseteq> {(k, v). tree_map h t k = Some v}"
    and "len' + int (length res) = len" and "0 \<le> len'"
proof -
  let ?i = "group_id F (root_model t) (nr_groups t) k"
  have "\<exists>b s'. nali_Scan F h t fuel k (len, []) = Some (b, s') \<and> scans {(k, v). tree_map h t k = Some v} (len, []) s'"
  proof (cases "group_scan_fast_fail (group_space t ! ?i) k")
    case True
    have "0 < nr_groups t" using tree_find_group(1) [OF ok, of k] by linarith
    then have "?i < nr_groups t" by (rule group_id_less)
    moreover have "nonempty (group_space t ! ?i)" using True by (simp add: group_scan_fast_fail_def split: if_splits)
    ultimately obtain s' where "scan_slow F h t fuel k (len, []) ?i = Some (False, s')" "scans {(k, v). tree_map h t k = Some v} (len, []) s'"
      using scan_slow_scans [OF ok filled, of "(len, [])" fuel ?i k] len fuel by auto
    then show ?thesis using True by (auto simp: nali_Scan_def scan_fast_def Let_def)
  next
    case False
    obtain s' where "scan_slow F h t fuel k (len, []) 0 = Some (False, s')" "scans {(k, v). tree_map h t k = Some v} (len, []) s'"
      using scan_slow_scans [OF ok filled, of "(len, [])" fuel 0 k] len fuel by auto
    then show ?thesis using False by (auto simp: nali_Scan_def scan_fast_def Let_def)
  qed
  then obtain b s' where run: "nali_Scan F h t fuel k (len, []) = Some (b, s')" "scans {(k, v). tree_map h t k = Some v} (len, []) s'" by blast
  obtain xs where "set xs \<subseteq> {(k, v). tree_map h t k = Some v}" "s' = (len - int (length xs), xs)" "0 \<le> fst s'"
    using run(2) unfolding scans_def by auto
  then show thesis using that [of b "len - int (length xs)" xs] run(1) by simp
qed

section \<open>Reading the values\<close>

lemma read_values_indexed:
  assumes "indexed E l m" and "\<forall>(k, w)\<in>set kws. m k = Some w"
  shows "read_values l (map (scan_addr E l) kws) = Inr (map (\<lambda>(k, w). (k, the (log_map E l m k))) kws)"
  using assms(2)
proof (induction kws)
  case (Cons kw kws)
  obtain k w where kw: "kw = (k, w)" by (cases kw)
  then have w: "m k = Some w" using Cons.prems by simp
  then have "log_live (e_shards E) l (xxh3 E k) w" using assms(1) unfolding indexed_def by blast
  then have "read_payload l (get_addr (e_shards E) l (of_addr_info w) (xxh3 E k)) = Inr (the (log_map E l m k))"
    using read_live [of E l "xxh3 E k" w] w by (simp add: log_map_def)
  then show ?case using Cons by (simp add: kw scan_addr_def)
qed simp

text \<open>An index that can be scanned: \<open>ready\<close> are the states in which its scan returns.\<close>

locale range_index = tree_index T good tmap keys ins for T :: "'s tree_ops" and good and tmap and keys and ins +
  fixes scan :: "'s \<Rightarrow> u64 \<Rightarrow> u32 \<Rightarrow> (u64 \<times> u64) list option" and scannable :: "'s \<Rightarrow> bool"
  assumes scan_law: "good s \<Longrightarrow> scannable s \<Longrightarrow> unat n < 2 ^ 31 \<Longrightarrow>
    \<exists>res. scan s k n = Some res \<and> set res \<subseteq> {(k, v). tmap s k = Some v} \<and> length res \<le> unat n"
begin

lemma logdb_range_scan_correct:
  assumes S: "ok E S" and sc: "scannable (db S)" and n: "unat n < 2 ^ 31"
  shows "\<exists>res. logdb_range_scan_by_size E scan S k n = Inr res \<and> set res \<subseteq> {(k, v). smap E S k = Some v} \<and> length res \<le> unat n"
proof -
  have d: "good (db S)" and ix: "indexed E (log_kv S) (tmap (db S))" using S by (simp_all add: logdb_ok_def)
  obtain kws where kws: "scan (db S) k n = Some kws" "set kws \<subseteq> {(k, v). tmap (db S) k = Some v}" "length kws \<le> unat n"
    using scan_law [OF d sc n] by blast
  let ?res = "map (\<lambda>(k, w). (k, the (log_map E (log_kv S) (tmap (db S)) k))) kws"
  have "logdb_range_scan_by_size E scan S k n = Inr ?res"
    using kws(1) read_values_indexed [OF ix, of kws] kws(2) by (auto simp: logdb_range_scan_by_size_def)
  moreover have "set ?res \<subseteq> {(k, v). smap E S k = Some v}" using kws(2) by (auto simp: logdb_map_def log_map_def)
  ultimately show ?thesis using kws(3) by auto
qed

end

text \<open>The learned index is one; \<^verbatim>\<open>to_scan\<close> turns of the loop in \<^verbatim>\<open>PointerBEntry::Scan\<close> are enough.\<close>

sublocale fp_keys \<subseteq> range: range_index "nalidb_ops F" "nalidb_ok F K" nalidb_map K False
  "\<lambda>s k n. nalidb_range_scan_by_size F (unat n) s k n" "\<lambda>s. tree_filled (fst s) (snd s)"
proof
  fix s :: "'d nalidb" and n :: u32 and k :: u64
  assume ok: "nalidb_ok F K s" and filled: "tree_filled (fst s) (snd s)" and n: "unat n < 2 ^ 31"
  have "uint n < 2 ^ 31" using n by (simp add: uint_nat del: of_nat_unat)
  moreover have "- (2 ^ 31) \<le> uint n" by (rule order_trans [of _ 0]) simp_all
  ultimately have sint: "sint n = int (unat n)" by (simp add: sint_uint signed_take_bit_int_eq_self)
  obtain b len' res where "nali_Scan F (fst s) (snd s) (unat n) k (int (unat n), []) = Some (b, len', res)"
    "set res \<subseteq> {(k, v). tree_map (fst s) (snd s) k = Some v}" "len' + int (length res) = int (unat n)" "0 \<le> len'"
    by (rule nali_Scan_scans [of F K "fst s" "snd s" "int (unat n)" "unat n" k]) (use ok filled in \<open>auto simp: nalidb_ok_def\<close>)
  then show "\<exists>res. nalidb_range_scan_by_size F (unat n) s k n = Some res \<and> set res \<subseteq> {(k, v). nalidb_map s k = Some v} \<and> length res \<le> unat n"
    unfolding nalidb_range_scan_by_size_def sint nalidb_map_def by (intro exI [of _ res]) (simp del: of_nat_unat)
qed

context fp_keys
begin

lemma is_range_index: "range_index (nalidb_ops F) (nalidb_ok F K) nalidb_map K False
  (\<lambda>s k n. nalidb_range_scan_by_size F (unat n) s k n) (\<lambda>s. tree_filled (fst s) (snd s))"
  by unfold_locales

end

end
