(* ===== verification/Var_Record.thy ===== *)
theory Var_Record
  imports Kvlog
begin

unbundle bit_operations_syntax

text \<open>
  Log records with values of variable length, \<^verbatim>\<open>Pair_t<KEY, std::string>\<close> of \<^verbatim>\<open>src/src/nali_kvlog.h\<close>, on a memory of
  bytes. A record is a header of 26 bytes, packed and little endian (operation and version, key, length,
  position of the older record), and the bytes of the value behind it. Reading gives back the operation,
  the key, the length and the value, for values of less than 64 KB; it does not give back the version and the
  older position.
\<close>

section \<open>Bytes\<close>

type_synonym bytes = "nat \<Rightarrow> u8"

fun le_bytes :: "nat \<Rightarrow> u64 \<Rightarrow> u8 list" where
  "le_bytes 0 w = []"
| "le_bytes (Suc n) w = ucast w # le_bytes n (drop_bit 8 w)"

fun le_word :: "u8 list \<Rightarrow> u64" where
  "le_word [] = 0"
| "le_word (b # bs) = ucast b OR push_bit 8 (le_word bs)"

definition write_bytes :: "bytes \<Rightarrow> nat \<Rightarrow> u8 list \<Rightarrow> bytes" where
  "write_bytes m a bs = (\<lambda>x. if a \<le> x \<and> x < a + length bs then bs ! (x - a) else m x)"

definition read_bytes :: "bytes \<Rightarrow> nat \<Rightarrow> nat \<Rightarrow> u8 list" where
  "read_bytes m a n = map m [a..<a + n]"

section \<open>Records\<close>

record Var_Pair =
  var_op :: "2 word"
  var_version :: "62 word"
  var_key :: u64
  var_vlen :: u16
  var_u_offset :: u64
  var_value :: "u8 list"

definition Var_Pair_new :: "Var_Pair \<Rightarrow> u64 \<Rightarrow> u8 list \<Rightarrow> Var_Pair" where
  "Var_Pair_new raw k v = raw\<lparr>var_vlen := of_nat (length v), var_key := k, var_value := v\<rparr>"

definition Var_Pair_key :: "Var_Pair \<Rightarrow> u64 \<Rightarrow> Var_Pair" where
  "Var_Pair_key raw k = raw\<lparr>var_vlen := 0, var_key := k, var_value := []\<rparr>"

definition var_set_version :: "Var_Pair \<Rightarrow> u64 \<Rightarrow> Var_Pair" where
  "var_set_version p old_version = p\<lparr>var_version := ucast (old_version + 1)\<rparr>"

definition var_set_op :: "Var_Pair \<Rightarrow> OP_t \<Rightarrow> Var_Pair" where
  "var_set_op p o' = p\<lparr>var_op := op_code o'\<rparr>"

definition var_set_last_log_offest :: "Var_Pair \<Rightarrow> u64 \<Rightarrow> Var_Pair" where
  "var_set_last_log_offest p off = p\<lparr>var_u_offset := off\<rparr>"

definition value_offset :: nat where
  "value_offset = 8 + 8 + 2 + 8"

definition var_size :: "Var_Pair \<Rightarrow> nat" where
  "var_size p = 8 + 8 + 2 + 8 + unat (var_vlen p)"

text \<open>The object representation of the members in front of the string.\<close>

definition var_header :: "Var_Pair \<Rightarrow> u8 list" where
  "var_header p =
     le_bytes 8 (ucast (var_op p) OR push_bit 2 (ucast (var_version p))) @ le_bytes 8 (var_key p) @
     le_bytes 2 (ucast (var_vlen p)) @ le_bytes 8 (var_u_offset p)"

text \<open>\<open>None\<close>: the copy reads behind the string.\<close>

definition var_store_persist :: "Var_Pair \<Rightarrow> bytes \<Rightarrow> nat \<Rightarrow> bytes option" where
  "var_store_persist p m a =
     (let m' = write_bytes m a (var_header p)
      in if 0 < var_vlen p
         then if unat (var_vlen p) \<le> length (var_value p)
              then Some (write_bytes m' (a + value_offset) (take (unat (var_vlen p)) (var_value p))) else None
         else Some m')"

definition var_load :: "Var_Pair \<Rightarrow> bytes \<Rightarrow> nat \<Rightarrow> bool \<Rightarrow> Var_Pair" where
  "var_load q m a load_value =
     (let q = q\<lparr>var_op := ucast (le_word (read_bytes m a 8)), var_key := le_word (read_bytes m (a + 8) 8),
                var_vlen := ucast (le_word (read_bytes m (a + 16) 2))\<rparr>
      in if load_value then q\<lparr>var_value := read_bytes m (a + value_offset) (unat (var_vlen q))\<rparr> else q)"

text \<open>\<^verbatim>\<open>set_op_persist\<close> of a record in memory; the bit field shares its first byte with the version.\<close>

definition var_set_op_persist :: "bytes \<Rightarrow> nat \<Rightarrow> OP_t \<Rightarrow> bytes" where
  "var_set_op_persist m a o' = m(a := (m a AND NOT (mask 2)) OR ucast (op_code o'))"

section \<open>Reading what was written\<close>

lemma le_bytes_length [simp]: "length (le_bytes n w) = n"
  by (induction n arbitrary: w) auto

lemma le_word_le_bytes: "le_word (le_bytes n w) = take_bit (8 * n) w"
proof (induction n arbitrary: w)
  case (Suc n)
  show ?case
    by (rule bit_eqI) (auto simp: Suc.IH bit_or_iff bit_ucast_iff bit_push_bit_iff bit_take_bit_iff bit_drop_bit_eq)
qed simp

lemma read_bytes_nth: "i < n \<Longrightarrow> read_bytes m a n ! i = m (a + i)"
  by (simp add: read_bytes_def)

lemma read_bytes_length [simp]: "length (read_bytes m a n) = n"
  by (simp add: read_bytes_def)

lemma read_write_inside:
  assumes "d + n \<le> length bs"
  shows "read_bytes (write_bytes m a bs) (a + d) n = take n (drop d bs)"
  using assms by (intro nth_equalityI) (auto simp: read_bytes_nth write_bytes_def)

lemma read_write_outside:
  assumes "a + n \<le> b \<or> b + length bs \<le> a"
  shows "read_bytes (write_bytes m b bs) a n = read_bytes m a n"
  using assms by (intro nth_equalityI) (auto simp: read_bytes_nth write_bytes_def)

lemma var_header_parts:
  "length (var_header p) = value_offset"
  "take 8 (var_header p) = le_bytes 8 (ucast (var_op p) OR push_bit 2 (ucast (var_version p)))"
  "take 8 (drop 8 (var_header p)) = le_bytes 8 (var_key p)"
  "take 2 (drop 16 (var_header p)) = le_bytes 2 (ucast (var_vlen p))"
  by (simp_all add: var_header_def value_offset_def)

lemma header_fields:
  "ucast ((ucast (x :: 2 word) :: u64) OR push_bit 2 y) = x"
  "le_word (le_bytes 8 w) = w"
  "ucast (le_word (le_bytes 2 (ucast (l :: u16)))) = l"
proof -
  show "ucast ((ucast x :: u64) OR push_bit 2 y) = x"
    by (rule bit_eqI) (auto simp: bit_ucast_iff bit_or_iff bit_push_bit_iff)
  show "le_word (le_bytes 8 w) = w" by (simp add: le_word_le_bytes take_bit_word_eq_self)
  show "ucast (le_word (le_bytes 2 (ucast l))) = l"
    by (rule bit_eqI) (auto simp: le_word_le_bytes bit_ucast_iff bit_take_bit_iff)
qed

lemma var_load_header:
  assumes "read_bytes m a value_offset = var_header p"
  shows "var_load q m a False = q\<lparr>var_op := var_op p, var_key := var_key p, var_vlen := var_vlen p\<rparr>"
proof -
  have part: "read_bytes m (a + d) n = take n (drop d (var_header p))" if "d + n \<le> value_offset" for d n
    unfolding assms [symmetric] using that by (intro nth_equalityI) (auto simp: read_bytes_nth add.assoc)
  show ?thesis
    using part [of 0 8] part [of 8 8] part [of 16 2]
    by (simp add: var_load_def value_offset_def var_header_parts header_fields)
qed

lemma store_header_and_value:
  assumes "var_store_persist p m a = Some m'"
  shows "read_bytes m' a value_offset = var_header p"
    and "read_bytes m' (a + value_offset) (unat (var_vlen p)) = take (unat (var_vlen p)) (var_value p)"
    and "\<And>x. x < a \<or> a + var_size p \<le> x \<Longrightarrow> m' x = m x"
proof -
  let ?m = "write_bytes m a (var_header p)" and ?v = "take (unat (var_vlen p)) (var_value p)"
  have hdr: "read_bytes ?m a value_offset = var_header p"
    using read_write_inside [of 0 value_offset "var_header p" m a] by (simp add: var_header_parts(1))
  have len: "length (var_header p) = value_offset" by (rule var_header_parts(1))
  consider (empty) "var_vlen p = 0" "m' = ?m"
    | (val) "length ?v = unat (var_vlen p)" "m' = write_bytes ?m (a + value_offset) ?v"
    using assms by (auto simp: var_store_persist_def Let_def word_gt_0 split: if_splits)
  then show "read_bytes m' a value_offset = var_header p" using hdr by cases (simp_all add: read_write_outside)
  show "read_bytes m' (a + value_offset) (unat (var_vlen p)) = ?v"
    using assms read_write_inside [of 0 "unat (var_vlen p)" ?v ?m "a + value_offset"]
    by (auto simp: var_store_persist_def Let_def word_gt_0 read_bytes_def split: if_splits)
  show "m' x = m x" if x: "x < a \<or> a + var_size p \<le> x" for x
    using assms x len by (auto simp: var_store_persist_def Let_def write_bytes_def var_size_def value_offset_def split: if_splits)
qed

text \<open>The value of a record of the constructor.\<close>

lemma Var_Pair_new_stored: "\<exists>m'. var_store_persist (Var_Pair_new raw k v) m a = Some m'"
  by (simp add: var_store_persist_def Var_Pair_new_def Let_def unat_of_nat)

lemma var_load_stored:
  assumes "var_store_persist p m a = Some m'"
  shows "var_load q m' a True =
    q\<lparr>var_op := var_op p, var_key := var_key p, var_vlen := var_vlen p, var_value := take (unat (var_vlen p)) (var_value p)\<rparr>"
proof -
  note st = store_header_and_value [OF assms]
  have "var_load q m' a True = (var_load q m' a False)\<lparr>var_value := read_bytes m' (a + value_offset) (unat (var_vlen (var_load q m' a False)))\<rparr>"
    by (simp add: var_load_def Let_def)
  then show ?thesis using var_load_header [OF st(1), of q] st(2) by simp
qed

text \<open>
  C33. A record with a value of variable length that is written into the log is read back with its operation,
  key, length and value, whatever was in memory; only the bytes of the record change. The length is kept in
  16 bits: a value of less than 65536 bytes comes back whole.
\<close>

theorem var_record_roundtrip:
  assumes "length v < 2 ^ 16"
  shows "\<exists>m'. var_store_persist (var_set_op (Var_Pair_new raw k v) o') m a = Some m' \<and>
    var_load q m' a True = q\<lparr>var_op := op_code o', var_key := k, var_vlen := of_nat (length v), var_value := v\<rparr> \<and>
    (\<forall>x. x < a \<or> a + 26 + length v \<le> x \<longrightarrow> m' x = m x)"
proof -
  let ?p = "var_set_op (Var_Pair_new raw k v) o'"
  have u: "unat (of_nat (length v) :: u16) = length v" using assms by (simp add: unat_of_nat)
  have "\<exists>m'. var_store_persist ?p m a = Some m'"
    using u by (simp add: var_store_persist_def var_set_op_def Var_Pair_new_def Let_def)
  then obtain m' where m': "var_store_persist ?p m a = Some m'" ..
  have "var_load q m' a True = q\<lparr>var_op := op_code o', var_key := k, var_vlen := of_nat (length v), var_value := v\<rparr>"
    using var_load_stored [OF m', of q] u by (simp add: var_set_op_def Var_Pair_new_def)
  moreover have "\<forall>x. x < a \<or> a + 26 + length v \<le> x \<longrightarrow> m' x = m x"
    using store_header_and_value(3) [OF m'] u by (simp add: var_size_def var_set_op_def Var_Pair_new_def add.assoc)
  ultimately show ?thesis using m' by blast
qed

theorem var_record_roundtrip_witness:
  "\<exists>m'. var_store_persist (var_set_op (Var_Pair_new \<lparr>var_op = 0, var_version = 0, var_key = 0, var_vlen = 0, var_u_offset = 0, var_value = []\<rparr> 5 [1, 2, 3]) UPDATE)
      (\<lambda>_. 0) 64 = Some m' \<and>
    var_value (var_load \<lparr>var_op = 0, var_version = 0, var_key = 0, var_vlen = 0, var_u_offset = 0, var_value = []\<rparr> m' 64 True) = [1, 2, 3]"
  using var_record_roundtrip [of "[1, 2, 3]" "\<lparr>var_op = 0, var_version = 0, var_key = 0, var_vlen = 0, var_u_offset = 0, var_value = []\<rparr>" 5 UPDATE "\<lambda>_. 0" 64
      "\<lparr>var_op = 0, var_version = 0, var_key = 0, var_vlen = 0, var_u_offset = 0, var_value = []\<rparr>"] by auto

text \<open>Reading leaves the version and the older position of the object: the chain of older records is not followed from it.\<close>

lemma var_load_keeps: "var_version (var_load q m a b) = var_version q" "var_u_offset (var_load q m a b) = var_u_offset q"
  by (simp_all add: var_load_def Let_def)

text \<open>A value of 65536 bytes is stored as an empty one.\<close>

lemma var_value_truncated:
  assumes "length v = 2 ^ 16" and "var_store_persist (Var_Pair_new raw k v) m a = Some m'"
  shows "var_value (var_load q m' a True) = []"
proof -
  have "var_vlen (Var_Pair_new raw k v) = 0" using assms(1) by (simp add: Var_Pair_new_def)
  then show ?thesis using var_load_stored [OF assms(2), of q] by simp
qed

text \<open>Marking a record in place changes its operation only.\<close>

lemma var_set_op_persist_load:
  "var_load q (var_set_op_persist m a o') a b = (var_load q m a b)\<lparr>var_op := op_code o'\<rparr>"
proof -
  let ?m = "var_set_op_persist m a o'"
  have far: "read_bytes ?m c n = read_bytes m c n" if "a < c" for c n
    using that by (intro nth_equalityI) (auto simp: read_bytes_nth var_set_op_persist_def)
  have split: "read_bytes m' a 8 = m' a # read_bytes m' (Suc a) 7" for m'
    by (simp add: read_bytes_def upt_conv_Cons)
  have "ucast (le_word (read_bytes ?m a 8)) = op_code o'"
    by (rule bit_eqI) (auto simp: split var_set_op_persist_def bit_ucast_iff bit_or_iff bit_push_bit_iff bit_and_iff bit_not_iff bit_mask_iff)
  then show ?thesis using far [of "a + 8" 8] far [of "a + 16" 2] far [of "a + value_offset"] by (simp add: var_load_def Let_def value_offset_def)
qed

end
