(* ===== verification/Sort_Bucket.thy ===== *)
theory Sort_Bucket
  imports Nali_Bucket
begin

text \<open>
  The sorted leaf node \<^verbatim>\<open>SortBuncket<256, 8>\<close> of \<^verbatim>\<open>src/src/nali_entry.h\<close>, the \<^verbatim>\<open>buncket_t\<close> of a build without
  \<^verbatim>\<open>USE_UNSORT_BUNCKET\<close> (\<^verbatim>\<open>USE_DELETE_0\<close>: a removal sets the key to 0). A write outside of \<^verbatim>\<open>records\<close> and a read of a removal there are \<open>None\<close>.
  The searches read an unspecified value there.
  While nothing was removed the node is a sorted map, its two searches agree, and \<^verbatim>\<open>Expand_\<close> splits it in
  the middle. A removal leaves a hole that breaks the order of later insertions.
\<close>

section \<open>Data\<close>

record sort_buncket =
  sb_next :: "nat option"
  last_pos :: nat
  sb_entries :: nat
  sb_max_entries :: nat
  sb_records :: "kventry list"

definition sb_buf_size :: nat where
  "sb_buf_size = 256 - (8 + 4)"

definition sb_entry_count :: nat where
  "sb_entry_count = sb_buf_size div (8 + 8)"

text \<open>The fingerprint of a key, one byte.\<close>

definition hashcode1B :: "u64 \<Rightarrow> 8 word" where
  "hashcode1B x =
     (let x = x XOR drop_bit 32 x;
          x = x XOR drop_bit 16 x;
          x = x XOR drop_bit 8 x
      in ucast (x AND 0x0ff))"

section \<open>Operations\<close>

definition SortBuncket :: "sort_buncket \<Rightarrow> sort_buncket" where
  "SortBuncket raw = raw\<lparr>sb_entries := 0, last_pos := 0, sb_next := None, sb_max_entries := min (sb_buf_size div (8 + 8)) 256\<rparr>"

text \<open>The counters \<^verbatim>\<open>entries\<close> and \<^verbatim>\<open>last_pos\<close> are bit fields of eight bits.\<close>

definition sb_bump :: "sort_buncket \<Rightarrow> sort_buncket" where
  "sb_bump b = b\<lparr>sb_entries := (sb_entries b + 1) mod 256, last_pos := (last_pos b + 1) mod 256\<rparr>"

definition SortBuncket_key :: "sort_buncket \<Rightarrow> nat \<Rightarrow> u64" where
  "SortBuncket_key b idx = kv_key (sb_records b ! idx)"

definition SortBuncket_value :: "sort_buncket \<Rightarrow> nat \<Rightarrow> u64" where
  "SortBuncket_value b idx = kv_value (sb_records b ! idx)"

text \<open>
  \<^verbatim>\<open>PutBufKV\<close>: closing the last hole of a node whose slots are used up, then moving the larger keys up. The
  counters of the loops run downwards; \<open>Suc i\<close> stands for \<^verbatim>\<open>i\<close>.
\<close>

function sb_compact_shift :: "kventry list \<Rightarrow> nat \<Rightarrow> nat \<Rightarrow> kventry list option" where
  "sb_compact_shift rs i n =
     (if i < n then if Suc i < length rs then sb_compact_shift (rs[i := rs ! Suc i]) (Suc i) n else None else Some rs)"
  by pat_completeness auto
termination
  by (relation "measure (\<lambda>(rs, i, n). n - i)") auto

fun sb_compact :: "kventry list \<Rightarrow> nat \<Rightarrow> nat \<Rightarrow> kventry list option" where
  "sb_compact rs n 0 = Some rs"
| "sb_compact rs n (Suc i) = (if kv_key (rs ! i) = 0 then sb_compact_shift rs i n else sb_compact rs n i)"

fun move_up :: "kventry list \<Rightarrow> kventry \<Rightarrow> nat \<Rightarrow> (kventry list \<times> bool) option" where
  "move_up rs e 0 = Some (rs, False)"
| "move_up rs e (Suc i) =
     (if length rs \<le> Suc i then None
      else if kv_key e < kv_key (rs ! i) then move_up (rs[Suc i := rs ! i]) e i
      else Some (rs[Suc i := e], True))"

definition SortBuncket_PutBufKV :: "sort_buncket \<Rightarrow> u64 \<Rightarrow> u64 \<Rightarrow> (status \<times> sort_buncket) option" where
  "SortBuncket_PutBufKV b new_key value =
     (let e = \<lparr>kv_key = new_key, kv_value = value\<rparr>
      in if sb_max_entries b \<le> sb_entries b then Some (Full, b)
         else if sb_entries b = 0
         then let rs = (sb_records b)[0 := e] in Some (OK, b\<lparr>sb_records := rs[1 := (rs ! 1)\<lparr>kv_value := 0\<rparr>]\<rparr>)
         else Option.bind
                (if sb_max_entries b - 1 \<le> last_pos b \<and> last_pos b \<noteq> sb_entries b
                 then map_option (\<lambda>rs. b\<lparr>sb_records := rs, last_pos := last_pos b - 1\<rparr>) (sb_compact (sb_records b) (last_pos b) (last_pos b))
                 else Some b)
                (\<lambda>b. map_option (\<lambda>(rs, inserted). (OK, b\<lparr>sb_records := if inserted then rs else rs[0 := e]\<rparr>))
                       (move_up (sb_records b) e (last_pos b))))"

definition SortBuncket_Put :: "sort_buncket \<Rightarrow> u64 \<Rightarrow> u64 \<Rightarrow> (status \<times> sort_buncket) option" where
  "SortBuncket_Put b key value =
     (case SortBuncket_PutBufKV b key value of
        None \<Rightarrow> None
      | Some (ret, b') \<Rightarrow>
          if ret \<noteq> OK then Some (ret, b')
          else Some (OK, sb_bump b'))"

function remove_key_loop :: "kventry list \<Rightarrow> u64 \<Rightarrow> nat \<Rightarrow> nat \<Rightarrow> (bool \<times> kventry list) option" where
  "remove_key_loop rs key n i =
     (if length rs \<le> i then None
      else if kv_key (rs ! i) \<noteq> 0 \<and> i < n
      then if kv_key (rs ! i) = key then Some (True, rs[i := \<lparr>kv_key = 0, kv_value = 0\<rparr>]) else remove_key_loop rs key n (Suc i)
      else Some (False, rs))"
  by pat_completeness auto
termination
  by (relation "measure (\<lambda>(rs, key, n, i). length rs - i)") auto

text \<open>\<^verbatim>\<open>Delete\<close>; the out parameter is not written.\<close>

definition SortBuncket_Delete :: "sort_buncket \<Rightarrow> u64 \<Rightarrow> (status \<times> sort_buncket) option" where
  "SortBuncket_Delete b key =
     (case remove_key_loop (sb_records b) key (last_pos b) 0 of
        None \<Rightarrow> None
      | Some (ret, rs) \<Rightarrow>
          if \<not> ret then Some (NoExist, b) else Some (OK, b\<lparr>sb_records := rs, sb_entries := (sb_entries b + 255) mod 256\<rparr>))"

text \<open>The searches; the result is (find, position).\<close>

function LinearFind_loop :: "sort_buncket \<Rightarrow> u64 \<Rightarrow> nat \<Rightarrow> nat" where
  "LinearFind_loop b target i = (if i < last_pos b \<and> SortBuncket_key b i < target then LinearFind_loop b target (Suc i) else i)"
  by pat_completeness auto
termination
  by (relation "measure (\<lambda>(b, target, i). last_pos b - i)") auto

definition LinearFind :: "sort_buncket \<Rightarrow> u64 \<Rightarrow> bool \<times> nat" where
  "LinearFind b target = (let i = LinearFind_loop b target 0 in (i < last_pos b \<and> target = SortBuncket_key b i, i))"

function SortBuncket_Find_loop :: "sort_buncket \<Rightarrow> u64 \<Rightarrow> int \<Rightarrow> int \<Rightarrow> bool \<times> int" where
  "SortBuncket_Find_loop b target left right =
     (if left \<le> right
      then let middle = (left + right) div 2; mid_key = SortBuncket_key b (nat middle)
           in if mid_key = target then (True, middle)
              else if target < mid_key then SortBuncket_Find_loop b target left (middle - 1)
              else SortBuncket_Find_loop b target (middle + 1) right
      else (False, left))"
  by pat_completeness auto
termination
  by (relation "measure (\<lambda>(b, target, left, right). nat (right - left + 1))") auto

definition SortBuncket_Find :: "sort_buncket \<Rightarrow> u64 \<Rightarrow> bool \<times> nat" where
  "SortBuncket_Find b target = map_prod id nat (SortBuncket_Find_loop b target 0 (int (sb_entries b) - 1))"

definition SortBuncket_Update :: "sort_buncket \<Rightarrow> u64 \<Rightarrow> u64 \<Rightarrow> status \<times> sort_buncket" where
  "SortBuncket_Update b key value =
     (let (find, pos) = SortBuncket_Find b key
      in if \<not> find \<or> SortBuncket_value b pos = 0 then (NoExist, b)
         else (OK, b\<lparr>sb_records := (sb_records b)[pos := (sb_records b ! pos)\<lparr>kv_value := value\<rparr>]\<rparr>))"

definition SortBuncket_Get :: "sort_buncket \<Rightarrow> u64 \<Rightarrow> u64 \<Rightarrow> status \<times> u64" where
  "SortBuncket_Get b key value =
     (let (find, pos) = LinearFind b key
      in if \<not> find \<or> SortBuncket_value b pos = 0 then (NoExist, value) else (OK, SortBuncket_value b pos))"

text \<open>\<^verbatim>\<open>min_key\<close> of a node whose first key is 0 leaves the function without a value.\<close>

definition SortBuncket_min_key :: "sort_buncket \<Rightarrow> u64 option" where
  "SortBuncket_min_key b = (if SortBuncket_key b 0 \<noteq> 0 then Some (SortBuncket_key b 0) else None)"

text \<open>
  \<^verbatim>\<open>Load\<close> copies the keys in order and the values in reverse order; \<open>None\<close> is an access outside of an array.
  The assertion on \<^verbatim>\<open>entries\<close> and \<^verbatim>\<open>count\<close> is not compiled (\<^verbatim>\<open>NDEBUG\<close>).
\<close>

definition SortBuncket_Load :: "sort_buncket \<Rightarrow> u64 list \<Rightarrow> u64 list \<Rightarrow> nat \<Rightarrow> (status \<times> sort_buncket) option" where
  "SortBuncket_Load b keys values cnt =
     (if cnt \<le> length keys \<and> cnt \<le> length values \<and> cnt \<le> length (sb_records b)
      then Some (OK, fold (\<lambda>i b. sb_bump (b\<lparr>sb_records := (sb_records b)[i := \<lparr>kv_key = keys ! i, kv_value = values ! (cnt - i - 1)\<rparr>]\<rparr>)) [0..<cnt] b)
      else None)"

text \<open>
  \<^verbatim>\<open>Expand_\<close>: \<open>a\<close> is the address of the new node and \<open>raw\<close> its memory. The results are the node, the new
  node, the split key and \<^verbatim>\<open>prefix_len\<close>.
\<close>

fun expand_move :: "sort_buncket \<Rightarrow> nat list \<Rightarrow> sort_buncket \<Rightarrow> sort_buncket option" where
  "expand_move b [] next = Some next"
| "expand_move b (i # is) next =
     (if SortBuncket_key b i \<noteq> 0
      then case SortBuncket_PutBufKV next (SortBuncket_key b i) (SortBuncket_value b i) of
             None \<Rightarrow> None
           | Some (_, next') \<Rightarrow> expand_move b is (sb_bump next')
      else expand_move b is next)"

definition SortBuncket_Expand ::
  "nat \<Rightarrow> sort_buncket \<Rightarrow> sort_buncket \<Rightarrow> (sort_buncket \<times> sort_buncket \<times> u64 \<times> nat) option" where
  "SortBuncket_Expand a raw b =
     (let m = last_pos b div 2
      in map_option (\<lambda>next.
           (b\<lparr>sb_records := (sb_records b)[m := (sb_records b ! m)\<lparr>kv_value := 0\<rparr>], sb_next := Some a,
              sb_entries := (sb_entries b + 256 - sb_entries next) mod 256, last_pos := m\<rparr>,
            next\<lparr>sb_next := sb_next b\<rparr>, SortBuncket_key b m, 0))
         (expand_move b [m..<last_pos b] (SortBuncket raw)))"

text \<open>
  \<^verbatim>\<open>Scan\<close>: the records of this node and of the nodes behind it; \<open>st\<close> holds the nodes. The position that is
  found for \<^verbatim>\<open>start_key\<close> is stored in a variable of its own block. \<open>None\<close> is a chain that does not end.
\<close>

function sb_scan_loop :: "sort_buncket \<Rightarrow> nat \<Rightarrow> int \<times> (u64 \<times> u64) list \<Rightarrow> int \<times> (u64 \<times> u64) list" where
  "sb_scan_loop b pos s =
     (if pos < last_pos b \<and> 0 < fst s
      then sb_scan_loop b (Suc pos) (if SortBuncket_key b pos \<noteq> 0 then (fst s - 1, snd s @ [(SortBuncket_key b pos, SortBuncket_value b pos)]) else s)
      else s)"
  by pat_completeness auto
termination
  by (relation "measure (\<lambda>(b, pos, s). last_pos b - pos)") auto

partial_function (option) sb_scan_chain ::
  "(nat \<Rightarrow> sort_buncket) \<Rightarrow> nat \<Rightarrow> int \<times> (u64 \<times> u64) list \<Rightarrow> (int \<times> (u64 \<times> u64) list) option" where
  "sb_scan_chain st p s =
     (if fst s \<le> 0 then Some s
      else let s' = sb_scan_loop (st p) 0 s
           in case sb_next (st p) of None \<Rightarrow> Some s' | Some p' \<Rightarrow> sb_scan_chain st p' s')"

definition SortBuncket_Scan ::
  "(nat \<Rightarrow> sort_buncket) \<Rightarrow> sort_buncket \<Rightarrow> u64 \<Rightarrow> int \<times> (u64 \<times> u64) list \<Rightarrow> (status \<times> int \<times> (u64 \<times> u64) list) option" where
  "SortBuncket_Scan st b start_key s =
     (let (find, pos) = LinearFind b start_key
      in if start_key \<noteq> 0 \<and> (\<not> find \<or> SortBuncket_value b pos = 0) then Some (NoExist, s)
         else map_option (\<lambda>s. (if 0 < fst s then Failed else OK, s))
           (let s' = sb_scan_loop b 0 s
            in case sb_next b of None \<Rightarrow> Some s' | Some p \<Rightarrow> sb_scan_chain st p s'))"

text \<open>The iterator.\<close>

record sb_iter =
  si_prefix_key :: u64
  si_cur :: sort_buncket
  si_idx :: nat

definition sb_iter_from :: "sort_buncket \<Rightarrow> u64 \<Rightarrow> u64 \<Rightarrow> sb_iter" where
  "sb_iter_from b prefix_key start_key =
     \<lparr>si_prefix_key = prefix_key, si_cur = b, si_idx = if start_key \<le> prefix_key then 0 else snd (SortBuncket_Find b start_key)\<rparr>"

definition sb_iter_new :: "sort_buncket \<Rightarrow> u64 \<Rightarrow> sb_iter" where
  "sb_iter_new b prefix_key = \<lparr>si_prefix_key = prefix_key, si_cur = b, si_idx = 0\<rparr>"

definition sb_iter_item :: "sb_iter \<Rightarrow> u64 \<times> u64" where
  "sb_iter_item it = (SortBuncket_key (si_cur it) (si_idx it), SortBuncket_value (si_cur it) (si_idx it))"

function sb_iter_skip :: "sort_buncket \<Rightarrow> nat \<Rightarrow> nat" where
  "sb_iter_skip b i = (if SortBuncket_key b i = 0 \<and> i < last_pos b then sb_iter_skip b (Suc i) else i)"
  by pat_completeness auto
termination
  by (relation "measure (\<lambda>(b, i). last_pos b - i)") auto

definition sb_iter_next :: "sb_iter \<Rightarrow> sb_iter \<times> bool" where
  "sb_iter_next it =
     (let i = sb_iter_skip (si_cur it) (Suc (si_idx it)) in (it\<lparr>si_idx := i\<rparr>, i < last_pos (si_cur it)))"

definition sb_iter_end :: "sb_iter \<Rightarrow> bool" where
  "sb_iter_end it \<longleftrightarrow> last_pos (si_cur it) \<le> si_idx it"

declare sb_compact_shift.simps [simp del] remove_key_loop.simps [simp del] LinearFind_loop.simps [simp del]
  SortBuncket_Find_loop.simps [simp del] sb_scan_loop.simps [simp del] sb_iter_skip.simps [simp del]

section \<open>A node without holes\<close>

abbreviation sb_live :: "sort_buncket \<Rightarrow> kventry list" where
  "sb_live b \<equiv> take (last_pos b) (sb_records b)"

definition skeys :: "sort_buncket \<Rightarrow> u64 list" where
  "skeys b = map kv_key (sb_live b)"

definition sb_map :: "sort_buncket \<Rightarrow> u64 \<rightharpoonup> u64" where
  "sb_map b = map_of (map kv_pair (sb_live b))"

definition sb_ok :: "sort_buncket \<Rightarrow> bool" where
  "sb_ok b \<longleftrightarrow> length (sb_records b) = sb_entry_count \<and> sb_max_entries b = sb_entry_count \<and> sb_entries b = last_pos b \<and>
     last_pos b \<le> sb_entry_count \<and> sorted_wrt (<) (skeys b) \<and> 0 \<notin> set (skeys b)"

lemma sb_entry_count_eq: "sb_entry_count = 15"
  by (simp add: sb_entry_count_def sb_buf_size_def)

lemma skeys_props:
  assumes "sb_ok b"
  shows "length (skeys b) = last_pos b" and "i < last_pos b \<Longrightarrow> skeys b ! i = SortBuncket_key b i"
    and "i < j \<Longrightarrow> j < last_pos b \<Longrightarrow> SortBuncket_key b i < SortBuncket_key b j"
    and "dom (sb_map b) = set (skeys b)"
proof -
  show len: "length (skeys b) = last_pos b" using assms by (simp add: sb_ok_def skeys_def)
  show nth: "i < last_pos b \<Longrightarrow> skeys b ! i = SortBuncket_key b i" for i
    using assms by (simp add: sb_ok_def skeys_def SortBuncket_key_def)
  show "i < j \<Longrightarrow> j < last_pos b \<Longrightarrow> SortBuncket_key b i < SortBuncket_key b j"
    using assms sorted_wrt_nth_less [of "(<)" "skeys b" i j] len nth by (simp add: sb_ok_def)
  show "dom (sb_map b) = set (skeys b)" by (simp add: sb_map_def skeys_def dom_map_of_conv_image_fst kv_pair_def image_image)
qed

lemma sb_map_at:
  assumes "sb_ok b" and "i < last_pos b"
  shows "sb_map b (SortBuncket_key b i) = Some (SortBuncket_value b i)"
proof -
  have "distinct (map fst (map kv_pair (sb_live b)))"
    using assms(1) by (auto simp: sb_ok_def skeys_def strict_sorted_iff kv_pair_def comp_def)
  moreover have "(SortBuncket_key b i, SortBuncket_value b i) \<in> set (map kv_pair (sb_live b))"
  proof -
    have "sb_records b ! i \<in> set (sb_live b)" using assms by (auto simp: sb_ok_def in_set_conv_nth)
    then show ?thesis by (force simp: kv_pair_def SortBuncket_key_def SortBuncket_value_def)
  qed
  ultimately show ?thesis unfolding sb_map_def by (rule map_of_is_SomeI)
qed

subsection \<open>The searches\<close>

lemma LinearFind_loop_spec:
  assumes "i \<le> last_pos b" and "\<And>j. j < i \<Longrightarrow> SortBuncket_key b j < k"
  shows "LinearFind_loop b k i \<le> last_pos b \<and> (\<forall>j < LinearFind_loop b k i. SortBuncket_key b j < k) \<and>
    (LinearFind_loop b k i < last_pos b \<longrightarrow> k \<le> SortBuncket_key b (LinearFind_loop b k i))"
  using assms
proof (induction "last_pos b - i" arbitrary: i rule: less_induct)
  case less
  show ?case
  proof (cases "i < last_pos b \<and> SortBuncket_key b i < k")
    case True
    then have step: "LinearFind_loop b k i = LinearFind_loop b k (Suc i)" by (subst LinearFind_loop.simps) simp
    show ?thesis unfolding step by (rule less.hyps) (use less.prems True in \<open>auto simp: less_Suc_eq\<close>)
  next
    case False
    then have "LinearFind_loop b k i = i" by (subst LinearFind_loop.simps) auto
    then show ?thesis using less.prems False by auto
  qed
qed

text \<open>The position of a key in a sorted node is unique.\<close>

lemma position_unique:
  assumes ok: "sb_ok b" and p: "p \<le> last_pos b" "\<And>j. j < p \<Longrightarrow> SortBuncket_key b j < k" "p < last_pos b \<Longrightarrow> k \<le> SortBuncket_key b p"
    and q: "q \<le> last_pos b" "\<And>j. j < q \<Longrightarrow> SortBuncket_key b j < k" "q < last_pos b \<Longrightarrow> k \<le> SortBuncket_key b q"
  shows "p = q"
proof (rule ccontr)
  assume "p \<noteq> q"
  then consider "p < q" | "q < p" by linarith
  then show False
  proof cases
    case 1
    then show False using q(2) [OF 1] p(3) q(1) by auto
  next
    case 2
    then show False using p(2) [OF 2] q(3) p(1) by auto
  qed
qed

lemma Find_loop_spec:
  assumes ok: "sb_ok b" and "0 \<le> left" and "left \<le> right + 1" and "right < int (last_pos b)"
    and "\<And>j. int j < left \<Longrightarrow> SortBuncket_key b j < k" and "\<And>j. right < int j \<Longrightarrow> j < last_pos b \<Longrightarrow> k < SortBuncket_key b j"
  shows "\<exists>p. SortBuncket_Find_loop b k left right = (p < last_pos b \<and> SortBuncket_key b p = k, int p) \<and> p \<le> last_pos b \<and>
    (\<forall>j<p. SortBuncket_key b j < k) \<and> (p < last_pos b \<longrightarrow> k \<le> SortBuncket_key b p)"
  using assms(2-)
proof (induction "nat (right - left + 1)" arbitrary: left right rule: less_induct)
  case less
  show ?case
  proof (cases "left \<le> right")
    case False
    then have eq: "left = right + 1" using less.prems(2) by simp
    have "SortBuncket_Find_loop b k left right = (False, left)" using False by (subst SortBuncket_Find_loop.simps) simp
    moreover have "\<not> (nat left < last_pos b \<and> SortBuncket_key b (nat left) = k)"
      using less.prems(5) [of "nat left"] less.prems(1) eq by auto
    ultimately show ?thesis
      using less.prems eq by (intro exI [of _ "nat left"]) (auto intro: less_imp_le)
  next
    case True
    define mid where "mid = (left + right) div 2"
    have mid: "left \<le> mid" "mid \<le> right" using True by (auto simp: mid_def)
    have lt: "nat mid < last_pos b" using mid less.prems(1,3) by linarith
    consider "SortBuncket_key b (nat mid) = k" | "k < SortBuncket_key b (nat mid)" | "SortBuncket_key b (nat mid) < k" by force
    then show ?thesis
    proof cases
      case 1
      have "SortBuncket_Find_loop b k left right = (True, mid)"
        using True 1 by (subst SortBuncket_Find_loop.simps) (simp add: Let_def mid_def)
      moreover have "\<forall>j<nat mid. SortBuncket_key b j < k" using skeys_props(3) [OF ok _ lt] 1 by blast
      ultimately show ?thesis using lt 1 mid less.prems(1) by (intro exI [of _ "nat mid"]) auto
    next
      case 2
      have step: "SortBuncket_Find_loop b k left right = SortBuncket_Find_loop b k left (mid - 1)"
        using True 2 by (subst SortBuncket_Find_loop.simps) (auto simp: Let_def mid_def)
      have above: "k < SortBuncket_key b j" if "mid - 1 < int j" "j < last_pos b" for j
      proof (cases "j = nat mid")
        case False
        then have "nat mid < j" using that mid less.prems(1) by linarith
        then show ?thesis using skeys_props(3) [OF ok _ that(2)] 2 by (metis order.strict_trans)
      qed (use 2 in simp)
      show ?thesis unfolding step
        by (rule less.hyps) (use mid less.prems above in auto)
    next
      case 3
      have step: "SortBuncket_Find_loop b k left right = SortBuncket_Find_loop b k (mid + 1) right"
        using True 3 by (subst SortBuncket_Find_loop.simps) (auto simp: Let_def mid_def)
      have below: "SortBuncket_key b j < k" if "int j < mid + 1" for j
      proof (cases "j = nat mid")
        case False
        then have "j < nat mid" using that by linarith
        then show ?thesis using skeys_props(3) [OF ok _ lt] 3 by (metis order.strict_trans)
      qed (use 3 in simp)
      show ?thesis unfolding step
        by (rule less.hyps) (use mid less.prems below in auto)
    qed
  qed
qed

lemma Find_eq_LinearFind:
  assumes ok: "sb_ok b"
  shows "SortBuncket_Find b k = LinearFind b k"
proof -
  have ent: "sb_entries b = last_pos b" using ok by (simp add: sb_ok_def)
  obtain p where p: "SortBuncket_Find_loop b k 0 (int (last_pos b) - 1) = (p < last_pos b \<and> SortBuncket_key b p = k, int p)" "p \<le> last_pos b"
    "\<forall>j<p. SortBuncket_key b j < k" "p < last_pos b \<longrightarrow> k \<le> SortBuncket_key b p"
    using Find_loop_spec [OF ok, of 0 "int (last_pos b) - 1" k] by auto
  note q = LinearFind_loop_spec [of 0 b k]
  have "p = LinearFind_loop b k 0" using position_unique [OF ok, of p k "LinearFind_loop b k 0"] p q by auto
  then show ?thesis using p(1) by (auto simp: SortBuncket_Find_def LinearFind_def ent Let_def)
qed

lemma LinearFind_found:
  assumes ok: "sb_ok b"
  shows "fst (LinearFind b k) \<longleftrightarrow> k \<in> dom (sb_map b)"
    and "fst (LinearFind b k) \<Longrightarrow> snd (LinearFind b k) < last_pos b \<and> SortBuncket_key b (snd (LinearFind b k)) = k"
proof -
  let ?i = "LinearFind_loop b k 0"
  note q = LinearFind_loop_spec [of 0 b k]
  show "fst (LinearFind b k) \<Longrightarrow> snd (LinearFind b k) < last_pos b \<and> SortBuncket_key b (snd (LinearFind b k)) = k"
    by (simp add: LinearFind_def Let_def)
  have "?i < last_pos b \<and> k = SortBuncket_key b ?i" if k: "k \<in> set (skeys b)"
  proof -
    obtain j where j: "j < last_pos b" "SortBuncket_key b j = k"
      using k skeys_props(1,2) [OF ok] by (auto simp: in_set_conv_nth)
    have "?i = j"
      by (rule position_unique [OF ok]) (use q j skeys_props(3) [OF ok] in auto)
    then show ?thesis using j by simp
  qed
  moreover have "k \<in> set (skeys b)" if "?i < last_pos b" "k = SortBuncket_key b ?i"
    using that skeys_props(1,2) [OF ok] nth_mem [of ?i "skeys b"] by auto
  ultimately show "fst (LinearFind b k) \<longleftrightarrow> k \<in> dom (sb_map b)"
    unfolding skeys_props(4) [OF ok] by (auto simp: LinearFind_def Let_def)
qed

subsection \<open>Insertion\<close>

text \<open>The position that the loop of \<^verbatim>\<open>PutBufKV\<close> frees.\<close>

fun ins_pos :: "kventry list \<Rightarrow> u64 \<Rightarrow> nat \<Rightarrow> nat" where
  "ins_pos rs k 0 = 0"
| "ins_pos rs k (Suc i) = (if k < kv_key (rs ! i) then ins_pos rs k i else Suc i)"

lemma ins_pos_le: "ins_pos rs k i \<le> i"
  by (induction i) auto

lemma ins_pos_cong: "(\<And>j. j < i \<Longrightarrow> rs ! j = rs' ! j) \<Longrightarrow> ins_pos rs k i = ins_pos rs' k i"
  by (induction i) auto

lemma ins_pos_spec: "j < i \<Longrightarrow> ins_pos rs k i \<le> j \<Longrightarrow> k < kv_key (rs ! j)"
  "0 < ins_pos rs k i \<Longrightarrow> kv_key (rs ! (ins_pos rs k i - 1)) \<le> k"
  by (induction i) (auto simp: less_Suc_eq split: if_splits)

lemma move_up_eq:
  assumes "i < length rs"
  shows "\<exists>rs' ins. move_up rs e i = Some (rs', ins) \<and>
    (if ins then rs' else rs'[0 := e]) = take (ins_pos rs (kv_key e) i) rs @ e # drop (ins_pos rs (kv_key e) i) (take i rs) @ drop (Suc i) rs"
  using assms
proof (induction i arbitrary: rs)
  case 0
  then show ?case by (cases rs) auto
next
  case (Suc i)
  show ?case
  proof (cases "kv_key e < kv_key (rs ! i)")
    case False
    then show ?thesis using Suc.prems
      by (intro exI [of _ "rs[Suc i := e]"] exI [of _ True]) (simp add: upd_conv_take_nth_drop)
  next
    case True
    let ?rs = "rs[Suc i := rs ! i]" and ?p = "ins_pos rs (kv_key e) i"
    have p: "ins_pos ?rs (kv_key e) i = ?p" "?p \<le> i" by (auto intro: ins_pos_cong ins_pos_le)
    obtain rs' ins where r: "move_up ?rs e i = Some (rs', ins)"
      "(if ins then rs' else rs'[0 := e]) = take ?p ?rs @ e # drop ?p (take i ?rs) @ drop (Suc i) ?rs"
      using Suc.IH [of ?rs] Suc.prems p(1) by auto
    have "drop (Suc i) ?rs = rs ! i # drop (Suc (Suc i)) rs" using Suc.prems by (simp add: drop_update_swap Cons_nth_drop_Suc [symmetric])
    moreover have "take (Suc i) rs = take i rs @ [rs ! i]" using Suc.prems by (simp add: take_Suc_conv_app_nth)
    then have "drop ?p (take (Suc i) rs) = drop ?p (take i rs) @ [rs ! i]" using p(2) Suc.prems by simp
    moreover have "take ?p ?rs = take ?p rs" "take i ?rs = take i rs" using p(2) by simp_all
    ultimately show ?thesis using r True Suc.prems by simp
  qed
qed

lemma map_of_insert_at:
  assumes "k \<notin> fst ` set xs"
  shows "map_of (take p xs @ (k, v) # drop p xs) = (map_of xs)(k \<mapsto> v)"
proof -
  have "k \<notin> dom (map_of (take p xs))" using assms by (auto simp: dom_map_of_conv_image_fst dest: in_set_takeD)
  moreover have "map_of xs = map_of (drop p xs) ++ map_of (take p xs)" by (metis append_take_drop_id map_of_append)
  ultimately show ?thesis by (simp add: map_add_upd_left)
qed

lemma SortBuncket_PutBufKV_ok:
  assumes ok: "sb_ok b" and k: "k \<noteq> 0" "k \<notin> set (skeys b)" and room: "last_pos b < sb_entry_count"
  obtains b' where "SortBuncket_PutBufKV b k v = Some (OK, b')" and "last_pos b' = last_pos b" and "sb_entries b' = sb_entries b"
    and "sb_ok (sb_bump b')"
    and "sb_map (sb_bump b') = (sb_map b)(k \<mapsto> v)" and "sb_next b' = sb_next b"
proof -
  define e where "e = \<lparr>kv_key = k, kv_value = v\<rparr>"
  have e: "kv_key e = k" "kv_pair e = (k, v)" by (simp_all add: e_def kv_pair_def)
  let ?rs = "sb_records b" and ?n = "last_pos b"
  let ?p = "ins_pos ?rs k ?n"
  have len: "length ?rs = 15" and max: "sb_max_entries b = 15" and ent: "sb_entries b = ?n" and n: "?n < 15"
    using ok room by (simp_all add: sb_ok_def sb_entry_count_eq)
  obtain rs where run: "SortBuncket_PutBufKV b k v = Some (OK, b\<lparr>sb_records := rs\<rparr>)" and rs: "take (Suc ?n) rs = take ?p (sb_live b) @ e # drop ?p (sb_live b)"
    and lrs: "length rs = 15"
  proof (cases "?n = 0")
    case True
    let ?r = "?rs[0 := e]"
    have "take (Suc 0) (?r[1 := (?r ! 1)\<lparr>kv_value := 0\<rparr>]) = [e]" using len by (cases ?rs) auto
    then show thesis using that [of "?r[1 := (?r ! 1)\<lparr>kv_value := 0\<rparr>]"] True ent max len by (simp add: SortBuncket_PutBufKV_def e_def Let_def)
  next
    case False
    obtain rs' ins where m: "move_up ?rs e ?n = Some (rs', ins)"
      "(if ins then rs' else rs'[0 := e]) = take ?p ?rs @ e # drop ?p (take ?n ?rs) @ drop (Suc ?n) ?rs"
      using move_up_eq [of ?n ?rs e] n len e(1) by auto
    have pn: "?p \<le> ?n" by (rule ins_pos_le)
    have "take (Suc ?n) (take ?p ?rs @ e # drop ?p (take ?n ?rs) @ drop (Suc ?n) ?rs) = take ?p (sb_live b) @ e # drop ?p (sb_live b)"
      using pn n len by (simp add: min_def take_Cons' Suc_diff_le)
    then show thesis
      using that [of "if ins then rs' else rs'[0 := e]"] m False ent max n len pn
      by (simp add: SortBuncket_PutBufKV_def e_def [symmetric] Let_def)
  qed
  let ?b = "b\<lparr>sb_records := rs, sb_entries := ?n + 1, last_pos := ?n + 1\<rparr>"
  have bump: "sb_bump (b\<lparr>sb_records := rs\<rparr>) = ?b" using ent n by (simp add: sb_bump_def)
  have pn: "?p \<le> ?n" by (rule ins_pos_le)
  have keys: "skeys ?b = take ?p (skeys b) @ k # drop ?p (skeys b)" using rs by (simp add: skeys_def e(1) take_map drop_map)
  have low: "x < k" if x: "x \<in> set (take ?p (skeys b))" for x
  proof -
    obtain j where "j < length (take ?p (skeys b))" "take ?p (skeys b) ! j = x" using x unfolding in_set_conv_nth by blast
    then have j: "j < ?p" "x = skeys b ! j" by auto
    have "skeys b ! (?p - 1) \<le> k" using ins_pos_spec(2) [of ?rs k ?n] j pn skeys_props(2) [OF ok, of "?p - 1"] by (auto simp: SortBuncket_key_def)
    moreover have "skeys b ! j \<le> skeys b ! (?p - 1)"
      using j(1) pn skeys_props(1) [OF ok] ok by (intro sorted_nth_mono) (auto simp: sb_ok_def strict_sorted_iff)
    moreover have "x \<in> set (skeys b)" using x by (rule in_set_takeD)
    ultimately show ?thesis using j(2) k(2) by (metis order.trans order.not_eq_order_implies_strict)
  qed
  have high: "k < x" if x: "x \<in> set (drop ?p (skeys b))" for x
  proof -
    obtain i where "i < length (drop ?p (skeys b))" "drop ?p (skeys b) ! i = x" using x unfolding in_set_conv_nth by blast
    then have j: "?p \<le> ?p + i" "?p + i < ?n" "x = skeys b ! (?p + i)" using skeys_props(1) [OF ok] pn by auto
    then show ?thesis using ins_pos_spec(1) [of "?p + i" ?n ?rs k] skeys_props(2) [OF ok, of "?p + i"] by (simp add: SortBuncket_key_def)
  qed
  have "sorted_wrt (<) (take ?p (skeys b) @ drop ?p (skeys b))" using ok by (simp add: sb_ok_def)
  then have sorted: "sorted_wrt (<) (skeys ?b)" unfolding keys sorted_wrt_append using low high by auto
  have zero: "0 \<notin> set (skeys ?b)" unfolding keys using ok k(1) by (auto simp: sb_ok_def dest: in_set_takeD in_set_dropD)
  have okb: "sb_ok ?b" using sorted zero lrs ent max n by (simp add: sb_ok_def sb_entry_count_eq)
  have "k \<notin> fst ` set (map kv_pair (sb_live b))" using k(2) by (simp add: skeys_def kv_pair_def image_image)
  then have "sb_map ?b = (sb_map b)(k \<mapsto> v)"
    using map_of_insert_at [of k "map kv_pair (sb_live b)" ?p v] rs e(2) by (simp add: sb_map_def take_map drop_map)
  then show thesis using that [OF run] okb bump by simp
qed

lemma SortBuncket_Put_spec:
  assumes ok: "sb_ok b" and k: "k \<noteq> 0" "k \<notin> dom (sb_map b)"
  shows "if card (dom (sb_map b)) = sb_entry_count then SortBuncket_Put b k v = Some (Full, b)
    else \<exists>b'. SortBuncket_Put b k v = Some (OK, b') \<and> sb_ok b' \<and> sb_map b' = (sb_map b)(k \<mapsto> v)"
proof -
  have n: "card (dom (sb_map b)) = last_pos b"
    using ok skeys_props(1,4) [OF ok] by (metis distinct_card sb_ok_def strict_sorted_iff)
  show ?thesis
  proof (cases "last_pos b = sb_entry_count")
    case True
    then show ?thesis using ok n by (simp add: SortBuncket_Put_def SortBuncket_PutBufKV_def sb_ok_def Let_def)
  next
    case False
    then have room: "last_pos b < sb_entry_count" using ok by (simp add: sb_ok_def)
    obtain b' where "SortBuncket_PutBufKV b k v = Some (OK, b')" "sb_ok (sb_bump b')" "sb_map (sb_bump b') = (sb_map b)(k \<mapsto> v)"
      using SortBuncket_PutBufKV_ok [OF ok k(1) _ room, of v] k(2) skeys_props(4) [OF ok] by metis
    then show ?thesis using False n by (simp add: SortBuncket_Put_def)
  qed
qed

lemma SortBuncket_Get_spec:
  assumes ok: "sb_ok b"
  shows "SortBuncket_Get b k v0 = (case sb_map b k of None \<Rightarrow> (NoExist, v0) | Some v \<Rightarrow> if v = 0 then (NoExist, v0) else (OK, v))"
proof (cases "fst (LinearFind b k)")
  case True
  then have pos: "snd (LinearFind b k) < last_pos b" "SortBuncket_key b (snd (LinearFind b k)) = k" using LinearFind_found(2) [OF ok] by auto
  then have "sb_map b k = Some (SortBuncket_value b (snd (LinearFind b k)))" using sb_map_at [OF ok pos(1)] by simp
  then show ?thesis using True by (simp add: SortBuncket_Get_def case_prod_beta)
next
  case False
  then have "sb_map b k = None" using LinearFind_found(1) [OF ok, of k] by auto
  then show ?thesis using False by (simp add: SortBuncket_Get_def case_prod_beta)
qed

lemma set_value_ok:
  fixes v :: u64
  assumes ok: "sb_ok b" and i: "i < last_pos b"
  defines "b' \<equiv> b\<lparr>sb_records := (sb_records b)[i := (sb_records b ! i)\<lparr>kv_value := v\<rparr>]\<rparr>"
  shows "sb_ok b'" and "sb_map b' = (sb_map b)(SortBuncket_key b i \<mapsto> v)"
proof -
  have len: "length (sb_records b) = sb_entry_count" "last_pos b \<le> sb_entry_count" using ok by (simp_all add: sb_ok_def)
  have keys: "skeys b' = skeys b"
    using i len by (auto simp: b'_def skeys_def list_eq_iff_nth_eq nth_list_update)
  then show ok': "sb_ok b'" using ok by (simp add: sb_ok_def b'_def)
  have kv: "SortBuncket_key b' j = SortBuncket_key b j" "SortBuncket_value b' j = (if j = i then v else SortBuncket_value b j)" if "j < last_pos b" for j
    using that i len by (auto simp: b'_def SortBuncket_key_def SortBuncket_value_def nth_list_update)
  have lp: "last_pos b' = last_pos b" by (simp add: b'_def)
  show "sb_map b' = (sb_map b)(SortBuncket_key b i \<mapsto> v)"
  proof
    fix x
    show "sb_map b' x = ((sb_map b)(SortBuncket_key b i \<mapsto> v)) x"
    proof (cases "x \<in> set (skeys b)")
      case True
      then obtain j where j: "j < last_pos b" "x = SortBuncket_key b j" using skeys_props(1,2) [OF ok] by (auto simp: in_set_conv_nth)
      have "SortBuncket_key b j = SortBuncket_key b i \<Longrightarrow> j = i" using skeys_props(3) [OF ok] i j(1) by (metis less_irrefl linorder_neqE_nat)
      then show ?thesis using sb_map_at [OF ok j(1)] sb_map_at [OF ok', of j] kv [OF j(1)] j lp by auto
    next
      case False
      then have "sb_map b x = None" "sb_map b' x = None" using skeys_props(4) [OF ok] skeys_props(4) [OF ok'] keys by auto
      moreover have "x \<noteq> SortBuncket_key b i" using False i skeys_props(1,2) [OF ok] nth_mem by metis
      ultimately show ?thesis by simp
    qed
  qed
qed

lemma SortBuncket_Update_spec:
  assumes ok: "sb_ok b"
  shows "case sb_map b k of
      None \<Rightarrow> SortBuncket_Update b k v = (NoExist, b)
    | Some w \<Rightarrow> if w = 0 then SortBuncket_Update b k v = (NoExist, b)
        else fst (SortBuncket_Update b k v) = OK \<and> sb_ok (snd (SortBuncket_Update b k v)) \<and>
          sb_map (snd (SortBuncket_Update b k v)) = (sb_map b)(k \<mapsto> v)"
proof (cases "fst (LinearFind b k)")
  case True
  let ?p = "snd (LinearFind b k)"
  have pos: "?p < last_pos b" "SortBuncket_key b ?p = k" using True LinearFind_found(2) [OF ok] by auto
  have m: "sb_map b k = Some (SortBuncket_value b ?p)" using sb_map_at [OF ok pos(1)] pos(2) by simp
  show ?thesis using True m set_value_ok [OF ok pos(1), where v = v] pos(2)
    by (simp add: SortBuncket_Update_def Find_eq_LinearFind [OF ok] case_prod_beta)
next
  case False
  then have "sb_map b k = None" using LinearFind_found(1) [OF ok, of k] by auto
  then show ?thesis using False by (simp add: SortBuncket_Update_def Find_eq_LinearFind [OF ok] case_prod_beta)
qed

subsection \<open>The split\<close>

lemma key_inj:
  assumes "sb_ok b" and "i < last_pos b" and "j < last_pos b" and "SortBuncket_key b i = SortBuncket_key b j"
  shows "i = j"
  using assms skeys_props(3) [OF assms(1)] by (metis less_irrefl linorder_neqE_nat)

lemma key_of_dom:
  assumes "sb_ok b" and "x \<in> dom (sb_map b)"
  obtains j where "j < last_pos b" and "x = SortBuncket_key b j"
  using assms skeys_props [OF assms(1)] by (auto simp: in_set_conv_nth)

lemma expand_move_spec:
  assumes ok: "sb_ok b" and "sb_ok next" and "i \<le> last_pos b" and "last_pos next + (last_pos b - i) \<le> sb_entry_count"
    and "\<And>j. i \<le> j \<Longrightarrow> j < last_pos b \<Longrightarrow> SortBuncket_key b j \<notin> dom (sb_map next)"
  shows "\<exists>next'. expand_move b [i..<last_pos b] next = Some next' \<and> sb_ok next' \<and>
    last_pos next' = last_pos next + (last_pos b - i) \<and>
    sb_map next' = sb_map next ++ (sb_map b |` (SortBuncket_key b ` {i..<last_pos b}))"
  using assms(2-)
proof (induction "last_pos b - i" arbitrary: i "next")
  case 0
  then show ?case by auto
next
  case (Suc d)
  let ?n = "last_pos b" and ?k = "SortBuncket_key b i" and ?v = "SortBuncket_value b i"
  have lt: "i < ?n" using Suc.hyps(2) by simp
  have k: "?k \<noteq> 0" "?k \<notin> set (skeys next)"
    using ok lt skeys_props(1,2) [OF ok] nth_mem [of i "skeys b"] Suc.prems(4) [of i] skeys_props(4) [OF Suc.prems(1)]
    by (auto simp: sb_ok_def)
  obtain n1 where n1: "SortBuncket_PutBufKV next ?k ?v = Some (OK, n1)" "last_pos n1 = last_pos next"
    "sb_ok (sb_bump n1)" "sb_map (sb_bump n1) = (sb_map next)(?k \<mapsto> ?v)"
    by (rule SortBuncket_PutBufKV_ok [OF Suc.prems(1) k, of ?v]) (use Suc.prems(3) lt in auto)
  have lp: "last_pos (sb_bump n1) = Suc (last_pos next)"
    using n1(2) Suc.prems(3) lt by (simp add: sb_bump_def sb_entry_count_eq)
  have step: "expand_move b [i..<?n] next = expand_move b [Suc i..<?n] (sb_bump n1)"
    using k(1) n1(1) lt by (simp add: upt_conv_Cons)
  have fresh: "SortBuncket_key b j \<notin> dom (sb_map (sb_bump n1))" if "Suc i \<le> j" "j < ?n" for j
    using Suc.prems(4) [of j] that key_inj [OF ok lt, of j] n1(4) by auto
  have d: "d = ?n - Suc i" "Suc i \<le> ?n" using Suc.hyps(2) lt by simp_all
  have room: "last_pos (sb_bump n1) + (?n - Suc i) \<le> sb_entry_count" using lp lt Suc.prems(3) by linarith
  obtain n2 where n2: "expand_move b [Suc i..<?n] (sb_bump n1) = Some n2" "sb_ok n2"
    "last_pos n2 = last_pos (sb_bump n1) + (?n - Suc i)" "sb_map n2 = sb_map (sb_bump n1) ++ (sb_map b |` (SortBuncket_key b ` {Suc i..<?n}))"
    using Suc.hyps(1) [OF d(1) n1(3) d(2) room fresh] by metis
  have "{i..<?n} = insert i {Suc i..<?n}" using lt by auto
  then have "sb_map b |` (SortBuncket_key b ` {i..<?n}) = (sb_map b |` (SortBuncket_key b ` {Suc i..<?n}))(?k \<mapsto> ?v)"
    using sb_map_at [OF ok lt] by (simp add: restrict_map_insert)
  moreover have "?k \<notin> SortBuncket_key b ` {Suc i..<?n}"
  proof
    assume "?k \<in> SortBuncket_key b ` {Suc i..<?n}"
    then obtain j where "Suc i \<le> j" "j < ?n" "?k = SortBuncket_key b j" by auto
    then show False using key_inj [OF ok lt, of j] by simp
  qed
  then have "?k \<notin> dom (sb_map b |` (SortBuncket_key b ` {Suc i..<?n}))" by simp
  ultimately have "sb_map n2 = sb_map next ++ (sb_map b |` (SortBuncket_key b ` {i..<?n}))"
    unfolding n2(4) n1(4) by (simp add: map_add_upd_left)
  then show ?case using step n2 lp lt by auto
qed

lemma truncate_ok:
  fixes nx :: "nat option"
  assumes ok: "sb_ok b" and m: "m < last_pos b"
  defines "b' \<equiv> b\<lparr>sb_records := (sb_records b)[m := (sb_records b ! m)\<lparr>kv_value := 0\<rparr>], sb_next := nx, sb_entries := m, last_pos := m\<rparr>"
  shows "sb_ok b'" and "sb_map b' = sb_map b |` {x. x < SortBuncket_key b m}"
proof -
  have len: "length (sb_records b) = sb_entry_count" "last_pos b \<le> sb_entry_count" using ok by (simp_all add: sb_ok_def)
  have keys: "skeys b' = take m (skeys b)" using m len by (simp add: b'_def skeys_def take_map)
  then show ok': "sb_ok b'"
    using ok m by (auto simp: sb_ok_def b'_def sorted_wrt_take dest: in_set_takeD)
  have lp: "last_pos b' = m" by (simp add: b'_def)
  have kv: "SortBuncket_key b' j = SortBuncket_key b j" "SortBuncket_value b' j = SortBuncket_value b j" if "j < m" for j
    using that by (auto simp: b'_def SortBuncket_key_def SortBuncket_value_def)
  show "sb_map b' = sb_map b |` {x. x < SortBuncket_key b m}"
  proof
    fix x
    show "sb_map b' x = (sb_map b |` {x. x < SortBuncket_key b m}) x"
    proof (cases "x \<in> dom (sb_map b')")
      case True
      then obtain j where j: "j < m" "x = SortBuncket_key b' j" using key_of_dom [OF ok'] lp by metis
      then show ?thesis
        using sb_map_at [OF ok', of j] sb_map_at [OF ok, of j] kv [of j] lp m skeys_props(3) [OF ok j(1) m] by (simp add: restrict_map_def)
    next
      case False
      have "x \<notin> dom (sb_map b) \<or> \<not> x < SortBuncket_key b m"
      proof (rule ccontr)
        assume "\<not> ?thesis"
        then obtain j where j: "j < last_pos b" "x = SortBuncket_key b j" "x < SortBuncket_key b m" using key_of_dom [OF ok] by metis
        then have "j < m" using skeys_props(3) [OF ok, of m j] by (metis linorder_neqE_nat order.strict_trans less_irrefl)
        then show False using False sb_map_at [OF ok', of j] kv(1) [of j] lp j(2) by auto
      qed
      then show ?thesis using False by (auto simp: restrict_map_def)
    qed
  qed
qed

lemma SortBuncket_Expand_spec:
  assumes ok: "sb_ok b" and pos: "0 < last_pos b" and raw: "length (sb_records raw) = sb_entry_count"
  shows "\<exists>b' next sk. SortBuncket_Expand a raw b = Some (b', next, sk, 0) \<and> sb_ok b' \<and> sb_ok next \<and>
    sb_map b' = sb_map b |` {x. x < sk} \<and> sb_map next = sb_map b |` {x. sk \<le> x} \<and> sk \<in> dom (sb_map b) \<and>
    sb_next b' = Some a \<and> sb_next next = sb_next b \<and> last_pos b' + last_pos next = last_pos b \<and> last_pos b' = last_pos b div 2"
proof -
  let ?n = "last_pos b" and ?m = "last_pos b div 2"
  have m: "?m < ?n" and n: "?n \<le> 15" and ent: "sb_entries b = ?n" using ok pos by (auto simp: sb_ok_def sb_entry_count_eq)
  let ?new = "SortBuncket raw"
  have new: "sb_ok ?new" "last_pos ?new = 0" "sb_map ?new = Map.empty"
    using raw by (simp_all add: SortBuncket_def sb_ok_def skeys_def sb_map_def sb_entry_count_eq sb_buf_size_def)
  have room: "last_pos ?new + (?n - ?m) \<le> sb_entry_count" using new(2) n by (simp add: sb_entry_count_eq)
  obtain nx where nx: "expand_move b [?m..<?n] ?new = Some nx" "sb_ok nx" "last_pos nx = ?n - ?m"
    "sb_map nx = sb_map b |` (SortBuncket_key b ` {?m..<?n})"
    using expand_move_spec [OF ok new(1) less_imp_le [OF m] room] new by auto
  let ?sk = "SortBuncket_key b ?m"
  have "x \<in> SortBuncket_key b ` {?m..<?n} \<longleftrightarrow> ?sk \<le> x" if x: "x \<in> dom (sb_map b)" for x
  proof -
    obtain j where j: "j < ?n" "x = SortBuncket_key b j" using key_of_dom [OF ok x] by metis
    have "?m \<le> j \<longleftrightarrow> ?sk \<le> x"
    proof (cases "j < ?m")
      case True
      then show ?thesis using skeys_props(3) [OF ok True m] j(2) by simp
    next
      case False
      then show ?thesis using skeys_props(3) [OF ok _ j(1), of ?m] j(2) by (cases "j = ?m") auto
    qed
    then show ?thesis using j key_inj [OF ok] by fastforce
  qed
  then have upper: "sb_map nx = sb_map b |` {x. ?sk \<le> x}"
    unfolding nx(4) by (intro ext) (force simp: restrict_map_def domIff)
  have entn: "(sb_entries b + 256 - sb_entries nx) mod 256 = ?m"
    using nx(2,3) ent n by (simp add: sb_ok_def)
  have okn: "sb_ok (nx\<lparr>sb_next := sb_next b\<rparr>)" "sb_map (nx\<lparr>sb_next := sb_next b\<rparr>) = sb_map nx"
    using nx(2) by (simp_all add: sb_ok_def skeys_def sb_map_def)
  have "sb_next ?new = None" by (simp add: SortBuncket_def)
  then show ?thesis
    using truncate_ok [OF ok m, where nx = "Some a"] nx(1,3) upper entn okn sb_map_at [OF ok m] m
    by (auto simp: SortBuncket_Expand_def Let_def)
qed

section \<open>Properties of the node\<close>

text \<open>
  The nodes that insertions of new keys other than 0, updates and splits make; a split replaces the node
  and adds one. \<^verbatim>\<open>Put\<close> accepts the key 0 as well; \<open>split_with_zero\<close> below shows what comes of it.
\<close>

inductive sb_reachable :: "sort_buncket \<Rightarrow> bool" where
  new: "length (sb_records raw) = sb_entry_count \<Longrightarrow> sb_reachable (SortBuncket raw)"
| put: "sb_reachable b \<Longrightarrow> k \<noteq> 0 \<Longrightarrow> k \<notin> set (skeys b) \<Longrightarrow> SortBuncket_Put b k v = Some (st, b') \<Longrightarrow> sb_reachable b'"
| update: "sb_reachable b \<Longrightarrow> SortBuncket_Update b k v = (st, b') \<Longrightarrow> sb_reachable b'"
| split_left: "sb_reachable b \<Longrightarrow> 0 < last_pos b \<Longrightarrow> length (sb_records raw) = sb_entry_count \<Longrightarrow>
    SortBuncket_Expand a raw b = Some (b', nx, sk, pl) \<Longrightarrow> sb_reachable b'"
| split_right: "sb_reachable b \<Longrightarrow> 0 < last_pos b \<Longrightarrow> length (sb_records raw) = sb_entry_count \<Longrightarrow>
    SortBuncket_Expand a raw b = Some (b', nx, sk, pl) \<Longrightarrow> sb_reachable nx"

lemma SortBuncket_ok: "length (sb_records raw) = sb_entry_count \<Longrightarrow> sb_ok (SortBuncket raw)"
  by (simp add: SortBuncket_def sb_ok_def skeys_def sb_entry_count_eq sb_buf_size_def)

lemma SortBuncket_Put_ok:
  assumes "sb_ok b" and "k \<noteq> 0" and "k \<notin> set (skeys b)" and "SortBuncket_Put b k v = Some (st, b')"
  shows "sb_ok b'"
  using SortBuncket_Put_spec [OF assms(1,2), of v] assms skeys_props(4) [OF assms(1)] by (auto split: if_splits)

lemma SortBuncket_Update_ok: "sb_ok b \<Longrightarrow> SortBuncket_Update b k v = (st, b') \<Longrightarrow> sb_ok b'"
  using SortBuncket_Update_spec [of b k v] by (auto split: option.splits if_splits)

text \<open>
  C36. Every node that a run of insertions of new keys other than 0, updates and splits makes, without
  removals, is well formed: its counters agree and stay within the array, its keys are strictly ascending
  and none of them is 0, the mark of a hole. A run that inserts the key 0 is not covered.
\<close>

theorem sort_node_wf:
  assumes "sb_reachable b"
  shows "sb_entries b = last_pos b \<and> last_pos b \<le> sb_entry_count \<and> length (sb_records b) = sb_entry_count \<and>
    sorted_wrt (<) (skeys b) \<and> 0 \<notin> set (skeys b)"
proof -
  have "sb_ok b" using assms
  proof induction
    case (new raw)
    then show ?case by (rule SortBuncket_ok)
  next
    case (put b k v st b')
    then show ?case using SortBuncket_Put_ok by blast
  next
    case (update b k v st b')
    then show ?case using SortBuncket_Update_ok by blast
  next
    case (split_left b raw a b' nx sk pl)
    then show ?case using SortBuncket_Expand_spec [of b raw a] by auto
  next
    case (split_right b raw a b' nx sk pl)
    then show ?case using SortBuncket_Expand_spec [of b raw a] by auto
  qed
  then show ?thesis by (simp add: sb_ok_def)
qed

text \<open>
  C34. On a node without holes the binary search \<^verbatim>\<open>Find\<close> and the linear search \<^verbatim>\<open>LinearFind\<close> return the same
  position and the same answer, which is whether the key is in the map of the node.
\<close>

theorem sort_Find_is_linear:
  assumes "sb_ok b"
  shows "SortBuncket_Find b k = LinearFind b k \<and> (fst (SortBuncket_Find b k) \<longleftrightarrow> k \<in> dom (sb_map b))"
  using Find_eq_LinearFind [OF assms] LinearFind_found(1) [OF assms] by simp

text \<open>
  C35. \<^verbatim>\<open>Expand_\<close> of a node that is not empty and has no holes (no key was removed from it, and 0 was not
  inserted) keeps every pair: the keys below the split key stay in the node, the others, from the split
  key on, move to the new node, which takes over the successor.
\<close>

theorem sort_Expand_splits:
  assumes "sb_ok b" and "0 < last_pos b" and "length (sb_records raw) = sb_entry_count"
  shows "\<exists>b' next sk. SortBuncket_Expand a raw b = Some (b', next, sk, 0) \<and> sb_ok b' \<and> sb_ok next \<and>
    sb_map b' = sb_map b |` {x. x < sk} \<and> sb_map next = sb_map b |` {x. sk \<le> x} \<and> sk \<in> dom (sb_map b) \<and>
    sb_next b' = Some a \<and> sb_next next = sb_next b \<and> last_pos b' = last_pos b div 2"
  using SortBuncket_Expand_spec [OF assms, of a] by blast

section \<open>A node with a hole\<close>

definition zero_buncket :: sort_buncket where
  "zero_buncket = SortBuncket \<lparr>sb_next = None, last_pos = 0, sb_entries = 0, sb_max_entries = 0, sb_records = replicate 15 \<lparr>kv_key = 0, kv_value = 0\<rparr>\<rparr>"

definition sb_puts :: "(u64 \<times> u64) list \<Rightarrow> sort_buncket \<Rightarrow> sort_buncket option" where
  "sb_puts ps b = fold (\<lambda>(k, v) r. Option.bind r (\<lambda>b. map_option snd (SortBuncket_Put b k v))) ps (Some b)"

text \<open>An insertion next to a removed key: 3 is stored behind 5 and is not found afterwards.\<close>

lemma put_after_delete_lost:
  "Option.bind (sb_puts [(5, 50), (7, 70), (9, 90)] zero_buncket) (\<lambda>b. Option.bind (SortBuncket_Delete b 7)
     (\<lambda>(st, b). map_option (\<lambda>(st', b). (st, st', skeys b, SortBuncket_Get b 3 0)) (SortBuncket_Put b 3 30)))
   = Some (OK, OK, [5, 0, 3, 9], NoExist, 0)"
  by code_simp

text \<open>Removing the only key and inserting another one: a slot that was never written counts as a record.\<close>

lemma put_after_last_delete:
  "Option.bind (sb_puts [(5, 50)] zero_buncket) (\<lambda>b. Option.bind (SortBuncket_Delete b 5)
     (\<lambda>(st, b). map_option (\<lambda>(st', b). (st, st', sb_entries b, last_pos b)) (SortBuncket_Put b 7 70)))
   = Some (OK, OK, 1, 2)"
  by code_simp

text \<open>
  A split of a node whose middle key was removed: the split key is 0, the mark of the hole, although 5 stays
  in the node and 9 moves. A split of a node that holds the key 0 only: one entry is counted, none is live.
\<close>

lemma split_at_hole:
  "Option.bind (sb_puts [(5, 50), (7, 70), (9, 90)] zero_buncket) (\<lambda>b. Option.bind (SortBuncket_Delete b 7)
     (\<lambda>(st, b). map_option (\<lambda>(b', nx, sk, pl). (sk, skeys b', skeys nx)) (SortBuncket_Expand 8 zero_buncket b)))
   = Some (0, [5], [9])"
  by code_simp

lemma split_with_zero:
  "Option.bind (sb_puts [(0, 1)] zero_buncket)
     (\<lambda>b. map_option (\<lambda>(b', nx, sk, pl). (sb_entries b', last_pos b', skeys b', skeys nx)) (SortBuncket_Expand 8 zero_buncket b))
   = Some (1, 0, [], [])"
  by code_simp

text \<open>Loading two pairs exchanges their values.\<close>

lemma load_reverses_values:
  "map_option (\<lambda>(st, b). (st, map kv_pair (sb_live b))) (SortBuncket_Load zero_buncket [5, 7] [50, 70] 2) = Some (OK, [(5, 70), (7, 50)])"
  by code_simp

text \<open>Removing an absent key from a full node reads behind the array.\<close>

lemma delete_absent_full:
  "Option.bind (sb_puts (map (\<lambda>i. (of_nat i, 1)) [1..<16]) zero_buncket) (\<lambda>b. SortBuncket_Delete b 20) = None"
  by code_simp

section \<open>Witnesses\<close>

definition three_buncket :: sort_buncket where
  "three_buncket = \<lparr>sb_next = None, last_pos = 3, sb_entries = 3, sb_max_entries = 15,
     sb_records = [\<lparr>kv_key = 5, kv_value = 50\<rparr>, \<lparr>kv_key = 7, kv_value = 70\<rparr>, \<lparr>kv_key = 9, kv_value = 90\<rparr>] @ replicate 12 \<lparr>kv_key = 0, kv_value = 0\<rparr>\<rparr>"

lemma three_buncket_ok: "sb_ok three_buncket"
  by (simp add: three_buncket_def sb_ok_def skeys_def sb_entry_count_eq)

lemma put_one_reachable: "\<exists>b st. SortBuncket_Put zero_buncket 5 50 = Some (st, b) \<and> sb_reachable b \<and> skeys b = [5]"
proof -
  have z: "sb_reachable zero_buncket" unfolding zero_buncket_def by (rule sb_reachable.new) (simp add: sb_entry_count_eq)
  obtain st b where p: "SortBuncket_Put zero_buncket 5 50 = Some (st, b)" "skeys b = [5]"
  proof -
    have "map_option (\<lambda>(st, b). skeys b) (SortBuncket_Put zero_buncket 5 50) = Some [5]" by code_simp
    then show thesis using that by (auto simp: map_option_case split: option.splits)
  qed
  have "skeys zero_buncket = []" by (simp add: zero_buncket_def skeys_def SortBuncket_def)
  then have "sb_reachable b" using sb_reachable.put [OF z _ _ p(1)] by simp
  then show ?thesis using p by blast
qed

theorem sort_node_wf_witness:
  "\<exists>b. sb_reachable b \<and> skeys b = [5] \<and> sb_entries b = last_pos b"
  using put_one_reachable sort_node_wf by metis

theorem sort_Find_is_linear_witness:
  "sb_ok three_buncket \<and> SortBuncket_Find three_buncket 7 = LinearFind three_buncket 7 \<and> SortBuncket_Find three_buncket 7 = (True, 1)"
proof -
  have "LinearFind three_buncket 7 = (True, 1)" by code_simp
  then show ?thesis using sort_Find_is_linear [OF three_buncket_ok, of 7] three_buncket_ok by metis
qed

theorem sort_Expand_splits_witness:
  "sb_ok three_buncket \<and> (\<exists>b' next sk. SortBuncket_Expand 8 zero_buncket three_buncket = Some (b', next, sk, 0) \<and> sb_ok b' \<and> sb_ok next \<and>
    sb_map next = sb_map three_buncket |` {x. sk \<le> x})"
proof -
  have "length (sb_records zero_buncket) = sb_entry_count" by (simp add: zero_buncket_def SortBuncket_def sb_entry_count_eq)
  moreover have "0 < last_pos three_buncket" by (simp add: three_buncket_def)
  ultimately show ?thesis using sort_Expand_splits [OF three_buncket_ok, of zero_buncket 8] three_buncket_ok by blast
qed

end
