(* ===== verification/Caches.thy ===== *)
theory Caches
  imports Rmi_Model Kvlog "HOL-Library.AList"
begin

text \<open>
  The caches of \<^verbatim>\<open>src/include/logdb.h\<close> (\<^verbatim>\<open>lru_cache\<close>, \<^verbatim>\<open>shard_lru_cache\<close>) and \<^verbatim>\<open>src/include/new_cache.h\<close>
  (\<^verbatim>\<open>CacheEntry\<close>, \<^verbatim>\<open>NumaCache\<close>). A list node and a cache entry have an address; an iterator or pointer is that
  address, and following a stale one is \<open>None\<close>. An \<^verbatim>\<open>unordered_map\<close> is an association list with one
  pair per key. The mutexes are left out: every operation holds one from start to end.
\<close>

section \<open>lru\_cache\<close>

record ('k, 'v) lru_cache =
  cache_items_list :: "(nat \<times> 'k \<times> 'v) list"
  cache_items_map :: "('k \<times> nat) list"
  lru_next :: nat
  lru_max_size :: nat

definition new_lru_cache :: "nat \<Rightarrow> ('k, 'v) lru_cache" where
  "new_lru_cache max_size = \<lparr>cache_items_list = [], cache_items_map = [], lru_next = 0, lru_max_size = max_size\<rparr>"

definition list_erase :: "nat \<Rightarrow> (nat \<times> 'a) list \<Rightarrow> (nat \<times> 'a) list" where
  "list_erase i xs = filter (\<lambda>e. fst e \<noteq> i) xs"

text \<open>The tail of \<^verbatim>\<open>put\<close>: entering the front node, and dropping the last node of a list that is too long.\<close>

definition lru_enter :: "('k, 'v) lru_cache \<Rightarrow> 'k \<Rightarrow> ('k, 'v) lru_cache" where
  "lru_enter c key =
     (let m = AList.update key (fst (hd (cache_items_list c))) (cache_items_map c); c' = c\<lparr>cache_items_map := m\<rparr>
      in if lru_max_size c < length m
         then c'\<lparr>cache_items_map := AList.delete (fst (snd (last (cache_items_list c)))) m,
                cache_items_list := butlast (cache_items_list c)\<rparr>
         else c')"

definition lru_put :: "('k, 'v) lru_cache \<Rightarrow> 'k \<Rightarrow> 'v \<Rightarrow> ('k, 'v) lru_cache option" where
  "lru_put c key value =
     (let l = (lru_next c, key, value) # cache_items_list c; c' = c\<lparr>lru_next := Suc (lru_next c), cache_items_list := l\<rparr>
      in case map_of (cache_items_map c) key of
           None \<Rightarrow> Some (lru_enter c' key)
         | Some i \<Rightarrow>
             if map_of (cache_items_list c) i = None then None
             else Some (lru_enter (c'\<lparr>cache_items_list := list_erase i l, cache_items_map := AList.delete key (cache_items_map c)\<rparr>) key))"

definition lru_get :: "('k, 'v) lru_cache \<Rightarrow> 'k \<Rightarrow> ('v option \<times> ('k, 'v) lru_cache) option" where
  "lru_get c key =
     (case map_of (cache_items_map c) key of
        None \<Rightarrow> Some (None, c)
      | Some i \<Rightarrow>
          (case map_of (cache_items_list c) i of
             None \<Rightarrow> None
           | Some (k, v) \<Rightarrow> Some (Some v, c\<lparr>cache_items_list := (i, k, v) # list_erase i (cache_items_list c)\<rparr>)))"

definition lru_exists :: "('k, 'v) lru_cache \<Rightarrow> 'k \<Rightarrow> bool" where
  "lru_exists c key \<longleftrightarrow> map_of (cache_items_map c) key \<noteq> None"

definition lru_size :: "('k, 'v) lru_cache \<Rightarrow> nat" where
  "lru_size c = length (cache_items_map c)"

text \<open>The items, most recently used first.\<close>

definition lru_items :: "('k, 'v) lru_cache \<Rightarrow> ('k \<times> 'v) list" where
  "lru_items c = map snd (cache_items_list c)"

text \<open>The map holds the address of the node of each key.\<close>

definition linked :: "(nat \<times> 'k \<times> 'v) list \<Rightarrow> ('k \<times> nat) list \<Rightarrow> bool" where
  "linked l m \<longleftrightarrow> distinct (map fst l) \<and> distinct (map fst m) \<and> distinct (map fst (map snd l)) \<and>
     (\<forall>k i. map_of m k = Some i \<longleftrightarrow> (\<exists>v. (i, k, v) \<in> set l))"

definition lru_ok :: "('k, 'v) lru_cache \<Rightarrow> bool" where
  "lru_ok c \<longleftrightarrow> linked (cache_items_list c) (cache_items_map c) \<and> (\<forall>e\<in>set (cache_items_list c). fst e < lru_next c) \<and>
     length (cache_items_list c) \<le> lru_max_size c"

lemma linked_keys: "linked l m \<Longrightarrow> fst ` set m = fst ` set (map snd l)"
proof -
  assume l: "linked l m"
  have "fst ` set m = dom (map_of m)" by (simp add: dom_map_of_conv_image_fst)
  also have "\<dots> = {k. \<exists>i v. (i, k, v) \<in> set l}" using l unfolding linked_def dom_def by fastforce
  also have "\<dots> = fst ` set (map snd l)" by force
  finally show ?thesis .
qed

lemma linked_length: "linked l m \<Longrightarrow> length m = length l"
proof -
  assume l: "linked l m"
  have "length m = card (fst ` set m)" using l distinct_card [of "map fst m"] by (simp add: linked_def)
  also have "\<dots> = card (set (map fst (map snd l)))" using linked_keys [OF l] by (simp add: image_image)
  also have "\<dots> = length l" using l unfolding linked_def by (subst distinct_card) simp_all
  finally show ?thesis .
qed

lemma linked_find:
  assumes "linked l m" and "(i, k, v) \<in> set l"
  shows "map_of l i = Some (k, v)" and "map_of m k = Some i"
  using assms by (auto simp: linked_def)

text \<open>Adding a node in front, and removing one.\<close>

lemma linked_Cons:
  assumes "linked l m" and "i \<notin> fst ` set l" and "k \<notin> fst ` set m"
  shows "linked ((i, k, v) # l) (AList.update k i m)"
proof -
  have "k \<notin> fst ` set (map snd l)" using assms linked_keys by blast
  then show ?thesis
    using assms(1,2) by (auto simp: linked_def update_conv' distinct_update image_iff)
qed

lemma linked_delete:
  assumes "linked l m" and "(i, k, v) \<in> set l"
  shows "linked (list_erase i l) (AList.delete k m)"
proof -
  have uniq: "j = i \<longleftrightarrow> k' = k" if "(j, k', v') \<in> set l" for j k' v'
    using assms that by (metis linked_find option.inject prod.inject)
  have "map_of (AList.delete k m) k' = Some j \<longleftrightarrow> (\<exists>v. (j, k', v) \<in> set (list_erase i l))" for j k'
    using assms(1) uniq by (auto simp: linked_def list_erase_def delete_conv')
  moreover have "distinct (map fst (list_erase i l))" "distinct (map fst (map snd (list_erase i l)))"
    using assms(1) by (simp_all add: linked_def list_erase_def distinct_map_filter)
  ultimately show ?thesis using assms(1) by (simp add: linked_def distinct_delete)
qed

lemma erase_last:
  assumes "distinct (map fst l)" and "l \<noteq> []"
  shows "list_erase (fst (last l)) l = butlast l"
proof -
  have l: "l = butlast l @ [last l]" using assms(2) by simp
  then have "fst (last l) \<notin> fst ` set (butlast l)" using assms(1) by (metis distinct_append list.set_intros(1) list.set_map map_append disjoint_iff list.simps(8,9))
  then have "list_erase (fst (last l)) (butlast l) = butlast l" unfolding list_erase_def filter_id_conv by (metis image_eqI)
  then show ?thesis by (subst l) (simp add: list_erase_def)
qed

lemma erase_items:
  assumes "linked l m" and "(i, k, v) \<in> set l"
  shows "map snd (list_erase i l) = filter (\<lambda>e. fst e \<noteq> k) (map snd l)"
proof -
  have "fst e \<noteq> i \<longleftrightarrow> fst (snd e) \<noteq> k" if "e \<in> set l" for e
    using assms that by (metis linked_find option.inject prod.collapse prod.inject)
  then show ?thesis by (simp add: list_erase_def filter_map comp_def cong: filter_cong)
qed

lemma lru_enter_correct:
  assumes rest: "linked rest (cache_items_map c)" and k: "k \<notin> fst ` set (cache_items_map c)" and i: "i \<notin> fst ` set rest"
    and l: "cache_items_list c = (i, k, v) # rest" and fresh: "\<forall>e\<in>set (cache_items_list c). fst e < lru_next c"
    and len: "length rest \<le> lru_max_size c"
  shows "lru_ok (lru_enter c k)" and "lru_items (lru_enter c k) = take (lru_max_size c) ((k, v) # map snd rest)"
    and "lru_max_size (lru_enter c k) = lru_max_size c"
proof -
  let ?l = "(i, k, v) # rest" and ?m = "AList.update k i (cache_items_map c)"
  have lk: "linked ?l ?m" by (rule linked_Cons [OF rest i k])
  have lm: "length ?m = Suc (length rest)" using linked_length [OF lk] by simp
  have "lru_ok (lru_enter c k) \<and> lru_items (lru_enter c k) = take (lru_max_size c) ((k, v) # map snd rest)"
  proof (cases "lru_max_size c < length ?m")
    case True
    then have max: "lru_max_size c = length rest" using len lm by simp
    obtain j k' v' where last: "last ?l = (j, k', v')" by (metis surj_pair)
    have "(j, k', v') \<in> set ?l" using last last_in_set [of ?l] by (metis list.distinct(1))
    then have "linked (list_erase j ?l) (AList.delete k' ?m)" by (rule linked_delete [OF lk])
    moreover have "list_erase j ?l = butlast ?l" using erase_last [of ?l] lk last by (simp add: linked_def)
    moreover have "map snd (butlast ?l) = take (length rest) (map snd ?l)" 
      by (simp only: butlast_conv_take take_map length_Cons diff_Suc_1)
    ultimately show ?thesis
      using True max l last fresh by (auto simp: lru_ok_def lru_enter_def lru_items_def Let_def dest: in_set_butlastD split: if_splits)
  next
    case False
    then show ?thesis using lk lm l fresh by (simp add: lru_ok_def lru_enter_def lru_items_def Let_def)
  qed
  then show "lru_ok (lru_enter c k)" "lru_items (lru_enter c k) = take (lru_max_size c) ((k, v) # map snd rest)" by simp_all
  show "lru_max_size (lru_enter c k) = lru_max_size c" by (simp add: lru_enter_def Let_def)
qed

lemma lru_put_correct:
  assumes ok: "lru_ok c"
  obtains c' where "lru_put c k v = Some c'" and "lru_ok c'" and "lru_max_size c' = lru_max_size c"
    and "lru_items c' = take (lru_max_size c) ((k, v) # filter (\<lambda>e. fst e \<noteq> k) (lru_items c))"
proof -
  let ?n = "lru_next c" and ?l = "cache_items_list c" and ?m = "cache_items_map c"
  have lk: "linked ?l ?m" and fresh: "\<forall>e\<in>set ?l. fst e < ?n" and len: "length ?l \<le> lru_max_size c" using ok by (auto simp: lru_ok_def)
  have n: "?n \<notin> fst ` set ?l" using fresh by auto
  show thesis
  proof (cases "map_of ?m k")
    case None
    let ?c = "c\<lparr>lru_next := Suc ?n, cache_items_list := (?n, k, v) # ?l\<rparr>"
    have k: "k \<notin> fst ` set ?m" using None by (simp add: map_of_eq_None_iff)
    note e = lru_enter_correct [of ?l ?c k ?n v]
    have "fst e \<noteq> k" if "e \<in> set (map snd ?l)" for e using that k linked_keys [OF lk] by blast
    then have "filter (\<lambda>e. fst e \<noteq> k) (lru_items c) = lru_items c" by (auto simp: lru_items_def filter_id_conv)
    moreover have "lru_put c k v = Some (lru_enter ?c k)" using None by (simp add: lru_put_def Let_def)
    moreover have "lru_ok (lru_enter ?c k)" "lru_items (lru_enter ?c k) = take (lru_max_size c) ((k, v) # map snd ?l)" "lru_max_size (lru_enter ?c k) = lru_max_size c"
      using e lk k n fresh len by (auto intro: less_SucI)
    ultimately show thesis using that by (simp add: lru_items_def)
  next
    case (Some i)
    then obtain w where w: "(i, k, w) \<in> set ?l" using lk by (auto simp: linked_def)
    let ?r = "list_erase i ?l"
    let ?c = "c\<lparr>lru_next := Suc ?n, cache_items_list := (?n, k, v) # ?r, cache_items_map := AList.delete k ?m\<rparr>"
    have "list_erase i ((?n, k, v) # ?l) = (?n, k, v) # ?r" using n w by (force simp: list_erase_def)
    then have put: "lru_put c k v = Some (lru_enter ?c k)" using Some linked_find(1) [OF lk w] by (simp add: lru_put_def Let_def)
    have sub: "set ?r \<subseteq> set ?l" "length ?r \<le> length ?l" by (auto simp: list_erase_def)
    moreover have "linked ?r (AList.delete k ?m)" by (rule linked_delete [OF lk w])
    moreover have "k \<notin> fst ` set (AList.delete k ?m)" by (rule delete_notin_dom)
    moreover have "?n \<notin> fst ` set ?r" "\<forall>e\<in>set ?r. fst e < Suc ?n" using n fresh sub by (auto intro: less_SucI)
    ultimately have "lru_ok (lru_enter ?c k)" "lru_items (lru_enter ?c k) = take (lru_max_size c) ((k, v) # map snd ?r)" "lru_max_size (lru_enter ?c k) = lru_max_size c"
      using lru_enter_correct [of ?r ?c k ?n v] len by auto
    with put show thesis using that erase_items [OF lk w] by (simp add: lru_items_def)
  qed
qed

lemma lru_get_correct:
  assumes ok: "lru_ok c"
  shows "case map_of (lru_items c) k of
      None \<Rightarrow> lru_get c k = Some (None, c)
    | Some v \<Rightarrow> \<exists>c'. lru_get c k = Some (Some v, c') \<and> lru_ok c' \<and> lru_max_size c' = lru_max_size c \<and>
        lru_items c' = (k, v) # filter (\<lambda>e. fst e \<noteq> k) (lru_items c)"
proof -
  let ?l = "cache_items_list c" and ?m = "cache_items_map c"
  have lk: "linked ?l ?m" and fresh: "\<forall>e\<in>set ?l. fst e < lru_next c" and len: "length ?l \<le> lru_max_size c" using ok by (auto simp: lru_ok_def)
  show ?thesis
  proof (cases "map_of ?m k")
    case None
    then have "k \<notin> fst ` set (map snd ?l)" using linked_keys [OF lk] by (simp add: map_of_eq_None_iff)
    then have "map_of (lru_items c) k = None" by (simp add: map_of_eq_None_iff lru_items_def)
    then show ?thesis using None by (simp add: lru_get_def)
  next
    case (Some i)
    then obtain v where v: "(i, k, v) \<in> set ?l" using lk by (auto simp: linked_def)
    let ?r = "list_erase i ?l"
    have "map_of (lru_items c) k = Some v"
      using lk v by (auto simp: linked_def lru_items_def intro!: map_of_is_SomeI rev_image_eqI)
    moreover have "lru_get c k = Some (Some v, c\<lparr>cache_items_list := (i, k, v) # ?r\<rparr>)"
      using Some linked_find(1) [OF lk v] by (simp add: lru_get_def)
    moreover have "linked ((i, k, v) # ?r) ?m"
    proof -
      have r: "linked ?r (AList.delete k ?m)" by (rule linked_delete [OF lk v])
      have "i \<notin> fst ` set ?r" by (auto simp: list_erase_def)
      moreover have "k \<notin> fst ` set (map snd ?r)" using erase_items [OF lk v] by auto
      moreover have "set ((i, k, v) # ?r) = set ?l"
      proof -
        have "snd e = (k, v)" if "e \<in> set ?l" "fst e = i" for e
        proof -
          have "map_of ?l (fst e) = Some (snd e)" using lk that(1) by (simp add: linked_def)
          then show ?thesis using that(2) linked_find(1) [OF lk v] by simp
        qed
        then have "e \<in> set ?l \<longleftrightarrow> e = (i, k, v) \<or> e \<in> set ?r" for e using v by (cases e) (auto simp: list_erase_def)
        then show ?thesis by auto
      qed
      ultimately show ?thesis using r lk by (simp add: linked_def image_image)
    qed
    moreover have "length ((i, k, v) # ?r) \<le> length ?l"
      using length_filter_less [OF v, of "\<lambda>e. fst e \<noteq> i"] by (simp add: list_erase_def)
    ultimately show ?thesis
      using fresh len v erase_items [OF lk v] by (auto simp: lru_ok_def lru_items_def list_erase_def)
  qed
qed

lemma new_lru_ok: "lru_ok (new_lru_cache n)" "lru_items (new_lru_cache n) = []" "lru_max_size (new_lru_cache n) = n"
  by (simp_all add: lru_ok_def new_lru_cache_def linked_def lru_items_def)

section \<open>NumaCache\<close>

record 'd CacheEntry =
  ce_key :: u64
  ce_value :: u64
  ce_numa_id :: int
  ce_weight :: 'd
  oldest_ts :: int
  visit_times :: "u64 list"

definition max_numa_nodes :: nat where
  "max_numa_nodes = 2"

text \<open>\<open>None\<close> is a NUMA number that is no index of \<^verbatim>\<open>visit_times_\<close>.\<close>

definition CacheEntry_Reset :: "('d, 'l) fpu \<Rightarrow> 'd CacheEntry \<Rightarrow> u64 \<Rightarrow> u64 \<Rightarrow> int \<Rightarrow> int \<Rightarrow> 'd CacheEntry option" where
  "CacheEntry_Reset F e key value ts numa =
     (if numa < 0 \<or> int max_numa_nodes \<le> numa then None
      else Some (e\<lparr>ce_key := key, ce_value := value, ce_numa_id := numa, ce_weight := d_of_int F 1, oldest_ts := ts,
             visit_times := (replicate max_numa_nodes 0)[nat numa := 1]\<rparr>))"

definition numa_weight :: "('d, 'l) fpu \<Rightarrow> 'd" where
  "numa_weight F = d_of_int F 1"

definition visit_weight :: "('d, 'l) fpu \<Rightarrow> int \<Rightarrow> u64 list \<Rightarrow> 'd" where
  "visit_weight F numa vs =
     fold (\<lambda>i w. if int i = numa then d_add F w (d_of_u64 F (vs ! i))
                else d_add F w (d_mul F (d_of_u64 F (vs ! i)) (numa_weight F))) [0..<max_numa_nodes] (d_of_int F 0)"

definition CacheEntry_Visit :: "('d, 'l) fpu \<Rightarrow> 'd CacheEntry \<Rightarrow> int \<Rightarrow> 'd CacheEntry option" where
  "CacheEntry_Visit F e numa =
     (if numa < 0 \<or> int max_numa_nodes \<le> numa then None
      else let vs = (visit_times e)[nat numa := visit_times e ! nat numa + 1]
           in Some (e\<lparr>ce_numa_id := numa, visit_times := vs, ce_weight := visit_weight F numa vs\<rparr>))"

text \<open>The order of the entry set; \<^verbatim>\<open>==\<close> on \<^verbatim>\<open>double\<close> is \<^verbatim>\<open><=\<close> both ways.\<close>

definition CacheEntryCmp :: "('d, 'l) fpu \<Rightarrow> 'd CacheEntry \<Rightarrow> 'd CacheEntry \<Rightarrow> bool" where
  "CacheEntryCmp F a b \<longleftrightarrow>
     (if d_le F (ce_weight a) (ce_weight b) \<and> d_le F (ce_weight b) (ce_weight a) then oldest_ts a < oldest_ts b
      else d_less F (ce_weight a) (ce_weight b))"

record 'd NumaCache =
  capacity :: nat
  nc_size :: nat
  current_ts :: int
  entry_map :: "(u64 \<times> nat) list"
  entry_set :: "nat list"
  free_entry :: "nat list"
  nodes :: "'d CacheEntry list"

definition new_NumaCache :: "'d CacheEntry \<Rightarrow> nat \<Rightarrow> 'd NumaCache" where
  "new_NumaCache raw cap =
     \<lparr>capacity = cap, nc_size = 0, current_ts = 0, entry_map = [], entry_set = [], free_entry = rev [0..<cap], nodes = replicate cap raw\<rparr>"

text \<open>\<^verbatim>\<open>std::set\<close>: insertion keeps the order and skips an equivalent element; erasure removes one.\<close>

definition set_insert :: "('d, 'l) fpu \<Rightarrow> 'd CacheEntry list \<Rightarrow> nat \<Rightarrow> nat list \<Rightarrow> nat list" where
  "set_insert F ns p xs =
     (if \<exists>q\<in>set xs. \<not> CacheEntryCmp F (ns ! q) (ns ! p) \<and> \<not> CacheEntryCmp F (ns ! p) (ns ! q) then xs
      else takeWhile (\<lambda>q. CacheEntryCmp F (ns ! q) (ns ! p)) xs @ p # dropWhile (\<lambda>q. CacheEntryCmp F (ns ! q) (ns ! p)) xs)"

definition set_erase :: "('d, 'l) fpu \<Rightarrow> 'd CacheEntry list \<Rightarrow> nat \<Rightarrow> nat list \<Rightarrow> nat list" where
  "set_erase F ns p xs = filter (\<lambda>q. CacheEntryCmp F (ns ! q) (ns ! p) \<or> CacheEntryCmp F (ns ! p) (ns ! q)) xs"

text \<open>
  The lines that \<^verbatim>\<open>put\<close> repeats for a reused and for a free entry; then \<^verbatim>\<open>put\<close>, where \<open>None\<close> also stands for
  \<^verbatim>\<open>*begin()\<close> of an empty set and \<^verbatim>\<open>top()\<close> of an empty stack.
\<close>

definition numa_place :: "('d, 'l) fpu \<Rightarrow> 'd NumaCache \<Rightarrow> nat \<Rightarrow> u64 \<Rightarrow> u64 \<Rightarrow> int \<Rightarrow> 'd NumaCache option" where
  "numa_place F c node key value numa =
     (case CacheEntry_Reset F (nodes c ! node) key value (current_ts c) numa of
        None \<Rightarrow> None
      | Some e \<Rightarrow>
          let ns = (nodes c)[node := e]
          in Some (c\<lparr>nodes := ns, current_ts := current_ts c + 1, entry_set := set_insert F ns node (entry_set c),
                    entry_map := AList.update key node (entry_map c)\<rparr>))"

definition numa_put :: "('d, 'l) fpu \<Rightarrow> 'd NumaCache \<Rightarrow> u64 \<Rightarrow> u64 \<Rightarrow> int \<Rightarrow> 'd NumaCache option" where
  "numa_put F c key value numa =
     (case map_of (entry_map c) key of
        None \<Rightarrow>
          if nc_size c = capacity c then
            (case entry_set c of
               [] \<Rightarrow> None
             | node # rest \<Rightarrow>
                 numa_place F (c\<lparr>entry_set := rest, entry_map := AList.delete (ce_key (nodes c ! node)) (entry_map c)\<rparr>) node key value numa)
          else
            (case free_entry c of
               [] \<Rightarrow> None
             | node # rest \<Rightarrow>
                 map_option (\<lambda>c'. c'\<lparr>nc_size := Suc (nc_size c')\<rparr>) (numa_place F (c\<lparr>free_entry := rest\<rparr>) node key value numa))
      | Some node \<Rightarrow>
          (case CacheEntry_Visit F (nodes c ! node) numa of
             None \<Rightarrow> None
           | Some e \<Rightarrow>
               let ns = (nodes c)[node := e\<lparr>ce_value := value\<rparr>]
               in Some (c\<lparr>nodes := ns, entry_set := set_insert F ns node (set_erase F (nodes c) node (entry_set c))\<rparr>)))"

definition numa_get :: "('d, 'l) fpu \<Rightarrow> 'd NumaCache \<Rightarrow> u64 \<Rightarrow> int \<Rightarrow> (u64 option \<times> 'd NumaCache) option" where
  "numa_get F c key numa =
     (case map_of (entry_map c) key of
        None \<Rightarrow> Some (None, c)
      | Some node \<Rightarrow>
          (case CacheEntry_Visit F (nodes c ! node) numa of
             None \<Rightarrow> None
           | Some e \<Rightarrow>
               let ns = (nodes c)[node := e]
               in Some (Some (ce_value e), c\<lparr>nodes := ns, entry_set := set_insert F ns node (set_erase F (nodes c) node (entry_set c))\<rparr>)))"

definition numa_evict :: "('d, 'l) fpu \<Rightarrow> 'd NumaCache \<Rightarrow> u64 \<Rightarrow> bool \<times> 'd NumaCache" where
  "numa_evict F c key =
     (case map_of (entry_map c) key of
        None \<Rightarrow> (False, c)
      | Some node \<Rightarrow>
          (True, c\<lparr>entry_set := set_erase F (nodes c) node (entry_set c), entry_map := AList.delete key (entry_map c),
                   free_entry := node # free_entry c\<rparr>))"

text \<open>What the cache holds, and its invariant.\<close>

definition numa_map :: "'d NumaCache \<Rightarrow> u64 \<Rightarrow> u64 option" where
  "numa_map c k = map_option (\<lambda>p. ce_value (nodes c ! p)) (map_of (entry_map c) k)"

text \<open>A live entry counts the visits of every node, and its weight is a number.\<close>

definition entry_wf :: "('d, 'l) fpu \<Rightarrow> 'd CacheEntry \<Rightarrow> bool" where
  "entry_wf F e \<longleftrightarrow> length (visit_times e) = max_numa_nodes \<and> d_finite F (ce_weight e)"

definition numa_core :: "('d, 'l) fpu \<Rightarrow> (u64 \<rightharpoonup> nat) \<Rightarrow> nat list \<Rightarrow> nat list \<Rightarrow> 'd CacheEntry list \<Rightarrow> int \<Rightarrow> bool" where
  "numa_core F m es fr ns T \<longleftrightarrow> distinct es \<and> distinct fr \<and> set fr \<inter> set es = {} \<and>
     (\<forall>p\<in>set es \<union> set fr. p < length ns) \<and> (\<forall>k p. m k = Some p \<longleftrightarrow> p \<in> set es \<and> ce_key (ns ! p) = k) \<and>
     inj_on (\<lambda>p. oldest_ts (ns ! p)) (set es) \<and> (\<forall>p\<in>set es. oldest_ts (ns ! p) < T \<and> entry_wf F (ns ! p)) \<and>
     sorted_wrt (\<lambda>p q. CacheEntryCmp F (ns ! p) (ns ! q)) es"

definition numa_ok :: "('d, 'l) fpu \<Rightarrow> 'd NumaCache \<Rightarrow> bool" where
  "numa_ok F c \<longleftrightarrow> numa_core F (map_of (entry_map c)) (entry_set c) (free_entry c) (nodes c) (current_ts c) \<and>
     nc_size c = length (entry_set c) \<and> length (entry_set c) + length (free_entry c) = capacity c"

lemma new_numa_ok: "numa_ok F (new_NumaCache raw cap)" "numa_map (new_NumaCache raw cap) = Map.empty"
  by (auto simp: numa_ok_def new_NumaCache_def numa_core_def numa_map_def fun_eq_iff)

context fp_arith
begin

abbreviation weighed :: "'d CacheEntry \<Rightarrow> bool" where
  "weighed e \<equiv> d_finite F (ce_weight e)"

lemma cmp_iff:
  "weighed a \<Longrightarrow> weighed b \<Longrightarrow>
   CacheEntryCmp F a b \<longleftrightarrow> d_le F (ce_weight a) (ce_weight b) \<and> (d_le F (ce_weight b) (ce_weight a) \<longrightarrow> oldest_ts a < oldest_ts b)"
  using total [of "ce_weight a" "ce_weight b"] by (auto simp: CacheEntryCmp_def less_iff)

lemma cmp_total:
  "weighed a \<Longrightarrow> weighed b \<Longrightarrow> oldest_ts a \<noteq> oldest_ts b \<Longrightarrow> CacheEntryCmp F a b \<or> CacheEntryCmp F b a"
  using total [of "ce_weight a" "ce_weight b"] by (auto simp: cmp_iff)

lemma cmp_irrefl: "weighed a \<Longrightarrow> \<not> CacheEntryCmp F a a"
  using total by (auto simp: cmp_iff)

lemma cmp_trans:
  assumes "CacheEntryCmp F a b" and "CacheEntryCmp F b c" and w: "weighed a" "weighed b" "weighed c"
  shows "CacheEntryCmp F a c"
proof -
  have ab: "d_le F (ce_weight a) (ce_weight b)" and bc: "d_le F (ce_weight b) (ce_weight c)" using assms by (simp_all add: cmp_iff)
  have "oldest_ts a < oldest_ts c" if ca: "d_le F (ce_weight c) (ce_weight a)"
    using assms trans [OF bc ca] trans [OF ca ab] by (simp add: cmp_iff)
  then show ?thesis using trans [OF ab bc] w by (simp add: cmp_iff)
qed

lemma set_erase_eq:
  assumes "inj_on (\<lambda>p. oldest_ts (ns ! p)) (set xs)" and "p \<in> set xs"
    and w: "\<forall>q\<in>set xs. weighed (ns ! q)"
  shows "set_erase F ns p xs = removeAll p xs"
proof -
  have "(CacheEntryCmp F (ns ! q) (ns ! p) \<or> CacheEntryCmp F (ns ! p) (ns ! q)) \<longleftrightarrow> p \<noteq> q" if "q \<in> set xs" for q
    using cmp_total [of "ns ! q" "ns ! p"] cmp_irrefl [of "ns ! p"] assms(1,2) w that by (auto simp: inj_on_def)
  then show ?thesis by (simp add: set_erase_def removeAll_filter_not_eq cong: filter_cong)
qed

lemma set_insert_sorted:
  assumes "sorted_wrt (\<lambda>p q. CacheEntryCmp F (ns ! p) (ns ! q)) xs" and new: "\<forall>q\<in>set xs. oldest_ts (ns ! q) \<noteq> oldest_ts (ns ! p)"
    and w: "\<forall>q\<in>insert p (set xs). weighed (ns ! q)"
  shows "sorted_wrt (\<lambda>p q. CacheEntryCmp F (ns ! p) (ns ! q)) (set_insert F ns p xs)"
    and "set (set_insert F ns p xs) = insert p (set xs)" and "distinct xs \<Longrightarrow> p \<notin> set xs \<Longrightarrow> distinct (set_insert F ns p xs)"
proof -
  let ?lt = "\<lambda>q. CacheEntryCmp F (ns ! q) (ns ! p)"
  let ?a = "takeWhile ?lt xs" and ?b = "dropWhile ?lt xs"
  have xs: "xs = ?a @ ?b" by simp
  have eq: "set_insert F ns p xs = ?a @ p # ?b"
    using new w cmp_total by (fastforce simp: set_insert_def)
  have sa: "sorted_wrt (\<lambda>p q. CacheEntryCmp F (ns ! p) (ns ! q)) ?a" and sb: "sorted_wrt (\<lambda>p q. CacheEntryCmp F (ns ! p) (ns ! q)) ?b"
    using assms(1) xs by (metis sorted_wrt_append)+
  have lo: "\<forall>q\<in>set ?a. ?lt q" by (auto dest: set_takeWhileD)
  have hi: "\<forall>q\<in>set ?b. CacheEntryCmp F (ns ! p) (ns ! q)"
  proof (cases ?b)
    case (Cons h t)
    have "\<not> ?lt h" using Cons hd_dropWhile [of ?lt xs] by simp
    moreover have "h \<in> set xs" using Cons xs by (metis in_set_conv_decomp list.set_intros(1) set_dropWhileD)
    ultimately have ph: "CacheEntryCmp F (ns ! p) (ns ! h)" using new w cmp_total by blast
    moreover have "\<forall>q\<in>set t. CacheEntryCmp F (ns ! h) (ns ! q)" using sb Cons by simp
    moreover have "set ?b \<subseteq> set xs" by (auto dest: set_dropWhileD)
    ultimately show ?thesis using Cons w cmp_trans [of "ns ! p" "ns ! h"] by auto
  next
    case Nil
    then show ?thesis by (simp only: list.set ball_empty)
  qed
  have "\<forall>x\<in>set ?a. \<forall>y\<in>set ?b. CacheEntryCmp F (ns ! x) (ns ! y)" 
    using lo hi w by (intro ballI) (rule cmp_trans [of _ "ns ! p"], auto dest: set_takeWhileD set_dropWhileD)
  then show "sorted_wrt (\<lambda>p q. CacheEntryCmp F (ns ! p) (ns ! q)) (set_insert F ns p xs)"
    unfolding eq sorted_wrt_append sorted_wrt.simps list.set using sa sb lo hi by blast
  have st: "set ?a \<union> set ?b = set xs" using xs by (metis set_append)
  then show "set (set_insert F ns p xs) = insert p (set xs)" unfolding eq by auto
  show "distinct (set_insert F ns p xs)" if "distinct xs" "p \<notin> set xs"
  proof -
    have "distinct (?a @ ?b)" using that(1) by (simp only: takeWhile_dropWhile_id)
    then have "distinct ?a" "distinct ?b" "set ?a \<inter> set ?b = {}" by (simp_all only: distinct_append)
    then show ?thesis unfolding eq distinct_append distinct.simps list.set using that(2) st by blast
  qed
qed

lemma core_remove:
  assumes "numa_core F m es fr ns T" and "m k = Some p"
  shows "numa_core F (m(k := None)) (removeAll p es) fr ns T"
proof -
  have p: "p \<in> set es" "ce_key (ns ! p) = k" using assms by (auto simp: numa_core_def)
  have "(m(k := None)) k' = Some q \<longleftrightarrow> q \<in> set (removeAll p es) \<and> ce_key (ns ! q) = k'" for k' q
  proof (cases "k' = k")
    case True
    have "m k = Some q" if "q \<in> set es" "ce_key (ns ! q) = k" using assms(1) that by (auto simp: numa_core_def)
    then show ?thesis using True assms(2) by auto
  next
    case False
    then show ?thesis using assms(1) p by (auto simp: numa_core_def)
  qed
  moreover have "inj_on (\<lambda>p. oldest_ts (ns ! p)) (set (removeAll p es))"
    using assms(1) by (auto simp: numa_core_def intro: inj_on_subset)
  moreover have "sorted_wrt (\<lambda>p q. CacheEntryCmp F (ns ! p) (ns ! q)) (removeAll p es)"
    using assms(1) by (simp add: numa_core_def removeAll_filter_not_eq sorted_wrt_filter)
  ultimately show ?thesis using assms(1) by (auto simp: numa_core_def distinct_removeAll)
qed

lemma core_insert:
  assumes core: "numa_core F m es fr ns T" and p: "p \<notin> set es" "p < length ns" "p \<notin> set fr"
    and k: "m (ce_key e) = None" and ts: "\<forall>q\<in>set es. oldest_ts (ns ! q) \<noteq> oldest_ts e" "oldest_ts e < T'" "T \<le> T'"
    and len: "entry_wf F e"
  shows "numa_core F (m(ce_key e \<mapsto> p)) (set_insert F (ns[p := e]) p es) fr (ns[p := e]) T'"
    and "length (set_insert F (ns[p := e]) p es) = Suc (length es)"
proof -
  let ?ns = "ns[p := e]"
  have at: "?ns ! p = e" using p by simp
  have other: "?ns ! q = ns ! q" if "q \<in> set es" for q using that p(1) by (metis nth_list_update_neq)
  have srt: "sorted_wrt (\<lambda>p q. CacheEntryCmp F (?ns ! p) (?ns ! q)) es"
    using core other by (auto simp: numa_core_def elim!: sorted_wrt_mono_rel [rotated])
  have new: "\<forall>q\<in>set es. oldest_ts (?ns ! q) \<noteq> oldest_ts (?ns ! p)" using ts(1) at other by auto
  have wt: "\<forall>q\<in>insert p (set es). weighed (?ns ! q)" using core len at other by (auto simp: numa_core_def entry_wf_def)
  note si = set_insert_sorted [OF srt new wt]
  have d: "distinct (set_insert F ?ns p es)" using si(3) core p by (simp add: numa_core_def)
  have m: "(m(ce_key e \<mapsto> p)) k' = Some q \<longleftrightarrow> q \<in> set (set_insert F ?ns p es) \<and> ce_key (?ns ! q) = k'" for k' q
  proof (cases "q = p")
    case True
    then show ?thesis using si(2) at core p(1) by (auto simp: numa_core_def)
  next
    case False
    have "m (ce_key e) = Some q \<longleftrightarrow> q \<in> set es \<and> ce_key (ns ! q) = ce_key e" using core by (simp only: numa_core_def)
    then have no: "\<not> (q \<in> set es \<and> ce_key (ns ! q) = ce_key e)" using k by auto
    then show ?thesis using si(2) False core other by (auto simp: numa_core_def)
  qed
  have inj: "inj_on (\<lambda>p. oldest_ts (?ns ! p)) (insert p (set es))"
  proof -
    have "inj_on (\<lambda>p. oldest_ts (?ns ! p)) (set es)" using core other by (auto simp: numa_core_def inj_on_def)
    then show ?thesis using new by (auto simp: inj_on_def)
  qed
  have bd: "\<forall>q\<in>insert p (set es). oldest_ts (?ns ! q) < T' \<and> entry_wf F (?ns ! q)"
    using core other at ts(2,3) len by (fastforce simp: numa_core_def)
  show "numa_core F (m(ce_key e \<mapsto> p)) (set_insert F ?ns p es) fr ?ns T'"
    unfolding numa_core_def using core p d m inj bd si(1,2) by (simp only: numa_core_def length_list_update) auto
  show "length (set_insert F ?ns p es) = Suc (length es)"
    using d si(2) core p by (metis card_insert_disjoint distinct_card finite_set numa_core_def)
qed

text \<open>An entry that is visited moves inside the set.\<close>

lemma core_revisit:
  assumes core: "numa_core F m es fr ns T" and m: "m k = Some p"
    and e: "ce_key e = k" "oldest_ts e = oldest_ts (ns ! p)" "entry_wf F e"
  shows "numa_core F m (set_insert F (ns[p := e]) p (set_erase F ns p es)) fr (ns[p := e]) T"
    and "length (set_insert F (ns[p := e]) p (set_erase F ns p es)) = length es"
proof -
  have p: "p \<in> set es" "distinct es" "inj_on (\<lambda>p. oldest_ts (ns ! p)) (set es)" "p < length ns" "p \<notin> set fr" "oldest_ts (ns ! p) < T"
    using core m by (auto simp: numa_core_def)
  have er: "set_erase F ns p es = removeAll p es" using core by (intro set_erase_eq p(3,1)) (auto simp: numa_core_def entry_wf_def)
  have ts: "\<forall>q\<in>set (removeAll p es). oldest_ts (ns ! q) \<noteq> oldest_ts e" using p(1,3) e(2) by (auto simp: inj_on_def)
  have mk: "(m(k := None)) (ce_key e) = None" using e(1) by simp
  have np: "p \<notin> set (removeAll p es)" and lt: "oldest_ts e < T" using p(6) e(2) by simp_all
  note ci = core_insert [OF core_remove [OF core m] np p(4,5) mk ts lt order_refl e(3)]
  have upd: "(m(k := None))(ce_key e \<mapsto> p) = m" using m e(1) by auto
  show "numa_core F m (set_insert F (ns[p := e]) p (set_erase F ns p es)) fr (ns[p := e]) T"
    using ci(1) by (simp only: er upd)
  have "length (removeAll p es) = length es - 1" using p(1,2) by (simp add: distinct_remove1_removeAll [symmetric] length_remove1)
  then show "length (set_insert F (ns[p := e]) p (set_erase F ns p es)) = length es"
    using ci(2) length_pos_if_in_set [OF p(1)] by (simp only: er)
qed

lemma visit_weight_finite:
  assumes "0 \<le> numa" and "numa < int max_numa_nodes"
  shows "d_finite F (visit_weight F numa vs)"
proof -
  have "numa = 0 \<or> numa = 1" using assms by (auto simp: max_numa_nodes_def)
  then show ?thesis
    by (auto simp: visit_weight_def numa_weight_def max_numa_nodes_def numeral_2_eq_2 mul_one add_zero finite_add_u64)
qed

lemma visit_entry:
  assumes "0 \<le> numa" and "numa < int max_numa_nodes" and "entry_wf F e"
  obtains e' where "CacheEntry_Visit F e numa = Some e'" and "ce_key e' = ce_key e" and "ce_value e' = ce_value e"
    and "oldest_ts e' = oldest_ts e" and "entry_wf F e'"
  using assms that visit_weight_finite by (simp add: CacheEntry_Visit_def Let_def entry_wf_def)

lemma map_upd_node:
  assumes core: "numa_core F m es fr ns T" and m: "m k = Some p"
  shows "map_option (\<lambda>q. ce_value (ns[p := e] ! q)) (m k') =
    (if k' = k then Some (ce_value e) else map_option (\<lambda>q. ce_value (ns ! q)) (m k'))"
proof (cases "k' = k")
  case True
  then show ?thesis using core m by (auto simp: numa_core_def)
next
  case False
  then have "q \<noteq> p" if "m k' = Some q" for q using core m that by (auto simp: numa_core_def)
  then show ?thesis using False by (cases "m k'") auto
qed

lemma numa_get_correct:
  assumes ok: "numa_ok F c" and "0 \<le> numa" and "numa < int max_numa_nodes"
  obtains c' where "numa_get F c k numa = Some (numa_map c k, c')" and "numa_ok F c'" and "numa_map c' = numa_map c"
    and "capacity c' = capacity c"
proof (cases "map_of (entry_map c) k")
  case None
  then show thesis using that [of c] ok by (simp add: numa_get_def numa_map_def)
next
  case (Some p)
  have core: "numa_core F (map_of (entry_map c)) (entry_set c) (free_entry c) (nodes c) (current_ts c)" using ok by (simp add: numa_ok_def)
  have kp: "ce_key (nodes c ! p) = k" "entry_wf F (nodes c ! p)" using core Some by (auto simp: numa_core_def)
  obtain e where e: "CacheEntry_Visit F (nodes c ! p) numa = Some e" "ce_key e = k" "ce_value e = ce_value (nodes c ! p)"
    "oldest_ts e = oldest_ts (nodes c ! p)" "entry_wf F e"
    using visit_entry [OF assms(2,3) kp(2)] kp(1) by metis
  define c' where "c' = c\<lparr>nodes := (nodes c)[p := e],
    entry_set := set_insert F ((nodes c)[p := e]) p (set_erase F (nodes c) p (entry_set c))\<rparr>"
  note rv = core_revisit [OF core Some e(2,4,5)]
  have "numa_ok F c'" using ok rv by (simp add: numa_ok_def c'_def)
  moreover have "numa_map c' = numa_map c"
    using map_upd_node [OF core Some, of e] e(3) Some by (auto simp: numa_map_def c'_def fun_eq_iff)
  moreover have "numa_get F c k numa = Some (numa_map c k, c')"
    using Some e(1,3) by (simp add: numa_get_def numa_map_def c'_def Let_def)
  ultimately show thesis using that by (simp add: c'_def)
qed

text \<open>Placing a reset entry.\<close>

lemma numa_place_correct:
  assumes core: "numa_core F m (entry_set c) (free_entry c) (nodes c) (current_ts c)" and mo: "map_of (entry_map c) = m"
    and p: "p \<notin> set (entry_set c)" "p < length (nodes c)" "p \<notin> set (free_entry c)" and k: "m k = None"
    and "0 \<le> numa" and "numa < int max_numa_nodes"
  obtains c' where "numa_place F c p k v numa = Some c'"
    and "numa_core F (map_of (entry_map c')) (entry_set c') (free_entry c') (nodes c') (current_ts c')"
    and "length (entry_set c') = Suc (length (entry_set c))" and "free_entry c' = free_entry c" and "capacity c' = capacity c"
    and "nc_size c' = nc_size c" and "numa_map c' = (numa_map c)(k \<mapsto> v)"
proof -
  obtain e where e: "CacheEntry_Reset F (nodes c ! p) k v (current_ts c) numa = Some e" "ce_key e = k" "ce_value e = v"
    "oldest_ts e = current_ts c" "entry_wf F e"
    using assms(7,8) by (simp add: CacheEntry_Reset_def entry_wf_def finite_of_int)
  define c' where "c' = c\<lparr>nodes := (nodes c)[p := e], current_ts := current_ts c + 1,
    entry_set := set_insert F ((nodes c)[p := e]) p (entry_set c), entry_map := AList.update k p (entry_map c)\<rparr>"
  have ts: "\<forall>q\<in>set (entry_set c). oldest_ts (nodes c ! q) \<noteq> oldest_ts e" using core e(4) by (auto simp: numa_core_def)
  have k': "m (ce_key e) = None" using k e(2) by simp
  have T: "oldest_ts e < current_ts c + 1" "current_ts c \<le> current_ts c + 1" using e(4) by simp_all
  note ci = core_insert [OF core p k' ts T e(5)]
  have c1: "numa_core F (map_of (entry_map c')) (entry_set c') (free_entry c') (nodes c') (current_ts c')"
    using ci(1) by (simp add: c'_def update_conv' mo e(2))
  have "numa_map c' = (numa_map c)(k \<mapsto> v)"
  proof
    fix k'
    have "q \<noteq> p" if "m k' = Some q" for q using core p(1) that by (auto simp: numa_core_def)
    then show "numa_map c' k' = ((numa_map c)(k \<mapsto> v)) k'"
      using p(2) e(3) by (cases "m k'") (auto simp: numa_map_def c'_def update_conv' mo)
  qed
  moreover have "numa_place F c p k v numa = Some c'" using e(1) by (simp add: numa_place_def c'_def Let_def)
  ultimately show thesis using that [of c'] c1 ci(2) by (simp add: c'_def)
qed

lemma numa_put_present:
  assumes ok: "numa_ok F c" and "numa_map c k = Some w" and "0 \<le> numa" and "numa < int max_numa_nodes"
  obtains c' where "numa_put F c k v numa = Some c'" and "numa_ok F c'" and "numa_map c' = (numa_map c)(k \<mapsto> v)"
    and "capacity c' = capacity c"
proof -
  obtain p where p: "map_of (entry_map c) k = Some p" using assms(2) by (auto simp: numa_map_def)
  have core: "numa_core F (map_of (entry_map c)) (entry_set c) (free_entry c) (nodes c) (current_ts c)" using ok by (simp add: numa_ok_def)
  have kp: "ce_key (nodes c ! p) = k" "entry_wf F (nodes c ! p)" using core p by (auto simp: numa_core_def)
  obtain e where e: "CacheEntry_Visit F (nodes c ! p) numa = Some e" "ce_key e = k"
    "oldest_ts e = oldest_ts (nodes c ! p)" "entry_wf F e"
    using visit_entry [OF assms(3,4) kp(2)] kp(1) by metis
  let ?e = "e\<lparr>ce_value := v\<rparr>"
  define c' where "c' = c\<lparr>nodes := (nodes c)[p := ?e],
    entry_set := set_insert F ((nodes c)[p := ?e]) p (set_erase F (nodes c) p (entry_set c))\<rparr>"
  have "numa_ok F c'" using ok core_revisit [OF core p, of ?e] e by (simp add: numa_ok_def c'_def entry_wf_def)
  moreover have "numa_map c' = (numa_map c)(k \<mapsto> v)"
    using map_upd_node [OF core p, of ?e] by (auto simp: numa_map_def c'_def fun_eq_iff)
  moreover have "numa_put F c k v numa = Some c'" using p e(1) by (simp add: numa_put_def c'_def Let_def)
  ultimately show thesis using that by (simp add: c'_def)
qed

lemma numa_put_room:
  assumes ok: "numa_ok F c" and "numa_map c k = None" and "nc_size c < capacity c" and "0 \<le> numa" and "numa < int max_numa_nodes"
  obtains c' where "numa_put F c k v numa = Some c'" and "numa_ok F c'" and "numa_map c' = (numa_map c)(k \<mapsto> v)"
    and "capacity c' = capacity c"
proof -
  have k: "map_of (entry_map c) k = None" using assms(2) by (simp add: numa_map_def)
  obtain p fr where fr: "free_entry c = p # fr" using ok assms(3) by (cases "free_entry c") (auto simp: numa_ok_def)
  have core: "numa_core F (map_of (entry_map c)) (entry_set c) fr (nodes c) (current_ts c)" and p: "p \<notin> set (entry_set c)" "p < length (nodes c)" "p \<notin> set fr"
    using ok fr by (auto simp: numa_ok_def numa_core_def)
  let ?c = "c\<lparr>free_entry := fr\<rparr>"
  have mc: "numa_map ?c = numa_map c" by (simp add: numa_map_def fun_eq_iff)
  obtain c' where c': "numa_place F ?c p k v numa = Some c'"
      "numa_core F (map_of (entry_map c')) (entry_set c') (free_entry c') (nodes c') (current_ts c')"
      "length (entry_set c') = Suc (length (entry_set c))" "free_entry c' = fr" "capacity c' = capacity c" "nc_size c' = nc_size c"
      "numa_map c' = (numa_map ?c)(k \<mapsto> v)"
    by (rule numa_place_correct [of "map_of (entry_map c)" ?c p k numa v]) (use core p k assms(4,5) in auto)
  show thesis
  proof (rule that)
    show "numa_put F c k v numa = Some (c'\<lparr>nc_size := Suc (nc_size c')\<rparr>)" using k fr c'(1) assms(3) by (simp add: numa_put_def)
    show "numa_ok F (c'\<lparr>nc_size := Suc (nc_size c')\<rparr>)" using c' ok fr by (simp add: numa_ok_def)
    show "numa_map (c'\<lparr>nc_size := Suc (nc_size c')\<rparr>) = (numa_map c)(k \<mapsto> v)"
      using c'(7) unfolding mc by (simp add: numa_map_def fun_eq_iff)
    show "capacity (c'\<lparr>nc_size := Suc (nc_size c')\<rparr>) = capacity c" using c'(5) by simp
  qed
qed

text \<open>A full cache gives up the entry that is first in the order.\<close>

lemma numa_put_full:
  assumes ok: "numa_ok F c" and "numa_map c k = None" and "nc_size c = capacity c" and "0 < capacity c"
    and "0 \<le> numa" and "numa < int max_numa_nodes"
  obtains c' p where "numa_put F c k v numa = Some c'" and "numa_ok F c'" and "p \<in> set (entry_set c)"
    and "\<forall>q\<in>set (entry_set c). q \<noteq> p \<longrightarrow> CacheEntryCmp F (nodes c ! p) (nodes c ! q)"
    and "numa_map c' = (numa_map c)(ce_key (nodes c ! p) := None, k \<mapsto> v)" and "capacity c' = capacity c"
proof -
  have k: "map_of (entry_map c) k = None" using assms(2) by (simp add: numa_map_def)
  obtain p es where es: "entry_set c = p # es" using ok assms(3,4) by (cases "entry_set c") (auto simp: numa_ok_def)
  let ?k = "ce_key (nodes c ! p)"
  have core: "numa_core F (map_of (entry_map c)) (entry_set c) (free_entry c) (nodes c) (current_ts c)" using ok by (simp add: numa_ok_def)
  have m: "map_of (entry_map c) ?k = Some p" using core es by (simp add: numa_core_def)
  have p: "p \<notin> set es" "p < length (nodes c)" "p \<notin> set (free_entry c)" using core es by (auto simp: numa_core_def)
  have "removeAll p (entry_set c) = es" using p(1) es by simp
  then have core': "numa_core F ((map_of (entry_map c))(?k := None)) es (free_entry c) (nodes c) (current_ts c)"
    using core_remove [OF core m] by simp
  let ?c = "c\<lparr>entry_set := es, entry_map := AList.delete ?k (entry_map c)\<rparr>"
  have mc: "numa_map ?c = (numa_map c)(?k := None)" by (auto simp: numa_map_def delete_conv' fun_eq_iff)
  obtain c' where c': "numa_place F ?c p k v numa = Some c'"
      "numa_core F (map_of (entry_map c')) (entry_set c') (free_entry c') (nodes c') (current_ts c')"
      "length (entry_set c') = Suc (length es)" "free_entry c' = free_entry c" "capacity c' = capacity c" "nc_size c' = nc_size c"
      "numa_map c' = (numa_map ?c)(k \<mapsto> v)"
    by (rule numa_place_correct [of "(map_of (entry_map c))(?k := None)" ?c p k numa v])
      (use core' p k assms(5,6) in \<open>auto simp: delete_conv' fun_eq_iff\<close>)
  show thesis
  proof (rule that)
    show "numa_put F c k v numa = Some c'" using k es c'(1) assms(3) by (simp add: numa_put_def)
    show "numa_ok F c'" using c' ok es by (simp add: numa_ok_def)
    show "p \<in> set (entry_set c)" by (simp add: es)
    show "\<forall>q\<in>set (entry_set c). q \<noteq> p \<longrightarrow> CacheEntryCmp F (nodes c ! p) (nodes c ! q)" using core es by (auto simp: numa_core_def)
    show "numa_map c' = (numa_map c)(?k := None, k \<mapsto> v)" using c'(7) mc by (simp only:)
    show "capacity c' = capacity c" by (rule c'(5))
  qed
qed

end

section \<open>shard\_lru\_cache\<close>

text \<open>The array of caches, indexed by the hash (with \<^verbatim>\<open>USE_NUMA_CACHE\<close>, as the file defines it).\<close>

definition new_shard_lru_cache :: "'d CacheEntry \<Rightarrow> nat \<Rightarrow> nat \<Rightarrow> 'd NumaCache list" where
  "new_shard_lru_cache raw shards per_cache_cap = map (\<lambda>_. new_NumaCache raw per_cache_cap) [0..<shards]"

definition shard_get :: "('d, 'l) fpu \<Rightarrow> nat \<Rightarrow> 'd NumaCache list \<Rightarrow> u64 \<Rightarrow> u64 \<Rightarrow> (u64 option \<times> 'd NumaCache list) option" where
  "shard_get F thread cache_arr key key_hash =
     (let shard_id = unat key_hash mod length cache_arr
      in map_option (\<lambda>(v, c). (v, cache_arr[shard_id := c])) (numa_get F (cache_arr ! shard_id) key (int (get_numa_id thread))))"

definition shard_put :: "('d, 'l) fpu \<Rightarrow> nat \<Rightarrow> 'd NumaCache list \<Rightarrow> u64 \<Rightarrow> u64 \<Rightarrow> u64 \<Rightarrow> 'd NumaCache list option" where
  "shard_put F thread cache_arr key key_hash value =
     (let shard_id = unat key_hash mod length cache_arr
      in map_option (\<lambda>c. cache_arr[shard_id := c]) (numa_put F (cache_arr ! shard_id) key value (int (get_numa_id thread))))"

lemma get_numa_id_range: "0 \<le> int (get_numa_id t)" "int (get_numa_id t) < int max_numa_nodes"
  by (simp_all add: get_numa_id_def max_numa_nodes_def)

context fp_arith
begin

lemma numa_put_any:
  assumes "numa_ok F c" and "0 < capacity c" and "0 \<le> numa" and "numa < int max_numa_nodes"
  obtains c' where "numa_put F c k v numa = Some c'" and "numa_ok F c'" and "numa_map c' k = Some v" and "capacity c' = capacity c"
proof (cases "numa_map c k")
  case (Some w)
  show thesis by (rule numa_put_present [OF assms(1) Some assms(3,4), of v]) (rule that, assumption, assumption, simp, assumption)
next
  case None
  have "nc_size c \<le> capacity c" using assms(1) by (simp add: numa_ok_def)
  then show thesis
  proof (cases "nc_size c = capacity c")
    case True
    show thesis by (rule numa_put_full [OF assms(1) None True assms(2-4), of v]) (rule that, assumption, assumption, simp, assumption)
  next
    case False
    then have "nc_size c < capacity c" using \<open>nc_size c \<le> capacity c\<close> by simp
    then show thesis by (rule numa_put_room [OF assms(1) None _ assms(3,4), of v]) (rule that, assumption, assumption, simp, assumption)
  qed
qed

text \<open>What was put is found, as long as nothing else happens to its shard.\<close>

lemma shard_put_get:
  assumes ok: "\<forall>c\<in>set arr. numa_ok F c \<and> 0 < capacity c" and "arr \<noteq> []"
  shows "\<exists>arr'. shard_put F t arr k h v = Some arr' \<and> (\<forall>c\<in>set arr'. numa_ok F c \<and> 0 < capacity c) \<and>
    (\<forall>t'. \<exists>arr''. shard_get F t' arr' k h = Some (Some v, arr'')) \<and>
    (\<forall>i. i < length arr \<and> i \<noteq> unat h mod length arr \<longrightarrow> arr' ! i = arr ! i)"
proof -
  let ?i = "unat h mod length arr"
  have i: "?i < length arr" using assms(2) by simp
  then have c: "numa_ok F (arr ! ?i)" "0 < capacity (arr ! ?i)" using ok by (auto simp: set_conv_nth)
  obtain c' where c': "numa_put F (arr ! ?i) k v (int (get_numa_id t)) = Some c'" "numa_ok F c'" "numa_map c' k = Some v" "capacity c' = capacity (arr ! ?i)"
    by (rule numa_put_any [OF c get_numa_id_range])
  have get: "\<exists>c''. numa_get F c' k (int (get_numa_id t')) = Some (Some v, c'')" for t'
    by (rule numa_get_correct [OF c'(2) get_numa_id_range(1) [of t'] get_numa_id_range(2) [of t'], of k]) (use c'(3) in auto)
  have "\<forall>x\<in>set (arr[?i := c']). numa_ok F x \<and> 0 < capacity x"
    using ok c c' set_update_subset_insert [of arr ?i c'] by auto
  then show ?thesis
    using c'(1) get i by (fastforce simp: shard_put_def shard_get_def Let_def)
qed

end

section \<open>Properties\<close>

text \<open>Sequences of calls of \<^verbatim>\<open>lru_cache\<close>, and what a least-recently-used list answers to them.\<close>

datatype ('k, 'v) lru_op = Lru_Put 'k 'v | Lru_Get 'k

primrec lru_run :: "('k, 'v) lru_cache \<Rightarrow> ('k, 'v) lru_op list \<Rightarrow> ('v option list \<times> ('k, 'v) lru_cache) option" where
  "lru_run c [] = Some ([], c)"
| "lru_run c (x # xs) =
     (case x of
        Lru_Put k v \<Rightarrow> Option.bind (lru_put c k v) (\<lambda>c'. lru_run c' xs)
      | Lru_Get k \<Rightarrow> Option.bind (lru_get c k) (\<lambda>(v, c'). map_option (\<lambda>(vs, c''). (v # vs, c'')) (lru_run c' xs)))"

primrec lru_spec :: "nat \<Rightarrow> ('k \<times> 'v) list \<Rightarrow> ('k, 'v) lru_op list \<Rightarrow> 'v option list \<times> ('k \<times> 'v) list" where
  "lru_spec n l [] = ([], l)"
| "lru_spec n l (x # xs) =
     (case x of
        Lru_Put k v \<Rightarrow> lru_spec n (take n ((k, v) # filter (\<lambda>e. fst e \<noteq> k) l)) xs
      | Lru_Get k \<Rightarrow>
          (case map_of l k of
             None \<Rightarrow> apfst ((#) None) (lru_spec n l xs)
           | Some v \<Rightarrow> apfst ((#) (Some v)) (lru_spec n ((k, v) # filter (\<lambda>e. fst e \<noteq> k) l) xs)))"

lemma lru_run_correct:
  assumes "lru_ok c"
  shows "\<exists>c'. lru_run c ops = Some (fst (lru_spec (lru_max_size c) (lru_items c) ops), c') \<and> lru_ok c' \<and>
    lru_items c' = snd (lru_spec (lru_max_size c) (lru_items c) ops)"
  using assms
proof (induction ops arbitrary: c)
  case (Cons x xs)
  show ?case
  proof (cases x)
    case (Lru_Put k v)
    obtain c1 where c1: "lru_put c k v = Some c1" "lru_ok c1" "lru_max_size c1 = lru_max_size c"
      "lru_items c1 = take (lru_max_size c) ((k, v) # filter (\<lambda>e. fst e \<noteq> k) (lru_items c))"
      by (rule lru_put_correct [OF Cons.prems])
    from Cons.IH [OF c1(2)] show ?thesis unfolding c1(3,4) using c1(1) Lru_Put by simp
  next
    case (Lru_Get k)
    show ?thesis
    proof (cases "map_of (lru_items c) k")
      case None
      then have "lru_get c k = Some (None, c)" using lru_get_correct [OF Cons.prems, of k] by simp
      then show ?thesis using Cons.IH [OF Cons.prems] None Lru_Get by auto
    next
      case (Some v)
      then obtain c1 where c1: "lru_get c k = Some (Some v, c1)" "lru_ok c1" "lru_max_size c1 = lru_max_size c"
        "lru_items c1 = (k, v) # filter (\<lambda>e. fst e \<noteq> k) (lru_items c)"
        using lru_get_correct [OF Cons.prems, of k] by auto
      from Cons.IH [OF c1(2)] show ?thesis unfolding c1(3,4) using c1(1) Some Lru_Get by auto
    qed
  qed
qed simp

text \<open>
  C26. \<^verbatim>\<open>lru_cache\<close> is a least-recently-used cache: every sequence of \<^verbatim>\<open>put\<close> and \<^verbatim>\<open>get\<close> on a new cache answers
  what a list answers that puts the item of each call in front and drops what exceeds the capacity;
  no iterator in the map is ever stale.
\<close>

theorem lru_run_refines:
  "\<exists>c. lru_run (new_lru_cache n) ops = Some (fst (lru_spec n [] ops), c) \<and> lru_items c = snd (lru_spec n [] ops)"
  using lru_run_correct [OF new_lru_ok(1), of n ops] by (auto simp: new_lru_ok)

text \<open>
  C27. \<^verbatim>\<open>NumaCache::put\<close> on a cache with a positive capacity whose \<^verbatim>\<open>size_\<close> is the number of its entries, as
  after any puts and gets (\<^verbatim>\<open>evict\<close> breaks this, it never lowers \<^verbatim>\<open>size_\<close>): a cached key gets the value; a
  new key takes a free entry as long as \<^verbatim>\<open>size_\<close> is below the capacity; otherwise it replaces the entry
  with the least weight, the oldest of these, and all other entries stay.
\<close>

theorem numa_put_replaces:
  assumes "fp_arith F" and "numa_ok F c" and "0 < capacity c" and "0 \<le> numa" and "numa < int max_numa_nodes"
  shows "\<exists>c'. numa_put F c k v numa = Some c' \<and> numa_ok F c' \<and>
    (if numa_map c k \<noteq> None \<or> nc_size c < capacity c then numa_map c' = (numa_map c)(k \<mapsto> v)
     else \<exists>p\<in>set (entry_set c). (\<forall>q\<in>set (entry_set c). q \<noteq> p \<longrightarrow> CacheEntryCmp F (nodes c ! p) (nodes c ! q)) \<and>
            numa_map c' = (numa_map c)(ce_key (nodes c ! p) := None, k \<mapsto> v))"
proof (cases "numa_map c k")
  case (Some w)
  show ?thesis by (rule fp_arith.numa_put_present [OF assms(1,2) Some assms(4,5), of v]) (auto simp: Some)
next
  case None
  have le: "nc_size c \<le> capacity c" using assms(2) by (simp add: numa_ok_def)
  show ?thesis
  proof (cases "nc_size c = capacity c")
    case True
    show ?thesis by (rule fp_arith.numa_put_full [OF assms(1,2) None True assms(3-5), of v]) (use None True in auto)
  next
    case False
    then have "nc_size c < capacity c" using le by simp
    show ?thesis
      by (rule fp_arith.numa_put_room [OF assms(1,2) None \<open>nc_size c < capacity c\<close> assms(4,5), of v])
        (use \<open>nc_size c < capacity c\<close> in auto)
  qed
qed

definition raw_entry :: "rat CacheEntry" where
  "raw_entry = \<lparr>ce_key = 0, ce_value = 0, ce_numa_id = - 1, ce_weight = 0, oldest_ts = 0, visit_times = [0, 0]\<rparr>"

text \<open>A cache of one entry: the first key takes the free entry, the second one replaces it.\<close>

theorem numa_put_replaces_witness:
  "\<exists>c c'. numa_put rat_fpu (new_NumaCache raw_entry 1) 7 70 0 = Some c \<and> numa_map c = [7 \<mapsto> 70] \<and>
     numa_put rat_fpu c 8 80 0 = Some c' \<and> numa_map c' = [8 \<mapsto> 80]"
proof -
  have "\<exists>c. numa_put rat_fpu (new_NumaCache raw_entry 1) 7 70 0 = Some c \<and> numa_ok rat_fpu c \<and>
      numa_map c = (numa_map (new_NumaCache raw_entry 1))(7 \<mapsto> 70)"
    using numa_put_replaces [OF exact.fp_arith_axioms new_numa_ok(1), of raw_entry 1 0 7 70]
    by (simp add: new_NumaCache_def max_numa_nodes_def)
  then obtain c where c: "numa_put rat_fpu (new_NumaCache raw_entry 1) 7 70 0 = Some c" "numa_ok rat_fpu c" "numa_map c = [7 \<mapsto> 70]"
    by (auto simp: new_numa_ok(2))
  have full: "nc_size c = 1" "capacity c = 1" "entry_set c = [0]" "ce_key (nodes c ! 0) = 7"
    using c(1) by (auto simp: numa_put_def new_NumaCache_def numa_place_def CacheEntry_Reset_def max_numa_nodes_def set_insert_def Let_def)
  have "\<exists>c'. numa_put rat_fpu c 8 80 0 = Some c' \<and> numa_map c' = (numa_map c)(7 := None, 8 \<mapsto> 80)"
    using numa_put_replaces [OF exact.fp_arith_axioms c(2), of 0 8 80] full c(3) by (auto simp: max_numa_nodes_def)
  then obtain c' where "numa_put rat_fpu c 8 80 0 = Some c'" "numa_map c' = [8 \<mapsto> 80]" by (auto simp: c(3))
  then show ?thesis using c by blast
qed

text \<open>
  \<^verbatim>\<open>NumaCache::evict\<close> does not lower \<^verbatim>\<open>size_\<close>: once a cache of one entry was filled and its key evicted, the
  next \<^verbatim>\<open>put\<close> finds the cache full and dereferences the beginning of an empty set.
\<close>

theorem numa_evict_then_put:
  assumes "fp_arith F" and "numa_put F (new_NumaCache raw 1) k v numa = Some c" and "numa_evict F c k = (True, c')"
  shows "numa_map c' = Map.empty \<and> numa_put F c' k' w numa' = None"
proof -
  obtain e where e: "CacheEntry_Reset F raw k v 0 numa = Some e"
      "c = \<lparr>capacity = 1, nc_size = 1, current_ts = 1, entry_map = [(k, 0)], entry_set = [0], free_entry = [], nodes = [e]\<rparr>"
    using assms(2) by (auto simp: numa_put_def new_NumaCache_def numa_place_def set_insert_def Let_def split: option.splits)
  have "d_finite F (ce_weight e)"
    using e(1) fp_arith.finite_of_int [OF assms(1)] by (auto simp: CacheEntry_Reset_def split: if_splits)
  then have "\<not> CacheEntryCmp F e e" by (rule fp_arith.cmp_irrefl [OF assms(1)])
  then have "c' = c\<lparr>entry_set := [], entry_map := [], free_entry := [0]\<rparr>"
    using assms(3) e by (simp add: numa_evict_def set_erase_def)
  then show ?thesis using e(2) by (simp add: numa_put_def numa_map_def fun_eq_iff)
qed

theorem numa_evict_then_put_witness:
  "\<exists>c c'. numa_put rat_fpu (new_NumaCache raw_entry 1) 7 70 0 = Some c \<and> numa_evict rat_fpu c 7 = (True, c') \<and>
     numa_put rat_fpu c' 8 80 0 = None"
proof -
  obtain c where c: "numa_put rat_fpu (new_NumaCache raw_entry 1) 7 70 0 = Some c" "map_of (entry_map c) 7 = Some 0"
    by (simp add: numa_put_def new_NumaCache_def numa_place_def CacheEntry_Reset_def max_numa_nodes_def Let_def)
  then obtain c' where "numa_evict rat_fpu c 7 = (True, c')" by (simp add: numa_evict_def)
  with c(1) numa_evict_then_put [OF exact.fp_arith_axioms c(1), of c' 8 80 0] show ?thesis by blast
qed

end
