(* ===== verification/Nali_Locks.thy ===== *)
theory Nali_Locks
  imports Nali_Prelude
begin

unbundle bit_operations_syntax

text \<open>
  The locks of \<^verbatim>\<open>src/include/util/rwlock.h\<close> (\<^verbatim>\<open>SpinLatch\<close>, \<^verbatim>\<open>SpinLock\<close>) and \<^verbatim>\<open>src/src/nali_concurrency.h\<close>
  (\<^verbatim>\<open>atomic_add\<close>, \<^verbatim>\<open>spin_lock\<close>, \<^verbatim>\<open>OptLock\<close>). Every access to the atomic variable is one step of one
  thread; the state is the variable and where each thread stands. A weak compare-and-swap may fail
  without a reason. The accesses to one atomic variable are totally ordered, so interleaving is all
  that the memory model adds here.
\<close>

section \<open>Threads\<close>

text \<open>The number of threads that stand at a position of a kind.\<close>

definition occ :: "('a \<Rightarrow> bool) \<Rightarrow> 'a list \<Rightarrow> nat" where
  "occ P xs = length (filter P xs)"

lemma occ_simps: "occ P [] = 0" "occ P (x # xs) = of_bool (P x) + occ P xs"
  by (simp_all add: occ_def)

lemma occ_update: "i < length xs \<Longrightarrow> occ P (xs[i := y]) + of_bool (P (xs ! i)) = occ P xs + of_bool (P y)"
proof (induction xs arbitrary: i)
  case (Cons x xs)
  then show ?case by (cases i) (auto simp: occ_simps)
qed simp

lemma occ_pos: "i < length xs \<Longrightarrow> P (xs ! i) \<Longrightarrow> 0 < occ P xs"
  using occ_update [of i xs P "xs ! i"] by (auto simp: occ_def filter_empty_conv)

text \<open>Two threads at a position count twice: take one away and the other remains.\<close>

lemma occ_two:
  assumes "i < length xs" and "j < length xs" and "i \<noteq> j" and "P (xs ! i)" and "P (xs ! j)"
  shows "2 \<le> occ P xs"
proof (cases "\<exists>y. \<not> P y")
  case True
  then obtain y where "\<not> P y" by blast
  then have "occ P (xs[i := y]) + 1 = occ P xs" using occ_update [of i xs P y] assms by simp
  moreover have "0 < occ P (xs[i := y])" by (rule occ_pos [of j]) (use assms in simp_all)
  ultimately show ?thesis by linarith
next
  case False
  then have "occ P xs = length xs" by (simp add: occ_def)
  then show ?thesis using assms by linarith
qed

lemma occ_add_le: "(\<And>x. \<not> (P x \<and> Q x)) \<Longrightarrow> occ P xs + occ Q xs \<le> length xs"
proof (induction xs)
  case (Cons x xs)
  then have "occ P xs + occ Q xs \<le> length xs" "\<not> (P x \<and> Q x)" by blast+
  then show ?case by (cases "P x") (simp_all add: occ_simps)
qed (simp add: occ_simps)

lemma occ_mono: "(\<And>x. P x \<Longrightarrow> Q x) \<Longrightarrow> occ P xs \<le> occ Q xs"
  by (induction xs) (auto simp: occ_simps)

text \<open>A system of steps with an invariant.\<close>

locale transition_system =
  fixes start :: "'s \<Rightarrow> bool" and step :: "'s \<Rightarrow> 's \<Rightarrow> bool" and holds :: "'s \<Rightarrow> bool"
  assumes start_holds: "start s \<Longrightarrow> holds s"
    and step_holds: "holds s \<Longrightarrow> step s s' \<Longrightarrow> holds s'"
begin

lemma reach_holds:
  assumes "step\<^sup>*\<^sup>* s s'" and "start s"
  shows "holds s'"
  using assms(1) by induction (simp_all add: start_holds [OF assms(2)] step_holds)

end

section \<open>SpinLatch\<close>

text \<open>
  The positions of a thread: outside; in the loop of \<^verbatim>\<open>WLock\<close>; holding the write lock; in the loop of
  \<^verbatim>\<open>RLock\<close> after its \<^verbatim>\<open>fetch_add\<close>; holding a read lock; in \<^verbatim>\<open>TryRLock\<close> before the load, and before taking back
  its registration.
\<close>

datatype latch_pc = LIdle | WSpin | Writing | RSpin | Reading | RTry | RBack

record SpinLatch =
  latch :: "8 word"
  latch_pcs :: "latch_pc list"

definition goto :: "nat \<Rightarrow> latch_pc \<Rightarrow> SpinLatch \<Rightarrow> SpinLatch" where
  "goto t pc s = s\<lparr>latch_pcs := (latch_pcs s)[t := pc]\<rparr>"

definition latch_at :: "SpinLatch \<Rightarrow> nat \<Rightarrow> latch_pc \<Rightarrow> bool" where
  "latch_at s t pc \<longleftrightarrow> t < length (latch_pcs s) \<and> latch_pcs s ! t = pc"

definition wlocked :: "8 word \<Rightarrow> bool" where
  "wlocked lock \<longleftrightarrow> lock AND 1 \<noteq> 0"

inductive latch_step :: "SpinLatch \<Rightarrow> SpinLatch \<Rightarrow> bool" where
  WLock_call: "latch_at s t LIdle \<Longrightarrow> latch_step s (goto t WSpin s)"
| WLock_cas: "latch_at s t WSpin \<Longrightarrow> latch s = 0 \<Longrightarrow> latch_step s (goto t Writing (s\<lparr>latch := 1\<rparr>))"
| WLock_retry: "latch_at s t WSpin \<Longrightarrow> latch_step s s"
| TryWLock_cas: "latch_at s t LIdle \<Longrightarrow> latch s = 0 \<Longrightarrow> latch_step s (goto t Writing (s\<lparr>latch := 1\<rparr>))"
| TryWLock_fail: "latch_at s t LIdle \<Longrightarrow> latch_step s s"
| WUnlock: "latch_at s t Writing \<Longrightarrow> latch_step s (goto t LIdle (s\<lparr>latch := latch s XOR 1\<rparr>))"
| RLock_add: "latch_at s t LIdle \<Longrightarrow>
    latch_step s (goto t (if wlocked (latch s) then RSpin else Reading) (s\<lparr>latch := latch s + 2\<rparr>))"
| RLock_load: "latch_at s t RSpin \<Longrightarrow> latch_step s (goto t (if wlocked (latch s) then RSpin else Reading) s)"
| TryRLock_add: "latch_at s t LIdle \<Longrightarrow> latch_step s (goto t RTry (s\<lparr>latch := latch s + 2\<rparr>))"
| TryRLock_load: "latch_at s t RTry \<Longrightarrow> latch_step s (goto t (if wlocked (latch s) then RBack else Reading) s)"
| TryRLock_back: "latch_at s t RBack \<Longrightarrow> latch_step s (goto t LIdle (s\<lparr>latch := latch s - 2\<rparr>))"
| RUnlock: "latch_at s t Reading \<Longrightarrow> latch_step s (goto t LIdle (s\<lparr>latch := latch s - 2\<rparr>))"

inductive_cases latch_stepE: "latch_step s s'"

definition new_SpinLatch :: "nat \<Rightarrow> SpinLatch" where
  "new_SpinLatch n = \<lparr>latch = 0, latch_pcs = replicate n LIdle\<rparr>"

text \<open>Registered readers and writers, and what the latch counts.\<close>

definition registered :: "latch_pc \<Rightarrow> bool" where
  "registered pc \<longleftrightarrow> pc \<in> {RSpin, Reading, RTry, RBack}"

definition latch_ok :: "SpinLatch \<Rightarrow> bool" where
  "latch_ok s \<longleftrightarrow> length (latch_pcs s) < 128 \<and>
     latch s = word_of_nat (2 * occ registered (latch_pcs s) + occ ((=) Writing) (latch_pcs s)) \<and>
     occ ((=) Writing) (latch_pcs s) \<le> 1 \<and>
     (0 < occ ((=) Writing) (latch_pcs s) \<longrightarrow> occ ((=) Reading) (latch_pcs s) = 0)"

lemma new_latch_ok: "n < 128 \<Longrightarrow> latch_ok (new_SpinLatch n)"
  by (simp add: latch_ok_def new_SpinLatch_def occ_def registered_def)

lemma wlocked_count: "wlocked (word_of_nat (2 * r + w)) \<longleftrightarrow> odd w"
proof -
  have "odd (word_of_nat w :: 8 word) \<longleftrightarrow> odd w" by transfer simp
  then show ?thesis by (simp add: wlocked_def and_one_eq flip: odd_iff_mod_2_eq_one even_iff_mod_2_eq_zero)
qed

lemma latch_wlocked:
  assumes "latch_ok s"
  shows "wlocked (latch s) \<longleftrightarrow> 0 < occ ((=) Writing) (latch_pcs s)"
proof -
  have "wlocked (latch s) \<longleftrightarrow> odd (occ ((=) Writing) (latch_pcs s))"
    using assms wlocked_count by (simp only: latch_ok_def)
  moreover have "occ ((=) Writing) (latch_pcs s) \<le> 1" using assms by (simp add: latch_ok_def)
  ultimately show ?thesis by (cases "occ ((=) Writing) (latch_pcs s)") auto
qed

text \<open>Fewer than 128 threads cannot make the count wrap to zero.\<close>

lemma latch_zero:
  assumes "latch_ok s" and "latch s = 0"
  shows "occ registered (latch_pcs s) = 0" and "occ ((=) Writing) (latch_pcs s) = 0"
proof -
  let ?n = "2 * occ registered (latch_pcs s) + occ ((=) Writing) (latch_pcs s)"
  have "occ registered (latch_pcs s) + occ ((=) Writing) (latch_pcs s) \<le> length (latch_pcs s)"
    by (rule occ_add_le) (auto simp: registered_def)
  then have "?n < 2 ^ 8" using assms(1) by (simp add: latch_ok_def)
  then have "unat (word_of_nat ?n :: 8 word) = ?n"
    by (simp only: unsigned_of_nat take_bit_nat_eq_self len_num1 len_bit0) (simp add: take_bit_nat_eq_self)
  moreover have "(word_of_nat ?n :: 8 word) = 0" using assms by (simp only: latch_ok_def)
  ultimately have "?n = 0" by simp
  then show "occ registered (latch_pcs s) = 0" "occ ((=) Writing) (latch_pcs s) = 0" by simp_all
qed

definition weight :: "latch_pc \<Rightarrow> nat" where
  "weight pc = 2 * of_bool (registered pc) + of_bool (pc = Writing)"

lemma latch_move:
  assumes ok: "latch_ok s" and pos: "latch_at s t pc"
    and v: "v + word_of_nat (weight pc) = latch s + word_of_nat (weight pc')"
    and w: "pc' = Writing \<Longrightarrow> latch s = 0" and r: "pc' = Reading \<Longrightarrow> \<not> wlocked (latch s)"
  shows "latch_ok (goto t pc' (s\<lparr>latch := v\<rparr>))"
proof -
  let ?p = "latch_pcs s" and ?p' = "(latch_pcs s)[t := pc']"
  have up: "occ P ?p' + of_bool (P pc) = occ P ?p + of_bool (P pc')" for P
    using occ_update [of t ?p P pc'] pos by (simp add: latch_at_def)
  note reg = up [of registered] and wr = up [of "(=) Writing"] and rd = up [of "(=) Reading"]
  let ?n = "2 * occ registered ?p + occ ((=) Writing) ?p" and ?n' = "2 * occ registered ?p' + occ ((=) Writing) ?p'"
  have "?n' + weight pc = ?n + weight pc'" using reg wr by (simp add: weight_def eq_commute [of _ Writing])
  then have "(word_of_nat ?n' :: 8 word) + word_of_nat (weight pc) = word_of_nat ?n + word_of_nat (weight pc')"
    by (simp only: flip: of_nat_add)
  moreover have "latch s = word_of_nat ?n" using ok by (simp only: latch_ok_def)
  ultimately have v': "v = word_of_nat ?n'" using v by (metis add_right_cancel)
  have "occ ((=) Writing) ?p' \<le> 1 \<and> (0 < occ ((=) Writing) ?p' \<longrightarrow> occ ((=) Reading) ?p' = 0)"
  proof (cases "pc' = Writing")
    case True
    have "occ registered ?p = 0" "occ ((=) Writing) ?p = 0" by (rule latch_zero [OF ok w [OF True]])+
    moreover have "occ ((=) Reading) ?p \<le> occ registered ?p"
      by (rule occ_mono) (simp add: registered_def)
    ultimately show ?thesis using wr rd True by (auto split: if_splits)
  next
    case False
    then have le: "occ ((=) Writing) ?p' \<le> occ ((=) Writing) ?p" using wr by auto
    show ?thesis
    proof (cases "pc' = Reading")
      case True
      have "occ ((=) Writing) ?p = 0"
        using r [OF True] latch_wlocked [OF ok] by simp
      then show ?thesis using le by simp
    next
      case False
      then have "occ ((=) Reading) ?p' \<le> occ ((=) Reading) ?p" using rd by auto
      then show ?thesis using le ok by (auto simp: latch_ok_def)
    qed
  qed
  then show ?thesis using ok v' by (simp add: latch_ok_def goto_def)
qed

lemma latch_step_ok:
  assumes step: "latch_step s s'" and ok: "latch_ok s"
  shows "latch_ok s'"
proof -
  note mv = latch_move [OF ok]
  have mv0: "latch_ok (goto t pc' s)" if "latch_at s t pc" "weight pc = weight pc'" "pc' \<noteq> Writing" "pc' = Reading \<Longrightarrow> \<not> wlocked (latch s)" for t pc pc'
    using mv [OF that(1), of "latch s" pc'] that by simp
  show ?thesis
    using step
  proof cases
    case (WUnlock t)
    then have "0 < occ ((=) Writing) (latch_pcs s)" by (auto simp: latch_at_def intro: occ_pos)
    then have "wlocked (latch s)" by (simp add: latch_wlocked [OF ok])
    then have "odd (latch s)" by (simp add: wlocked_def and_one_eq odd_iff_mod_2_eq_one)
    then have "latch s XOR 1 = latch s - 1" by (simp add: xor_one_eq)
    then show ?thesis using WUnlock mv [OF WUnlock(2), of "latch s XOR 1" LIdle] by (simp add: weight_def registered_def)
  next
    case (WLock_call t)
    then show ?thesis using mv0 [of t LIdle WSpin] by (simp add: weight_def registered_def)
  next
    case (WLock_cas t)
    then show ?thesis using mv [of t WSpin 1 Writing] by (simp add: weight_def registered_def)
  next
    case (TryWLock_cas t)
    then show ?thesis using mv [of t LIdle 1 Writing] by (simp add: weight_def registered_def)
  next
    case (RLock_add t)
    then show ?thesis using mv [of t LIdle "latch s + 2" RSpin] mv [of t LIdle "latch s + 2" Reading] by (simp add: weight_def registered_def)
  next
    case (RLock_load t)
    then show ?thesis using mv0 [of t RSpin RSpin] mv0 [of t RSpin Reading] by (simp add: weight_def registered_def)
  next
    case (TryRLock_add t)
    then show ?thesis using mv [of t LIdle "latch s + 2" RTry] by (simp add: weight_def registered_def)
  next
    case (TryRLock_load t)
    then show ?thesis using mv0 [of t RTry RBack] mv0 [of t RTry Reading] by (simp add: weight_def registered_def)
  next
    case (TryRLock_back t)
    then show ?thesis using mv [of t RBack "latch s - 2" LIdle] by (simp add: weight_def registered_def)
  next
    case (RUnlock t)
    then show ?thesis using mv [of t Reading "latch s - 2" LIdle] by (simp add: weight_def registered_def)
  qed (use ok in simp_all)
qed

interpretation spin_latch: transition_system "\<lambda>s. \<exists>n<128. s = new_SpinLatch n" latch_step latch_ok
  by unfold_locales (auto simp: new_latch_ok intro: latch_step_ok)

text \<open>Mutual exclusion from the invariant.\<close>

lemma latch_excludes:
  assumes ok: "latch_ok s" and w: "latch_at s t Writing" and u: "latch_at s u pc" and "u \<noteq> t"
  shows "pc \<noteq> Writing \<and> pc \<noteq> Reading"
proof -
  have "0 < occ ((=) Writing) (latch_pcs s)" using w by (auto simp: latch_at_def intro: occ_pos)
  then have one: "occ ((=) Writing) (latch_pcs s) = 1" and none: "occ ((=) Reading) (latch_pcs s) = 0"
    using ok by (auto simp: latch_ok_def)
  have "pc \<noteq> Writing" using occ_two [of t "latch_pcs s" u "(=) Writing"] w u \<open>u \<noteq> t\<close> one by (auto simp: latch_at_def)
  moreover have "pc \<noteq> Reading" using occ_pos [of u "latch_pcs s" "(=) Reading"] u none by (auto simp: latch_at_def)
  ultimately show ?thesis by simp
qed

lemma latch_free:
  assumes ok: "latch_ok s"
  shows "wlocked (latch s) \<longleftrightarrow> (\<exists>u. latch_at s u Writing)"
proof -
  have "0 < occ ((=) Writing) (latch_pcs s) \<longleftrightarrow> (\<exists>u. latch_at s u Writing)"
    by (auto simp: occ_def latch_at_def filter_empty_conv in_set_conv_nth)
  then show ?thesis by (simp add: latch_wlocked [OF ok])
qed

text \<open>A registered reader keeps new writers out.\<close>

lemma latch_reader_blocks:
  assumes ok: "latch_ok s" and reg: "latch_at s t pc" "registered pc" and no: "\<not> wlocked (latch s)" and step: "latch_step s s'"
  shows "\<not> wlocked (latch s')"
proof -
  have "latch s \<noteq> 0" using latch_zero(1) [OF ok] reg occ_pos [of t "latch_pcs s" registered] by (auto simp: latch_at_def)
  have "0 < occ ((=) Writing) (latch_pcs s)" if "latch_at s u Writing" for u
    using that by (auto simp: latch_at_def intro: occ_pos)
  then have nw: "\<not> latch_at s u Writing" for u using no by (auto simp: latch_wlocked [OF ok])
  have two: "wlocked (x + 2) \<longleftrightarrow> wlocked x" "wlocked (x - 2) \<longleftrightarrow> wlocked x" for x
    by (simp_all add: wlocked_def and_one_eq flip: odd_iff_mod_2_eq_one even_iff_mod_2_eq_zero)
  show ?thesis using step by cases (use no nw \<open>latch s \<noteq> 0\<close> two in \<open>auto simp: goto_def\<close>)
qed

text \<open>With enough readers the count wraps.\<close>

lemma latch_readers:
  assumes "k \<le> n"
  shows "latch_step\<^sup>*\<^sup>* (new_SpinLatch n) \<lparr>latch = word_of_nat (2 * k), latch_pcs = replicate k Reading @ replicate (n - k) LIdle\<rparr>"
  using assms
proof (induction k)
  case 0
  then show ?case by (simp add: new_SpinLatch_def)
next
  case (Suc k)
  let ?s = "\<lparr>latch = word_of_nat (2 * k), latch_pcs = replicate k Reading @ replicate (n - k) LIdle\<rparr>"
  have "latch_at ?s k LIdle" using Suc.prems by (simp add: latch_at_def nth_append)
  then have "latch_step ?s (goto k (if wlocked (latch ?s) then RSpin else Reading) (?s\<lparr>latch := latch ?s + 2\<rparr>))" by (rule RLock_add)
  moreover have "\<not> wlocked (latch ?s)" using wlocked_count [of k 0] by simp
  moreover have "(replicate k Reading @ replicate (n - k) LIdle)[k := Reading] = replicate (Suc k) Reading @ replicate (n - Suc k) LIdle"
  proof -
    have "replicate (n - k) LIdle = LIdle # replicate (n - Suc k) LIdle"
      using Suc.prems by (metis Suc_diff_Suc Suc_le_lessD replicate_Suc)
    then show ?thesis by (simp add: list_update_append replicate_app_Cons_same)
  qed
  ultimately have "latch_step ?s \<lparr>latch = word_of_nat (2 * Suc k), latch_pcs = replicate (Suc k) Reading @ replicate (n - Suc k) LIdle\<rparr>"
    by (simp add: goto_def algebra_simps)
  then show ?case using Suc by (meson Suc_leD rtranclp.rtrancl_into_rtrancl)
qed

lemma latch_wraps:
  assumes "n = 129"
  shows "\<exists>s. latch_step\<^sup>*\<^sup>* (new_SpinLatch n) s \<and> latch_at s 0 Reading \<and> latch_at s 128 Writing"
proof -
  let ?s = "\<lparr>latch = word_of_nat (2 * 128), latch_pcs = replicate 128 Reading @ replicate (n - 128) LIdle\<rparr>"
  have r: "latch_step\<^sup>*\<^sup>* (new_SpinLatch n) ?s" by (rule latch_readers) (simp add: assms)
  have at: "latch_at ?s 128 LIdle" by (simp add: latch_at_def nth_append assms)
  have "latch_step ?s (goto 128 Writing (?s\<lparr>latch := 1\<rparr>))" by (rule TryWLock_cas [OF at]) simp
  then have "latch_step\<^sup>*\<^sup>* (new_SpinLatch n) (goto 128 Writing (?s\<lparr>latch := 1\<rparr>))" using r by (meson rtranclp.rtrancl_into_rtrancl)
  moreover have "latch_at (goto 128 Writing (?s\<lparr>latch := 1\<rparr>)) 0 Reading" "latch_at (goto 128 Writing (?s\<lparr>latch := 1\<rparr>)) 128 Writing"
    by (simp_all add: latch_at_def goto_def nth_append assms)
  ultimately show ?thesis by blast
qed

section \<open>OptLock\<close>

text \<open>
  The methods on the version word. \<^verbatim>\<open>bool &needRestart\<close> is an argument and a result. \<^verbatim>\<open>labelObsolete\<close> is a load
  and a store.
\<close>

definition opt_init :: u64 where
  "opt_init = 4"

definition isLocked :: "u64 \<Rightarrow> bool" where
  "isLocked version \<longleftrightarrow> version AND 2 = 2"

definition isObsolete :: "u64 \<Rightarrow> bool" where
  "isObsolete version \<longleftrightarrow> version AND 1 = 1"

definition readLockOrRestart :: "u64 \<Rightarrow> bool \<Rightarrow> u64 \<times> bool" where
  "readLockOrRestart cur needRestart = (cur, needRestart \<or> isLocked cur \<or> isObsolete cur)"

text \<open>The compare-and-swap loads the current value into \<^verbatim>\<open>version\<close> when it fails.\<close>

definition upgradeToWriteLockOrRestart :: "u64 \<Rightarrow> u64 \<Rightarrow> bool \<Rightarrow> u64 \<times> u64 \<times> bool" where
  "upgradeToWriteLockOrRestart cur version needRestart =
     (if cur = version then (cur + 2, version + 2, needRestart) else (cur, cur, True))"

definition writeLockOrRestart :: "u64 \<Rightarrow> bool \<Rightarrow> u64 \<times> bool" where
  "writeLockOrRestart cur needRestart =
     (case readLockOrRestart cur needRestart of (version, needRestart) \<Rightarrow>
        if needRestart then (cur, needRestart)
        else case upgradeToWriteLockOrRestart cur version needRestart of (cur', _, needRestart) \<Rightarrow> (cur', needRestart))"

definition writeUnlock :: "u64 \<Rightarrow> u64" where
  "writeUnlock cur = cur + 2"

definition readUnlockOrRestart :: "u64 \<Rightarrow> u64 \<Rightarrow> bool" where
  "readUnlockOrRestart cur startRead \<longleftrightarrow> startRead \<noteq> cur"

definition checkOrRestart :: "u64 \<Rightarrow> u64 \<Rightarrow> bool" where
  "checkOrRestart cur startRead = readUnlockOrRestart cur startRead"

definition writeUnlockObsolete :: "u64 \<Rightarrow> u64" where
  "writeUnlockObsolete cur = cur + 3"

definition labelObsolete :: "u64 \<Rightarrow> u64" where
  "labelObsolete cur = (cur OR 1)"

text \<open>
  Threads: outside; after \<^verbatim>\<open>readLockOrRestart\<close> with the version read; holding the write lock, before or
  after \<^verbatim>\<open>labelObsolete\<close>. \<open>acquired\<close> counts the write locks taken, and a reader remembers that count.
\<close>

datatype opt_pc = OIdle | ORead u64 nat | OWriting | OLabelled

record OptLock =
  version :: u64
  opt_pcs :: "opt_pc list"
  acquired :: nat

definition opt_at :: "OptLock \<Rightarrow> nat \<Rightarrow> opt_pc \<Rightarrow> bool" where
  "opt_at s t pc \<longleftrightarrow> t < length (opt_pcs s) \<and> opt_pcs s ! t = pc"

definition opt_goto :: "nat \<Rightarrow> opt_pc \<Rightarrow> OptLock \<Rightarrow> OptLock" where
  "opt_goto t pc s = s\<lparr>opt_pcs := (opt_pcs s)[t := pc]\<rparr>"

inductive opt_step :: "OptLock \<Rightarrow> OptLock \<Rightarrow> bool" where
  Read: "opt_at s t OIdle \<Longrightarrow> readLockOrRestart (version s) False = (v, False) \<Longrightarrow>
    opt_step s (opt_goto t (ORead v (acquired s)) s)"
| Read_restart: "opt_at s t OIdle \<Longrightarrow> readLockOrRestart (version s) False = (v, True) \<Longrightarrow> opt_step s s"
| Upgrade: "opt_at s t (ORead v n) \<Longrightarrow> upgradeToWriteLockOrRestart (version s) v False = (cur, v', False) \<Longrightarrow>
    opt_step s (opt_goto t OWriting (s\<lparr>version := cur, acquired := Suc (acquired s)\<rparr>))"
| Upgrade_restart: "opt_at s t (ORead v n) \<Longrightarrow> upgradeToWriteLockOrRestart (version s) v False = (cur, v', True) \<Longrightarrow>
    opt_step s (opt_goto t OIdle (s\<lparr>version := cur\<rparr>))"
| Unread: "opt_at s t (ORead v n) \<Longrightarrow> opt_step s (opt_goto t OIdle s)"
| Unlock: "opt_at s t OWriting \<Longrightarrow> opt_step s (opt_goto t OIdle (s\<lparr>version := writeUnlock (version s)\<rparr>))"
| Unlock_obsolete: "opt_at s t OWriting \<Longrightarrow> opt_step s (opt_goto t OIdle (s\<lparr>version := writeUnlockObsolete (version s)\<rparr>))"
| Label: "opt_at s t OWriting \<Longrightarrow> opt_step s (opt_goto t OLabelled (s\<lparr>version := labelObsolete (version s)\<rparr>))"
| Unlock_labelled: "opt_at s t OLabelled \<Longrightarrow> opt_step s (opt_goto t OIdle (s\<lparr>version := writeUnlock (version s)\<rparr>))"

definition new_OptLock :: "nat \<Rightarrow> OptLock" where
  "new_OptLock n = \<lparr>version = opt_init, opt_pcs = replicate n OIdle, acquired = 0\<rparr>"

text \<open>The version counts the acquisitions by fours; a holder is two below; the last bit marks obsolescence.\<close>

definition opt_holder :: "opt_pc \<Rightarrow> bool" where
  "opt_holder pc \<longleftrightarrow> pc = OWriting \<or> pc = OLabelled"

definition opt_word :: "nat \<Rightarrow> bool \<Rightarrow> bool \<Rightarrow> u64" where
  "opt_word n held obsolete = 4 * word_of_nat (Suc n) - 2 * of_bool held + of_bool obsolete"

definition opt_free :: "opt_pc list \<Rightarrow> bool" where
  "opt_free pcs \<longleftrightarrow> (\<forall>u<length pcs. \<not> opt_holder (pcs ! u))"

definition opt_held :: "opt_pc list \<Rightarrow> nat \<Rightarrow> bool" where
  "opt_held pcs t \<longleftrightarrow> t < length pcs \<and> opt_holder (pcs ! t) \<and> (\<forall>u<length pcs. u \<noteq> t \<longrightarrow> \<not> opt_holder (pcs ! u))"

definition opt_reads :: "nat \<Rightarrow> opt_pc list \<Rightarrow> bool" where
  "opt_reads a pcs \<longleftrightarrow> (\<forall>u<length pcs. \<forall>v n. pcs ! u = ORead v n \<longrightarrow> n \<le> a \<and> v = opt_word n False False)"

definition opt_ok :: "OptLock \<Rightarrow> bool" where
  "opt_ok s \<longleftrightarrow> opt_reads (acquired s) (opt_pcs s) \<and>
     (opt_free (opt_pcs s) \<and> (\<exists>ob. version s = opt_word (acquired s) False ob) \<or>
      (\<exists>t. opt_held (opt_pcs s) t \<and> version s = opt_word (acquired s) True (opt_pcs s ! t = OLabelled)))"

lemma new_opt_ok: "opt_ok (new_OptLock n)"
  by (auto simp: opt_ok_def new_OptLock_def opt_free_def opt_reads_def opt_holder_def opt_init_def opt_word_def intro: exI [of _ False])

lemma opt_bits:
  fixes y :: u64
  assumes "c < 4"
  shows "isLocked (4 * y + word_of_nat c) \<longleftrightarrow> 2 \<le> c" "isObsolete (4 * y + word_of_nat c) \<longleftrightarrow> odd c"
proof -
  have lock: "isLocked w \<longleftrightarrow> bit w 1" for w
  proof -
    have "bit w 1" if "w AND 2 = 2"
    proof -
      have "bit (w AND 2) 1" unfolding that by (simp add: bit_2_iff)
      then show ?thesis by (simp add: bit_and_iff)
    qed
    moreover have "w AND 2 = 2" if "bit w 1"
    proof (rule bit_eqI)
      show "bit (w AND 2) n \<longleftrightarrow> bit (2 :: u64) n" for n
        using that by (cases "n = 1") (simp_all add: bit_and_iff bit_2_iff)
    qed
    ultimately show ?thesis unfolding isLocked_def by blast
  qed
  have obs: "isObsolete w \<longleftrightarrow> bit w 0" for w
    by (simp add: isObsolete_def and_one_eq bit_0 odd_iff_mod_2_eq_one)
  show "isLocked (4 * y + word_of_nat c) \<longleftrightarrow> 2 \<le> c"
    unfolding lock using assms by transfer (simp add: bit_take_bit_iff bit_iff_odd, presburger)
  show "isObsolete (4 * y + word_of_nat c) \<longleftrightarrow> odd c"
    unfolding obs using assms by transfer (simp add: bit_take_bit_iff bit_iff_odd)
qed

lemma opt_word_form: "opt_word n held ob = 4 * word_of_nat (if held then n else Suc n) + word_of_nat (2 * of_bool held + of_bool ob)"
  by (simp add: opt_word_def algebra_simps)

lemma opt_word_bits:
  "isLocked (opt_word n held ob) \<longleftrightarrow> held" "isObsolete (opt_word n held ob) \<longleftrightarrow> ob"
  unfolding opt_word_form by (subst opt_bits; simp)+

lemma opt_word_eq:
  assumes "opt_word n held ob = opt_word m False False" and "m \<le> n" and "n - m < 2 ^ 62"
  shows "n = m \<and> \<not> held \<and> \<not> ob"
proof -
  have no: "\<not> held" "\<not> ob" using assms(1) opt_word_bits by metis+
  then have "(4 * word_of_nat n :: u64) = 4 * word_of_nat m" using assms(1) by (simp add: opt_word_def algebra_simps)
  then have "(word_of_nat (4 * n) :: u64) = word_of_nat (4 * m)" by simp
  then have "4 * n mod 2 ^ 64 = 4 * m mod 2 ^ 64" by (simp only: word_of_nat_eq_iff take_bit_eq_mod) simp
  then have "4 * (n - m) mod 2 ^ 64 = 0" using assms(2) by (metis mod_eq_dvd_iff_nat mult_le_mono2 diff_mult_distrib2 dvd_imp_mod_0)
  then have "n - m = 0" using assms(3) by simp
  then show ?thesis using no assms(2) by simp
qed

lemma opt_reads_update:
  assumes "opt_reads a pcs" and "a \<le> a'" and "\<And>v n. pc = ORead v n \<Longrightarrow> n \<le> a' \<and> v = opt_word n False False"
  shows "opt_reads a' (pcs[t := pc])"
  unfolding opt_reads_def
proof (intro allI impI)
  fix u v n
  assume u: "u < length (pcs[t := pc])" and r: "pcs[t := pc] ! u = ORead v n"
  show "n \<le> a' \<and> v = opt_word n False False"
  proof (cases "u = t")
    case True
    then show ?thesis using u r assms(3) by simp
  next
    case False
    then have "n \<le> a \<and> v = opt_word n False False" using u r assms(1) by (simp add: opt_reads_def)
    then show ?thesis using assms(2) by simp
  qed
qed

text \<open>The steps of a reader leave the version and the holder alone; a holder is the only one.\<close>

lemma opt_reader_ok:
  assumes "opt_ok s" and "opt_at s t pc" and "\<not> opt_holder pc" and "\<not> opt_holder pc'"
    and "\<And>v n. pc' = ORead v n \<Longrightarrow> n \<le> acquired s \<and> v = opt_word n False False"
  shows "opt_ok (opt_goto t pc' s)"
proof -
  let ?P = "opt_pcs s"
  have reads: "opt_reads (acquired s) (?P[t := pc'])" by (rule opt_reads_update [of "acquired s"]) (use assms in \<open>simp_all add: opt_ok_def\<close>)
  have free: "opt_free (?P[t := pc'])" if "opt_free ?P" using that assms(2,4) by (auto simp: opt_free_def opt_at_def nth_list_update)
  have held: "opt_held (?P[t := pc']) u \<and> ?P[t := pc'] ! u = ?P ! u" if "opt_held ?P u" for u
    using that assms(2-4) by (auto simp: opt_held_def opt_at_def nth_list_update)
  show ?thesis using assms(1) reads free held by (fastforce simp: opt_ok_def opt_goto_def)
qed

lemma opt_holder_word:
  assumes "opt_ok s" and "opt_at s t pc" and "opt_holder pc"
  shows "opt_held (opt_pcs s) t" and "version s = opt_word (acquired s) True (pc = OLabelled)"
  using assms by (auto simp: opt_ok_def opt_free_def opt_held_def opt_at_def)

lemma opt_release_ok:
  assumes "opt_ok s" and "opt_at s t pc" and "opt_holder pc" and "v = opt_word (acquired s) False ob"
  shows "opt_ok (opt_goto t OIdle (s\<lparr>version := v\<rparr>))"
  using opt_holder_word(1) [OF assms(1-3)] assms
  by (auto simp: opt_ok_def opt_goto_def opt_free_def opt_held_def opt_reads_def opt_holder_def nth_list_update)

lemma opt_read_word:
  assumes "opt_ok s" and "\<not> isLocked (version s)" and "\<not> isObsolete (version s)"
  shows "opt_free (opt_pcs s)" and "version s = opt_word (acquired s) False False"
  using assms by (auto simp: opt_ok_def opt_word_bits)

lemma opt_step_ok:
  assumes "opt_step s s'" and ok: "opt_ok s"
  shows "opt_ok s'"
  using assms(1)
proof cases
  case (Read t v)
  then have v: "v = opt_word (acquired s) False False"
    using opt_read_word(2) [OF ok] by (auto simp: readLockOrRestart_def)
  have "opt_ok (opt_goto t (ORead v (acquired s)) s)"
    by (rule opt_reader_ok [OF ok Read(2)]) (auto simp: opt_holder_def v)
  then show ?thesis using Read(1) by simp
next
  case (Upgrade t v n cur v')
  then have cur: "cur = version s + 2" "v = version s" by (auto simp: upgradeToWriteLockOrRestart_def split: if_splits)
  have "v = opt_word n False False" using ok Upgrade(2) by (auto simp: opt_ok_def opt_reads_def opt_at_def)
  then have "\<not> isLocked (version s)" "\<not> isObsolete (version s)" using cur opt_word_bits by metis+
  then have free: "opt_free (opt_pcs s)" and w: "version s = opt_word (acquired s) False False" using opt_read_word [OF ok] by auto
  have "opt_held ((opt_pcs s)[t := OWriting]) t" using free Upgrade(2) by (auto simp: opt_free_def opt_held_def opt_at_def opt_holder_def)
  moreover have "version s + 2 = opt_word (Suc (acquired s)) True False" unfolding w by (simp add: opt_word_def algebra_simps)
  moreover have "opt_reads (Suc (acquired s)) ((opt_pcs s)[t := OWriting])"
    by (rule opt_reads_update [of "acquired s"]) (use ok in \<open>simp_all add: opt_ok_def\<close>)
  ultimately show ?thesis using Upgrade(1,2) cur by (auto simp: opt_ok_def opt_goto_def opt_at_def)
next
  case (Upgrade_restart t v n cur v')
  then have "cur = version s" by (auto simp: upgradeToWriteLockOrRestart_def split: if_splits)
  then show ?thesis using Upgrade_restart(1) opt_reader_ok [OF ok Upgrade_restart(2), of OIdle] by (simp add: opt_holder_def)
next
  case (Unread t v n)
  then show ?thesis using opt_reader_ok [OF ok Unread(2), of OIdle] by (simp add: opt_holder_def)
next
  case (Unlock t)
  have "version s = opt_word (acquired s) True False" using opt_holder_word(2) [OF ok Unlock(2)] by (simp add: opt_holder_def)
  then show ?thesis using Unlock(1) opt_release_ok [OF ok Unlock(2), of "writeUnlock (version s)" False]
    by (simp add: opt_holder_def writeUnlock_def opt_word_def)
next
  case (Unlock_obsolete t)
  have "version s = opt_word (acquired s) True False" using opt_holder_word(2) [OF ok Unlock_obsolete(2)] by (simp add: opt_holder_def)
  then show ?thesis using Unlock_obsolete(1) opt_release_ok [OF ok Unlock_obsolete(2), of "writeUnlockObsolete (version s)" True]
    by (simp add: opt_holder_def writeUnlockObsolete_def opt_word_def)
next
  case (Label t)
  have w: "version s = opt_word (acquired s) True False" and held: "opt_held (opt_pcs s) t"
    using opt_holder_word [OF ok Label(2)] by (simp_all add: opt_holder_def)
  have "version s OR 1 = opt_word (acquired s) True True"
  proof -
    have "\<not> isObsolete (version s)" unfolding w by (simp add: opt_word_bits)
    then have "even (version s)" by (simp add: isObsolete_def and_one_eq even_iff_mod_2_eq_zero)
    then show ?thesis by (simp add: or_one_eq w opt_word_def)
  qed
  moreover have "opt_held ((opt_pcs s)[t := OLabelled]) t" using held by (auto simp: opt_held_def opt_holder_def)
  moreover have "opt_reads (acquired s) ((opt_pcs s)[t := OLabelled])"
    by (rule opt_reads_update [of "acquired s"]) (use ok in \<open>simp_all add: opt_ok_def\<close>)
  ultimately show ?thesis using Label held by (auto simp: opt_ok_def opt_goto_def labelObsolete_def opt_held_def)
next
  case (Unlock_labelled t)
  have "version s = opt_word (acquired s) True True" using opt_holder_word(2) [OF ok Unlock_labelled(2)] by (simp add: opt_holder_def)
  then show ?thesis using Unlock_labelled(1) opt_release_ok [OF ok Unlock_labelled(2), of "writeUnlock (version s)" True]
    by (simp add: opt_holder_def writeUnlock_def opt_word_def)
qed (use ok in simp_all)

interpretation opt_lock: transition_system "\<lambda>s. \<exists>n. s = new_OptLock n" opt_step opt_ok
  by unfold_locales (auto simp: new_opt_ok intro: opt_step_ok)

text \<open>A validated read: no write lock was taken since, unless \<open>2\<^sup>6\<^sup>2\<close> were.\<close>

lemma opt_validated:
  assumes ok: "opt_ok s" and at: "opt_at s t (ORead v n)" and few: "acquired s - n < 2 ^ 62"
    and valid: "\<not> readUnlockOrRestart (version s) v"
  shows "acquired s = n \<and> opt_free (opt_pcs s)"
proof -
  have n: "n \<le> acquired s" "v = opt_word n False False" using ok at by (auto simp: opt_ok_def opt_reads_def opt_at_def)
  have v: "version s = v" using valid by (simp add: readUnlockOrRestart_def)
  obtain held ob where w: "version s = opt_word (acquired s) held ob" and f: "\<not> held \<Longrightarrow> opt_free (opt_pcs s)"
    using ok by (auto simp: opt_ok_def)
  have "acquired s = n \<and> \<not> held \<and> \<not> ob" by (rule opt_word_eq) (use w v n few in simp_all)
  then show ?thesis using f by simp
qed

section \<open>Test-and-set locks\<close>

text \<open>
  \<^verbatim>\<open>spin_lock\<close> and \<^verbatim>\<open>SpinLock\<close>: one exchange of the flag per turn of a loop. Each function gives whether its
  loop ends and the new flag.
\<close>

definition spin_lock_lock :: "bool \<Rightarrow> bool \<times> bool" where
  "spin_lock_lock flag = (\<not> flag, True)"

definition spin_lock_try_lock :: "bool \<Rightarrow> bool \<times> bool" where
  "spin_lock_try_lock flag = (\<not> flag, True)"

definition spin_lock_unlock :: "bool \<Rightarrow> bool \<times> bool" where
  "spin_lock_unlock flag = (flag, False)"

definition spin_lock_wait :: "bool \<Rightarrow> bool" where
  "spin_lock_wait flag = (\<not> flag)"

definition SpinLock_Lock :: "bool \<Rightarrow> bool \<times> bool" where
  "SpinLock_Lock flag = (\<not> flag, True)"

definition SpinLock_Unlock :: "bool \<Rightarrow> bool" where
  "SpinLock_Unlock flag = False"

datatype spin_pc = SIdle | SLock | SHold | SUnlock | SWait

record spin_lock =
  lock_flag :: bool
  spin_pcs :: "spin_pc list"

definition spin_at :: "spin_lock \<Rightarrow> nat \<Rightarrow> spin_pc \<Rightarrow> bool" where
  "spin_at s t pc \<longleftrightarrow> t < length (spin_pcs s) \<and> spin_pcs s ! t = pc"

definition spin_goto :: "nat \<Rightarrow> spin_pc \<Rightarrow> bool \<Rightarrow> spin_lock \<Rightarrow> spin_lock" where
  "spin_goto t pc flag s = s\<lparr>lock_flag := flag, spin_pcs := (spin_pcs s)[t := pc]\<rparr>"

inductive spin_step :: "spin_lock \<Rightarrow> spin_lock \<Rightarrow> bool" where
  call: "spin_at s t SIdle \<Longrightarrow> pc \<in> {SLock, SWait} \<Longrightarrow> spin_step s (spin_goto t pc (lock_flag s) s)"
| lock: "spin_at s t SLock \<Longrightarrow> spin_lock_lock (lock_flag s) = (got, flag) \<Longrightarrow>
    spin_step s (spin_goto t (if got then SHold else SLock) flag s)"
| Lock: "spin_at s t SLock \<Longrightarrow> SpinLock_Lock (lock_flag s) = (got, flag) \<Longrightarrow>
    spin_step s (spin_goto t (if got then SHold else SLock) flag s)"
| try_lock: "spin_at s t SIdle \<Longrightarrow> spin_lock_try_lock (lock_flag s) = (got, flag) \<Longrightarrow>
    spin_step s (spin_goto t (if got then SHold else SIdle) flag s)"
| wait: "spin_at s t SWait \<Longrightarrow> spin_step s (spin_goto t (if spin_lock_wait (lock_flag s) then SIdle else SWait) (lock_flag s) s)"
| unlock: "spin_at s t SHold \<or> spin_at s t SUnlock \<Longrightarrow> spin_lock_unlock (lock_flag s) = (done, flag) \<Longrightarrow>
    spin_step s (spin_goto t (if done then SIdle else SUnlock) flag s)"
| Unlock: "spin_at s t SHold \<Longrightarrow> spin_step s (spin_goto t SIdle (SpinLock_Unlock (lock_flag s)) s)"

definition new_spin_lock :: "nat \<Rightarrow> spin_lock" where
  "new_spin_lock n = \<lparr>lock_flag = False, spin_pcs = replicate n SIdle\<rparr>"

text \<open>The flag is set exactly while one thread holds the lock; an unlock never has to repeat its exchange.\<close>

definition spin_ok :: "spin_lock \<Rightarrow> bool" where
  "spin_ok s \<longleftrightarrow> occ ((=) SHold) (spin_pcs s) = of_bool (lock_flag s) \<and> occ ((=) SUnlock) (spin_pcs s) = 0"

lemma spin_step_ok:
  assumes "spin_step s s'" and ok: "spin_ok s"
  shows "spin_ok s'"
proof -
  have mv: "spin_ok (spin_goto t pc' flag s)"
    if "spin_at s t pc" "of_bool flag + of_bool (pc = SHold) = (of_bool (lock_flag s) + of_bool (pc' = SHold) :: nat)" "pc' \<noteq> SUnlock" for t pc pc' flag
    using occ_update [of t "spin_pcs s" "(=) SHold" pc'] occ_update [of t "spin_pcs s" "(=) SUnlock" pc'] that ok
    by (auto simp: spin_ok_def spin_goto_def spin_at_def eq_commute [of _ SHold] split: if_splits)
  have no: "\<not> spin_at s t SUnlock" for t
    using ok occ_pos [of t "spin_pcs s" "(=) SUnlock"] by (auto simp: spin_ok_def spin_at_def)
  have flag: "lock_flag s" if "spin_at s t SHold" for t
    using that ok occ_pos [of t "spin_pcs s" "(=) SHold"] by (auto simp: spin_ok_def spin_at_def)
  show ?thesis
    using assms(1)
  proof cases
    case (call t pc)
    then show ?thesis using mv [of t SIdle _ pc] by auto
  next
    case (lock t got flag)
    then show ?thesis using mv [of t SLock] by (auto simp: spin_lock_lock_def)
  next
    case (Lock t got flag)
    then show ?thesis using mv [of t SLock] by (auto simp: SpinLock_Lock_def)
  next
    case (try_lock t got flag)
    then show ?thesis using mv [of t SIdle] by (auto simp: spin_lock_try_lock_def)
  next
    case (wait t)
    then show ?thesis using mv [of t SWait] by auto
  next
    case (unlock t fin fl)
    then have "spin_at s t SHold" using no by blast
    then show ?thesis using unlock(1,3) mv [of t SHold False SIdle] flag by (auto simp: spin_lock_unlock_def)
  next
    case (Unlock t)
    then show ?thesis using mv [of t SHold False SIdle] flag by (auto simp: SpinLock_Unlock_def)
  qed
qed

lemma new_spin_ok: "spin_ok (new_spin_lock n)"
  by (simp add: spin_ok_def new_spin_lock_def occ_def)

interpretation tas_lock: transition_system "\<lambda>s. \<exists>n. s = new_spin_lock n" spin_step spin_ok
  by unfold_locales (auto simp: new_spin_ok intro: spin_step_ok)

section \<open>atomic\_add\<close>

text \<open>A thread loads the target, and then its compare-and-swap succeeds or the loop starts again.\<close>

datatype add_pc = AStart u64 | ALoaded u64 u64 | ADone u64

record adders =
  target :: u64
  add_pcs :: "add_pc list"

inductive add_step :: "adders \<Rightarrow> adders \<Rightarrow> bool" where
  load: "t < length (add_pcs s) \<Longrightarrow> add_pcs s ! t = AStart operand \<Longrightarrow>
    add_step s (s\<lparr>add_pcs := (add_pcs s)[t := ALoaded operand (target s)]\<rparr>)"
| cas: "t < length (add_pcs s) \<Longrightarrow> add_pcs s ! t = ALoaded operand expected \<Longrightarrow> target s = expected \<Longrightarrow>
    add_step s (s\<lparr>target := expected + operand, add_pcs := (add_pcs s)[t := ADone operand]\<rparr>)"
| cas_fail: "t < length (add_pcs s) \<Longrightarrow> add_pcs s ! t = ALoaded operand expected \<Longrightarrow> target s \<noteq> expected \<Longrightarrow>
    add_step s (s\<lparr>add_pcs := (add_pcs s)[t := AStart operand]\<rparr>)"

primrec operand_of :: "add_pc \<Rightarrow> u64" where
  "operand_of (AStart x) = x"
| "operand_of (ALoaded x y) = x"
| "operand_of (ADone x) = x"

primrec added_of :: "add_pc \<Rightarrow> u64" where
  "added_of (AStart x) = 0"
| "added_of (ALoaded x y) = 0"
| "added_of (ADone x) = x"

definition start_adders :: "u64 \<Rightarrow> u64 list \<Rightarrow> adders" where
  "start_adders x ops = \<lparr>target = x, add_pcs = map AStart ops\<rparr>"

lemma sum_list_map_update:
  fixes f :: "'a \<Rightarrow> u64"
  assumes "t < length xs"
  shows "sum_list (map f (xs[t := y])) = sum_list (map f xs) - f (xs ! t) + f y"
  using assms
proof (induction xs arbitrary: t)
  case (Cons x xs)
  then show ?case by (cases t) (simp_all add: algebra_simps)
qed simp

lemma operand_update:
  assumes "t < length xs" and "operand_of y = operand_of (xs ! t)"
  shows "map operand_of (xs[t := y]) = map operand_of xs"
  using assms by (simp add: map_update list_update_same_conv)

lemma add_step_keeps:
  assumes "add_step s s'"
  shows "target s' - sum_list (map added_of (add_pcs s')) = target s - sum_list (map added_of (add_pcs s)) \<and>
    map operand_of (add_pcs s') = map operand_of (add_pcs s)"
  using assms
proof cases
  case (load t x)
  then show ?thesis using sum_list_map_update [of t "add_pcs s" added_of] operand_update [of t "add_pcs s"] by simp
next
  case (cas t x y)
  then show ?thesis using sum_list_map_update [of t "add_pcs s" added_of] operand_update [of t "add_pcs s"] by simp
next
  case (cas_fail t x y)
  then show ?thesis using sum_list_map_update [of t "add_pcs s" added_of] operand_update [of t "add_pcs s"] by simp
qed

interpretation adders: transition_system "\<lambda>s. s = start_adders x ops" add_step
  "\<lambda>s. target s = x + sum_list (map added_of (add_pcs s)) \<and> map operand_of (add_pcs s) = ops" for x ops
proof
  fix s
  assume "s = start_adders x ops"
  then show "target s = x + sum_list (map added_of (add_pcs s)) \<and> map operand_of (add_pcs s) = ops"
    by (simp add: start_adders_def comp_def)
next
  fix s s'
  assume "target s = x + sum_list (map added_of (add_pcs s)) \<and> map operand_of (add_pcs s) = ops" and "add_step s s'"
  then show "target s' = x + sum_list (map added_of (add_pcs s')) \<and> map operand_of (add_pcs s') = ops"
    using add_step_keeps [of s s'] by (simp add: algebra_simps)
qed

section \<open>Properties\<close>

text \<open>
  C28. With fewer than 128 threads, whoever holds the write lock of a \<^verbatim>\<open>SpinLatch\<close> is alone: in no reachable
  state does another thread write or read.
\<close>

theorem latch_mutual_exclusion:
  assumes "n < 128" and "latch_step\<^sup>*\<^sup>* (new_SpinLatch n) s" and "latch_at s t Writing" and "latch_at s u pc" and "u \<noteq> t"
  shows "pc \<noteq> Writing \<and> pc \<noteq> Reading"
  by (rule latch_excludes [OF spin_latch.reach_holds [OF assms(2)] assms(3-5)]) (use assms(1) in blast)

theorem latch_mutual_exclusion_witness:
  "\<exists>s. latch_step\<^sup>*\<^sup>* (new_SpinLatch 2) s \<and> latch_at s 0 Writing \<and> \<not> latch_at s 1 Reading"
proof -
  let ?s = "goto 0 Writing (new_SpinLatch 2\<lparr>latch := 1\<rparr>)"
  have "latch_step (new_SpinLatch 2) ?s" by (rule TryWLock_cas) (simp_all add: latch_at_def new_SpinLatch_def)
  then have r: "latch_step\<^sup>*\<^sup>* (new_SpinLatch 2) ?s" by (rule r_into_rtranclp)
  moreover have w: "latch_at ?s 0 Writing" by (simp add: latch_at_def goto_def new_SpinLatch_def)
  moreover have "\<not> latch_at ?s 1 Reading" using latch_mutual_exclusion [OF _ r w, of 1 Reading] by auto
  ultimately show ?thesis by blast
qed

text \<open>
  C30. A reader that waits in \<^verbatim>\<open>RLock\<close> while nobody writes gets in with its next load, and no step of any
  thread lets a writer in before it.
\<close>

theorem latch_reader_enters:
  assumes "n < 128" and "latch_step\<^sup>*\<^sup>* (new_SpinLatch n) s" and "latch_at s t RSpin" and "\<forall>u. \<not> latch_at s u Writing"
  shows "latch_step s (goto t Reading s) \<and> (\<forall>s' u. latch_step s s' \<longrightarrow> \<not> latch_at s' u Writing)"
proof -
  have ok: "latch_ok s" by (rule spin_latch.reach_holds [OF assms(2)]) (use assms(1) in blast)
  have free: "\<not> wlocked (latch s)" using latch_free [OF ok] assms(4) by blast
  have "\<not> latch_at s' u Writing" if st: "latch_step s s'" for s' u
  proof -
    have "\<not> wlocked (latch s')" by (rule latch_reader_blocks [OF ok assms(3) _ free st]) (simp add: registered_def)
    then show ?thesis using latch_free [OF latch_step_ok [OF st ok]] by blast
  qed
  moreover have "latch_step s (goto t Reading s)" using RLock_load [OF assms(3)] free by simp
  ultimately show ?thesis by blast
qed

theorem latch_reader_enters_witness:
  "\<exists>s. latch_step\<^sup>*\<^sup>* (new_SpinLatch 2) s \<and> latch_at s 1 RSpin \<and> latch_step s (goto 1 Reading s)"
proof -
  have w: "wlocked 1" by (simp add: wlocked_def)
  define s1 where "s1 = goto 0 Writing (new_SpinLatch 2\<lparr>latch := 1\<rparr>)"
  define s2 where "s2 = goto 1 RSpin (s1\<lparr>latch := 3\<rparr>)"
  define s3 where "s3 = goto 0 LIdle (s2\<lparr>latch := 2\<rparr>)"
  have pcs1: "latch_pcs s1 = [Writing, LIdle]" "latch s1 = 1" by (simp_all add: s1_def new_SpinLatch_def goto_def numeral_2_eq_2)
  have pcs2: "latch_pcs s2 = [Writing, RSpin]" "latch s2 = 3" by (simp_all add: s2_def goto_def pcs1)
  have pcs3: "latch_pcs s3 = [LIdle, RSpin]" by (simp add: s3_def goto_def pcs2)
  have "latch_step (new_SpinLatch 2) s1"
    unfolding s1_def by (rule TryWLock_cas) (simp_all add: latch_at_def new_SpinLatch_def)
  moreover have "latch_step s1 s2" using RLock_add [of s1 1] by (simp add: latch_at_def pcs1 w s2_def)
  moreover have "latch_step s2 s3" using WUnlock [of s2 0] by (simp add: latch_at_def pcs2 s3_def)
  ultimately have r: "latch_step\<^sup>*\<^sup>* (new_SpinLatch 2) s3" by (meson r_into_rtranclp rtranclp_trans)
  have at: "latch_at s3 1 RSpin" by (simp add: latch_at_def pcs3)
  have "\<forall>u. \<not> latch_at s3 u Writing" by (auto simp: latch_at_def pcs3 nth_Cons less_Suc_eq split: nat.splits)
  from latch_reader_enters [OF _ r at this] r at show ?thesis by auto
qed

text \<open>
  The bound is sharp: 128 readers make the 8-bit counter wrap to zero, and with one more thread a
  writer holds the lock together with readers.
\<close>

theorem latch_overflow:
  "\<exists>s. latch_step\<^sup>*\<^sup>* (new_SpinLatch 129) s \<and> latch_at s 0 Reading \<and> latch_at s 128 Writing"
  by (rule latch_wraps) simp

text \<open>
  C29. An \<^verbatim>\<open>OptLock\<close> has one holder at most, and a reader whose \<^verbatim>\<open>readUnlockOrRestart\<close> does not ask for a
  restart ran without interference: no write lock is held and none was taken since its
  \<^verbatim>\<open>readLockOrRestart\<close>, unless \<open>2\<^sup>6\<^sup>2\<close> of them were.
\<close>

theorem opt_read_valid:
  assumes "opt_step\<^sup>*\<^sup>* (new_OptLock n) s"
  shows "(\<forall>t u pc pc'. opt_at s t pc \<and> opt_at s u pc' \<and> opt_holder pc \<and> opt_holder pc' \<longrightarrow> t = u) \<and>
    (\<forall>t v a. opt_at s t (ORead v a) \<and> acquired s - a < 2 ^ 62 \<and> \<not> readUnlockOrRestart (version s) v \<longrightarrow>
       acquired s = a \<and> (\<forall>u pc. opt_at s u pc \<longrightarrow> \<not> opt_holder pc))"
proof -
  have ok: "opt_ok s" by (rule opt_lock.reach_holds [OF assms]) blast
  have "t = u" if "opt_at s t pc" "opt_at s u pc'" "opt_holder pc" "opt_holder pc'" for t u pc pc'
    using opt_holder_word(1) [OF ok that(1,3)] that by (auto simp: opt_held_def opt_at_def)
  moreover have "acquired s = a \<and> (\<forall>u pc. opt_at s u pc \<longrightarrow> \<not> opt_holder pc)"
    if "opt_at s t (ORead v a)" "acquired s - a < 2 ^ 62" "\<not> readUnlockOrRestart (version s) v" for t v a
    using opt_validated [OF ok that] by (auto simp: opt_free_def opt_at_def)
  ultimately show ?thesis by blast
qed

theorem opt_read_valid_witness:
  "\<exists>s. opt_step\<^sup>*\<^sup>* (new_OptLock 1) s \<and> opt_at s 0 (ORead 4 0) \<and> acquired s = 0"
proof -
  let ?s = "opt_goto 0 (ORead 4 0) (new_OptLock 1)"
  have "opt_step (new_OptLock 1) ?s"
    using Read [of "new_OptLock 1" 0 4] by (simp add: opt_at_def new_OptLock_def readLockOrRestart_def opt_init_def isLocked_def isObsolete_def)
  then have r: "opt_step\<^sup>*\<^sup>* (new_OptLock 1) ?s" by (rule r_into_rtranclp)
  have at: "opt_at ?s 0 (ORead 4 0)" by (simp add: opt_at_def opt_goto_def new_OptLock_def)
  have valid: "acquired ?s - 0 < 2 ^ 62" "\<not> readUnlockOrRestart (version ?s) 4"
    by (simp_all add: opt_goto_def new_OptLock_def opt_init_def readUnlockOrRestart_def)
  have "acquired ?s = 0" using opt_read_valid [OF r] at valid by blast
  then show ?thesis using r at by blast
qed

text \<open>
  The test-and-set locks exclude: at most one thread is between a successful \<^verbatim>\<open>lock\<close> or \<^verbatim>\<open>try_lock\<close> and its
  \<^verbatim>\<open>unlock\<close>; then the flag is set, and no thread spins in \<^verbatim>\<open>unlock\<close>.
\<close>

theorem spin_lock_exclusive:
  assumes "spin_step\<^sup>*\<^sup>* (new_spin_lock n) s" and "spin_at s t SHold"
  shows "lock_flag s \<and> (\<forall>u. spin_at s u SHold \<longrightarrow> u = t) \<and> (\<forall>u. \<not> spin_at s u SUnlock)"
proof -
  have ok: "spin_ok s" by (rule tas_lock.reach_holds [OF assms(1)]) blast
  have "0 < occ ((=) SHold) (spin_pcs s)" using assms(2) by (auto simp: spin_at_def intro: occ_pos)
  then have flag: "lock_flag s" and one: "occ ((=) SHold) (spin_pcs s) = 1"
    using ok by (cases "lock_flag s"; simp add: spin_ok_def)+
  have "u = t" if "spin_at s u SHold" for u
    using occ_two [of u "spin_pcs s" t "(=) SHold"] that assms(2) one by (auto simp: spin_at_def)
  moreover have "\<not> spin_at s u SUnlock" for u
    using ok occ_pos [of u "spin_pcs s" "(=) SUnlock"] by (auto simp: spin_ok_def spin_at_def)
  ultimately show ?thesis using flag by blast
qed

theorem spin_lock_exclusive_witness:
  "\<exists>s. spin_step\<^sup>*\<^sup>* (new_spin_lock 2) s \<and> spin_at s 0 SHold \<and> lock_flag s"
proof -
  let ?s = "spin_goto 0 (if True then SHold else SIdle) True (new_spin_lock 2)"
  have "spin_step (new_spin_lock 2) ?s"
    by (rule try_lock) (simp_all add: spin_at_def new_spin_lock_def spin_lock_try_lock_def)
  then have r: "spin_step\<^sup>*\<^sup>* (new_spin_lock 2) ?s" by (rule r_into_rtranclp)
  have at: "spin_at ?s 0 SHold" by (simp add: spin_at_def spin_goto_def new_spin_lock_def)
  from spin_lock_exclusive [OF r at] r at show ?thesis by blast
qed

text \<open>
  Concurrent \<^verbatim>\<open>atomic_add\<close>s lose nothing: when all have returned, the target holds its first value plus
  the sum of the operands, modulo \<open>2\<^sup>6\<^sup>4\<close>, whatever the interleaving.
\<close>

theorem atomic_add_total:
  assumes "add_step\<^sup>*\<^sup>* (start_adders x ops) s" and "\<forall>pc\<in>set (add_pcs s). \<exists>y. pc = ADone y"
  shows "target s = x + sum_list ops"
proof -
  have "target s = x + sum_list (map added_of (add_pcs s)) \<and> map operand_of (add_pcs s) = ops"
    by (rule adders.reach_holds [OF assms(1)]) simp
  moreover have "map added_of (add_pcs s) = map operand_of (add_pcs s)" using assms(2) by (intro map_cong) auto
  ultimately show ?thesis by simp
qed

theorem atomic_add_total_witness:
  "\<exists>s. add_step\<^sup>*\<^sup>* (start_adders 5 [2]) s \<and> target s = 7"
proof -
  let ?s1 = "\<lparr>target = 5, add_pcs = [ALoaded 2 5]\<rparr>" and ?s2 = "\<lparr>target = 7, add_pcs = [ADone 2]\<rparr>"
  have a: "add_step (start_adders 5 [2]) ?s1" using load [of 0 "start_adders 5 [2]" 2] by (simp add: start_adders_def)
  have b: "add_step ?s1 ?s2" using cas [of 0 ?s1 2 5] by simp
  have r: "add_step\<^sup>*\<^sup>* (start_adders 5 [2]) ?s2"
    by (rule rtranclp.rtrancl_into_rtrancl [OF r_into_rtranclp [of add_step, OF a] b])
  from atomic_add_total [OF r] r show ?thesis by - (rule exI [of _ ?s2], simp)
qed

end
