(* ===== verification/Rte_Ring.thy ===== *)
theory Rte_Ring
  imports Nali_Prelude
begin

unbundle bit_operations_syntax

text \<open>
  The ring buffer of \<^verbatim>\<open>src/include/util/rte_ring.h\<close>: 32-bit head and tail counters that wrap around, a
  mask, and the slots. The functions for several producers or consumers are run by one thread, so
  their compare-and-swap loops succeed at once; waiting for a counter that nobody advances is
  \<open>None\<close>. Writing goes to \<^verbatim>\<open>(head + i) & mask\<close>, reading to \<^verbatim>\<open>(head + i) % mask\<close>.
\<close>

datatype ring_status = RTE_RING_OK | RTX_RING_FULL | RTX_RING_NOT_ENOUGH

record 'a rte_ring =
  prod_sp :: bool
  prod_size :: u32
  prod_mask :: u32
  prod_head :: u32
  prod_tail :: u32
  cons_sc :: bool
  cons_size :: u32
  cons_mask :: u32
  cons_head :: u32
  cons_tail :: u32
  objs :: "'a list"

text \<open>The constructor; \<open>raw\<close> is the content of \<^verbatim>\<open>new T *[size]\<close>. The assertion that the size is a power of two
  is not compiled (\<^verbatim>\<open>NDEBUG\<close>).\<close>

definition RteRing :: "u32 \<Rightarrow> bool \<Rightarrow> bool \<Rightarrow> 'a list \<Rightarrow> 'a rte_ring" where
  "RteRing sz sp sc raw =
     \<lparr>prod_sp = sp, prod_size = sz, prod_mask = sz - 1, prod_head = 0, prod_tail = 0,
      cons_sc = sc, cons_size = sz, cons_mask = sz - 1, cons_head = 0, cons_tail = 0, objs = raw\<rparr>"

text \<open>How many entries a call moves, \<open>None\<close> for the early return.\<close>

definition clip :: "u32 \<Rightarrow> u32 \<Rightarrow> bool \<Rightarrow> u32 option" where
  "clip n avail fixed = (if avail < n then (if fixed \<or> avail = 0 then None else Some avail) else Some n)"

definition put_objs :: "'a rte_ring \<Rightarrow> u32 \<Rightarrow> 'a list \<Rightarrow> 'a list" where
  "put_objs r head xs =
     fold (\<lambda>i os. os[unat ((head + word_of_nat i) AND prod_mask r) := xs ! i]) [0..<length xs] (objs r)"

definition get_objs :: "'a rte_ring \<Rightarrow> u32 \<Rightarrow> u32 \<Rightarrow> 'a list" where
  "get_objs r head n = map (\<lambda>i. objs r ! unat ((head + word_of_nat i) mod cons_mask r)) [0..<unat n]"

text \<open>\<open>res_n\<close> is the out argument, \<open>None\<close> for a null pointer.\<close>

definition set_res :: "u32 option \<Rightarrow> u32 \<Rightarrow> u32 option" where
  "set_res res_n n = map_option (\<lambda>_. n) res_n"

definition enqueue_sp :: "'a rte_ring \<Rightarrow> u32 \<Rightarrow> 'a list \<Rightarrow> u32 option \<Rightarrow> bool \<Rightarrow> ring_status \<times> 'a rte_ring \<times> u32 option" where
  "enqueue_sp r n obj_table res_n fixed =
     (let free_entries = prod_mask r + cons_tail r - prod_head r
      in case clip n free_entries fixed of
           None \<Rightarrow> (RTX_RING_FULL, r, res_n)
         | Some n \<Rightarrow>
             let prod_next = prod_head r + n;
                 r1 = r\<lparr>prod_head := prod_next, objs := put_objs r (prod_head r) (take (unat n) obj_table)\<rparr>
             in (RTE_RING_OK, r1\<lparr>prod_tail := prod_next\<rparr>, set_res res_n n))"

definition enqueue_mp :: "'a rte_ring \<Rightarrow> u32 \<Rightarrow> 'a list \<Rightarrow> u32 option \<Rightarrow> bool \<Rightarrow> (ring_status \<times> 'a rte_ring \<times> u32 option) option" where
  "enqueue_mp r n obj_table res_n fixed =
     (let head = prod_head r; free_entries = prod_mask r + cons_tail r - head
      in case clip n free_entries fixed of
           None \<Rightarrow> Some (RTX_RING_FULL, r, res_n)
         | Some n \<Rightarrow>
             let prod_next = head + n;
                 r1 = r\<lparr>prod_head := prod_next, objs := put_objs r head (take (unat n) obj_table)\<rparr>
             in if prod_tail r1 \<noteq> head then None
                else Some (RTE_RING_OK, r1\<lparr>prod_tail := prod_next\<rparr>, set_res res_n n))"

text \<open>\<^verbatim>\<open>res_n = 0\<close> clears the pointer, so that no count is ever stored.\<close>

definition dequeue_sc :: "'a rte_ring \<Rightarrow> u32 \<Rightarrow> u32 option \<Rightarrow> bool \<Rightarrow> ring_status \<times> 'a list \<times> 'a rte_ring \<times> u32 option" where
  "dequeue_sc r n res_n fixed =
     (let head = cons_head r; entries = prod_tail r - head
      in case clip n entries fixed of
           None \<Rightarrow> (RTX_RING_NOT_ENOUGH, [], r, res_n)
         | Some n \<Rightarrow> (RTE_RING_OK, get_objs r head n, r\<lparr>cons_head := head + n, cons_tail := head + n\<rparr>, res_n))"

definition dequeue_mc :: "'a rte_ring \<Rightarrow> u32 \<Rightarrow> u32 option \<Rightarrow> bool \<Rightarrow> (ring_status \<times> 'a list \<times> 'a rte_ring \<times> u32 option) option" where
  "dequeue_mc r n res_n fixed =
     (let head = cons_head r; entries = prod_tail r - head
      in case clip n entries fixed of
           None \<Rightarrow> Some (RTX_RING_NOT_ENOUGH, [], r, res_n)
         | Some n \<Rightarrow>
             let r1 = r\<lparr>cons_head := head + n\<rparr>
             in if cons_tail r1 \<noteq> head then None
                else Some (RTE_RING_OK, get_objs r head n, r1\<lparr>cons_tail := head + n\<rparr>, res_n))"

definition enqueue :: "'a rte_ring \<Rightarrow> u32 \<Rightarrow> 'a list \<Rightarrow> u32 option \<Rightarrow> bool \<Rightarrow> (ring_status \<times> 'a rte_ring \<times> u32 option) option" where
  "enqueue r n obj_table res_n fixed =
     (if prod_sp r then Some (enqueue_sp r n obj_table res_n fixed) else enqueue_mp r n obj_table res_n fixed)"

definition dequeue :: "'a rte_ring \<Rightarrow> u32 \<Rightarrow> u32 option \<Rightarrow> bool \<Rightarrow> (ring_status \<times> 'a list \<times> 'a rte_ring \<times> u32 option) option" where
  "dequeue r n res_n fixed =
     (if cons_sc r then Some (dequeue_sc r n res_n fixed) else dequeue_mc r n res_n fixed)"

text \<open>The calls for one object.\<close>

definition enqueue1 :: "'a rte_ring \<Rightarrow> 'a \<Rightarrow> (ring_status \<times> 'a rte_ring \<times> u32 option) option" where
  "enqueue1 r x = enqueue r 1 [x] None False"

definition dequeue1 :: "'a rte_ring \<Rightarrow> (ring_status \<times> 'a list \<times> 'a rte_ring \<times> u32 option) option" where
  "dequeue1 r = dequeue r 1 None False"

section \<open>Contents\<close>

text \<open>A quiescent ring of \<open>2\<^sup>e\<close> slots and the queue that it holds.\<close>

definition ring_wf :: "nat \<Rightarrow> 'a rte_ring \<Rightarrow> bool" where
  "ring_wf e r \<longleftrightarrow> e < 32 \<and> prod_mask r = mask e \<and> cons_mask r = mask e \<and> length (objs r) = 2 ^ e \<and>
     prod_head r = prod_tail r \<and> cons_head r = cons_tail r \<and> unat (prod_tail r - cons_tail r) < 2 ^ e"

definition pos :: "'a rte_ring \<Rightarrow> u32 \<Rightarrow> nat" where
  "pos r w = unat (w AND prod_mask r)"

definition queue :: "'a rte_ring \<Rightarrow> 'a list" where
  "queue r = map (\<lambda>i. objs r ! pos r (cons_tail r + word_of_nat i)) [0..<unat (prod_tail r - cons_tail r)]"

lemma pos_mod:
  assumes "ring_wf e r"
  shows "pos r w = unat w mod 2 ^ e"
proof -
  have "pos r w = unat (take_bit e w)" using assms by (simp add: pos_def ring_wf_def take_bit_eq_mask)
  then show ?thesis by (metis unsigned_take_bit_eq take_bit_eq_mod)
qed

lemma pos_add:
  assumes "ring_wf e r"
  shows "pos r (w + word_of_nat i) = (unat w + i) mod 2 ^ e"
proof -
  have "(2::nat) ^ e dvd 2 ^ 32" using assms by (intro le_imp_power_dvd) (simp add: ring_wf_def)
  then have "(unat w + i) mod 2 ^ 32 mod 2 ^ e = (unat w + i) mod 2 ^ e" by (rule mod_mod_cancel)
  moreover have "unat (w + word_of_nat i) = (unat w + i) mod 2 ^ 32"
    by (simp add: unat_word_ariths unsigned_of_nat take_bit_eq_mod mod_add_right_eq)
  ultimately show ?thesis by (simp add: pos_mod [OF assms])
qed

lemma mod_inj:
  fixes c i j m :: nat
  assumes "(c + i) mod m = (c + j) mod m" and "i < m" and "j < m"
  shows "i = j"
proof -
  have aux: "i = j" if eq: "(c + i) mod m = (c + j) mod m" and less: "i < m" "j \<le> i" for i j :: nat
  proof -
    have "c + j \<le> c + i" using less by simp
    then obtain s where "c + i = c + j + m * s" by (rule mod_eq_nat1E [OF eq])
    then show ?thesis using less by (cases s) auto
  qed
  show ?thesis using aux [of i j] aux [of j i] assms by (metis nat_le_linear)
qed

lemma put_objs_length: "length (put_objs r head xs) = length (objs r)"
  unfolding put_objs_def using fold_update_length [where u = "\<lambda>i _. xs ! i"] by simp

lemma put_objs_nth:
  assumes wf: "ring_wf e r" and len: "length xs \<le> 2 ^ e" and j: "j < 2 ^ e"
  shows "put_objs r head xs ! ((unat head + j) mod 2 ^ e) = (if j < length xs then xs ! j else objs r ! ((unat head + j) mod 2 ^ e))"
proof -
  let ?p = "(unat head + j) mod 2 ^ e"
  have p: "?p < length (objs r)" using wf by (simp add: ring_wf_def)
  have "filter (\<lambda>i. unat ((head + word_of_nat i) AND prod_mask r) = ?p) [0..<length xs] =
      (if j < length xs then [j] else [])"
  proof -
    have iff: "unat ((head + word_of_nat i) AND prod_mask r) = ?p \<longleftrightarrow> i = j" if "i < length xs" for i
      using pos_add [OF wf, of head i] mod_inj [of "unat head" i "2 ^ e" j] that len j by (auto simp: pos_def)
    have "filter (\<lambda>i. unat ((head + word_of_nat i) AND prod_mask r) = ?p) [0..<length xs] = filter (\<lambda>i. i = j) [0..<length xs]"
      by (rule filter_cong) (simp_all add: iff)
    also have "\<dots> = (if j < length xs then [j] else [])" by (induction xs rule: rev_induct) auto
    finally show ?thesis .
  qed
  then show ?thesis
    unfolding put_objs_def using fold_update_nth [OF p, where u = "\<lambda>i _. xs ! i"] by simp
qed

lemma queue_length: "length (queue r) = unat (prod_tail r - cons_tail r)"
  by (simp add: queue_def)

lemma unat_mask_lemma: "e < 32 \<Longrightarrow> unat (mask e :: u32) = 2 ^ e - 1"
proof -
  assume "e < 32"
  then have "(2::nat) ^ e < 2 ^ 32" by (intro power_strict_increasing) simp_all
  moreover have "(mask e :: u32) = word_of_nat (2 ^ e - 1)" by (simp add: mask_eq_exp_minus_1 of_nat_diff)
  ultimately show ?thesis
    by (simp only: unsigned_of_nat take_bit_eq_mod len_num1 len_bit0) simp
qed

lemma free_entries:
  assumes "ring_wf e r"
  shows "unat (prod_mask r + cons_tail r - prod_head r) = 2 ^ e - 1 - length (queue r)"
proof -
  have m: "unat (mask e :: u32) = 2 ^ e - 1" using assms by (simp add: ring_wf_def unat_mask_lemma)
  have "length (queue r) < 2 ^ e" using assms by (simp add: queue_length ring_wf_def)
  then have "prod_tail r - cons_tail r \<le> mask e" using m by (simp add: word_le_nat_alt queue_length)
  then have "unat (mask e - (prod_tail r - cons_tail r)) = 2 ^ e - 1 - length (queue r)"
    by (simp add: unat_sub m queue_length)
  moreover have "prod_mask r + cons_tail r - prod_head r = mask e - (prod_tail r - cons_tail r)"
    using assms by (simp add: ring_wf_def)
  ultimately show ?thesis by (simp only:)
qed

lemma enqueue_sp_correct:
  assumes wf: "ring_wf e r" and n: "unat n \<le> length xs"
    and clip: "clip n (prod_mask r + cons_tail r - prod_head r) fixed = Some m"
  obtains r' where "enqueue_sp r n xs res_n fixed = (RTE_RING_OK, r', set_res res_n m)" and "ring_wf e r'"
    and "queue r' = queue r @ take (unat m) xs" and "length (queue r') < 2 ^ e"
proof -
  let ?h = "prod_head r" and ?L = "length (queue r)" and ?ys = "take (unat m) xs"
  have h: "?h = prod_tail r" using wf by (simp add: ring_wf_def)
  have m: "m \<le> n" "m \<le> prod_mask r + cons_tail r - prod_head r"
    using clip by (auto simp: clip_def not_less split: if_splits)
  then have len: "length ?ys = unat m" using n by (simp add: word_le_nat_alt)
  have room: "?L + unat m < 2 ^ e"
  proof -
    have "unat m \<le> 2 ^ e - 1 - ?L" using m(2) free_entries [OF wf] by (simp add: word_le_nat_alt)
    moreover have "?L < 2 ^ e" using wf by (simp add: ring_wf_def queue_length)
    ultimately show ?thesis by linarith
  qed
  have e32: "(2::nat) ^ e < 2 ^ 32" using wf by (intro power_strict_increasing) (simp_all add: ring_wf_def)
  define r' where "r' = r\<lparr>prod_head := ?h + m, objs := put_objs r ?h ?ys, prod_tail := ?h + m\<rparr>"
  have diff: "unat (prod_tail r' - cons_tail r') = ?L + unat m"
  proof -
    have "prod_tail r' - cons_tail r' = (prod_tail r - cons_tail r) + m" by (simp add: r'_def h)
    then show ?thesis using room e32 by (simp add: unat_word_ariths queue_length)
  qed
  have wf': "ring_wf e r'" using wf room diff by (simp add: ring_wf_def put_objs_length) (simp add: r'_def put_objs_length)
  have uh: "(unat ?h + j) mod 2 ^ e = pos r (cons_tail r + word_of_nat (?L + j))" for j
  proof -
    have "?h = cons_tail r + word_of_nat ?L" by (simp add: queue_length h)
    then show ?thesis using pos_add [OF wf, of "?h" j] by (simp add: add.assoc)
  qed
  have "queue r' = queue r @ ?ys"
  proof (rule nth_equalityI)
    show "length (queue r') = length (queue r @ ?ys)" by (simp add: queue_length [of r'] diff len del: length_take)
  next
    fix i assume i: "i < length (queue r')"
    then have i': "i < ?L + unat m" by (simp add: queue_length diff)
    have pr: "pos r' = pos r" by (simp add: pos_def r'_def fun_eq_iff)
    have qi: "queue r' ! i = put_objs r ?h ?ys ! pos r (cons_tail r + word_of_nat i)"
      using i by (simp add: queue_def pr) (simp add: r'_def)
    show "queue r' ! i = (queue r @ ?ys) ! i"
    proof (cases "i < ?L")
      case True
      let ?j = "2 ^ e - ?L + i"
      have j: "?j < 2 ^ e" using True room by linarith
      have "pos r (cons_tail r + word_of_nat (?L + ?j)) = pos r (cons_tail r + word_of_nat i)"
      proof -
        have "?L + ?j = i + 2 ^ e" using room by simp
        then have "pos r (cons_tail r + word_of_nat (?L + ?j)) = (unat (cons_tail r) + (i + 2 ^ e)) mod 2 ^ e"
          by (simp only: pos_add [OF wf])
        also have "\<dots> = (unat (cons_tail r) + i) mod 2 ^ e" by (simp add: add.assoc [symmetric])
        finally show ?thesis by (simp only: pos_add [OF wf])
      qed
      then have at: "(unat ?h + ?j) mod 2 ^ e = pos r (cons_tail r + word_of_nat i)" by (simp only: uh)
      have "\<not> ?j < length ?ys" "length ?ys \<le> 2 ^ e" using len room by linarith+
      then have "queue r' ! i = objs r ! pos r (cons_tail r + word_of_nat i)"
        using put_objs_nth [OF wf _ j, of ?ys ?h] unfolding at qi by (simp only: if_False)
      then show ?thesis using True by (simp add: nth_append) (simp add: queue_def)
    next
      case False
      then have j: "i - ?L < unat m" using i' by linarith
      have "?L + (i - ?L) = i" using False by simp
      then have at: "(unat ?h + (i - ?L)) mod 2 ^ e = pos r (cons_tail r + word_of_nat i)" using uh [of "i - ?L"] by (simp only:)
      have "i - ?L < length ?ys" "length ?ys \<le> 2 ^ e" "i - ?L < 2 ^ e" using len room j by linarith+
      then have "queue r' ! i = ?ys ! (i - ?L)"
        using put_objs_nth [OF wf, of ?ys "i - ?L" ?h] unfolding at qi by (simp only: if_True)
      then show ?thesis using False by (simp add: nth_append)
    qed
  qed
  moreover have "enqueue_sp r n xs res_n fixed = (RTE_RING_OK, r', set_res res_n m)"
    using clip by (simp add: enqueue_sp_def r'_def Let_def)
  moreover have "length (queue r') < 2 ^ e" using room by (simp add: queue_length diff)
  ultimately show thesis using that wf' by blast
qed

lemma enqueue_mp_eq: "ring_wf e r \<Longrightarrow> enqueue_mp r n xs res_n fixed = Some (enqueue_sp r n xs res_n fixed)"
  by (auto simp: enqueue_mp_def enqueue_sp_def ring_wf_def Let_def split: option.splits)

lemma enqueue_eq: "ring_wf e r \<Longrightarrow> enqueue r n xs res_n fixed = Some (enqueue_sp r n xs res_n fixed)"
  by (simp add: enqueue_def enqueue_mp_eq)

lemma dequeue_eq: "ring_wf e r \<Longrightarrow> dequeue r n res_n fixed = Some (dequeue_sc r n res_n fixed)"
  by (auto simp: dequeue_def dequeue_mc_def dequeue_sc_def ring_wf_def Let_def split: option.splits)

text \<open>
  Reading is in order as long as the positions stay below the last slot: there the remainder and
  the mask agree.
\<close>

lemma dequeue_sc_correct:
  assumes wf: "ring_wf e r" and clip: "clip n (prod_tail r - cons_head r) fixed = Some m"
    and below: "unat (cons_head r) + unat m < 2 ^ e"
  obtains r' where "dequeue_sc r n res_n fixed = (RTE_RING_OK, take (unat m) (queue r), r', res_n)" and "ring_wf e r'"
    and "queue r' = drop (unat m) (queue r)"
proof -
  let ?h = "cons_head r" and ?L = "length (queue r)"
  have h: "?h = cons_tail r" and mk: "cons_mask r = mask e" and e: "e < 32" and pm: "prod_mask r = mask e"
    using wf by (simp_all add: ring_wf_def)
  have e32: "(2::nat) ^ e < 2 ^ 32" using e by (intro power_strict_increasing) simp_all
  have m: "unat m \<le> ?L" using clip by (auto simp: clip_def not_less queue_length h word_le_nat_alt split: if_splits)
  have same: "unat ((?h + word_of_nat i) mod cons_mask r) = pos r (?h + word_of_nat i)" if i: "i < unat m" for i
  proof -
    have u: "unat (?h + word_of_nat i) = unat ?h + i"
    proof -
      have lt: "unat ?h + i < 2 ^ 32" using below i e32 by linarith
      then have "unat (word_of_nat i :: u32) = i" by (simp add: unsigned_of_nat take_bit_nat_eq_self)
      then show ?thesis using lt by (simp add: unat_word_ariths)
    qed
    have "unat ((?h + word_of_nat i) mod cons_mask r) = (unat ?h + i) mod (2 ^ e - 1)"
      by (simp add: unat_mod_distrib mk unat_mask_lemma [OF e] u)
    also have "\<dots> = unat ?h + i" using below i by (intro mod_less) linarith
    also have "\<dots> = (unat ?h + i) mod 2 ^ e" using below i by simp
    finally show ?thesis by (simp add: pos_add [OF wf])
  qed
  have get: "get_objs r ?h m = take (unat m) (queue r)"
  proof (rule nth_equalityI)
    show "length (get_objs r ?h m) = length (take (unat m) (queue r))" using m by (simp add: get_objs_def)
    fix i assume "i < length (get_objs r ?h m)"
    then have i: "i < unat m" by (simp add: get_objs_def)
    then have "i < ?L" using m by linarith
    then have "queue r ! i = objs r ! pos r (?h + word_of_nat i)" using h by (simp add: queue_def)
    then show "get_objs r ?h m ! i = take (unat m) (queue r) ! i" using i same [OF i] by (simp add: get_objs_def)
  qed
  let ?r = "r\<lparr>cons_head := ?h + m, cons_tail := ?h + m\<rparr>"
  have diff: "unat (prod_tail r - (?h + m)) = ?L - unat m"
  proof -
    have "m \<le> prod_tail r - cons_tail r" using m by (simp add: queue_length word_le_nat_alt)
    then have "unat ((prod_tail r - cons_tail r) - m) = ?L - unat m" by (simp add: unat_sub queue_length)
    then show ?thesis by (simp add: h diff_diff_eq)
  qed
  have "?L < 2 ^ e" using wf by (simp add: ring_wf_def queue_length)
  then have "?L - unat m < 2 ^ e" by linarith
  then have "unat (prod_tail ?r - cons_tail ?r) < 2 ^ e" using diff by simp
  then have wf': "ring_wf e ?r" using wf by (simp add: ring_wf_def)
  have "queue ?r = drop (unat m) (queue r)"
  proof (rule nth_equalityI)
    show "length (queue ?r) = length (drop (unat m) (queue r))" by (simp add: queue_length [of ?r] diff)
    fix i assume "i < length (queue ?r)"
    then have i: "i < ?L - unat m" by (simp add: queue_length [of ?r] diff)
    have "queue ?r ! i = objs r ! pos r (cons_tail r + word_of_nat (unat m + i))"
    proof -
      have "i < unat (prod_tail r - (cons_tail r + m))" using i diff h by simp
      then show ?thesis by (simp add: queue_def h pos_def add.assoc)
    qed
    also have "\<dots> = queue r ! (unat m + i)"
    proof -
      have "unat m + i < unat (prod_tail r - cons_tail r)" using i by (simp add: queue_length)
      then show ?thesis by (simp add: queue_def)
    qed
    finally show "queue ?r ! i = drop (unat m) (queue r) ! i" using m by simp
  qed
  moreover have "dequeue_sc r n res_n fixed = (RTE_RING_OK, take (unat m) (queue r), ?r, res_n)"
    using clip get by (simp add: dequeue_sc_def Let_def)
  ultimately show thesis using that wf' by blast
qed

text \<open>The number of entries that a call moves.\<close>

lemma clip_None: "clip n avail fixed = None \<longleftrightarrow> unat avail < unat n \<and> (fixed \<or> unat avail = 0)"
  by (simp add: clip_def word_less_nat_alt unat_eq_0)

lemma clip_Some: "clip n avail fixed = Some m \<Longrightarrow> unat m = min (unat n) (unat avail)"
  by (auto simp: clip_def word_less_nat_alt split: if_splits)

lemma enqueue_cases:
  assumes wf: "ring_wf e r" and n: "unat n \<le> length xs"
  defines "room \<equiv> 2 ^ e - 1 - length (queue r)"
  shows "if room < unat n \<and> (fixed \<or> room = 0) then enqueue r n xs res_n fixed = Some (RTX_RING_FULL, r, res_n)
    else \<exists>r' m. enqueue r n xs res_n fixed = Some (RTE_RING_OK, r', set_res res_n m) \<and> unat m = min (unat n) room \<and>
           ring_wf e r' \<and> queue r' = queue r @ take (min (unat n) room) xs"
proof -
  let ?free = "prod_mask r + cons_tail r - prod_head r"
  have free: "unat ?free = room" using free_entries [OF wf] by (simp add: room_def)
  show ?thesis
  proof (cases "clip n ?free fixed")
    case None
    then show ?thesis using clip_None [of n ?free fixed] free by (auto simp: enqueue_eq [OF wf] enqueue_sp_def)
  next
    case (Some m)
    then have m: "unat m = min (unat n) room" using clip_Some free by fastforce
    have "\<not> (room < unat n \<and> (fixed \<or> room = 0))" using Some clip_None [of n ?free fixed] free by auto
    moreover obtain r' where "enqueue_sp r n xs res_n fixed = (RTE_RING_OK, r', set_res res_n m)" "ring_wf e r'"
        "queue r' = queue r @ take (unat m) xs"
      by (rule enqueue_sp_correct [OF wf n Some])
    ultimately show ?thesis using m by (auto simp: enqueue_eq [OF wf])
  qed
qed

lemma dequeue_cases:
  assumes wf: "ring_wf e r" and below: "unat (cons_head r) + length (queue r) < 2 ^ e"
  defines "k \<equiv> length (queue r)"
  shows "if k < unat n \<and> (fixed \<or> k = 0) then dequeue r n res_n fixed = Some (RTX_RING_NOT_ENOUGH, [], r, res_n)
    else \<exists>r'. dequeue r n res_n fixed = Some (RTE_RING_OK, take (unat n) (queue r), r', res_n) \<and>
           ring_wf e r' \<and> queue r' = drop (unat n) (queue r)"
proof -
  let ?avail = "prod_tail r - cons_head r"
  have avail: "unat ?avail = k" using wf by (simp add: k_def queue_length ring_wf_def)
  show ?thesis
  proof (cases "clip n ?avail fixed")
    case None
    then show ?thesis using clip_None [of n ?avail fixed] avail by (auto simp: dequeue_eq [OF wf] dequeue_sc_def Let_def)
  next
    case (Some m)
    then have m: "unat m = min (unat n) k" using clip_Some avail by fastforce
    have no: "\<not> (k < unat n \<and> (fixed \<or> k = 0))" using Some clip_None [of n ?avail fixed] avail by auto
    have "unat (cons_head r) + unat m < 2 ^ e" using below m by (simp add: k_def)
    then obtain r' where "dequeue_sc r n res_n fixed = (RTE_RING_OK, take (unat m) (queue r), r', res_n)" "ring_wf e r'"
        "queue r' = drop (unat m) (queue r)"
      using dequeue_sc_correct [OF wf Some] by metis
    moreover have "take (unat m) (queue r) = take (unat n) (queue r)" "drop (unat m) (queue r) = drop (unat n) (queue r)"
      using m by (auto simp: k_def min_def)
    ultimately show ?thesis using no by (auto simp: dequeue_eq [OF wf])
  qed
qed

lemma RteRing_wf: "e < 32 \<Longrightarrow> length raw = 2 ^ e \<Longrightarrow> ring_wf e (RteRing (2 ^ e) sp sc raw)"
  by (simp add: ring_wf_def RteRing_def mask_eq_exp_minus_1)

lemma RteRing_queue: "queue (RteRing sz sp sc raw) = []"
  by (simp add: queue_def RteRing_def)

text \<open>Running single-object calls in order; the objects read come in the order of the reads.\<close>

primrec enqueue_all :: "'a rte_ring \<Rightarrow> 'a list \<Rightarrow> 'a rte_ring option" where
  "enqueue_all r [] = Some r"
| "enqueue_all r (x # xs) = (case enqueue1 r x of Some (RTE_RING_OK, r', _) \<Rightarrow> enqueue_all r' xs | _ \<Rightarrow> None)"

primrec dequeue_all :: "'a rte_ring \<Rightarrow> nat \<Rightarrow> 'a list" where
  "dequeue_all r 0 = []"
| "dequeue_all r (Suc n) = (case dequeue1 r of Some (RTE_RING_OK, xs, r', _) \<Rightarrow> xs @ dequeue_all r' n | _ \<Rightarrow> [])"

lemma dequeue_all_numeral:
  "dequeue_all r (numeral k) =
     (case dequeue1 r of Some (RTE_RING_OK, xs, r', _) \<Rightarrow> xs @ dequeue_all r' (pred_numeral k) | _ \<Rightarrow> [])"
  by (simp add: numeral_eq_Suc)

section \<open>Properties\<close>

text \<open>
  C31. \<^verbatim>\<open>RteRing::enqueue\<close> of \<open>n\<close> objects on a quiescent ring of \<open>2\<^sup>e\<close> slots: with a fixed count, or no slot free,
  a call that does not fit is refused with \<^verbatim>\<open>RTX_RING_FULL\<close>; otherwise as many objects as fit are appended
  to the queue, in order, although the 32-bit counters wrap around.
\<close>

theorem ring_enqueue_appends:
  assumes "ring_wf e r" and "unat n \<le> length xs" and "room = 2 ^ e - 1 - length (queue r)"
  shows "if room < unat n \<and> (fixed \<or> room = 0) then enqueue r n xs res_n fixed = Some (RTX_RING_FULL, r, res_n)
    else \<exists>r' m. enqueue r n xs res_n fixed = Some (RTE_RING_OK, r', set_res res_n m) \<and> unat m = min (unat n) room \<and>
           ring_wf e r' \<and> queue r' = queue r @ take (min (unat n) room) xs"
  unfolding assms(3) by (rule enqueue_cases [OF assms(1,2)])

theorem ring_enqueue_appends_witness:
  "\<exists>r' m. enqueue (RteRing 4 False False [0, 0, 0, 0]) 2 [7, 8 :: nat] (Some 0) True = Some (RTE_RING_OK, r', set_res (Some 0) m) \<and>
     unat m = 2 \<and> ring_wf 2 r' \<and> queue r' = [7, 8]"
  using ring_enqueue_appends [OF RteRing_wf [of 2 "[0, 0, 0, 0 :: nat]" False False], of 2 "[7, 8]" _ True "Some 0"]
  by (simp add: RteRing_queue)

text \<open>
  C32. \<^verbatim>\<open>RteRing::dequeue\<close> returns the oldest objects in order, and removes them, on the first lap of the ring:
  as long as the producer's running counter, which is never reduced by the mask, is below the size of the
  ring \<open>2 ^ e\<close>, so that no position that is read reaches the last slot (later reads go wrong, see
  \<open>ring_reads_wrong_slot\<close>). A request that cannot be served is refused and changes nothing. The count is
  never stored, since \<^verbatim>\<open>res_n = 0\<close> clears the pointer.
\<close>

theorem ring_dequeue_fifo:
  assumes "ring_wf e r" and "unat (cons_head r) + length (queue r) < 2 ^ e"
  shows "if length (queue r) < unat n \<and> (fixed \<or> queue r = []) then dequeue r n res_n fixed = Some (RTX_RING_NOT_ENOUGH, [], r, res_n)
    else \<exists>r'. dequeue r n res_n fixed = Some (RTE_RING_OK, take (unat n) (queue r), r', res_n) \<and>
           ring_wf e r' \<and> queue r' = drop (unat n) (queue r)"
  using dequeue_cases [OF assms, of n fixed res_n] by simp

text \<open>A ring of four slots with three objects; two of them are read.\<close>

definition three_ring :: "nat rte_ring" where
  "three_ring = (RteRing 4 False False [7, 8, 9, 0])\<lparr>prod_head := 3, prod_tail := 3\<rparr>"

lemma three_ring_ok: "ring_wf 2 three_ring" "queue three_ring = [7, 8, 9]" "cons_head three_ring = 0"
  by (simp_all add: three_ring_def ring_wf_def RteRing_def mask_eq_exp_minus_1 queue_def pos_def upt_rec)

lemma three_ring_filled:
  "map_option (\<lambda>(st, r, _). (st, r)) (enqueue (RteRing 4 False False [0, 0, 0, 0]) 3 [7, 8, 9] None True) = Some (RTE_RING_OK, three_ring)"
  by code_simp

theorem ring_dequeue_fifo_witness:
  "\<exists>r'. dequeue three_ring 2 None True = Some (RTE_RING_OK, [7, 8], r', None) \<and> queue r' = [9]"
  using ring_dequeue_fifo [OF three_ring_ok(1), of 2 True None] by (auto simp: three_ring_ok)

text \<open>
  The reader takes \<^verbatim>\<open>% mask\<close> where the writer takes \<^verbatim>\<open>& mask\<close>: on a ring of four slots, the fourth object
  ever written is not the fourth one read.
\<close>

theorem ring_reads_wrong_slot:
  "map_option (\<lambda>r. dequeue_all r 3)
     (Option.bind (enqueue_all (RteRing 4 sp sc [0, 0, 0, 0]) [1, 2, 3 :: nat])
       (\<lambda>r. case dequeue1 r of Some (RTE_RING_OK, _, r', _) \<Rightarrow> enqueue_all r' [4] | _ \<Rightarrow> None)) = Some [2, 3, 1]"
  by (cases sp; cases sc) (simp_all add: dequeue_all_numeral RteRing_def enqueue1_def dequeue1_def enqueue_def dequeue_def enqueue_sp_def enqueue_mp_def dequeue_sc_def dequeue_mc_def clip_def put_objs_def get_objs_def set_res_def)
end
