(* ===== verification/Bitops.thy ===== *)
theory Bitops
  imports Nali_Prelude
begin

unbundle bit_operations_syntax

text \<open>
  The bit arrays of \<^verbatim>\<open>src/include/util/bitops.h\<close>: an array of 32-bit words as a list; an access outside of it
  is \<open>None\<close>. Bit numbers are \<^verbatim>\<open>unsigned long\<close>, sizes \<^verbatim>\<open>unsigned\<close>; the results, of type \<^verbatim>\<open>int\<close>, are small
  numbers. The searches return the first set bit, or the size.
\<close>

section \<open>Operations\<close>

definition bit_word :: "u64 \<Rightarrow> nat" where
  "bit_word nr = unat (drop_bit 5 nr)"

definition bit_mask :: "u64 \<Rightarrow> 32 word" where
  "bit_mask nr = push_bit (unat (nr AND 0x1f)) 1"

definition set_bit_at :: "u64 \<Rightarrow> 32 word list \<Rightarrow> 32 word list option" where
  "set_bit_at nr a = (if bit_word nr < length a then Some (a[bit_word nr := a ! bit_word nr OR bit_mask nr]) else None)"

definition clear_bit_at :: "u64 \<Rightarrow> 32 word list \<Rightarrow> 32 word list option" where
  "clear_bit_at nr a = (if bit_word nr < length a then Some (a[bit_word nr := a ! bit_word nr AND NOT (bit_mask nr)]) else None)"

definition test_bit_at :: "u64 \<Rightarrow> 32 word list \<Rightarrow> u64 option" where
  "test_bit_at nr a =
     (if bit_word nr < length a then Some (1 AND ucast (drop_bit (unat (nr AND 31)) (a ! bit_word nr))) else None)"

partial_function (option) find_bit_loop :: "32 word \<Rightarrow> nat \<Rightarrow> nat option" where
  "find_bit_loop num offset = (if num AND 1 = 0 then find_bit_loop (drop_bit 1 num) (offset + 1) else Some offset)"

definition find_bit :: "32 word \<Rightarrow> nat option" where
  "find_bit num = (if num = 0 then Some 32 else find_bit_loop num 0)"

text \<open>
  The loops over the words; \<open>i\<close> is the number of words read before. \<^verbatim>\<open>num\<close> is an \<^verbatim>\<open>unsigned long\<close>, so its
  complement is not 0 for a word of ones.
\<close>

fun first_bit_loop :: "32 word list \<Rightarrow> 32 word \<Rightarrow> nat \<Rightarrow> nat option" where
  "first_bit_loop [] words i = None"
| "first_bit_loop (w # p) words i =
     (let num = ucast w :: u64
      in if num = 0 then if words - 1 = 0 then Some (32 + 32 * i) else first_bit_loop p (words - 1) (Suc i)
         else map_option (\<lambda>res. res + 32 * i) (find_bit (ucast (num AND - num))))"

definition find_first_bit :: "32 word list \<Rightarrow> 32 word \<Rightarrow> nat option" where
  "find_first_bit a sz =
     (if sz = 0 then Some 0
      else map_option (\<lambda>res. if res < unat sz then res else unat sz) (first_bit_loop a (drop_bit 5 (sz + 31)) 0))"

fun first_zero_loop :: "32 word list \<Rightarrow> 32 word \<Rightarrow> nat \<Rightarrow> nat option" where
  "first_zero_loop [] words i = None"
| "first_zero_loop (w # p) words i =
     (let num = ucast w :: u64
      in if NOT num = 0 then if words - 1 = 0 then Some (32 + 32 * i) else first_zero_loop p (words - 1) (Suc i)
         else map_option (\<lambda>res. res + 32 * i) (find_bit (ucast (NOT num))))"

definition find_first_zero_bit :: "32 word list \<Rightarrow> 32 word \<Rightarrow> nat option" where
  "find_first_zero_bit a sz =
     (if sz = 0 then Some 0
      else map_option (\<lambda>res. if res < unat sz then res else unat sz) (first_zero_loop a (drop_bit 5 (sz + 31)) 0))"

text \<open>\<^verbatim>\<open>find_next_bit\<close>, for a size and an offset that are not negative.\<close>

definition find_next_bit :: "32 word list \<Rightarrow> nat \<Rightarrow> nat \<Rightarrow> nat option" where
  "find_next_bit a sz offset =
     (let b = offset mod 32; p = drop (offset div 32) a
      in if sz \<le> offset then Some sz
         else if b \<noteq> 0
         then case p of
                [] \<Rightarrow> None
              | w # p \<Rightarrow>
                  let num = w AND push_bit b (NOT 0); offset = offset - b; tmp = num AND - num
                  in Option.bind (if tmp = 0 then Some 32 else find_bit tmp)
                       (\<lambda>res. if res < 32 then Some (if offset + res < sz then offset + res else sz)
                              else if sz \<le> offset + 32 then Some sz
                              else map_option (\<lambda>r. offset + 32 + r) (find_first_bit p (of_nat (sz - (offset + 32)))))
         else map_option (\<lambda>r. offset + r) (find_first_bit p (of_nat (sz - offset))))"

declare find_bit_loop.simps [code]

section \<open>The lowest set bit\<close>

lemma find_bit_loop_least:
  assumes "bit num m" and "\<And>j. j < m \<Longrightarrow> \<not> bit num j"
  shows "find_bit_loop num offset = Some (offset + m)"
  using assms
proof (induction m arbitrary: num offset)
  case 0
  then have "num AND 1 \<noteq> 0" by (simp add: and_one_eq bit_0 odd_iff_mod_2_eq_one)
  then show ?case by (subst find_bit_loop.simps) simp
next
  case (Suc m)
  have "num AND 1 = 0" using Suc.prems(2) [of 0] by (simp add: and_one_eq bit_0 even_iff_mod_2_eq_zero)
  moreover have "find_bit_loop (drop_bit 1 num) (offset + 1) = Some (offset + 1 + m)"
    by (rule Suc.IH) (use Suc.prems in \<open>auto simp: bit_drop_bit_eq\<close>)
  ultimately show ?case by (subst find_bit_loop.simps) simp
qed

lemma find_bit_least:
  assumes "bit num m" and "\<And>j. j < m \<Longrightarrow> \<not> bit num j"
  shows "find_bit num = Some m"
proof -
  have "num \<noteq> 0" using assms(1) by auto
  then show ?thesis using find_bit_loop_least [OF assms, of 0] by (simp add: find_bit_def)
qed

lemma least_bit:
  fixes w :: "32 word"
  assumes "w \<noteq> 0"
  obtains m where "m < 32" and "bit w m" and "\<And>j. j < m \<Longrightarrow> \<not> bit w j"
proof -
  obtain n where n: "bit w n" using assms by (metis bit_eqI bit_0_eq bot_apply bot_bool_def)
  then have "bit w (LEAST n. bit w n)" by (rule LeastI)
  then show thesis using that [of "LEAST n. bit w n"] not_less_Least bit_imp_le_length by fastforce
qed

text \<open>\<^verbatim>\<open>x & -x\<close> has the lowest set bit of \<^verbatim>\<open>x\<close>.\<close>

lemma bit_and_minus:
  fixes w :: "'a::len word"
  assumes "bit w m" and "\<And>j. j < m \<Longrightarrow> \<not> bit w j"
  shows "bit (w AND - w) m"
proof -
  have m: "m < LENGTH('a)" using assms(1) by (rule bit_imp_le_length)
  have "m \<le> n" if "bit w n" for n using assms(2) [of n] that by (meson not_le)
  then have "w = push_bit m (drop_bit m w)"
    by (intro bit_eqI) (auto simp: bit_push_bit_iff bit_drop_bit_eq)
  then have "- w = push_bit m (- drop_bit m w)" by (metis mult_minus_left push_bit_eq_mult)
  moreover have "odd (- drop_bit m w)" using assms(1) by (simp add: bit_iff_odd_drop_bit)
  ultimately have "bit (- w) m" using m by (simp add: bit_push_bit_iff bit_0)
  then show ?thesis using assms(1) by (simp add: bit_and_iff)
qed

lemma find_lowest_bit:
  fixes w :: "32 word"
  assumes "bit w m" and "\<And>j. j < m \<Longrightarrow> \<not> bit w j"
  shows "find_bit (w AND - w) = Some m" and "find_bit (ucast ((ucast w :: u64) AND - ucast w)) = Some m"
proof -
  have m: "m < 32" using bit_imp_le_length [OF assms(1)] by simp
  show "find_bit (w AND - w) = Some m"
    by (rule find_bit_least) (use bit_and_minus [OF assms] assms(2) in \<open>auto simp: bit_and_iff\<close>)
  let ?u = "ucast w :: u64"
  have "bit (?u AND - ?u) m"
    by (rule bit_and_minus) (use assms m in \<open>auto simp: bit_ucast_iff\<close>)
  then show "find_bit (ucast (?u AND - ?u)) = Some m"
    using m assms(2) by (intro find_bit_least) (auto simp: bit_ucast_iff bit_and_iff)
qed

section \<open>Reading and writing a bit\<close>

definition array_bit :: "32 word list \<Rightarrow> nat \<Rightarrow> bool" where
  "array_bit a i \<longleftrightarrow> bit (a ! (i div 32)) (i mod 32)"

lemma bit_word_eq: "bit_word nr = unat nr div 32"
  by (simp add: bit_word_def drop_bit_eq_div unat_div_distrib)

lemma bit_index_eq: "unat (nr AND 31 :: u64) = unat nr mod 32"
proof -
  have "nr AND 31 = take_bit 5 nr" by (simp add: take_bit_eq_mask mask_eq_exp_minus_1)
  then show ?thesis by (simp add: take_bit_eq_mod unat_mod_distrib)
qed

lemma one_and_ucast: "(1 :: u64) AND ucast (drop_bit n (w :: 32 word)) = of_bool (bit w n)"
proof -
  have "odd (ucast (drop_bit n w) :: u64) \<longleftrightarrow> bit w n"
    using bit_ucast_iff [of "drop_bit n w" 0, where 'a = 64] by (simp add: bit_0 bit_drop_bit_eq flip: bit_iff_odd_drop_bit)
  then show ?thesis by (simp add: one_and_eq mod_2_eq_odd)
qed

lemma test_bit_at_spec: "unat nr < 32 * length a \<Longrightarrow> test_bit_at nr a = Some (of_bool (array_bit a (unat nr)))"
  by (auto simp: test_bit_at_def bit_word_eq bit_index_eq array_bit_def one_and_ucast)

lemma array_bit_update:
  assumes "i < 32 * length a" and "j < 32 * length a"
  shows "array_bit (a[i div 32 := a ! (i div 32) OR 2 ^ (i mod 32)]) j \<longleftrightarrow> j = i \<or> array_bit a j"
    and "array_bit (a[i div 32 := a ! (i div 32) AND NOT (2 ^ (i mod 32))]) j \<longleftrightarrow> j \<noteq> i \<and> array_bit a j"
proof -
  have lt: "i div 32 < length a" "j div 32 < length a" using assms by auto
  have same: "j = i \<longleftrightarrow> j div 32 = i div 32 \<and> j mod 32 = i mod 32" by (metis div_mult_mod_eq)
  have one: "bit (2 ^ n :: 32 word) m \<longleftrightarrow> m = n" if "m < 32" for m n
    using that by (auto simp: bit_exp_iff)
  show "array_bit (a[i div 32 := a ! (i div 32) OR 2 ^ (i mod 32)]) j \<longleftrightarrow> j = i \<or> array_bit a j"
    using lt same one [of "j mod 32" "i mod 32"] by (cases "j div 32 = i div 32") (auto simp: array_bit_def bit_or_iff)
  show "array_bit (a[i div 32 := a ! (i div 32) AND NOT (2 ^ (i mod 32))]) j \<longleftrightarrow> j \<noteq> i \<and> array_bit a j"
    using lt same one [of "j mod 32" "i mod 32"] by (cases "j div 32 = i div 32") (auto simp: array_bit_def bit_and_iff bit_not_iff)
qed

text \<open>After \<^verbatim>\<open>__set_bit\<close> and \<^verbatim>\<open>__clear_bit\<close> the bit reads 1 and 0, and every other bit reads what it read before.\<close>

lemma test_after_set_clear:
  assumes i: "unat i < 32 * length a" and j: "unat j < 32 * length a"
  shows "Option.bind (set_bit_at i a) (test_bit_at j) = (if j = i then Some 1 else test_bit_at j a)"
    and "Option.bind (clear_bit_at i a) (test_bit_at j) = (if j = i then Some 0 else test_bit_at j a)"
proof -
  have lt: "unat i div 32 < length a" using i by auto
  have eq: "unat j = unat i \<longleftrightarrow> j = i" by (auto intro: unsigned_word_eqI)
  show "Option.bind (set_bit_at i a) (test_bit_at j) = (if j = i then Some 1 else test_bit_at j a)"
    using lt j i by (simp add: set_bit_at_def bit_mask_def bit_word_eq bit_index_eq test_bit_at_spec array_bit_update eq)
  show "Option.bind (clear_bit_at i a) (test_bit_at j) = (if j = i then Some 0 else test_bit_at j a)"
    using lt j i by (simp add: clear_bit_at_def bit_mask_def bit_word_eq bit_index_eq test_bit_at_spec array_bit_update eq)
qed

section \<open>The searches\<close>

text \<open>\<open>r\<close> is the first set bit from \<open>lo\<close> on, or the end \<open>n\<close>.\<close>

definition first_set :: "32 word list \<Rightarrow> nat \<Rightarrow> nat \<Rightarrow> nat \<Rightarrow> bool" where
  "first_set a lo n r \<longleftrightarrow> lo \<le> r \<and> r \<le> n \<and> (\<forall>j. lo \<le> j \<and> j < r \<longrightarrow> \<not> array_bit a j) \<and> (r < n \<longrightarrow> array_bit a r)"

lemma array_bit_drop: "array_bit (drop d a) j \<longleftrightarrow> array_bit a (32 * d + j)" if "d \<le> length a"
  using that by (simp add: array_bit_def)

lemma array_bit_low: "j < 32 \<Longrightarrow> array_bit (w # a) j \<longleftrightarrow> bit w j"
  by (simp add: array_bit_def)

lemma array_bit_high: "32 \<le> j \<Longrightarrow> array_bit (w # a) j \<longleftrightarrow> array_bit a (j - 32)"
  by (metis array_bit_drop [of 1 "w # a" "j - 32"] One_nat_def drop_Suc_Cons drop0 le_add_diff_inverse length_Cons le_add1 mult_1_right plus_1_eq_Suc)

lemma first_bit_loop_spec:
  assumes "0 < unat words" and "unat words \<le> length a"
  shows "\<exists>r. first_bit_loop a words i = Some (r + 32 * i) \<and> first_set a 0 (32 * unat words) r"
  using assms
proof (induction a words i rule: first_bit_loop.induct)
  case (1 words i)
  then show ?case by simp
next
  case (2 w p words i)
  show ?case
  proof (cases "w = 0")
    case False
    obtain m where m: "m < 32" "bit w m" "\<And>j. j < m \<Longrightarrow> \<not> bit w j" using least_bit [OF False] by metis
    have "bit (ucast w :: u64) m" using m(1,2) by (simp add: bit_ucast_iff)
    then have "(ucast w :: u64) \<noteq> 0" by (intro notI) simp
    then have "first_bit_loop (w # p) words i = Some (m + 32 * i)" using find_lowest_bit(2) [OF m(2,3)] by (simp add: Let_def)
    moreover have "first_set (w # p) 0 (32 * unat words) m" using m 2(2) by (auto simp: first_set_def array_bit_low)
    ultimately show ?thesis by blast
  next
    case True
    show ?thesis
    proof (cases "words - 1 = 0")
      case True1: True
      then have "words = 1" by simp
      then show ?thesis using True by (intro exI [of _ 32]) (auto simp: first_set_def array_bit_low)
    next
      case False
      have u: "unat (words - 1) = unat words - 1" using 2(2) by (simp add: unat_minus_one unat_gt_0)
      have pos: "0 < unat (words - 1)" using False by (simp add: unat_gt_0)
      have len: "unat (words - 1) \<le> length p" using u 2(3) by simp
      obtain r where r: "first_bit_loop p (words - 1) (Suc i) = Some (r + 32 * Suc i)" "first_set p 0 (32 * unat (words - 1)) r"
        using 2(1) [OF refl _ False pos len] True by auto
      have "first_set (w # p) 0 (32 * unat words) (r + 32)"
        unfolding first_set_def
      proof (intro conjI allI impI)
        have "r \<le> 32 * (unat words - 1)" using r(2) u by (simp add: first_set_def)
        then show "r + 32 \<le> 32 * unat words" using u pos by linarith
        show "\<not> array_bit (w # p) j" if "0 \<le> j \<and> j < r + 32" for j
          using that True r(2) by (cases "j < 32") (auto simp: array_bit_low array_bit_high first_set_def)
        show "array_bit (w # p) (r + 32)" if "r + 32 < 32 * unat words"
          using that r(2) u pos by (simp add: array_bit_high first_set_def)
      qed simp
      then show ?thesis using True False r(1) by (intro exI [of _ "r + 32"]) (simp add: Let_def)
    qed
  qed
qed

lemma first_set_clip: "first_set a lo n r \<Longrightarrow> lo \<le> n' \<Longrightarrow> n' \<le> n \<Longrightarrow> first_set a lo n' (if r < n' then r else n')"
  by (auto simp: first_set_def)

lemma find_first_bit_spec:
  assumes "unat sz < 2 ^ 31" and "(unat sz + 31) div 32 \<le> length a"
  shows "\<exists>r. find_first_bit a sz = Some r \<and> first_set a 0 (unat sz) r"
proof (cases "sz = 0")
  case True
  then show ?thesis by (simp add: find_first_bit_def first_set_def)
next
  case False
  let ?w = "drop_bit 5 (sz + 31)"
  have "unat (sz + 31) = unat sz + 31" using assms(1) by (simp add: unat_plus_if')
  then have w: "unat ?w = (unat sz + 31) div 32" by (simp add: drop_bit_eq_div unat_div_distrib)
  have pos: "0 < unat sz" using False by (simp add: unat_gt_0)
  have "0 < unat ?w" unfolding w using pos by linarith
  then obtain r where "first_bit_loop a ?w 0 = Some r" "first_set a 0 (32 * unat ?w) r"
    using first_bit_loop_spec [of ?w a 0] w assms(2) by auto
  moreover have "unat sz \<le> 32 * unat ?w" unfolding w by (simp add: field_simps)
  ultimately show ?thesis using False first_set_clip [of a 0 "32 * unat ?w" r "unat sz"] by (simp add: find_first_bit_def)
qed

lemma first_set_shift:
  assumes "d \<le> length a" and "first_set (drop d a) 0 n r"
  shows "first_set a (32 * d) (32 * d + n) (32 * d + r)"
  unfolding first_set_def
proof (intro conjI allI impI)
  show "\<not> array_bit a j" if "32 * d \<le> j \<and> j < 32 * d + r" for j
    using that assms array_bit_drop [OF assms(1), of "j - 32 * d"] by (auto simp: first_set_def)
  show "array_bit a (32 * d + r)" if "32 * d + r < 32 * d + n"
    using that assms array_bit_drop [OF assms(1), of r] by (auto simp: first_set_def)
qed (use assms in \<open>auto simp: first_set_def\<close>)

lemma find_rest_spec:
  assumes "32 * d \<le> n" and "n < 2 ^ 31" and "n \<le> 32 * length a"
  shows "\<exists>r. map_option (\<lambda>r. 32 * d + r) (find_first_bit (drop d a) (of_nat (n - 32 * d))) = Some r \<and> first_set a (32 * d) n r"
proof -
  have u: "unat (of_nat (n - 32 * d) :: 32 word) = n - 32 * d" using assms(2) by (simp add: unat_of_nat)
  have "(n - 32 * d + 31) div 32 \<le> length a - d" using assms(1,3) by linarith
  moreover have "n - 32 * d < 2 ^ 31" using assms(2) by linarith
  ultimately obtain r where r: "find_first_bit (drop d a) (of_nat (n - 32 * d)) = Some r" "first_set (drop d a) 0 (n - 32 * d) r"
    using find_first_bit_spec [of "of_nat (n - 32 * d)" "drop d a"] u by auto
  have "d \<le> length a" using assms(1,3) by linarith
  then show ?thesis using first_set_shift [OF _ r(2)] r(1) assms(1) by auto
qed

lemma first_set_skip:
  assumes "first_set a m n r" and "lo \<le> m" and "\<And>j. lo \<le> j \<Longrightarrow> j < m \<Longrightarrow> \<not> array_bit a j"
  shows "first_set a lo n r"
  using assms by (auto simp: first_set_def not_less [symmetric])

text \<open>The word that the offset is in, with the bits below the offset masked out.\<close>

lemma masked_word_bits:
  fixes a :: "32 word list" and off :: nat
  defines "d \<equiv> off div 32" and "num \<equiv> a ! (off div 32) AND push_bit (off mod 32) (NOT 0)"
  shows "j < 32 \<Longrightarrow> bit num j \<longleftrightarrow> off \<le> 32 * d + j \<and> array_bit a (32 * d + j)"
proof -
  assume j: "j < 32"
  have "off mod 32 \<le> j \<longleftrightarrow> off \<le> 32 * d + j" using mult_div_mod_eq [of 32 off] unfolding d_def by arith
  then show "bit num j \<longleftrightarrow> off \<le> 32 * d + j \<and> array_bit a (32 * d + j)"
    using j by (auto simp: num_def d_def array_bit_def bit_and_iff bit_push_bit_iff bit_not_iff bit_mask_iff)
qed

lemma masked_word_first:
  fixes a :: "32 word list" and off :: nat
  defines "d \<equiv> off div 32" and "num \<equiv> a ! (off div 32) AND push_bit (off mod 32) (NOT 0)"
  shows "num = 0 \<Longrightarrow> off \<le> j \<Longrightarrow> j < 32 * d + 32 \<Longrightarrow> \<not> array_bit a j"
    and "m < 32 \<Longrightarrow> bit num m \<Longrightarrow> (\<And>j. j < m \<Longrightarrow> \<not> bit num j) \<Longrightarrow> first_set a off (32 * d + 32) (32 * d + m)"
proof -
  note bits = masked_word_bits [of _ a off, folded d_def num_def]
  have split: "j = 32 * d + (j - 32 * d)" if "off \<le> j" for j using that by (simp add: d_def)
  show "\<not> array_bit a j" if "num = 0" "off \<le> j" "j < 32 * d + 32" for j
  proof -
    have "j - 32 * d < 32" using that(3) by linarith
    then show ?thesis using bits [of "j - 32 * d"] split [OF that(2)] that(1,2) by simp
  qed
  show "first_set a off (32 * d + 32) (32 * d + m)" if m: "m < 32" "bit num m" "\<And>j. j < m \<Longrightarrow> \<not> bit num j" for m
  proof -
    have "\<not> array_bit a j" if j: "off \<le> j" "j < 32 * d + m" for j
    proof -
      have "j - 32 * d < m" using j split [OF j(1)] by linarith
      then show ?thesis using m(3) [of "j - 32 * d"] bits [of "j - 32 * d"] split [OF j(1)] j(1) m(1) by simp
    qed
    then show ?thesis using bits [OF m(1)] m(1,2) by (simp add: first_set_def)
  qed
qed

text \<open>
  C37. \<^verbatim>\<open>find_next_bit\<close> on an array that holds the bits returns a position between the offset and the size: the
  first set bit from the offset on, or the size when there is none. It reads no word outside of the array.
\<close>

theorem find_next_bit_first:
  assumes le: "off \<le> n" and n: "n < 2 ^ 31" "n \<le> 32 * length a"
  shows "\<exists>r. find_next_bit a n off = Some r \<and> first_set a off n r"
proof -
  let ?b = "off mod 32" and ?d = "off div 32"
  consider "n = off" | "off < n" "?b = 0" | "off < n" "?b \<noteq> 0" using le by linarith
  then show ?thesis
  proof cases
    case 1
    then show ?thesis by (auto simp: find_next_bit_def first_set_def Let_def)
  next
    case 2
    have eq: "32 * ?d = off" using 2(2) by auto
    show ?thesis using find_rest_spec [of ?d n a, unfolded eq] n 2 by (simp add: find_next_bit_def Let_def)
  next
    case 3
    have p: "drop ?d a = a ! ?d # drop (Suc ?d) a" using 3(1) n(2) by (intro Cons_nth_drop_Suc [symmetric]) linarith
    let ?num = "a ! ?d AND push_bit ?b (NOT 0)"
    show ?thesis
    proof (cases "?num = 0")
      case zero: True
      note none = masked_word_first(1) [OF zero]
      have run: "find_next_bit a n off = (if n \<le> 32 * Suc ?d then Some n
          else map_option (\<lambda>r. 32 * Suc ?d + r) (find_first_bit (drop (Suc ?d) a) (of_nat (n - 32 * Suc ?d))))"
        using 3 p zero by (simp add: find_next_bit_def Let_def minus_mod_eq_mult_div add.commute [of _ 32])
      show ?thesis
      proof (cases "n \<le> 32 * Suc ?d")
        case True
        then have "first_set a off n n" using none le by (simp add: first_set_def)
        then show ?thesis using run True by simp
      next
        case False
        then obtain r where r: "find_next_bit a n off = Some r" "first_set a (32 * Suc ?d) n r"
          using find_rest_spec [of "Suc ?d" n a] n run by (metis nat_le_linear)
        have "off \<le> 32 * Suc ?d" using dividend_less_times_div [of 32 off] by simp
        then have "first_set a off n r" by (rule first_set_skip [OF r(2)]) (use none in simp)
        then show ?thesis using r(1) by blast
      qed
    next
      case False
      obtain m where m: "m < 32" "bit ?num m" "\<And>j. j < m \<Longrightarrow> \<not> bit ?num j" using least_bit [OF False] by metis
      have "?num AND - ?num \<noteq> 0" using bit_and_minus [OF m(2,3)] by (intro notI) simp
      then have "find_next_bit a n off = Some (if 32 * ?d + m < n then 32 * ?d + m else n)"
        using 3 p find_lowest_bit(1) [OF m(2,3)] m(1) by (simp add: find_next_bit_def Let_def minus_mod_eq_mult_div)
      then show ?thesis using masked_word_first(2) [OF m] 3(1) m(1) by (auto simp: first_set_def)
    qed
  qed
qed

section \<open>The first zero bit\<close>

text \<open>Within one word the search is exact; it does not read a second word: a full first word gives 32.\<close>

lemma not_ucast:
  fixes w :: "32 word"
  shows "NOT (ucast w :: u64) \<noteq> 0" and "ucast (NOT (ucast w :: u64)) = NOT w"
proof -
  have "bit (NOT (ucast w :: u64)) 40" using bit_imp_le_length [of w 40] by (auto simp: bit_not_iff bit_ucast_iff)
  then show "NOT (ucast w :: u64) \<noteq> 0" by (intro notI) simp
  show "ucast (NOT (ucast w :: u64)) = NOT w" by (intro bit_eqI) (auto simp: bit_not_iff bit_ucast_iff)
qed

lemma find_first_zero_bit_full_word:
  assumes "32 < unat sz"
  shows "find_first_zero_bit (NOT 0 # a) sz = Some 32"
  using assms not_ucast [of "NOT 0"] by (auto simp: find_first_zero_bit_def find_bit_def Let_def)

lemma find_first_zero_bit_one_word:
  assumes "0 < unat sz" and "unat sz \<le> 32"
  shows "\<exists>r. find_first_zero_bit (w # a) sz = Some r \<and> r \<le> unat sz \<and> (\<forall>j<r. bit w j) \<and> (r < unat sz \<longrightarrow> \<not> bit w r)"
proof -
  have run: "find_first_zero_bit (w # a) sz = map_option (\<lambda>res. if res < unat sz then res else unat sz) (find_bit (NOT w))"
    using not_ucast [of w] assms(1) by (auto simp: find_first_zero_bit_def Let_def option.map_comp comp_def)
  show ?thesis
  proof (cases "NOT w = 0")
    case True
    then have "w = NOT 0" by (metis bit.double_compl)
    then show ?thesis using run assms by (intro exI [of _ "unat sz"]) (auto simp: find_bit_def)
  next
    case False
    obtain m where m: "m < 32" "bit (NOT w) m" "\<And>j. j < m \<Longrightarrow> \<not> bit (NOT w) j" using least_bit [OF False] by metis
    have "bit w j" if "j < m" for j using m(3) [OF that] that m(1) by (simp add: bit_not_iff)
    moreover have "\<not> bit w m" using m(2) by (simp add: bit_not_iff)
    ultimately show ?thesis using run find_bit_least [OF m(2,3)] by (intro exI [of _ "if m < unat sz then m else unat sz"]) auto
  qed
qed

section \<open>Witness\<close>

theorem find_next_bit_first_witness:
  "\<exists>r. find_next_bit [1, 2] 64 5 = Some r \<and> first_set [1, 2] 5 64 r \<and> r = 33"
proof -
  have "find_next_bit [1, 2] 64 5 = Some 33" by code_simp
  then show ?thesis using find_next_bit_first [of 5 64 "[1, 2]"] by auto
qed

end
