(* ===== verification/Spec2Isabelle.thy ===== *)
theory Spec2Isabelle
  imports Nali_DB Logdb_Recovery Gc_Invariant Range_Scan Var_Record Sort_Bucket Caches Nali_Locks Rte_Ring Bitops
begin

text \<open>
  A verification of NALI, a key-value store with a learned index in DRAM and a value log in persistent
  memory.

  The program. \<^verbatim>\<open>class logdb\<close> (\<^verbatim>\<open>src/include/logdb.h\<close>) is the store. It appends every value to the log
  \<^verbatim>\<open>class LogKV\<close> (\<^verbatim>\<open>src/src/nali_kvlog.h\<close>), which has pages of 16 MB per NUMA node and hash shard, and keeps
  the position of the newest record of a key in an index behind \<^verbatim>\<open>class Tree\<close> (\<^verbatim>\<open>src/include/tree.h\<close>). The
  index of the repository is \<^verbatim>\<open>class nalidb\<close> (\<^verbatim>\<open>src/include/db_interface.h\<close>) over \<^verbatim>\<open>class Nali\<close>
  (\<^verbatim>\<open>src/src/nali.h\<close>): a root model picks a group, a model in the group (\<^verbatim>\<open>src/src/rmi_model.h\<close>) predicts an entry,
  and an entry has up to four leaf nodes (\<^verbatim>\<open>src/src/nali_entry.h\<close>). Lookups go through a cache: the hash table
  CLHT (\<^verbatim>\<open>src/src/clht/clht_lb_res.cc\<close>) or the caches of \<^verbatim>\<open>logdb.h\<close> and \<^verbatim>\<open>src/include/new_cache.h\<close>. After a restart
  the log is scanned to rebuild the index, and collector threads reclaim log records.

  \<^bold>\<open>Theories\<close>, from the bottom up:

  \<^item> \<open>Nali_Prelude\<close>: machine words, the status codes, searches for an upper bound, options and lists.
  \<^item> \<open>Nali_Bucket\<close>: the leaf \<^verbatim>\<open>UnSortBuncket\<close> as the record \<open>buncket\<close> in a node heap (\<open>bheap\<close>, an explicit
    store, since leaves are reached through pointers); the operations keep the invariant and refine a map.
  \<^item> \<open>Sort_Bucket\<close>: the sorted leaf \<^verbatim>\<open>SortBuncket\<close>, a sorted map while nothing was removed; its two searches
    agree, and a removal leaves a hole that later insertions mistake for a key.
  \<^item> \<open>Leaf_Index\<close>, \<open>Leaf_Store\<close>: the abstract specification of the index, a sequence of leaves with
    separators, and the locale \<open>leaf_store\<close> by which each level uses the one below. It is interpreted for
    entries (\<open>Nali_Entry\<close>, \<^verbatim>\<open>PointerBEntry\<close>) and groups (\<open>Nali_Group\<close>, \<^verbatim>\<open>class group\<close>).
  \<^item> \<open>Rmi_Model\<close>: the linear models over floating point operations given as a record \<open>fpu\<close>. The locale
    \<open>fp_arith\<close> has the laws of IEEE 754 that are used of them, each where it holds: infinities and NaNs are
    allowed, and the conversion to \<^verbatim>\<open>int\<close> is monotone only where its result fits (outside it is undefined in
    C++, and \<^verbatim>\<open>INT_MIN\<close> on x86). The locale \<open>fp_keys\<close> adds a set \<open>K\<close> of safe keys: no model that is trained on
    keys of \<open>K\<close> predicts a position outside of \<^verbatim>\<open>int\<close> for a key of \<open>K\<close>. Exact rationals with the conversion of x86 are an
    instance, with all keys below \<open>2 ^ 31\<close> (\<open>int_keys\<close>); \<open>predict_overflow\<close> and \<open>group_id_overflow\<close> (\<open>Nali_Tree\<close>) show
    that a larger key ends up in the first group, before smaller ones. Nothing relies on predictions
    being good.
  \<^item> \<open>Nali_Tree\<close>: \<^verbatim>\<open>class Nali\<close> with its expansion; a retry that need not end is \<open>None\<close>, and is shown to end.
  \<^item> \<open>Tree_Interface\<close>: the class \<^verbatim>\<open>Tree\<close> as a record of operations and the locales \<open>tree_index\<close> and
    \<open>bulk_index\<close>, the contract that \<open>Logdb\<close> relies on. \<open>Nali_DB\<close> discharges them for \<^verbatim>\<open>nalidb\<close>.
  \<^item> \<open>Nali_Scan\<close>: the iterators and scans of all levels. The loop of \<^verbatim>\<open>PointerBEntry::Scan\<close> may run forever
    and takes fuel: the number of pairs asked for is enough when no leaf is empty (\<open>Range_Scan\<close>), and
    \<open>scan_never_ends\<close> holds for any amount.
  \<^item> \<open>Kvlog\<close>: positions (\<^verbatim>\<open>last_log_offest\<close>), records (\<^verbatim>\<open>Pair_t\<close>), pages and appending; memory is a map from
    blocks and byte offsets to 64-bit words. \<open>Kvlog_Recovery\<close>, \<open>Recovery_Inserts\<close>: file names and
    \<^verbatim>\<open>recovery_logkv\<close>, whose threads may treat their shards in any order (\<open>valid_order\<close>); \<open>Logdb_Recovery\<close>: the store
    that starts from it. \<open>Var_Record\<close>: records with values of variable length, byte for byte.
  \<^item> \<open>Clht\<close>, \<open>Clht_Resize\<close>, \<open>Clht_Growth\<close>: the hash table with its chains, resizing and the growth factor.
    The call of \<^verbatim>\<open>ht_status\<close> from an insertion and the insertions of a resize are bounded by a depth; depth 2 is
    enough for a registered thread (\<open>exact_put\<close>), since a fresh table does not ask for another resize. The program
    registers no thread, so that its resizes fault; insertions without a resize need neither depth nor
    registration. The copying loop stops with an overflow of its 32-bit index from \<open>2 ^ 31\<close> buckets on.
  \<^item> \<open>Logdb\<close>: the store over any \<open>tree_index\<close>. \<open>Range_Scan\<close>: range scans of index and store. \<open>Logdb_Gc\<close>, \<open>Gc_Invariant\<close>:
    both passes of \<^verbatim>\<open>do_gc\<close>, the chains of older records, and the steps of clients and collector as the
    relation \<open>logdb_step\<close> with its invariant. A walk along older records that does not end is \<open>None\<close>.
  \<^item> \<open>Caches\<close>: \<^verbatim>\<open>lru_cache\<close>, \<^verbatim>\<open>shard_lru_cache\<close>, \<^verbatim>\<open>NumaCache\<close>.
  \<^item> \<open>Nali_Locks\<close>: the locks of \<^verbatim>\<open>src/include/util/rwlock.h\<close> and \<^verbatim>\<open>src/src/nali_concurrency.h\<close> as step relations of any
    number of threads over one atomic variable.
  \<^item> \<open>Rte_Ring\<close>: the ring buffer of \<^verbatim>\<open>src/include/util/rte_ring.h\<close> with wrapping 32-bit counters.
    \<open>Bitops\<close>: the bit arrays of \<^verbatim>\<open>src/include/util/bitops.h\<close>.

  \<^bold>\<open>Properties\<close>, in the sections below and in \<open>Nali_Locks\<close>, \<open>Caches\<close>, \<open>Rte_Ring\<close>, \<open>Sort_Bucket\<close>, \<open>Var_Record\<close> and \<open>Bitops\<close>: any run of index
  operations that inserts only absent, safe keys answers as a finite map does, each operation on every branch, expansion and bulk loading
  included; the guided search equals the plain one; iteration is in key order; the store with log,
  index and cache behaves as a map while the cache is coherent, and its updates and removals append the records that
  describe them; records and positions are read back; recovery finds the keys that a process inserted before it
  stopped; marking leaves every indexed record as it is; resizing keeps the table; the locks exclude, with the
  bound on readers. Other theorems state where the code departs from this: stale cached values, a scan
  that does not end, a page table that overflows, a null address after recovery and in a resize. Lemmas beside them: what a range
  scan returns is in the database, collection that writes an old record again brings its value back, the ring
  buffer reads wrong slots after its first lap.

  \<^bold>\<open>Parameters\<close>: floating point operations (\<open>fpu\<close>; exact rationals in the examples), the hash \<^verbatim>\<open>XXH3_64bits\<close>,
  the set of safe keys,
  whether a file can be mapped, the directory and the contents of files, uninitialised memory, whether an
  allocation succeeds, and the number of shards.

  \<^bold>\<open>Configuration\<close>: 8-byte keys and values, leaves of 256 bytes without \<^verbatim>\<open>USE_FINGER\<close>, \<^verbatim>\<open>USE_CACHE\<close> with
  \<^verbatim>\<open>USE_CLHT_CACHE\<close>, two NUMA nodes, 32 log pages per shard, and \<^verbatim>\<open>NDEBUG\<close>, which \<^verbatim>\<open>src/CMakeLists.txt\<close> defines for all targets: the
  assertions of the sources are not compiled, and the definitions leave them out. Apart from the locks,
  operations run one at a time.

  \<^bold>\<open>Not modelled\<close>: a store built with \<^verbatim>\<open>VARVALUE\<close> beyond its records; concurrent operations on tree and hash table; persistence
  order of stores (\<^verbatim>\<open>clwb\<close>, fences); the bodies of \<^verbatim>\<open>xxhash.h\<close>; the lock-free variant of CLHT, which is commented
  out, its memory reclamation \<^verbatim>\<open>ssmem\<close> and its measurements; thread pool and allocators, which only wrap
  library calls; the models of several stages in \<^verbatim>\<open>rmi_model.h\<close>, which no index uses; the other indexes under \<^verbatim>\<open>src/third/\<close>, which are vendored; benchmarks and tests.
\<close>

section \<open>Concrete instances\<close>

text \<open>A zeroed node heap and a zeroed group, for examples.\<close>

definition zero_heap :: bheap where
  "zero_heap = \<lparr>store = (\<lambda>_. \<lparr>next_bucket = None, entries = 0, max_entries = 0,
     records = replicate entry_count \<lparr>kv_key = 0, kv_value = 0\<rparr>\<rparr>), next_free = 0\<rparr>"

lemma zero_heap_wf: "bheap_wf zero_heap"
  by (simp add: bheap_wf_def zero_heap_def)

lemma zero_heap_fresh: "fresh_in int_keys zero_heap"
  by (simp add: fresh_in_def zero_heap_def int_keys_def entry_count_def buf_size_def entry_size_def)

definition exact_db :: "rat nalidb" where
  "exact_db = nalidb_new rat_fpu zero_heap (zero_group rat_fpu)"

lemma exact_db_ok: "nalidb_ok rat_fpu int_keys exact_db" "nalidb_map exact_db = Map.empty"
  unfolding exact_db_def by (rule exact.nalidb_new_ok [OF zero_heap_wf zero_heap_fresh])+

lemma exact_tree_ok: "tree_ok rat_fpu int_keys (fst exact_db) (snd exact_db)"
  and exact_tree_map: "tree_map (fst exact_db) (snd exact_db) = Map.empty"
  using exact_db_ok by (simp_all add: nalidb_ok_def nalidb_map_def)

text \<open>The tree of \<open>exact_db\<close> has one group with one entry and one leaf.\<close>

definition first_entry :: PointerBEntry where
  "first_entry = \<lparr>entrys = (\<lambda>_. zero_eentry)(0 := \<lparr>entry_key = 0, pointer = 0, prefix_bytes = 8, suffix_bytes = 0, buf_entries = 1\<rparr>)\<rparr>"

lemma exact_shape:
  obtains g where "group_space (snd exact_db) = [g]" and "nr_entries g = 1" and "entry_space g = [first_entry]"
    and "\<not> is_tree_expand (snd exact_db)"
proof -
  have "group_space (snd exact_db) \<noteq> [] \<and> tl (group_space (snd exact_db)) = [] \<and> nr_entries (hd (group_space (snd exact_db))) = 1 \<and>
      entry_space (hd (group_space (snd exact_db))) = [first_entry] \<and> \<not> is_tree_expand (snd exact_db)"
    by (simp add: exact_db_def nalidb_new_def nali_Init_def group_Init_def PointerBEntry_new_def new_UnSortBuncket_def nali_new_def
        zero_heap_def zero_PointerBEntry_def first_entry_def Let_def)
  then show thesis using that by (cases "group_space (snd exact_db)") auto
qed

lemma exact_leaf: "entries (store (fst exact_db) 0) = 0" "max_entries (store (fst exact_db) 0) = 15" "length (records (store (fst exact_db) 0)) = 15"
  by (simp_all add: exact_db_def nalidb_new_def nali_Init_def group_Init_def PointerBEntry_new_def new_UnSortBuncket_def UnSortBuncket_def
      zero_heap_def buf_size_def max_entry_count_param_def Let_def)

lemma exact_find_entry:
  assumes "nr_entries g = 1" and "entry_space g = [first_entry]"
  shows "group_find_entry F g k = 0"
proof -
  have "group_keys g = [0]" using assms by (simp add: group_keys_def PointerBEntry_entry_key_def first_entry_def get_entry_key_def)
  then show ?thesis by (subst find_entry_slot) (use assms in \<open>simp_all add: slot_def upper_bound_def\<close>)
qed

lemma first_entry_simps: "PointerBEntry_entries first_entry = 1" "PointerBEntry_entry_key first_entry = 0" "pointer (entrys first_entry 0) = 0"
  "PointerBEntry_Find_pos first_entry k = 0"
  by (simp_all add: first_entry_def PointerBEntry_entries_def PointerBEntry_entry_key_def PointerBEntry_Find_pos_def PointerBEntry_Find_pos_loop.simps Let_def)

lemma exact_put_shape:
  obtains h t g where "nali_Put rat_fpu (fst exact_db) (snd exact_db) 7 v = Some (OK, h, t)" and "group_space t = [g]"
    and "nr_entries g = 1" and "entry_space g = [first_entry]" and "entries (store h 0) = 1" and "group_filled h g"
proof -
  obtain g where g: "group_space (snd exact_db) = [g]" "nr_entries g = 1" "entry_space g = [first_entry]" "\<not> is_tree_expand (snd exact_db)"
    by (rule exact_shape)
  obtain b where b: "UnSortBuncket_Put (store (fst exact_db) 0) 7 v = (OK, b)" "entries b = 1"
    using exact_leaf by (simp add: UnSortBuncket_Put_def UnSortBuncket_PutBufKV_def)
  have "PointerBEntry_Put (fst exact_db) first_entry 7 v False =
      (OK, (fst exact_db)\<lparr>store := (store (fst exact_db))(0 := b)\<rparr>, first_entry, False)"
    using b(1) by (simp add: PointerBEntry_Put.simps first_entry_simps)
  then obtain g' h where gp: "group_Put rat_fpu (fst exact_db) g 7 v = Some (OK, h, g')" "nr_entries g' = 1" "entry_space g' = [first_entry]" "entries (store h 0) = 1"
    using g b(2) by (subst (asm) group_Put.simps) (simp add: exact_find_entry)
  have "find_group rat_fpu (snd exact_db) 7 = 0"
    using g by (simp add: find_group_def group_id_def clamp_group_def find_group_up.simps)
  moreover have "group_filled h g'"
    using gp(2-4) by (simp add: group_filled_def gents_def leaves_filled_def first_entry_simps leaf_at_def PointerBEntry_Pointer_def)
  ultimately show thesis using that gp g by (subst (asm) nali_Put.simps) simp
qed

lemma int_keys_examples: "7 \<in> int_keys" "5 \<in> int_keys" "3 \<in> int_keys"
  by (simp_all add: int_keys_def)

section \<open>The ordered index\<close>



text \<open>
  C2. \<^verbatim>\<open>Nali::Put\<close> of an absent key that is safe for the arithmetic returns \<^verbatim>\<open>OK\<close>, after at most one expansion
  of the tree; the map gains the pair and the invariant of the tree is kept.
\<close>

theorem nali_Put_inserts:
  assumes "fp_keys F K" and "tree_ok F K h t" and "k \<in> K" and "tree_map h t k = None"
  shows "\<exists>h' t'. nali_Put F h t k v = Some (OK, h', t') \<and> tree_ok F K h' t' \<and>
    tree_map h' t' = (tree_map h t)(k \<mapsto> v) \<and> root_expand_times t' \<le> Suc (root_expand_times t)"
  by (rule fp_keys.nali_Put_correct [OF assms, of v]) blast

theorem nali_Put_inserts_witness:
  "\<exists>h' t'. nali_Put rat_fpu (fst exact_db) (snd exact_db) 7 70 = Some (OK, h', t') \<and> tree_ok rat_fpu int_keys h' t' \<and>
    tree_map h' t' = [7 \<mapsto> 70] \<and> root_expand_times t' \<le> Suc (root_expand_times (snd exact_db))"
  using nali_Put_inserts [OF exact.fp_keys_axioms exact_tree_ok int_keys_examples(1), of 70] by (simp add: exact_tree_map)

text \<open>
  C3. \<^verbatim>\<open>Nali::Get\<close> answers what the map of the tree holds, through the fast path of the predicted
  group or through \<^verbatim>\<open>find_group\<close>, and leaves the out argument alone for an absent key. (The build defines
  \<^verbatim>\<open>NDEBUG\<close>; without it the assertion of \<^verbatim>\<open>group::Get\<close> stops the program when a key is missing.)
\<close>

theorem nali_Get_lookup:
  assumes "tree_ok F K h t"
  shows "nali_Get F h t k v = Some (case tree_map h t k of None \<Rightarrow> (False, v) | Some w \<Rightarrow> (True, w))"
  by (rule nali_Get_correct [OF assms])

theorem nali_Get_lookup_witness:
  "nali_Get rat_fpu (fst exact_db) (snd exact_db) 7 1 = Some (False, 1) \<and>
   (\<exists>h t. nali_Put rat_fpu (fst exact_db) (snd exact_db) 7 70 = Some (OK, h, t) \<and> nali_Get rat_fpu h t 7 1 = Some (True, 70))"
proof (rule exact.nali_Put_correct [OF exact_tree_ok int_keys_examples(1), of 70])
  fix h t
  assume t: "nali_Put rat_fpu (fst exact_db) (snd exact_db) 7 70 = Some (OK, h, t)" "tree_ok rat_fpu int_keys h t"
    "tree_map h t = (tree_map (fst exact_db) (snd exact_db))(7 \<mapsto> 70)"
  then show ?thesis
    using nali_Get_lookup [OF exact_tree_ok, of 7 1] nali_Get_lookup [OF t(2), of 7 1] by (simp add: exact_tree_map)
qed (simp add: exact_tree_map)

text \<open>
  C4. \<^verbatim>\<open>Nali::Update\<close> replaces the value of a present key and hands out the old one; for an absent
  key it fails and changes nothing.
\<close>

theorem nali_Update_replaces:
  assumes "tree_ok F K h t"
  shows "\<exists>h'. tree_ok F K h' t \<and> (case tree_map h t k of
      None \<Rightarrow> nali_Update F h t k v old = Some (False, old, h) \<and> h' = h
    | Some w \<Rightarrow> nali_Update F h t k v old = Some (True, w, h') \<and> tree_map h' t = (tree_map h t)(k \<mapsto> v))"
  by (rule nali_Update_correct [OF assms, of k v old]) (use assms in auto)

theorem nali_Update_replaces_witness:
  "nali_Update rat_fpu (fst exact_db) (snd exact_db) 7 70 1 = Some (False, 1, fst exact_db)"
  using nali_Update_replaces [OF exact_tree_ok, of 7 70 1] by (simp add: exact_tree_map)

text \<open>
  C5. \<^verbatim>\<open>Nali::Delete\<close> removes a present key and hands out its value when the caller asks for it; for
  an absent key it fails and changes nothing.
\<close>

theorem nali_Delete_removes:
  assumes "tree_ok F K h t"
  shows "\<exists>h'. tree_ok F K h' t \<and> (case tree_map h t k of
      None \<Rightarrow> nali_Delete F h t k out = Some (False, out, h) \<and> h' = h
    | Some w \<Rightarrow> nali_Delete F h t k out = Some (True, set_out out w, h') \<and>
        tree_map h' t = (tree_map h t)(k := None))"
  by (rule nali_Delete_correct [OF assms, of k out]) (use assms in auto)

theorem nali_Delete_removes_witness:
  "nali_Delete rat_fpu (fst exact_db) (snd exact_db) 7 (Some 1) = Some (False, Some 1, fst exact_db)"
  using nali_Delete_removes [OF exact_tree_ok, of 7 "Some 1"] by (simp add: exact_tree_map)

text \<open>
  C6. \<^verbatim>\<open>Nali::ExpandTree\<close> redistributes the leaves of a tree with safe keys over new groups: the map stays
  the same, the invariant is kept, and every entry has one leaf afterwards, so that the next insertion fits.
\<close>

theorem ExpandTree_preserves:
  assumes "fp_keys F K" and "tree_ok F K h t"
  shows "tree_ok F K h (ExpandTree F h t) \<and> tree_map h (ExpandTree F h t) = tree_map h t \<and>
    (\<forall>g\<in>set (tgroups (ExpandTree F h t)). \<forall>e\<in>set (gents g). PointerBEntry_entries e = 1)"
  using fp_keys.ExpandTree_correct [OF assms] by blast

theorem ExpandTree_preserves_witness:
  "tree_ok rat_fpu int_keys (fst exact_db) (ExpandTree rat_fpu (fst exact_db) (snd exact_db)) \<and>
   tree_map (fst exact_db) (ExpandTree rat_fpu (fst exact_db) (snd exact_db)) = Map.empty"
  using ExpandTree_preserves [OF exact.fp_keys_axioms exact_tree_ok] by (simp add: exact_tree_map)

text \<open>
  C7. \<^verbatim>\<open>Nali::bulk_load\<close> of at least \<^verbatim>\<open>min_entry_count\<close> (64) pairs with strictly increasing, safe keys
  builds a well-formed tree that denotes exactly these pairs.
\<close>

theorem nali_bulk_load_builds:
  assumes "fp_keys F K" and "bheap_wf h" and "sorted_wrt (<) (map fst data)"
    and "min_entry_count \<le> length data" and "fst ` set data \<subseteq> K" and "\<not> is_tree_expand t"
  shows "\<exists>h' t'. nali_bulk_load F h t data = (h', t') \<and> tree_ok F K h' t' \<and> tree_map h' t' = map_of data"
proof -
  obtain h' t' where "nali_bulk_load F h t data = (h', t')" by fastforce
  with fp_keys.nali_bulk_load_correct [OF assms this] show ?thesis by blast
qed

theorem nali_bulk_load_builds_witness:
  "\<exists>h' t'. nali_bulk_load rat_fpu zero_heap (nali_new rat_fpu) (map (\<lambda>i. (word_of_nat i, 7)) [0..<64]) = (h', t') \<and>
     tree_ok rat_fpu int_keys h' t' \<and> tree_map h' t' = map_of (map (\<lambda>i. (word_of_nat i, 7)) [0..<64])"
  by (rule nali_bulk_load_builds [OF exact.fp_keys_axioms zero_heap_wf])
    (simp_all add: min_entry_count_def nali_new_def upt_rec int_keys_def)

text \<open>
  C8. The learned search finds what a plain search finds: whatever the model of the group predicts,
  \<^verbatim>\<open>find_entry\<close> returns the last entry whose key is at most \<open>k\<close>, or the first entry.
\<close>

theorem find_entry_exact:
  assumes "sorted (group_keys g)" and "nr_entries g \<le> length (entry_space g)" and "0 < nr_entries g"
  shows "group_find_entry F g k = slot (group_keys g) k"
  by (rule find_entry_slot [OF assms])

theorem find_entry_exact_witness:
  "\<exists>g. group_space (snd exact_db) = [g] \<and> group_find_entry rat_fpu g 7 = 0"
proof (rule exact_shape)
  fix g
  assume g: "group_space (snd exact_db) = [g]" "nr_entries g = 1" "entry_space g = [first_entry]"
  then have "group_keys g = [0]" by (simp add: group_keys_def PointerBEntry_entry_key_def first_entry_def get_entry_key_def)
  then show ?thesis using find_entry_exact [of g rat_fpu 7] g by (simp add: slot_def upper_bound_def)
qed

section \<open>Iteration and scans\<close>

text \<open>
  C9. \<^verbatim>\<open>Nali::Iter\<close> over a tree without empty leaves visits every pair of the map exactly once, in the order
  of the keys, and then ends.
\<close>

theorem nali_Iter_in_order:
  assumes "tree_ok F K h t" and "\<forall>g\<in>set (tgroups t). group_filled h g"
  shows "\<exists>xs. yields (nali_Iter_next h t) titem (nali_Iter_new h t raw) xs \<and> sorted_wrt (<) (map fst xs) \<and>
    set xs = {(k, v). tree_map h t k = Some v}"
  by (rule nali_Iter_correct [OF assms])

theorem nali_Iter_in_order_witness:
  "\<exists>h t xs. nali_Put rat_fpu (fst exact_db) (snd exact_db) 7 70 = Some (OK, h, t) \<and>
     (\<forall>raw. yields (nali_Iter_next h t) titem (nali_Iter_new h t raw) [(7, 70)])"
proof (rule exact_put_shape [of 70])
  fix h t g
  assume t: "nali_Put rat_fpu (fst exact_db) (snd exact_db) 7 70 = Some (OK, h, t)" "group_space t = [g]" "nr_entries g = 1"
    "entry_space g = [first_entry]" "entries (store h 0) = 1" "group_filled h g"
  have ok: "tree_ok rat_fpu int_keys h t \<and> tree_map h t = [7 \<mapsto> 70]"
    by (rule exact.nali_Put_correct [OF exact_tree_ok int_keys_examples(1), of 70]) (use t(1) exact_tree_map in auto)
  have filled: "\<forall>g\<in>set (tgroups t). group_filled h g" using t(2,6) by (simp add: tgroups_def)
  have graph: "{(k, v). tree_map h t k = Some v} = {(7, 70)}" using ok by (auto split: if_splits)
  have "yields (nali_Iter_next h t) titem (nali_Iter_new h t raw) [(7, 70)]" for raw
  proof -
    obtain xs where xs: "yields (nali_Iter_next h t) titem (nali_Iter_new h t raw) xs" "sorted_wrt (<) (map fst xs)" "set xs = {(7, 70)}"
      using nali_Iter_in_order [OF conjunct1 [OF ok] filled, of raw] graph by auto
    have "distinct xs" using xs(2) by (metis distinct_map strict_sorted_iff)
    then have "length xs = 1" using xs(3) distinct_card [of xs] by simp
    then have "xs = [(7, 70)]" using xs(3) by (cases xs) auto
    then show ?thesis using xs(1) by simp
  qed
  then show ?thesis using t(1) by blast
qed

text \<open>
  C40. The loop of \<^verbatim>\<open>PointerBEntry::Scan\<close> never moves to the next leaf: with an empty second leaf, a scan that
  the leaf of its start key cannot satisfy does not end, whatever fuel it is given.
\<close>

theorem scan_never_ends:
  assumes "bentry_wf h e" and "1 < PointerBEntry_entries e" and "entries (leaf_at h e 1) = 0"
    and "int (entries (leaf_at h e (PointerBEntry_Find_pos e k))) < len"
  shows "PointerBEntry_Scan h e fuel k (len, res) False = None"
  by (rule entry_scan_diverges [OF assms])

text \<open>An entry with two empty leaves.\<close>

definition two_leaf_heap :: bheap where
  "two_leaf_heap = zero_heap\<lparr>store := (\<lambda>p. UnSortBuncket (store zero_heap p)), next_free := 2\<rparr>"

definition two_leaf_entry :: PointerBEntry where
  "two_leaf_entry = \<lparr>entrys = (\<lambda>_. zero_eentry)
     (0 := \<lparr>entry_key = 0, pointer = 0, prefix_bytes = 8, suffix_bytes = 0, buf_entries = 2\<rparr>,
      1 := \<lparr>entry_key = 5, pointer = 1, prefix_bytes = 0, suffix_bytes = 8, buf_entries = 0\<rparr>)\<rparr>"

lemma two_leaf_simps: "PointerBEntry_entries two_leaf_entry = 2" "entries (store two_leaf_heap p) = 0"
  by (simp_all add: two_leaf_entry_def PointerBEntry_entries_def two_leaf_heap_def UnSortBuncket_def)

lemma two_leaf_wf: "bentry_wf two_leaf_heap two_leaf_entry"
proof -
  have es: "PointerBEntry_EntryIter two_leaf_entry = map (entrys two_leaf_entry) [0, 1]"
    by (simp add: EntryIter_eq two_leaf_simps upt_rec)
  have "buncket_wf (store two_leaf_heap p)" for p
    by (simp add: two_leaf_heap_def buncket_wf_def UnSortBuncket_def zero_heap_def kvs_def live_def buf_size_def max_entry_count_param_def)
  then show ?thesis
    by (simp add: bentry_wf_def two_leaf_simps pb_entry_count_def es bptrs_def)
      (simp add: two_leaf_entry_def eentry_IsValid_def eentry_meta_def two_leaf_heap_def)
qed

theorem scan_never_ends_witness: "PointerBEntry_Scan two_leaf_heap two_leaf_entry 1000 3 (10, []) False = None"
  by (rule scan_never_ends [OF two_leaf_wf]) (simp_all add: two_leaf_simps leaf_at_def)

section \<open>The value log\<close>

text \<open>
  C21. A log position survives packing into 64 bits, and every 64-bit word is the packing of the
  position that it unpacks to.
\<close>

theorem log_position_roundtrip:
  "of_addr_info (to_uint64_t_offset i) = i \<and> to_uint64_t_offset (of_addr_info w) = w"
  by (simp add: of_addr_info_packed packed_of_addr_info)

text \<open>
  A record that \<^verbatim>\<open>store_persist\<close> wrote is read back unchanged, with the 2-bit operation and the
  62-bit version in one word.
\<close>

theorem log_record_roundtrip: "load_pair (store_persist p m a) a = p"
  by (rule load_store_persist)

text \<open>
  C17. \<^verbatim>\<open>LogKV::insert\<close> with room in the page or for another page appends: the position is new, an
  \<^verbatim>\<open>INSERT\<close> record with the next version of the shard is there, and every issued record keeps its
  contents.
\<close>

theorem LogKV_insert_appends:
  assumes "log_wf shards s" and "has_room mapped shards s thread hash_key"
  shows "\<exists>s' w. LogKV_insert mapped shards s thread raw raw_info key payload hash_key = Inr (s', w) \<and>
    log_wf shards s' \<and> log_extends shards s s' \<and> \<not> log_live shards s hash_key w \<and> log_live shards s' hash_key w \<and>
    log_pair shards s' hash_key w = insert_record shards s hash_key key payload"
  by (rule LogKV_insert_ok [OF assms, of raw raw_info key payload]) (auto simp: appended_def)

text \<open>A new log of one shard.\<close>

lemma one_shard_log:
  obtains s where "LogKV_new (\<lambda>_. True) 1 False = Inr s" and "log_wf 1 s" and "\<And>thread k. has_room (\<lambda>_. True) 1 s thread k"
  by (rule LogKV_new_ok [of 1 "\<lambda>_. True"]) (auto simp: max_shards_def)

theorem LogKV_insert_appends_witness:
  "\<exists>s s' w. LogKV_new (\<lambda>_. True) 1 False = Inr s \<and>
     LogKV_insert (\<lambda>_. True) 1 s 0 (load_pair (\<lambda>_. 0) 0) (of_addr_info 0) 7 70 9 = Inr (s', w) \<and>
     pair_value (log_pair 1 s' 9 w) = 70"
proof (rule one_shard_log)
  fix s
  assume s: "LogKV_new (\<lambda>_. True) 1 False = Inr s" "log_wf 1 s" and room: "\<And>thread k. has_room (\<lambda>_. True) 1 s thread k"
  from LogKV_insert_appends [OF s(2) room, where thread = 0 and hash_key = 9 and raw = "load_pair (\<lambda>_. 0) 0"
      and raw_info = "of_addr_info 0" and key = 7 and payload = 70] s(1) show ?thesis
    by (auto simp: insert_record_def)
qed

text \<open>
  C39. A full page with number 31 cannot be followed: the next record of the shard makes
  \<^verbatim>\<open>alloc_new_ppage\<close> write behind the page table, which has 32 entries.
\<close>

theorem log_page_overflow:
  assumes "log_wf shards s" and "numa < numa_node_num" and "hash_id < shards" and "cur_page s numa hash_id = 31"
    and "PPAGE_SIZE < sz_allocated (ppages s numa hash_id) + alloc_size" and "mapped (numa, hash_id, 32)"
  shows "PPage_alloc mapped s numa hash_id log_info alloc_size = Inl OutOfBounds"
  by (rule PPage_alloc_overflow [where mapped = mapped, OF assms])

definition full_log :: logkv where
  "full_log = \<lparr>start_addr_arr = (\<lambda>n h p. if n < 2 \<and> h = 0 \<and> p = 31 then Some n else None), freed_arr = (\<lambda>_ _ _. 0),
     ppages = (\<lambda>n h. \<lparr>pp_numa_id = n, pp_hash_id = h, pp_ppage_id = 31, sz_allocated = PPAGE_SIZE, sz_freed = 0,
       start_addr = Some n\<rparr>), versions = (\<lambda>_. 0), pmem = (\<lambda>_ _. 0), next_map = 2, files = []\<rparr>"

lemma full_log_wf: "log_wf 1 full_log"
  by (auto simp: log_wf_def blocks_wf_def shard_wf_def full_log_def max_shards_def numa_node_num_def MAX_LOF_FILE_ID_def
      split: if_splits)

theorem log_page_overflow_witness: "PPage_alloc (\<lambda>_. True) full_log 0 0 (of_addr_info 0) 32 = Inl OutOfBounds"
  using log_page_overflow [OF full_log_wf, of 0 0 32 "\<lambda>_. True" "of_addr_info 0"]
  by (simp add: full_log_def numa_node_num_def)

section \<open>Recovery of the log\<close>

text \<open>
  C20. The numbers of a shard and of a page are read back from the path of their log file.
\<close>

theorem file_name_roundtrip:
  assumes "numa < numa_node_num" and "hash_id < max_shards" and "page < MAX_LOF_FILE_ID"
  shows "parse_name (file_name numa hash_id page) = Some (int hash_id, int page)"
  by (rule file_name_parses [OF assms])

theorem file_name_roundtrip_witness: "parse_name (file_name 1 255 31) = Some (255, 31)"
  using file_name_roundtrip [of 1 255 31] by (simp add: numa_node_num_def max_shards_def MAX_LOF_FILE_ID_def)



section \<open>The read cache\<close>

text \<open>
  C22. \<^verbatim>\<open>clht_get\<close> of a non-zero key answers what the table maps it to, and 0 for an absent key.
\<close>

theorem clht_get_lookup:
  assumes "ht_ok h" and "k \<noteq> 0"
  shows "clht_get h k = (case ht_map h k of None \<Rightarrow> 0 | Some v \<Rightarrow> v)"
  by (rule clht_get_correct [OF assms])

text \<open>A new table of eight buckets.\<close>

definition small_table :: clht_hashtable_t where
  "small_table = the (clht_hashtable_create (\<lambda>_. True) 8)"

lemma small_table: "clht_hashtable_create (\<lambda>_. True) 8 = Some small_table"
  by (simp add: small_table_def clht_hashtable_create_def Let_def)

lemmas small_table_ok = create_ok [OF small_table]

definition small_clht :: clht_t where
  "small_clht = \<lparr>ht = small_table, olds = [], resize_lock = 0, status_lock = 0\<rparr>"

lemma small_clht_ok: "clht_ok small_clht" "ht_map (ht small_clht) = Map.empty"
  using small_table_ok by (simp_all add: small_clht_def clht_ok_def seq_ok_def)

lemma small_table_size: "clht_size small_table = 0"
  using small_table_ok by (simp add: clht_size_card seq_ok_def)

lemma small_clht_room: "num_expands (ht small_clht) + 1 \<noteq> num_expands_threshold (ht small_clht)"
  by (simp add: small_clht_def small_table_def clht_hashtable_create_def CLHT_PERC_EXPANSIONS_def Let_def)

lemma small_put:
  obtains h' where "clht_put 0 rat_fpu (\<lambda>_. True) [0, 0, 0] None small_clht 7 70 = Inr (True, h')" and "clht_ok h'"
    and "ht_map (ht h') = [7 \<mapsto> 70]"
  by (rule clht_put_room [where fuel = 0 and F = rat_fpu and avail = "\<lambda>_. True" and ts = None and v = 70 and k = 7 and junk = "[0, 0, 0]",
        OF small_clht_ok(1) _ _ _ small_clht_room]) (use small_clht_ok(2) in \<open>simp_all add: ENTRIES_PER_BUCKET_def\<close>)

theorem clht_get_lookup_witness: "clht_get small_table 7 = 0"
  using clht_get_lookup [of small_table 7] small_table_ok by (simp add: seq_ok_def)

text \<open>
  C23. \<^verbatim>\<open>clht_put\<close> of an absent non-zero key returns true and adds the pair, when it does not link the bucket
  that makes the table resize (which it would hand over to \<^verbatim>\<open>ht_status\<close>); every other pair stays. This
  holds for any thread, registered with \<^verbatim>\<open>clht_gc_thread_init\<close> or not.
\<close>

theorem clht_put_inserts:
  assumes "clht_ok h" and "k \<noteq> 0" and "ht_map (ht h) k = None" and "length junk = ENTRIES_PER_BUCKET"
    and "num_expands (ht h) + 1 \<noteq> num_expands_threshold (ht h)"
  shows "\<exists>h'. clht_put fuel F avail junk ts h k v = Inr (True, h') \<and> clht_ok h' \<and>
    ht_map (ht h') = (ht_map (ht h))(k \<mapsto> v)"
  by (rule clht_put_room [where fuel = fuel and F = F and avail = avail and ts = ts and v = v, OF assms(1,2,4,3,5)]) blast

theorem clht_put_inserts_witness:
  "\<exists>h'. clht_put 0 rat_fpu (\<lambda>_. True) [0, 0, 0] None small_clht 7 70 = Inr (True, h') \<and> ht_map (ht h') = [7 \<mapsto> 70]"
  using clht_put_inserts [OF small_clht_ok(1), of 7 "[0, 0, 0]" 0 rat_fpu "\<lambda>_. True" None 70] small_clht_ok(2) small_clht_room
  by (auto simp: ENTRIES_PER_BUCKET_def)

text \<open>
  \<^verbatim>\<open>clht_put\<close> of a present key returns false and changes nothing, the old value included.
\<close>

theorem clht_put_keeps:
  assumes "clht_ok h" and "k \<noteq> 0" and "ht_map (ht h) k = Some w"
  shows "clht_put fuel F avail junk ts h k v = Inr (False, h)"
  by (rule clht_put_present) (use assms in simp_all)

theorem clht_put_keeps_witness:
  "\<exists>h'. ht_map (ht h') 7 = Some 70 \<and> clht_put 0 rat_fpu (\<lambda>_. True) [] None h' 7 71 = Inr (False, h')"
proof (rule small_put)
  fix h' assume "clht_ok h'" and "ht_map (ht h') = [7 \<mapsto> 70]"
  with clht_put_keeps [of h' 7 70 0 rat_fpu "\<lambda>_. True" "[]" None 71] show ?thesis
    by (intro exI [of _ h']) simp
qed

text \<open>
  C24. \<^verbatim>\<open>clht_remove\<close> removes the key and returns its value, 0 for an absent key.
\<close>

theorem clht_remove_removes:
  assumes "clht_ok h" and "k \<noteq> 0"
  shows "\<exists>h'. clht_remove h k = Inr (case ht_map (ht h) k of None \<Rightarrow> 0 | Some v \<Rightarrow> v, h') \<and> clht_ok h' \<and>
    ht_map (ht h') = (ht_map (ht h))(k := None)"
  by (rule clht_remove_correct [OF assms]) blast

theorem clht_remove_removes_witness: "\<exists>h'. clht_remove small_clht 7 = Inr (0, h') \<and> ht_map (ht h') = Map.empty"
  using clht_remove_removes [OF small_clht_ok(1), of 7] small_clht_ok(2) by auto

text \<open>
  C25. \<^verbatim>\<open>ht_resize_pes\<close>, growing or shrinking, copies every pair into the new table, keeps the map, and
  needs no second resize when the new table has more slots than pairs. This is for a thread that was
  registered with \<^verbatim>\<open>clht_gc_thread_init\<close> (\<open>Some i\<close>), which the program does for none, and a table of less
  than \<open>2 ^ 31\<close> buckets, which the 32-bit index of the copying loop can count.
\<close>

theorem ht_resize_preserves:
  assumes "clht_ok h" and "num_buckets (ht h) < 2 ^ 31" and "length junk = ENTRIES_PER_BUCKET"
    and "new_size_fits avail (clht_size (ht h)) (resize_buckets (ht h) is_increase fac)"
  shows "\<exists>h'. ht_resize_pes (Suc fuel) F avail junk (Some i) h is_increase fac = Inr (True, h') \<and> clht_ok h' \<and>
    ht_map (ht h') = ht_map (ht h) \<and> num_buckets (ht h') = resize_buckets (ht h) is_increase fac"
  by (rule ht_resize_pes_correct [OF _ _ assms(2) _ assms(3,4), of fuel F i])
    (use assms(1) in \<open>auto simp: clht_ok_def seq_ok_def\<close>)

theorem ht_resize_preserves_witness:
  "\<exists>h'. ht_resize_pes 1 rat_fpu (\<lambda>_. True) [0, 0, 0] (Some 0) small_clht True 2 = Inr (True, h') \<and>
     ht_map (ht h') = Map.empty \<and> num_buckets (ht h') = 16"
  using ht_resize_preserves [OF small_clht_ok(1), of "[0, 0, 0]" "\<lambda>_. True" True 2 0 rat_fpu 0]
    small_clht_ok(2) small_table_size small_table_ok(3)
  by (auto simp: ENTRIES_PER_BUCKET_def small_clht_def new_size_fits_def resize_buckets_def)

text \<open>
  C15. A resize of the table by a thread that was not registered with \<^verbatim>\<open>clht_gc_thread_init\<close> copies the table
  and then dereferences a null pointer in \<^verbatim>\<open>clht_gc_get_id\<close>. (The function has no caller in the program, so that
  this is every thread.)
\<close>

theorem ht_resize_needs_init:
  assumes "clht_ok h" and "num_buckets (ht h) < 2 ^ 31" and "length junk = ENTRIES_PER_BUCKET"
    and "resize_buckets (ht h) is_increase fac \<noteq> 0" and "avail (resize_buckets (ht h) is_increase fac)"
  shows "ht_resize_pes (Suc fuel) F avail junk None h is_increase fac = Inl NullPointer"
  by (rule resize_table_correct [where avail = avail and junk = junk and n = "resize_buckets (ht h) is_increase fac" and h = "ht h"])
    (use assms in \<open>auto simp: clht_ok_def clht_gc_get_id_def\<close>)

theorem ht_resize_needs_init_witness:
  "ht_resize_pes 1 rat_fpu (\<lambda>_. True) [0, 0, 0] None small_clht True 2 = Inl NullPointer"
  using ht_resize_needs_init [OF small_clht_ok(1), of "[0, 0, 0]" True 2 "\<lambda>_. True" 0 rat_fpu] small_table_ok(3)
  by (simp add: ENTRIES_PER_BUCKET_def small_clht_def resize_buckets_def)

text \<open>
  \<^verbatim>\<open>clht_size\<close> counts the keys of the map.
\<close>

theorem clht_size_counts:
  assumes "ht_ok h"
  shows "clht_size h = card (dom (ht_map h))"
  by (rule clht_size_card [OF assms])

theorem clht_size_counts_witness: "clht_size small_table = 0"
  using clht_size_counts [of small_table] small_table_ok by (simp add: seq_ok_def)

text \<open>
  \<^verbatim>\<open>pow2roundup\<close> returns the least power of two that is not below its argument, for arguments from
  2 to the largest power of two of 64 bits.
\<close>

theorem pow2roundup_least:
  assumes "1 < x" and "x \<le> 2 ^ 63"
  shows "\<exists>n. unat (pow2roundup x) = 2 ^ Suc n \<and> 2 ^ n < unat x \<and> unat x \<le> 2 ^ Suc n"
  using pow2roundup_power [OF assms] by blast

theorem pow2roundup_least_witness: "\<exists>n. unat (pow2roundup 5) = 2 ^ Suc n \<and> 2 ^ n < (5 :: nat) \<and> (5 :: nat) \<le> 2 ^ Suc n"
  using pow2roundup_least [of 5] by simp

section \<open>The log database over the learned index\<close>

text \<open>An environment with exact arithmetic and one shard, and a new database in it.\<close>

definition exact_env :: "(rat, rat) env" where
  "exact_env = \<lparr>xxh3 = (\<lambda>k. k), e_mapped = (\<lambda>_. True), e_shards = 1, global_thread_id = 0, e_raw_pair = load_pair (\<lambda>_. 0) 0,
     e_raw_info = of_addr_info 0, e_fpu = rat_fpu, e_avail = (\<lambda>_. True), e_junk = [0, 0, 0], e_ts = None, e_depth = 2\<rparr>"

lemma exact_logdb:
  obtains S where "logdb_new exact_env exact_db 8 = Inr S" and "logdb_ok (nalidb_ok rat_fpu int_keys) nalidb_map exact_env S"
    and "coherent nalidb_map exact_env S" and "logdb_map nalidb_map exact_env S = Map.empty"
    and "\<And>k. log_room exact_env S k" and "cache_room exact_env (clht_cache S)"
    and "sz_allocated (ppages (log_kv S) 0 0) = 0"
proof (rule logdb_new_ok [of exact_env 8 "nalidb_ok rat_fpu int_keys" exact_db nalidb_map])
  fix S
  assume S: "logdb_new exact_env exact_db 8 = Inr S" "logdb_ok (nalidb_ok rat_fpu int_keys) nalidb_map exact_env S"
    "coherent nalidb_map exact_env S" "logdb_map nalidb_map exact_env S = Map.empty" "\<And>k. log_room exact_env S k"
    and sz: "\<And>thread hash_key. sz_allocated (ppages (log_kv S) (get_numa_id thread) (unat (hash_key :: u64) mod e_shards exact_env)) = 0"
    and ex: "num_expands (ht (clht_cache S)) = 0"
  obtain c where c: "clht_hashtable_create (e_avail exact_env) 8 = Some c" "ht (clht_cache S) = c"
    using S(1) by (auto simp: logdb_new_def clht_create_def split: sum.splits option.splits)
  have "num_expands_threshold c = 8"
    using c(1) by (auto simp: clht_hashtable_create_def CLHT_PERC_EXPANSIONS_def Let_def split: if_splits)
  then have "num_expands_threshold (ht (clht_cache S)) = 8" using c(2) by simp
  then have "cache_room exact_env (clht_cache S)"
    using ex by (simp add: cache_room_def exact_env_def ENTRIES_PER_BUCKET_def)
  moreover have "sz_allocated (ppages (log_kv S) 0 0) = 0" using sz [of 0 0] by (simp add: exact_env_def get_numa_id_def)
  ultimately show thesis using that S by blast
qed (simp_all add: exact_env_def max_shards_def exact_db_ok)

text \<open>A database with one pair, as a run of a new one.\<close>

lemma exact_inserted:
  obtains S0 S where "logdb_new exact_env exact_db 8 = Inr S0" and "(logdb_step exact_env (nalidb_ops rat_fpu) int_keys)\<^sup>*\<^sup>* S0 S"
    and "logdb_ok (nalidb_ok rat_fpu int_keys) nalidb_map exact_env S" and "gc_inv nalidb_map exact_env S"
    and "logdb_map nalidb_map exact_env S = [7 \<mapsto> 70]" and "page_fill exact_env S 7 = pair_size"
    and "tree_filled (fst (db S)) (snd (db S))" and "coherent nalidb_map exact_env S" and "cache_room exact_env (clht_cache S)"
proof (rule exact_logdb)
  fix S
  assume S: "logdb_new exact_env exact_db 8 = Inr S" "logdb_ok (nalidb_ok rat_fpu int_keys) nalidb_map exact_env S"
    "logdb_map nalidb_map exact_env S = Map.empty" "\<And>k. log_room exact_env S k" "sz_allocated (ppages (log_kv S) 0 0) = 0"
    "coherent nalidb_map exact_env S" "cache_room exact_env (clht_cache S)"
  have d: "nalidb_ok rat_fpu int_keys (db S)" "nalidb_map (db S) 7 = None" and wf: "log_wf (e_shards exact_env) (log_kv S)"
    using S(2) fun_cong [OF S(3), of 7] by (simp_all add: logdb_ok_def logdb_map_def log_map_None)
  obtain S1 where ins: "logdb_insert exact_env (nalidb_ops rat_fpu) S 7 70 = Inr (False, S1)"
    "logdb_ok (nalidb_ok rat_fpu int_keys) nalidb_map exact_env S1" "logdb_map nalidb_map exact_env S1 = [7 \<mapsto> 70]" "coherent nalidb_map exact_env S1"
    by (rule tree_index.logdb_insert_correct [OF exact.is_tree_index S(2) S(4) int_keys_examples(1), of 70]) (use S(3,6) in auto)
  have cache: "clht_cache S1 = clht_cache S" using ins(1) by (auto simp: logdb_insert_def Let_def split: sum.splits option.splits)
  have "t_search (nalidb_ops rat_fpu) (db S) 7 0 = Some (False, 0)"
    using tree_index.search_law [OF exact.is_tree_index d(1), of 7 0] d(2) by simp
  then have step: "logdb_step exact_env (nalidb_ops rat_fpu) int_keys S S1" using S(4) ins(1) by (rule logdb_step.insert_step [OF int_keys_examples(1)])
  have "gc_inv nalidb_map exact_env S"
    by (rule logdb_new_gc_inv [where tmap = nalidb_map, OF _ _ _ S(1)]) (simp_all add: exact_env_def max_shards_def exact_db_ok)
  then have "gc_inv nalidb_map exact_env S1" using tree_index.logdb_step_inv [OF exact.is_tree_index step S(2)] by simp
  moreover have "page_fill exact_env S 7 = 0" using S(5) by (simp add: exact_env_def get_numa_id_def)
  then have "page_fill exact_env S1 7 = pair_size" using logdb_insert_fill [OF wf _ ins(1)] by (simp add: pair_size_def PPAGE_SIZE_def)
  moreover have "tree_filled (fst (db S1)) (snd (db S1))"
  proof -
    obtain w b' d where d: "t_insert (nalidb_ops rat_fpu) (db S) 7 w = Some (b', d)" "db S1 = d"
      using ins(1) by (auto simp: logdb_insert_def Let_def split: sum.splits option.splits)
    have "db S = exact_db" using S(1) by (auto simp: logdb_new_def split: sum.splits option.splits)
    moreover obtain h t g where t: "nali_Put rat_fpu (fst exact_db) (snd exact_db) 7 w = Some (OK, h, t)" "group_space t = [g]" "nr_entries g = 1" "group_filled h g"
      by (rule exact_put_shape [of w]) blast
    ultimately have "d = (h, t)" using d(1) by (simp add: nalidb_ops_def nalidb_insert_def)
    then show ?thesis using t d(2) by (simp add: tree_filled_def tgroups_def)
  qed
  ultimately show thesis using that [OF S(1) r_into_rtranclp [of "logdb_step exact_env (nalidb_ops rat_fpu) int_keys", OF step] ins(2)] ins(3,4) S(7) cache by simp
qed

text \<open>
  C10. \<^verbatim>\<open>logdb::insert\<close> of an absent key that is safe for the index, with room in the log, returns false (the
  answer of \<^verbatim>\<open>nalidb::insert\<close>); the database then maps the key to the payload, and a coherent cache stays coherent.
\<close>

theorem logdb_insert_inserts:
  assumes "fp_keys F K" and "logdb_ok (nalidb_ok F K) nalidb_map E S" and "log_room E S k" and "k \<in> K"
    and "logdb_map nalidb_map E S k = None" and "coherent nalidb_map E S"
  shows "\<exists>S'. logdb_insert E (nalidb_ops F) S k v = Inr (False, S') \<and> logdb_ok (nalidb_ok F K) nalidb_map E S' \<and>
    logdb_map nalidb_map E S' = (logdb_map nalidb_map E S)(k \<mapsto> v) \<and> coherent nalidb_map E S'"
  by (rule tree_index.logdb_insert_correct [OF fp_keys.is_tree_index [OF assms(1)] assms(2-5), of v]) (use assms(6) in blast)

theorem logdb_insert_inserts_witness:
  "\<exists>S S'. logdb_new exact_env exact_db 8 = Inr S \<and> logdb_insert exact_env (nalidb_ops rat_fpu) S 7 70 = Inr (False, S') \<and>
     logdb_map nalidb_map exact_env S' = [7 \<mapsto> 70]"
proof (rule exact_logdb)
  fix S
  assume S: "logdb_new exact_env exact_db 8 = Inr S" "logdb_ok (nalidb_ok rat_fpu int_keys) nalidb_map exact_env S"
    "coherent nalidb_map exact_env S" "logdb_map nalidb_map exact_env S = Map.empty" "\<And>k. log_room exact_env S k"
  from logdb_insert_inserts [OF exact.fp_keys_axioms S(2) S(5) int_keys_examples(1), of 70] S(1,3,4) show ?thesis by auto
qed

text \<open>
  C11. While the cache is coherent (which an update or a removal of a cached key destroys), \<^verbatim>\<open>logdb::search\<close> of a
  non-zero key answers what the database maps the key to, whether the value comes from the cache or from
  the log; the database and the coherence stay. The insertion into the cache must not trigger a resize.
  The answer for an absent key is that of a build with \<^verbatim>\<open>NDEBUG\<close>, as the repository has it.
\<close>

theorem logdb_search_lookup:
  assumes "fp_keys F K" and "logdb_ok (nalidb_ok F K) nalidb_map E S" and "coherent nalidb_map E S" and "k \<noteq> 0"
    and "cache_room E (clht_cache S)"
  shows "\<exists>S'. logdb_search E (nalidb_ops F) S k =
      Inr (case logdb_map nalidb_map E S k of None \<Rightarrow> (False, 0, S') | Some v \<Rightarrow> (True, v, S')) \<and>
    logdb_ok (nalidb_ok F K) nalidb_map E S' \<and> coherent nalidb_map E S' \<and> logdb_map nalidb_map E S' = logdb_map nalidb_map E S"
  by (rule tree_index.logdb_search_correct [OF fp_keys.is_tree_index [OF assms(1)] assms(2-5)]) blast

theorem logdb_search_lookup_witness:
  "\<exists>S S0 S1. logdb_map nalidb_map exact_env S = [7 \<mapsto> 70] \<and> logdb_search exact_env (nalidb_ops rat_fpu) S 7 = Inr (True, 70, S1) \<and>
     logdb_search exact_env (nalidb_ops rat_fpu) S 5 = Inr (False, 0, S0)"
proof (rule exact_inserted)
  fix S
  assume S: "logdb_ok (nalidb_ok rat_fpu int_keys) nalidb_map exact_env S" "logdb_map nalidb_map exact_env S = [7 \<mapsto> 70]"
    "coherent nalidb_map exact_env S" "cache_room exact_env (clht_cache S)"
  note search = logdb_search_lookup [OF exact.fp_keys_axioms S(1,3) _ S(4)]
  show ?thesis using search [of 7] search [of 5] S(2) by auto
qed

text \<open>
  C12. \<^verbatim>\<open>logdb::update\<close> of a present key appends an \<^verbatim>\<open>UPDATE\<close> record at a new position, with the new value, the
  next version of the shard and the position of the record before it, and points the index at it; the
  records issued before stay as they are. For an absent key it reserves the record only, returns false and
  leaves the map as it is.
\<close>

theorem logdb_update_replaces:
  assumes "fp_keys F K" and "logdb_ok (nalidb_ok F K) nalidb_map E S" and "log_room E S k"
  shows "\<exists>S' w. logdb_ok (nalidb_ok F K) nalidb_map E S' \<and> log_extends (e_shards E) (log_kv S) (log_kv S') \<and>
    (case nalidb_map (db S) k of
      None \<Rightarrow> logdb_update E (nalidb_ops F) S raw k v = Inr (False, S') \<and> logdb_map nalidb_map E S' = logdb_map nalidb_map E S
    | Some w0 \<Rightarrow> logdb_update E (nalidb_ops F) S raw k v = Inr (True, S') \<and>
        logdb_map nalidb_map E S' = (logdb_map nalidb_map E S)(k \<mapsto> v) \<and> nalidb_map (db S') k = Some w \<and>
        \<not> log_live (e_shards E) (log_kv S) (xxh3 E k) w \<and> log_live (e_shards E) (log_kv S') (xxh3 E k) w \<and>
        log_pair (e_shards E) (log_kv S') (xxh3 E k) w = update_record (e_shards E) (log_kv S) (xxh3 E k) k v w0)"
proof (cases "logdb_map nalidb_map E S k")
  case None
  have wf: "log_wf (e_shards E) (log_kv S)" using assms(2) by (simp add: logdb_ok_def)
  show ?thesis
    by (rule tree_index.logdb_update_absent [OF fp_keys.is_tree_index [OF assms(1)] assms(2,3) None, of raw v])
      (use None logdb_update_extends [OF wf assms(3)] in \<open>auto simp: logdb_map_def log_map_None\<close>)
next
  case (Some v0)
  show ?thesis
    by (rule tree_index.logdb_update_correct [OF fp_keys.is_tree_index [OF assms(1)] assms(2,3) Some, of raw v])
      (auto simp: appended_def)
qed

theorem logdb_update_replaces_witness:
  "\<exists>S S' w0 w. logdb_map nalidb_map exact_env S = [7 \<mapsto> 70] \<and> nalidb_map (db S) 7 = Some w0 \<and>
     logdb_update exact_env (nalidb_ops rat_fpu) S 0 7 71 = Inr (True, S') \<and> logdb_map nalidb_map exact_env S' = [7 \<mapsto> 71] \<and>
     nalidb_map (db S') 7 = Some w \<and> log_pair 1 (log_kv S') 7 w = update_record 1 (log_kv S) 7 7 71 w0"
proof (rule exact_inserted)
  fix S
  assume S: "logdb_ok (nalidb_ok rat_fpu int_keys) nalidb_map exact_env S" "logdb_map nalidb_map exact_env S = [7 \<mapsto> 70]"
    "page_fill exact_env S 7 = pair_size"
  obtain w0 where w0: "nalidb_map (db S) 7 = Some w0" using fun_cong [OF S(2), of 7] by (auto simp: logdb_map_def log_map_def)
  have room: "log_room exact_env S 7" using S(3) by (simp add: has_room_def pair_size_def PPAGE_SIZE_def)
  have env: "xxh3 exact_env 7 = 7" "e_shards exact_env = 1" by (simp_all add: exact_env_def)
  show ?thesis using logdb_update_replaces [OF exact.fp_keys_axioms S(1) room, of 0 71] w0 S(2) by (auto simp: env)
qed

text \<open>
  C13. \<^verbatim>\<open>logdb::erase\<close> removes the key from the database and returns whether it was present. It appends a
  \<^verbatim>\<open>DELETE\<close> record at a new position, with the next version of the shard and the position that the index
  had for the key (0 for an absent key); the records issued before stay as they are.
\<close>

theorem logdb_erase_removes:
  assumes "fp_keys F K" and "logdb_ok (nalidb_ok F K) nalidb_map E S" and "log_room E S k"
  shows "\<exists>S' w. logdb_erase E (nalidb_ops F) S raw k = Inr (logdb_map nalidb_map E S k \<noteq> None, S') \<and>
    logdb_ok (nalidb_ok F K) nalidb_map E S' \<and> logdb_map nalidb_map E S' = (logdb_map nalidb_map E S)(k := None) \<and>
    log_extends (e_shards E) (log_kv S) (log_kv S') \<and>
    \<not> log_live (e_shards E) (log_kv S) (xxh3 E k) w \<and> log_live (e_shards E) (log_kv S') (xxh3 E k) w \<and>
    log_pair (e_shards E) (log_kv S') (xxh3 E k) w = erase_record (e_raw_pair E) (e_shards E) (log_kv S) (xxh3 E k) k
      (case nalidb_map (db S) k of None \<Rightarrow> 0 | Some w0 \<Rightarrow> w0)"
  by (rule tree_index.logdb_erase_correct [OF fp_keys.is_tree_index [OF assms(1)] assms(2,3), of raw]) (auto simp: appended_def)

theorem logdb_erase_removes_witness:
  "\<exists>S S' w0 w. logdb_map nalidb_map exact_env S = [7 \<mapsto> 70] \<and> nalidb_map (db S) 7 = Some w0 \<and>
     logdb_erase exact_env (nalidb_ops rat_fpu) S 0 7 = Inr (True, S') \<and> logdb_map nalidb_map exact_env S' = Map.empty \<and>
     log_pair 1 (log_kv S') 7 w = erase_record (load_pair (\<lambda>_. 0) 0) 1 (log_kv S) 7 7 w0"
proof (rule exact_inserted)
  fix S
  assume S: "logdb_ok (nalidb_ok rat_fpu int_keys) nalidb_map exact_env S" "logdb_map nalidb_map exact_env S = [7 \<mapsto> 70]"
    "page_fill exact_env S 7 = pair_size"
  obtain w0 where w0: "nalidb_map (db S) 7 = Some w0" using fun_cong [OF S(2), of 7] by (auto simp: logdb_map_def log_map_def)
  have room: "log_room exact_env S 7" using S(3) by (simp add: has_room_def pair_size_def PPAGE_SIZE_def)
  have env: "xxh3 exact_env 7 = 7" "e_shards exact_env = 1" "e_raw_pair exact_env = load_pair (\<lambda>_. 0) 0" by (simp_all add: exact_env_def)
  show ?thesis using logdb_erase_removes [OF exact.fp_keys_axioms S(1) room, of 0] w0 S(2) by (auto simp: env)
qed

text \<open>
  C14. \<^verbatim>\<open>logdb::bulk_load\<close> of distinct keys that are safe for the index and absent from the database, with room
  for each record, logs every value and builds the index: the database gains exactly these pairs.
\<close>

theorem logdb_bulk_load_builds:
  assumes "fp_keys F K" and "logdb_ok (nalidb_ok F K) nalidb_map E S" and "bulk_room E (log_kv S) data"
    and "distinct (map fst data)" and "fst ` set data \<subseteq> K" and "\<forall>k\<in>fst ` set data. logdb_map nalidb_map E S k = None"
  shows "\<exists>S'. logdb_bulk_load E (nalidb_ops F) S data = Inr S' \<and> logdb_ok (nalidb_ok F K) nalidb_map E S' \<and>
    logdb_map nalidb_map E S' = logdb_map nalidb_map E S ++ map_of data"
  by (rule bulk_index.logdb_bulk_load_correct [OF fp_keys.is_bulk_index [OF assms(1)] assms(2-6)]) blast

theorem logdb_bulk_load_builds_witness:
  "\<exists>S S'. logdb_new exact_env exact_db 8 = Inr S \<and> logdb_bulk_load exact_env (nalidb_ops rat_fpu) S [(7, 70)] = Inr S' \<and>
     logdb_map nalidb_map exact_env S' = [7 \<mapsto> 70]"
proof (rule exact_logdb)
  fix S
  assume S: "logdb_new exact_env exact_db 8 = Inr S" "logdb_ok (nalidb_ok rat_fpu int_keys) nalidb_map exact_env S"
    "logdb_map nalidb_map exact_env S = Map.empty" "\<And>k. log_room exact_env S k"
  have "bulk_room exact_env (log_kv S) [(7, 70)]" using S(4) [of 7] by (auto split: sum.splits)
  from logdb_bulk_load_builds [OF exact.fp_keys_axioms S(2) this] S(1,3) show ?thesis by (auto simp: int_keys_examples)
qed

text \<open>
  C16. The cache is not invalidated: after an update of a cached key the database holds the new value,
  but \<^verbatim>\<open>logdb::search\<close> returns the old one.
\<close>

theorem logdb_stale_read:
  assumes "fp_keys F K" and "logdb_ok (nalidb_ok F K) nalidb_map E S" and "log_room E S k" and "coherent nalidb_map E S"
    and "k \<noteq> 0" and "ht_map (ht (clht_cache S)) k = Some v0" and "v0 \<noteq> 0"
  shows "\<exists>S' S''. logdb_update E (nalidb_ops F) S raw k v = Inr (True, S') \<and> logdb_map nalidb_map E S' k = Some v \<and>
    logdb_search E (nalidb_ops F) S' k = Inr (True, v0, S'')"
  by (rule tree_index.stale_after_update [OF fp_keys.is_tree_index [OF assms(1)] assms(2-7), of raw v]) blast

theorem logdb_stale_read_witness:
  "\<exists>S S' S''. logdb_map nalidb_map exact_env S 7 = Some 70 \<and>
     logdb_update exact_env (nalidb_ops rat_fpu) S 0 7 71 = Inr (True, S') \<and> logdb_map nalidb_map exact_env S' 7 = Some 71 \<and>
     logdb_search exact_env (nalidb_ops rat_fpu) S' 7 = Inr (True, 70, S'')"
proof (rule exact_logdb)
  fix S
  assume S: "logdb_ok (nalidb_ok rat_fpu int_keys) nalidb_map exact_env S" "coherent nalidb_map exact_env S"
    "logdb_map nalidb_map exact_env S = Map.empty" "\<And>k. log_room exact_env S k" "sz_allocated (ppages (log_kv S) 0 0) = 0"
  obtain S1 where ins: "logdb_insert exact_env (nalidb_ops rat_fpu) S 7 70 = Inr (False, S1)"
    "logdb_ok (nalidb_ok rat_fpu int_keys) nalidb_map exact_env S1" "logdb_map nalidb_map exact_env S1 = [7 \<mapsto> 70]"
    by (rule tree_index.logdb_insert_correct [OF exact.is_tree_index S(1) S(4) int_keys_examples(1), of 70]) (use S(3) in auto)
  have "log_room exact_env S1 7"
    by (rule logdb_insert_room [OF _ _ ins(1)])
      (use S(1,5) in \<open>simp_all add: logdb_ok_def\<close>, simp add: exact_env_def get_numa_id_def pair_size_def PPAGE_SIZE_def)
  moreover obtain c where c: "clht_ok c" "ht_map (ht c) = [7 \<mapsto> 70]" by (rule small_put)
  moreover define S2 where "S2 = S1\<lparr>clht_cache := c\<rparr>"
  ultimately have "logdb_ok (nalidb_ok rat_fpu int_keys) nalidb_map exact_env S2" "log_room exact_env S2 7"
    "coherent nalidb_map exact_env S2" "ht_map (ht (clht_cache S2)) 7 = Some 70" "logdb_map nalidb_map exact_env S2 7 = Some 70"
    using ins(2,3) by (simp_all add: logdb_ok_def coherent_def logdb_map_def)
  with logdb_stale_read [OF exact.fp_keys_axioms, of exact_env S2 7 70 0 71] show ?thesis
    by - (rule exI [of _ S2], simp)
qed

section \<open>Garbage collection\<close>

text \<open>
  C18. In every state that a new log database reaches by insertions of new, safe keys, updates, removals of
  present keys, lookups and earlier marking passes, the first pass of \<^verbatim>\<open>do_gc\<close> returns and leaves the
  database as it is: every record that the index points to keeps its contents, the operation included,
  and is not \<^verbatim>\<open>TRASH\<close>. Behind every update or removal in the visited old pages all older records are
  \<^verbatim>\<open>TRASH\<close> then, and the removals themselves.
\<close>

theorem gc_mark_keeps_database:
  assumes "fp_keys F K" and "0 < e_shards E" and "e_shards E \<le> max_shards" and "\<forall>n h. e_mapped E (n, h, 0)"
    and "n \<noteq> 0" and "e_avail E n" and "nalidb_ok F K d" and "nalidb_map d = Map.empty" and "logdb_new E d n = Inr S0"
    and "(logdb_step E (nalidb_ops F) K)\<^sup>*\<^sup>* S0 S" and "end_pos \<le> e_shards E"
  shows "\<exists>l. gc_mark (xxh3 E) (e_shards E) begin_pos end_pos (log_kv S) = Some (Inr l) \<and>
    logdb_ok (nalidb_ok F K) nalidb_map E (S\<lparr>log_kv := l\<rparr>) \<and>
    logdb_map nalidb_map E (S\<lparr>log_kv := l\<rparr>) = logdb_map nalidb_map E S \<and>
    (\<forall>k w. nalidb_map (db S) k = Some w \<longrightarrow>
       log_pair (e_shards E) l (xxh3 E k) w = log_pair (e_shards E) (log_kv S) (xxh3 E k) w \<and>
       pair_op (log_pair (e_shards E) l (xxh3 E k) w) \<noteq> op_code TRASH) \<and>
    (\<forall>n h p off. n < numa_node_num \<and> begin_pos \<le> h \<and> h < end_pos \<and> rec_at (log_kv S) h (n, p, off) \<and>
       p < cur_page (log_kv S) n h \<longrightarrow> swept (log_kv S) l h (n, p, off))"
  by (rule tree_index.gc_reachable [OF fp_keys.is_tree_index [OF assms(1)] assms(2,3) _ assms(5-11)]) (simp add: assms(4))

theorem gc_mark_keeps_database_witness:
  "\<exists>S0 S l. logdb_new exact_env exact_db 8 = Inr S0 \<and> (logdb_step exact_env (nalidb_ops rat_fpu) int_keys)\<^sup>*\<^sup>* S0 S \<and>
     gc_mark id 1 0 1 (log_kv S) = Some (Inr l) \<and> logdb_map nalidb_map exact_env (S\<lparr>log_kv := l\<rparr>) = [7 \<mapsto> 70]"
proof (rule exact_inserted)
  fix S0 S
  assume S: "logdb_new exact_env exact_db 8 = Inr S0" "(logdb_step exact_env (nalidb_ops rat_fpu) int_keys)\<^sup>*\<^sup>* S0 S"
    "logdb_map nalidb_map exact_env S = [7 \<mapsto> 70]"
  have "xxh3 exact_env = id" "e_shards exact_env = 1" by (simp_all add: exact_env_def fun_eq_iff)
  with gc_mark_keeps_database [OF exact.fp_keys_axioms _ _ _ _ _ _ _ S(1,2), of 1 0] S exact_db_ok show ?thesis
    by (auto simp: exact_env_def max_shards_def)
qed

text \<open>
  C38. No recovery gives the page objects an address: in a store that was recovered, the first insertion
  into a shard whose newest page has room writes at an offset from a null pointer.
\<close>

theorem recovered_insert_faults:
  assumes "logdb_recover E T map_file readdir threads val_size order fs d n = Inr S" and "0 < e_shards E"
    and "sz_allocated (ppages (log_kv S) (get_numa_id (global_thread_id E)) (unat (xxh3 E key) mod e_shards E)) + pair_size \<le> PPAGE_SIZE"
  shows "logdb_insert E T S key payload = Inl (LogFault NullAccess)"
  by (rule recovered_store_insert_faults [OF assms])

theorem recovered_insert_faults_witness:
  "\<exists>S. logdb_recover exact_env (nalidb_ops rat_fpu) (\<lambda>_. None) (\<lambda>_. None) 1 8 [(0, 0), (1, 0)] [] exact_db 8 = Inr S \<and>
     logdb_insert exact_env (nalidb_ops rat_fpu) S 7 70 = Inl (LogFault NullAccess)"
proof (rule LogKV_reopen_ok [of 1 "[]"])
  fix r
  assume r: "LogKV_reopen 1 [] = Inr r" "\<And>n h. n < numa_node_num \<Longrightarrow> h < 1 \<Longrightarrow> ppages r n h = fresh_ppage n h"
  have down: "pages_down (- 1) = []" using sint_page [of "- 1"] by (simp add: pages_down_def MAX_LOF_FILE_ID_def)
  have "all_files (\<lambda>_. None) = []" by (simp add: all_files_def loadfiles_def)
  then have rec: "recovery_logkv (nalidb_ops rat_fpu) (\<lambda>_. None) (\<lambda>_. None) 1 1 8 [(0, 0), (1, 0)] r exact_db = Inr (r, exact_db)"
    using r(2) [of 0 0] r(2) [of 1 0] by (simp add: recovery_logkv_def recover_shard_def fresh_ppage_def numa_node_num_def down)
  obtain c where c: "clht_create (e_avail exact_env) 8 = Some c" by (simp add: clht_create_def clht_hashtable_create_def exact_env_def Let_def)
  let ?S = "\<lparr>db = exact_db, log_kv = r, clht_cache = c, get_cnt = 0\<rparr>"
  have S: "logdb_recover exact_env (nalidb_ops rat_fpu) (\<lambda>_. None) (\<lambda>_. None) 1 8 [(0, 0), (1, 0)] [] exact_db 8 = Inr ?S"
    using r(1) rec c by (simp add: logdb_recover_def exact_env_def)
  have "logdb_insert exact_env (nalidb_ops rat_fpu) ?S 7 70 = Inl (LogFault NullAccess)"
    by (rule recovered_insert_faults [OF S])
      (use r(2) [of 0 0] in \<open>simp_all add: exact_env_def fresh_ppage_def get_numa_id_def numa_node_num_def pair_size_def PPAGE_SIZE_def\<close>)
  with S show ?thesis by blast
qed

text \<open>
  The loop body of the second pass of \<^verbatim>\<open>do_gc\<close> does not ask whether a record is the newest one of its
  key: at an older \<^verbatim>\<open>INSERT\<close> or \<^verbatim>\<open>UPDATE\<close> record it sets the key back to the value of that record. (Which
  records are left for it to visit is up to the first pass.)
\<close>

theorem gc_rewrite_reverts:
  assumes "fp_keys F K" and "logdb_ok (nalidb_ok F K) nalidb_map E S" and "log_room E S k" and "logdb_map nalidb_map E S k = Some v"
    and "load_pair (pmem (log_kv S) b) off = p" and "pair_op p = op_code INSERT \<or> pair_op p = op_code UPDATE" and "pair_key p = k"
  shows "\<exists>S'. rewrite_record E (nalidb_ops F) raw b off S = Some (Inr S') \<and>
    logdb_map nalidb_map E S' = (logdb_map nalidb_map E S)(k \<mapsto> pair_value p)"
  by (rule tree_index.rewrite_reverts [OF fp_keys.is_tree_index [OF assms(1)] assms(2-7)])

theorem gc_rewrite_reverts_witness:
  "\<exists>S b off S'. logdb_map nalidb_map exact_env S = [7 \<mapsto> 71] \<and>
     rewrite_record exact_env (nalidb_ops rat_fpu) 0 b off S = Some (Inr S') \<and> logdb_map nalidb_map exact_env S' = [7 \<mapsto> 70]"
proof (rule exact_inserted)
  fix S
  assume S: "logdb_ok (nalidb_ok rat_fpu int_keys) nalidb_map exact_env S" "gc_inv nalidb_map exact_env S"
    "logdb_map nalidb_map exact_env S = [7 \<mapsto> 70]" "page_fill exact_env S 7 = pair_size"
  have room: "log_room exact_env S 7" using S(4) by (simp add: has_room_def pair_size_def PPAGE_SIZE_def)
  have wf: "log_wf (e_shards exact_env) (log_kv S)" and ix: "indexed exact_env (log_kv S) (nalidb_map (db S))"
    using S(1) by (simp_all add: logdb_ok_def)
  obtain S2 where up: "logdb_update exact_env (nalidb_ops rat_fpu) S 0 7 71 = Inr (True, S2)"
    "logdb_ok (nalidb_ok rat_fpu int_keys) nalidb_map exact_env S2" "logdb_map nalidb_map exact_env S2 = [7 \<mapsto> 71]"
    by (rule tree_index.logdb_update_correct [OF exact.is_tree_index S(1) room, of 70 0 71]) (use S(3) in auto)
  obtain w where w: "nalidb_map (db S) 7 = Some w" using fun_cong [OF S(3), of 7] by (auto simp: logdb_map_def log_map_def)
  define p where "p = log_pair (e_shards exact_env) (log_kv S) (xxh3 exact_env 7) w"
  have p: "pair_key p = 7" "log_live (e_shards exact_env) (log_kv S) (xxh3 exact_env 7) w" "pair_value p = 70"
    "pair_op p = op_code INSERT \<or> pair_op p = op_code UPDATE"
    using ix w fun_cong [OF S(3), of 7] indexed_op [of nalidb_map, OF S(2) w] by (auto simp: indexed_def p_def logdb_map_def log_map_def)
  have "log_pair (e_shards exact_env) (log_kv S2) (xxh3 exact_env 7) w = p"
    using logdb_update_extends [OF wf room up(1)] p(2) by (simp add: log_extends_def p_def)
  then obtain b off where load: "load_pair (pmem (log_kv S2) b) off = p" by (auto simp: log_pair_def pair_at_def Let_def)
  have "page_fill exact_env S2 7 = 2 * pair_size" using logdb_update_fill [OF wf _ up(1)] S(4) by (simp add: pair_size_def PPAGE_SIZE_def)
  then have "log_room exact_env S2 7" by (simp add: has_room_def pair_size_def PPAGE_SIZE_def)
  with gc_rewrite_reverts [OF exact.fp_keys_axioms up(2) _ _ load p(4,1), of 71 0] up(3) p(3) show ?thesis by auto
qed

section \<open>Range scans\<close>

text \<open>
  \<^verbatim>\<open>logdb::range_scan_by_size\<close> over an index without empty leaves, whose last group has entries, returns;
  it yields at most as many pairs as asked for, and only pairs of the database. More does not hold: the
  scans of the leaves return pairs several times and do not start at the start key. (The assertion on
  the number of pairs in \<^verbatim>\<open>nalidb::range_scan_by_size\<close> is not compiled with \<^verbatim>\<open>NDEBUG\<close>.)
\<close>

theorem logdb_range_scan_sound:
  assumes "fp_keys F K" and "logdb_ok (nalidb_ok F K) nalidb_map E S" and "tree_filled (fst (db S)) (snd (db S))" and "unat n < 2 ^ 31"
  shows "\<exists>res. logdb_range_scan_by_size E (\<lambda>s k n. nalidb_range_scan_by_size F (unat n) s k n) S k n = Inr res \<and>
    set res \<subseteq> {(k, v). logdb_map nalidb_map E S k = Some v} \<and> length res \<le> unat n"
  by (rule range_index.logdb_range_scan_correct [OF fp_keys.is_range_index [OF assms(1)] assms(2-4)])

theorem logdb_range_scan_sound_witness:
  "\<exists>S res. logdb_map nalidb_map exact_env S = [7 \<mapsto> 70] \<and>
     logdb_range_scan_by_size exact_env (\<lambda>s k n. nalidb_range_scan_by_size rat_fpu (unat n) s k n) S 0 3 = Inr res \<and> set res \<subseteq> {(7, 70)}"
proof (rule exact_inserted)
  fix S
  assume S: "logdb_ok (nalidb_ok rat_fpu int_keys) nalidb_map exact_env S" "logdb_map nalidb_map exact_env S = [7 \<mapsto> 70]"
    "tree_filled (fst (db S)) (snd (db S))"
  have "{(k, v). [7 \<mapsto> 70] k = Some v} = {(7 :: u64, 70 :: u64)}" by (auto split: if_splits)
  with logdb_range_scan_sound [OF exact.fp_keys_axioms S(1,3), of 3 0] S(2) show ?thesis by auto
qed

end
